(* ===== verification/Gosx_Prelude.thy ===== *)
theory Gosx_Prelude
  imports Main "HOL-Library.Word" "HOL-Library.Char_ord" "HOL-Library.List_Lexorder"
    "HOL-Library.Finite_Map" "HOL-Library.Monad_Syntax"
begin

text \<open>
  What every component shares: the machine types of the Go code, the result type of a
  fallible operation, finite maps standing for Go maps whose keys are enumerated, and the
  generic lemmas on lists the component proofs use.

  A Go \<open>string\<close> is a byte string and is modelled by \<open>string\<close> (a list of 8-bit characters);
  \<open>[]byte\<close> is a list of 8-bit words; \<open>uint64\<close> and \<open>int64\<close> are 64-bit words, the latter read
  through \<open>sint\<close>. A nil slice and an empty slice are the same list. Lengths, block indices and
  counts, which cannot reach \<open>2 ^ 63\<close> in a Go process, are \<open>nat\<close> or \<open>int\<close>.
\<close>

type_synonym byte = "8 word"
type_synonym uint32 = "32 word"
type_synonym uint64 = "64 word"
type_synonym int64 = "64 word"

text \<open>The lemma collections the component theories extend.\<close>

named_theorems seq_simps
named_theorems doc_simps
named_theorems codec_simps

section \<open>Conversions between byte slices and strings\<close>

definition byte_of_char :: "char \<Rightarrow> byte" where
  "byte_of_char c = word_of_nat (of_char c)"

definition char_of_byte :: "byte \<Rightarrow> char" where
  "char_of_byte b = char_of (unat b)"

definition bytes_of_string :: "string \<Rightarrow> byte list" where
  "bytes_of_string = List.map byte_of_char"

definition string_of_bytes :: "byte list \<Rightarrow> string" where
  "string_of_bytes = List.map char_of_byte"

lemma char_of_byte_of_char [simp]: "char_of_byte (byte_of_char c) = c"
proof -
  have "of_char (char_of (of_char c :: nat)) = (of_char c :: nat) mod 256"
    by (rule of_char_of)
  then have "(of_char c :: nat) < 256"
    by (metis char_of_char mod_less_divisor zero_less_numeral)
  then show ?thesis
    by (simp add: char_of_byte_def byte_of_char_def unsigned_of_nat take_bit_nat_eq_self)
qed

lemma byte_of_char_of_byte [simp]: "byte_of_char (char_of_byte b) = b"
proof -
  have "unat b < 256" using unsigned_less [of b] by simp
  then show ?thesis
    by (simp add: char_of_byte_def byte_of_char_def)
qed

lemma string_of_bytes_of_string [simp]: "string_of_bytes (bytes_of_string s) = s"
  by (simp add: string_of_bytes_def bytes_of_string_def comp_def)

lemma bytes_of_string_of_bytes [simp]: "bytes_of_string (string_of_bytes b) = b"
  by (simp add: string_of_bytes_def bytes_of_string_def comp_def)

lemma length_bytes_of_string [simp]: "length (bytes_of_string s) = length s"
  by (simp add: bytes_of_string_def)

lemma length_string_of_bytes [simp]: "length (string_of_bytes b) = length b"
  by (simp add: string_of_bytes_def)

section \<open>Lists of lists\<close>

text \<open>A sequence kept in blocks: the document order is the concatenation of the blocks.\<close>

lemma concat_split_nth:
  "i < length xss \<Longrightarrow> concat xss = concat (take i xss) @ xss ! i @ concat (drop (Suc i) xss)"
  by (metis append.assoc concat.simps(2) concat_append id_take_nth_drop)

lemma concat_list_update:
  "i < length xss \<Longrightarrow> concat (xss[i := ys]) = concat (take i xss) @ ys @ concat (drop (Suc i) xss)"
  by (simp add: upd_conv_take_nth_drop)

lemma map_nth_list_update_distinct:
  assumes "distinct is" "i < length is"
  shows "List.map (\<lambda>a. (xs[is ! i := x]) ! a) is = (List.map (\<lambda>a. xs ! a) is)[i := (xs[is ! i := x]) ! (is ! i)]"
  using assms by (intro nth_equalityI) (auto simp: nth_list_update nth_eq_iff_index_eq)

lemma take_concat_add:
  assumes "i < length xss" "k \<le> length (xss ! i)"
  shows "take (length (concat (take i xss)) + k) (concat xss) = concat (take i xss) @ take k (xss ! i)"
    and "drop (length (concat (take i xss)) + k) (concat xss) = drop k (xss ! i) @ concat (drop (Suc i) xss)"
  using assms by (simp_all add: concat_split_nth)

section \<open>Machine integers that stand for sizes\<close>

lemma uint_word_of_size: "n < 2 ^ 64 \<Longrightarrow> uint (word_of_nat n :: uint64) = int n"
  by (simp add: unsigned_of_nat take_bit_nat_eq_self)

lemma unat_word_of_size [simp]: "n < 2 ^ 64 \<Longrightarrow> unat (word_of_nat n :: uint64) = n"
  by (simp add: unsigned_of_nat take_bit_nat_eq_self)

lemma sint_word_of_size: "n < 2 ^ 63 \<Longrightarrow> sint (word_of_nat n :: uint64) = int n"
  using uint_word_of_size [of n] by (simp add: sint_uint signed_take_bit_int_eq_self)

lemma word_of_int_size: "word_of_int (int n) = (word_of_nat n :: uint64)"
  by simp

end
