(* ===== verification/Crdt_Ids.thy ===== *)
theory Crdt_Ids
  imports Go_Strings
begin

text \<open>
  Identities of the replicated document: \<open>OpID\<close>, \<open>OpIDRun\<close>, actor and change identities of
  \<^verbatim>\<open>crdt/change.go\<close>, and the reference strings of \<^verbatim>\<open>crdt/doc.go\<close> (\<open>parseOpIDRef\<close>,
  \<open>formatOpIDRef\<close>, \<open>compressOpIDRuns\<close>, \<open>expandOpIDRuns\<close>). An operation identity is a Lamport
  pair; \<open>Less\<close> orders it by counter and then by the bytes of the actor, a linear order.
\<close>

section \<open>Operation identities\<close>

datatype opid = OpID (op_counter: uint64) (op_actor: string)

definition opid_Less :: "opid \<Rightarrow> opid \<Rightarrow> bool" where
  "opid_Less oid other =
     (if op_counter oid \<noteq> op_counter other then op_counter oid < op_counter other
      else op_actor oid < op_actor other)"

definition opid_Greater :: "opid \<Rightarrow> opid \<Rightarrow> bool" where
  "opid_Greater oid other = opid_Less other oid"

definition opid_String :: "opid \<Rightarrow> string" where
  "opid_String oid = formatUint (op_counter oid) @ ''@'' @ op_actor oid"

text \<open>The order of the library on identities is the order of the code.\<close>

instantiation opid :: linorder
begin

definition less_opid :: "opid \<Rightarrow> opid \<Rightarrow> bool" where
  "less_opid = opid_Less"

definition less_eq_opid :: "opid \<Rightarrow> opid \<Rightarrow> bool" where
  "less_eq_opid a b \<longleftrightarrow> a = b \<or> opid_Less a b"

instance
proof
  fix a b c :: opid
  show "a < b \<longleftrightarrow> a \<le> b \<and> \<not> b \<le> a"
    by (auto simp: less_opid_def less_eq_opid_def opid_Less_def split: if_splits)
  show "a \<le> a" by (simp add: less_eq_opid_def)
  show "a \<le> b \<Longrightarrow> b \<le> c \<Longrightarrow> a \<le> c"
    by (auto simp: less_eq_opid_def opid_Less_def split: if_splits)
  show "a \<le> b \<Longrightarrow> b \<le> a \<Longrightarrow> a = b"
    by (auto simp: less_eq_opid_def opid_Less_def split: if_splits)
  show "a \<le> b \<or> b \<le> a"
    by (cases a, cases b) (auto simp: less_eq_opid_def opid_Less_def)
qed

end

lemma opid_Less_iff [simp]: "opid_Less a b \<longleftrightarrow> a < b"
  by (simp add: less_opid_def)

lemma opid_Greater_iff [simp]: "opid_Greater a b \<longleftrightarrow> b < a"
  by (simp add: opid_Greater_def)

lemma opid_less_simp [simp]: "OpID c a < OpID c' a' \<longleftrightarrow> c < c' \<or> c = c' \<and> a < a'"
  unfolding less_opid_def by (auto simp: opid_Less_def simp del: opid_Less_iff)

lemma opid_String_inj: "opid_String a = opid_String b \<Longrightarrow> a = b"
proof -
  assume eq: "opid_String a = opid_String b"
  have d: "CHR ''@'' \<notin> set (formatUint v)" for v
    using format_nat_digits [of "CHR ''@''" "unat v"] by (auto simp: formatUint_def is_digit_def)
  have "formatUint (op_counter a) = formatUint (op_counter b)"
    using eq indexByte_append [OF d] by (metis (no_types, lifting) append_Cons append_eq_append_conv
      append_self_conv2 opid_String_def option.inject)
  then show ?thesis
    using eq by (cases a, cases b) (auto simp: opid_String_def dest: formatUint_inj)
qed

section \<open>References\<close>

text \<open>
  The pair \<open>(OpID, bool)\<close> of the code is an option; \<open>None\<close> is the head of the sequence.
\<close>

datatype ref_error = Malformed_ref string

definition parseOpIDRef :: "string \<Rightarrow> ref_error + opid option" where
  "parseOpIDRef ref =
     (if ref = [] then Inr None
      else case indexByte ref (CHR ''@'') of
        None \<Rightarrow> Inl (Malformed_ref ref)
      | Some i \<Rightarrow>
          if i = 0 \<or> i = length ref - 1 then Inl (Malformed_ref ref)
          else (case parseUint (take i ref) of
            None \<Rightarrow> Inl (Malformed_ref ref)
          | Some counter \<Rightarrow> Inr (Some (OpID counter (drop (Suc i) ref)))))"

definition formatOpIDRef :: "opid option \<Rightarrow> string" where
  "formatOpIDRef r = (case r of None \<Rightarrow> [] | Some oid \<Rightarrow> opid_String oid)"

lemma at_not_digit: "CHR ''@'' \<notin> set (formatUint v)"
  using format_nat_digits [of "CHR ''@''" "unat v"] by (auto simp: formatUint_def is_digit_def)

lemma parseOpIDRef_String [simp]:
  assumes "op_actor oid \<noteq> []"
  shows "parseOpIDRef (opid_String oid) = Inr (Some oid)"
proof -
  have "formatUint (op_counter oid) \<noteq> []" by (simp add: formatUint_def)
  then show ?thesis
    using assms at_not_digit [of "op_counter oid"]
    by (simp add: parseOpIDRef_def opid_String_def indexByte_append)
qed

lemma parseOpIDRef_format [simp]:
  "(\<And>oid. r = Some oid \<Longrightarrow> op_actor oid \<noteq> []) \<Longrightarrow> parseOpIDRef (formatOpIDRef r) = Inr r"
  by (cases r) (simp_all add: formatOpIDRef_def, simp add: parseOpIDRef_def)

lemma parseOpIDRef_Some_actor: "parseOpIDRef ref = Inr (Some oid) \<Longrightarrow> op_actor oid \<noteq> []"
  by (auto simp: parseOpIDRef_def dest: indexByte_Some split: if_splits option.splits)

section \<open>Runs of identities\<close>

record opid_run =
  run_actor :: string
  run_start :: uint64
  run_count :: uint64

text \<open>The loop keeps the runs so far; \<open>last := &runs[len(runs)-1]\<close> is updated in place.\<close>

fun compress_step :: "opid_run list \<Rightarrow> opid \<Rightarrow> opid_run list" where
  "compress_step runs oid =
     (if runs \<noteq> [] \<and> run_actor (last runs) = op_actor oid
         \<and> run_start (last runs) + run_count (last runs) = op_counter oid
      then butlast runs @ [(last runs)\<lparr>run_count := run_count (last runs) + 1\<rparr>]
      else runs @ [\<lparr>run_actor = op_actor oid, run_start = op_counter oid, run_count = 1\<rparr>])"

definition compressOpIDRuns :: "opid list \<Rightarrow> opid_run list" where
  "compressOpIDRuns ids = foldl compress_step [] ids"

definition expand_run :: "opid_run \<Rightarrow> opid list" where
  "expand_run r = List.map (\<lambda>i. OpID (run_start r + word_of_nat i) (run_actor r)) [0..<unat (run_count r)]"

definition expandOpIDRuns :: "opid_run list \<Rightarrow> opid list" where
  "expandOpIDRuns rs = concat (List.map expand_run rs)"

lemma expand_compress_aux:
  assumes "length (expandOpIDRuns runs) + length ids < 2 ^ 64"
  shows "expandOpIDRuns (foldl compress_step runs ids) = expandOpIDRuns runs @ ids"
  using assms
proof (induction ids arbitrary: runs)
  case (Cons oid ids)
  have step: "expandOpIDRuns (compress_step runs oid) = expandOpIDRuns runs @ [oid]"
  proof (cases "runs \<noteq> [] \<and> run_actor (last runs) = op_actor oid
         \<and> run_start (last runs) + run_count (last runs) = op_counter oid")
    case True
    then obtain rs r where runs: "runs = rs @ [r]" by (cases runs rule: rev_cases) auto
    have "length (expand_run r) \<le> length (expandOpIDRuns runs)"
      by (simp add: runs expandOpIDRuns_def)
    then have "unat (run_count r) + 1 < 2 ^ 64"
      using Cons.prems by (simp add: expand_run_def)
    then have "unat (run_count r + 1) = unat (run_count r) + 1"
      by (simp add: unat_word_ariths)
    with True show ?thesis
      by (cases oid) (auto simp: runs expandOpIDRuns_def expand_run_def)
  next
    case False
    then show ?thesis
      by (cases oid) (auto simp: expandOpIDRuns_def expand_run_def)
  qed
  then have "length (expandOpIDRuns (compress_step runs oid)) + length ids < 2 ^ 64"
    using Cons.prems by simp
  from Cons.IH [OF this] step show ?case by (simp del: compress_step.simps)
qed simp

lemma expand_compress:
  "length ids < 2 ^ 64 \<Longrightarrow> expandOpIDRuns (compressOpIDRuns ids) = ids"
  using expand_compress_aux [of "[]" ids] by (simp add: compressOpIDRuns_def expandOpIDRuns_def)

section \<open>Actor and change identities\<close>

text \<open>\<open>[16]byte\<close> and \<open>[32]byte\<close> arrays are byte lists of that length.\<close>

datatype id_error = Bad_hex | Bad_length nat

definition actor_String :: "byte list \<Rightarrow> string" where
  "actor_String a = hexEncode a"

definition hash_String :: "byte list \<Rightarrow> string" where
  "hash_String h = hexEncode h"

definition parseActorID :: "string \<Rightarrow> id_error + byte list" where
  "parseActorID s =
     (case hexDecode s of
        None \<Rightarrow> Inl Bad_hex
      | Some raw \<Rightarrow> if length raw \<noteq> 16 then Inl (Bad_length (length raw)) else Inr raw)"

definition parseChangeHash :: "string \<Rightarrow> id_error + byte list" where
  "parseChangeHash s =
     (case hexDecode s of
        None \<Rightarrow> Inl Bad_hex
      | Some raw \<Rightarrow> if length raw \<noteq> 32 then Inl (Bad_length (length raw)) else Inr raw)"

lemma parseActorID_String: "length a = 16 \<Longrightarrow> parseActorID (actor_String a) = Inr a"
  by (simp add: parseActorID_def actor_String_def)

lemma parseChangeHash_String: "length h = 32 \<Longrightarrow> parseChangeHash (hash_String h) = Inr h"
  by (simp add: parseChangeHash_def hash_String_def)

lemma actor_String_not_Nil: "length a = 16 \<Longrightarrow> actor_String a \<noteq> []"
  by (auto simp: actor_String_def simp flip: length_0_conv)

end
