(* ===== verification/Crdt_Value.thy ===== *)
theory Crdt_Value
  imports Crdt_Ids
begin

text \<open>
  The values a document stores: \<^verbatim>\<open>crdt/value.go\<close>. \<open>Value\<close> is a record with one field per Go
  field, its kind a string as in the source. A \<open>float64\<close> or \<open>float32\<close> is its IEEE bit pattern
  (the code moves floats, it never computes with them here), a \<open>time.Time\<close> is the number of
  seconds since the epoch and the nanoseconds within the second, in UTC. \<open>Clone\<close> copies the
  byte slices so that no two values share them; values are immutable here, so it is the
  identity and has no definition.
\<close>

record gtime =
  t_sec :: int64
  t_nsec :: nat

record gvalue =
  v_kind :: string
  v_bool :: bool
  v_int :: int64
  v_uint :: uint64
  v_float :: uint64
  v_str :: string
  v_bytes :: "byte list"
  v_counter :: int64
  v_time :: "gtime option"
  v_obj :: string
  v_packed :: "byte list"
  v_norm :: uint32
  v_dim :: int64
  v_bits :: int64

abbreviation KNull :: string where "KNull \<equiv> ''null''"
abbreviation KBool :: string where "KBool \<equiv> ''bool''"
abbreviation KInt :: string where "KInt \<equiv> ''int''"
abbreviation KUint :: string where "KUint \<equiv> ''uint''"
abbreviation KFloat :: string where "KFloat \<equiv> ''float''"
abbreviation KString :: string where "KString \<equiv> ''string''"
abbreviation KBytes :: string where "KBytes \<equiv> ''bytes''"
abbreviation KCounter :: string where "KCounter \<equiv> ''counter''"
abbreviation KTimestamp :: string where "KTimestamp \<equiv> ''timestamp''"
abbreviation KMap :: string where "KMap \<equiv> ''map''"
abbreviation KList :: string where "KList \<equiv> ''list''"
abbreviation KText :: string where "KText \<equiv> ''text''"
abbreviation KVector :: string where "KVector \<equiv> ''vector''"

text \<open>\<open>Value{}\<close>, the zero value, and the constructors.\<close>

definition zeroValue :: gvalue where
  "zeroValue = \<lparr>v_kind = [], v_bool = False, v_int = 0, v_uint = 0, v_float = 0, v_str = [],
     v_bytes = [], v_counter = 0, v_time = None, v_obj = [], v_packed = [], v_norm = 0,
     v_dim = 0, v_bits = 0\<rparr>"

definition nullValue :: gvalue where "nullValue = zeroValue\<lparr>v_kind := KNull\<rparr>"
definition boolValue :: "bool \<Rightarrow> gvalue" where
  "boolValue b = zeroValue\<lparr>v_kind := KBool, v_bool := b\<rparr>"
definition intValue :: "int64 \<Rightarrow> gvalue" where
  "intValue n = zeroValue\<lparr>v_kind := KInt, v_int := n\<rparr>"
definition uintValue :: "uint64 \<Rightarrow> gvalue" where
  "uintValue n = zeroValue\<lparr>v_kind := KUint, v_uint := n\<rparr>"
definition floatValue :: "uint64 \<Rightarrow> gvalue" where
  "floatValue f = zeroValue\<lparr>v_kind := KFloat, v_float := f\<rparr>"
definition stringValue :: "string \<Rightarrow> gvalue" where
  "stringValue s = zeroValue\<lparr>v_kind := KString, v_str := s\<rparr>"
definition bytesValue :: "byte list \<Rightarrow> gvalue" where
  "bytesValue b = zeroValue\<lparr>v_kind := KBytes, v_bytes := b\<rparr>"
definition counterValue :: "int64 \<Rightarrow> gvalue" where
  "counterValue n = zeroValue\<lparr>v_kind := KCounter, v_counter := n\<rparr>"
definition timestampValue :: "gtime \<Rightarrow> gvalue" where
  "timestampValue t = zeroValue\<lparr>v_kind := KTimestamp, v_time := Some t\<rparr>"
definition mapValue :: "string \<Rightarrow> gvalue" where
  "mapValue obj = zeroValue\<lparr>v_kind := KMap, v_obj := obj\<rparr>"
definition listValue :: "string \<Rightarrow> gvalue" where
  "listValue obj = zeroValue\<lparr>v_kind := KList, v_obj := obj\<rparr>"
definition textValue :: "string \<Rightarrow> gvalue" where
  "textValue obj = zeroValue\<lparr>v_kind := KText, v_obj := obj\<rparr>"

lemmas value_defs = zeroValue_def nullValue_def boolValue_def intValue_def uintValue_def
  floatValue_def stringValue_def bytesValue_def counterValue_def timestampValue_def
  mapValue_def listValue_def textValue_def

definition isObject :: "gvalue \<Rightarrow> bool" where
  "isObject v \<longleftrightarrow> v_kind v = KMap \<or> v_kind v = KList \<or> v_kind v = KText"

lemma stringValue_sel [simp]: "v_str (stringValue s) = s" "v_kind (stringValue s) = KString"
  by (simp_all add: value_defs)

end
