(* ===== verification/Fenwick.thy ===== *)
theory Fenwick
  imports Gosx_Prelude
begin

unbundle bit_operations_syntax

text \<open>
  The Fenwick tree of \<^verbatim>\<open>crdt/seq.go\<close> (type \<open>seqTree\<close>): prefix sums over the visible counts of
  the element blocks. A tree is described by the list of counts it was built from; a Go
  \<open>nodes\<close> slice is a list of integers, one-based as in the source. The section proves that
  \<open>build\<close>, \<open>add\<close>, \<open>prefixSum\<close> and \<open>search\<close> compute on the counts what their comments promise.
\<close>

section \<open>The tree and its operations\<close>

record seqTree =
  t_nodes :: "int list"
  t_n :: nat
  t_dirty :: bool

text \<open>\<open>i & -i\<close> on a non-negative \<open>int\<close>.\<close>

definition lowbit :: "nat \<Rightarrow> nat" where
  "lowbit i = nat (int i AND - int i)"

function build_loop :: "nat \<Rightarrow> nat \<Rightarrow> int list \<Rightarrow> int list" where
  "build_loop n i nodes =
     (if i \<le> n then
        let parent = i + lowbit i in
        build_loop n (Suc i)
          (if parent \<le> n then nodes[parent := nodes ! parent + nodes ! i] else nodes)
      else nodes)"
  by pat_completeness auto
termination by (relation "measure (\<lambda>(n, i, nodes). Suc n - i)") auto

definition tree_build :: "int list \<Rightarrow> seqTree" where
  "tree_build counts =
     \<lparr>t_nodes = build_loop (length counts) 1 (0 # counts), t_n = length counts, t_dirty = False\<rparr>"

definition tree_ensure :: "seqTree \<Rightarrow> int list \<Rightarrow> seqTree" where
  "tree_ensure t counts =
     (if \<not> t_dirty t \<and> t_n t = length counts then t else tree_build counts)"

text \<open>The source starts the loop at \<open>bi + 1\<close>, so \<open>i\<close> is never 0.\<close>

lemma lowbit_even: "lowbit (2 * n) = 2 * lowbit n"
proof -
  have "(- (2 * int n)) div 2 = - int n" by presburger
  then have "int (2 * n) AND - int (2 * n) = 2 * (int n AND - int n)"
    by (subst and_int_rec) simp
  then show ?thesis by (simp add: lowbit_def nat_mult_distrib)
qed

lemma lowbit_odd: "lowbit (Suc (2 * n)) = 1"
proof -
  have "(- (1 + 2 * int n)) div 2 = NOT (int n)"
    by (simp add: not_int_def)
  moreover have "int (Suc (2 * n)) div 2 = int n" by simp
  ultimately have "int (Suc (2 * n)) AND - int (Suc (2 * n)) = 1 + 2 * (int n AND NOT (int n))"
    by (subst and_int_rec) simp
  then show ?thesis by (simp add: lowbit_def)
qed

lemma lowbit_0 [simp]: "lowbit 0 = 0"
  by (simp add: lowbit_def)

lemma lowbit_pos: "0 < i \<Longrightarrow> 0 < lowbit i"
  by (induction i rule: nat_bit_induct) (simp_all add: lowbit_even lowbit_odd)

lemma lowbit_le: "lowbit i \<le> i"
  by (induction i rule: nat_bit_induct) (simp_all add: lowbit_even lowbit_odd)

function add_loop :: "nat \<Rightarrow> int \<Rightarrow> nat \<Rightarrow> int list \<Rightarrow> int list" where
  "add_loop n delta i nodes =
     (if 0 < i \<and> i \<le> n then
        add_loop n delta (i + lowbit i) (nodes[i := nodes ! i + delta])
      else nodes)"
  by pat_completeness auto
termination
  by (relation "measure (\<lambda>(n, delta, i, nodes). Suc n - i)") (auto dest: lowbit_pos)

definition tree_add :: "seqTree \<Rightarrow> nat \<Rightarrow> int \<Rightarrow> seqTree" where
  "tree_add t bi delta =
     (if delta = 0 then t
      else if t_dirty t then t
      else if bi \<ge> t_n t then t\<lparr>t_dirty := True\<rparr>
      else t\<lparr>t_nodes := add_loop (t_n t) delta (Suc bi) (t_nodes t)\<rparr>)"

function sum_loop :: "int list \<Rightarrow> nat \<Rightarrow> int \<Rightarrow> int" where
  "sum_loop nodes i acc =
     (if 0 < i then sum_loop nodes (i - lowbit i) (acc + nodes ! i) else acc)"
  by pat_completeness auto
termination
  by (relation "measure (\<lambda>(nodes, i, acc). i)") (auto simp: lowbit_pos)

definition prefixSum :: "seqTree \<Rightarrow> nat \<Rightarrow> int" where
  "prefixSum t bi = sum_loop (t_nodes t) (if bi > t_n t then t_n t else bi) 0"

text \<open>\<open>bits.Len\<close> of the standard library.\<close>

fun bitsLen :: "nat \<Rightarrow> nat" where
  "bitsLen x = (if x = 0 then 0 else Suc (bitsLen (x div 2)))"

fun search_loop :: "nat \<Rightarrow> int list \<Rightarrow> nat \<Rightarrow> nat \<Rightarrow> int \<Rightarrow> nat \<times> int" where
  "search_loop n nodes bt pos remaining =
     (if 0 < bt then
        let next = pos + bt in
        if next \<le> n \<and> nodes ! next \<le> remaining
        then search_loop n nodes (bt div 2) next (remaining - nodes ! next)
        else search_loop n nodes (bt div 2) pos remaining
      else (pos, remaining))"

definition tree_search :: "seqTree \<Rightarrow> int \<Rightarrow> nat \<times> int" where
  "tree_search t index =
     (if t_n t = 0 then (0, index)
      else search_loop (t_n t) (t_nodes t) (2 ^ (bitsLen (t_n t) - 1)) 0 index)"

declare build_loop.simps [simp del] add_loop.simps [simp del] sum_loop.simps [simp del]
  bitsLen.simps [simp del] search_loop.simps [simp del]

section \<open>Which blocks a node covers\<close>

definition covers :: "nat \<Rightarrow> nat \<Rightarrow> bool" where
  "covers j p \<longleftrightarrow> j - lowbit j \<le> p \<and> p < j"

lemma lowbit_parent: "0 < i \<Longrightarrow> 2 * lowbit i \<le> lowbit (i + lowbit i)"
proof (induction i rule: nat_bit_induct)
  case (even n)
  then show ?case using lowbit_even [of "n + lowbit n"] by (simp add: lowbit_even)
next
  case (odd n)
  then show ?case using lowbit_even [of "Suc n"] lowbit_pos [of "Suc n"] by (simp add: lowbit_odd)
qed simp

lemma covers_parent: "covers i p \<Longrightarrow> covers (i + lowbit i) p"
  using lowbit_parent [of i] lowbit_le [of i] by (auto simp: covers_def)

lemma lowbit_between: "i < j \<Longrightarrow> j < i + lowbit i \<Longrightarrow> i \<le> j - lowbit j"
proof (induction i arbitrary: j rule: nat_bit_induct)
  case (even n)
  show ?case
  proof (cases "even j")
    case True
    then obtain m where j: "j = 2 * m" by (elim evenE)
    with even have "n \<le> m - lowbit m" by (simp add: lowbit_even)
    then show ?thesis using j by (simp add: lowbit_even) 
  next
    case False
    then obtain m where "j = Suc (2 * m)" by (elim oddE) simp
    with even show ?thesis by (simp add: lowbit_odd)
  qed
next
  case (odd n)
  then show ?case by (simp add: lowbit_odd)
qed simp

lemma covers_chain:
  assumes "covers i p" "covers j p" "i < j"
  shows "i + lowbit i \<le> j"
  using lowbit_between [of i j] assms by (force simp: covers_def)

lemma covers_self: "covers (Suc p) p"
  using lowbit_pos [of "Suc p"] by (simp add: covers_def)

lemma covers_child:
  "covers j p \<Longrightarrow> Suc p \<noteq> j \<Longrightarrow> \<exists>i. i + lowbit i = j \<and> covers i p"
proof (induction j arbitrary: p rule: nat_bit_induct)
  case zero
  then show ?case by (simp add: covers_def)
next
  case (even n)
  define q where "q = p div 2"
  have q: "covers n q"
    using even.prems lowbit_le [of n] by (auto simp: covers_def lowbit_even q_def)
  show ?case
  proof (cases "Suc q = n")
    case True
    then have "p = 2 * q"
      using even.prems by (auto simp: covers_def lowbit_even q_def)
    then show ?thesis
      using True by (intro exI [of _ "Suc (2 * q)"]) (auto simp: covers_def lowbit_odd)
  next
    case False
    then obtain i where "i + lowbit i = n" "covers i q" using even.IH [OF q] by blast
    then show ?thesis
      by (intro exI [of _ "2 * i"]) (auto simp: covers_def lowbit_even q_def)
  qed
next
  case (odd n)
  then show ?case by (auto simp: covers_def lowbit_odd)
qed

section \<open>Correctness of the tree\<close>

definition prefix_of :: "int list \<Rightarrow> nat \<Rightarrow> int" where
  "prefix_of cs k = (\<Sum>p = 0..<k. cs ! p)"

definition node_sum :: "int list \<Rightarrow> nat \<Rightarrow> int" where
  "node_sum cs j = (\<Sum>p = j - lowbit j..<j. cs ! p)"

text \<open>A clean tree stands for the counts \<open>cs\<close>; a dirty one stands for any.\<close>

definition nodes_ok :: "int list \<Rightarrow> int list \<Rightarrow> bool" where
  "nodes_ok nodes cs \<longleftrightarrow> length nodes = Suc (length cs) \<and>
     (\<forall>j. 0 < j \<and> j \<le> length cs \<longrightarrow> nodes ! j = node_sum cs j)"

definition tree_ok :: "seqTree \<Rightarrow> int list \<Rightarrow> bool" where
  "tree_ok t cs \<longleftrightarrow> t_n t = length cs \<and> nodes_ok (t_nodes t) cs"

lemma prefix_of_node:
  assumes "0 < j"
  shows "prefix_of cs j = prefix_of cs (j - lowbit j) + node_sum cs j"
  unfolding prefix_of_def node_sum_def
  by (rule sum.atLeastLessThan_concat [symmetric]) (simp_all add: lowbit_le)

subsection \<open>prefixSum\<close>

lemma sum_loop_ok:
  assumes "nodes_ok nodes cs"
  shows "i \<le> length cs \<Longrightarrow> sum_loop nodes i acc = acc + prefix_of cs i"
proof (induction i arbitrary: acc rule: less_induct)
  case (less i)
  show ?case
  proof (cases "i = 0")
    case True
    then show ?thesis by (subst sum_loop.simps) (simp add: prefix_of_def)
  next
    case False
    then have "sum_loop nodes (i - lowbit i) (acc + nodes ! i)
               = acc + nodes ! i + prefix_of cs (i - lowbit i)"
      using less.prems lowbit_pos [of i] by (intro less.IH) auto
    then show ?thesis
      using False less.prems assms prefix_of_node [of i cs]
      by (subst sum_loop.simps) (simp add: nodes_ok_def)
  qed
qed

lemma prefixSum_ok:
  "tree_ok t cs \<Longrightarrow> bi \<le> length cs \<Longrightarrow> prefixSum t bi = prefix_of cs bi"
  using sum_loop_ok [of "t_nodes t" cs bi 0] by (simp add: prefixSum_def tree_ok_def)

subsection \<open>add\<close>

lemma length_add_loop [simp]: "length (add_loop n delta i nodes) = length nodes"
  by (induction n delta i nodes rule: add_loop.induct) (subst add_loop.simps, simp)

lemma add_loop_nth:
  assumes "covers i p" and "length nodes = Suc n" and "0 < j" "j \<le> n"
  shows "add_loop n delta i nodes ! j
         = nodes ! j + (if i \<le> j \<and> covers j p then delta else 0)"
  using assms
proof (induction n delta i nodes rule: add_loop.induct)
  case (1 n delta i nodes)
  show ?case
  proof (cases "i \<le> n")
    case True
    have i: "0 < i" using "1.prems"(1) by (simp add: covers_def)
    have IH: "add_loop n delta (i + lowbit i) (nodes[i := nodes ! i + delta]) ! j
      = nodes[i := nodes ! i + delta] ! j + (if i + lowbit i \<le> j \<and> covers j p then delta else 0)"
      using "1.IH" True i "1.prems" by (simp add: covers_parent)
    have "i + lowbit i \<le> j \<or> j = i" if "i \<le> j" "covers j p"
      using covers_chain [OF "1.prems"(1) that(2)] that(1) by linarith
    then show ?thesis
      using IH True i "1.prems" lowbit_pos [OF i]
      by (subst add_loop.simps) (auto simp: nth_list_update)
  next
    case False
    then show ?thesis using "1.prems" by (subst add_loop.simps) simp
  qed
qed

lemma node_sum_update:
  assumes "bi < length cs" "j \<le> length cs"
  shows "node_sum (cs[bi := cs ! bi + delta]) j
         = node_sum cs j + (if covers j bi then delta else 0)"
proof -
  have "node_sum (cs[bi := cs ! bi + delta]) j
        = (\<Sum>p = j - lowbit j..<j. cs ! p + (if p = bi then delta else 0))"
    unfolding node_sum_def using assms by (intro sum.cong) (auto simp: nth_list_update)
  also have "\<dots> = node_sum cs j + (\<Sum>p = j - lowbit j..<j. if p = bi then delta else 0)"
    by (simp add: node_sum_def sum.distrib)
  also have "(\<Sum>p = j - lowbit j..<j. if p = bi then delta else 0) = (if covers j bi then delta else 0)"
    by (simp add: covers_def)
  finally show ?thesis .
qed

lemma covers_Suc_le: "covers j p \<Longrightarrow> Suc p \<le> j"
  by (simp add: covers_def)

lemma nodes_ok_add:
  assumes "nodes_ok nodes cs" "bi < length cs"
  shows "nodes_ok (add_loop (length cs) delta (Suc bi) nodes) (cs[bi := cs ! bi + delta])"
  using assms add_loop_nth [OF covers_self, of nodes "length cs" _ delta bi]
  by (auto simp: nodes_ok_def node_sum_update dest: covers_Suc_le)

lemma tree_add_ok:
  assumes "t_dirty t \<or> tree_ok t cs" "bi < length cs"
  shows "t_dirty (tree_add t bi delta) \<or> tree_ok (tree_add t bi delta) (cs[bi := cs ! bi + delta])"
  using assms by (auto simp: tree_add_def tree_ok_def nodes_ok_add)

subsection \<open>build\<close>

text \<open>
  What node \<open>j\<close> holds after the loop has pushed the nodes up to \<open>m\<close> to their parents: its own
  block and the ranges of those of its children that have been reached.
\<close>

definition built :: "nat \<Rightarrow> nat \<Rightarrow> nat set" where
  "built m j = {p. covers j p \<and> (Suc p = j \<or> (\<exists>i \<le> m. i + lowbit i = j \<and> covers i p))}"

lemma finite_built [simp]: "finite (built m j)"
  by (rule finite_subset [of _ "{..<j}"]) (auto simp: built_def covers_def)

lemma built_0: "0 < j \<Longrightarrow> built 0 j = {j - 1}"
  using covers_self [of "j - 1"] by (auto simp: built_def covers_def)

lemma built_full:
  assumes "0 < j" "j \<le> Suc m"
  shows "built m j = {p. covers j p}"
proof -
  have "\<exists>i \<le> m. i + lowbit i = j \<and> covers i p" if p: "covers j p" "Suc p \<noteq> j" for p
  proof -
    obtain i where i: "i + lowbit i = j" "covers i p" using covers_child [OF p] by blast
    then have "0 < lowbit i" by (simp add: covers_def lowbit_pos)
    with i assms show ?thesis by (intro exI [of _ i]) simp
  qed
  then show ?thesis by (auto simp: built_def)
qed

lemma covers_interval: "{p. covers j p} = {j - lowbit j..<j}"
  by (auto simp: covers_def)

lemma built_Suc:
  "built (Suc m) j = built m j \<union> (if Suc m + lowbit (Suc m) = j then {p. covers (Suc m) p} else {})"
  using covers_parent [of "Suc m"] by (auto simp: built_def le_Suc_eq)

lemma built_disjoint:
  assumes "Suc m + lowbit (Suc m) = j"
  shows "built m j \<inter> {p. covers (Suc m) p} = {}"
proof -
  have False if "i \<le> m" "i + lowbit i = j" "covers i p" "covers (Suc m) p" for i p
    using covers_chain [OF that(3,4)] that assms lowbit_pos [of "Suc m"] by simp
  moreover have False if "Suc p = j" "covers (Suc m) p" for p
    using that assms lowbit_pos [of "Suc m"] by (simp add: covers_def)
  ultimately show ?thesis by (auto simp: built_def)
qed

definition built_ok :: "int list \<Rightarrow> nat \<Rightarrow> int list \<Rightarrow> bool" where
  "built_ok cs m nodes \<longleftrightarrow> length nodes = Suc (length cs) \<and>
     (\<forall>j. 0 < j \<and> j \<le> length cs \<longrightarrow> nodes ! j = (\<Sum>p \<in> built m j. cs ! p))"

lemma built_ok_step:
  assumes ok: "built_ok cs m nodes" and m: "Suc m \<le> length cs"
  shows "built_ok cs (Suc m)
    (let parent = Suc m + lowbit (Suc m) in
     if parent \<le> length cs then nodes[parent := nodes ! parent + nodes ! Suc m] else nodes)"
proof -
  define q where "q = Suc m + lowbit (Suc m)"
  have own: "nodes ! Suc m = (\<Sum>p \<in> {p. covers (Suc m) p}. cs ! p)"
    using ok m built_full [of "Suc m" m] by (simp add: built_ok_def)
  have "(\<Sum>p \<in> built (Suc m) j. cs ! p)
        = (\<Sum>p \<in> built m j. cs ! p) + (if q = j then nodes ! Suc m else 0)" for j
  proof (cases "q = j")
    case True
    then have "built m j \<inter> {p. covers (Suc m) p} = {}"
      by (simp add: q_def built_disjoint)
    then have "(\<Sum>p \<in> built m j \<union> {p. covers (Suc m) p}. cs ! p)
      = (\<Sum>p \<in> built m j. cs ! p) + (\<Sum>p \<in> {p. covers (Suc m) p}. cs ! p)"
      by (intro sum.union_disjoint) (simp_all add: covers_interval)
    with True show ?thesis by (simp only: own built_Suc q_def if_True simp_thms)
  qed (simp add: built_Suc q_def)
  then show ?thesis
    using ok by (auto simp: built_ok_def q_def Let_def nth_list_update)
qed

lemma build_loop_ok:
  assumes "built_ok cs m nodes" "m \<le> length cs"
  shows "built_ok cs (length cs) (build_loop (length cs) (Suc m) nodes)"
  using assms
proof (induction "length cs - m" arbitrary: m nodes)
  case 0
  then show ?case by (subst build_loop.simps) simp
next
  case (Suc k)
  then have m: "Suc m \<le> length cs" by simp
  show ?case
    using Suc.hyps(1) [OF _ built_ok_step [OF Suc.prems(1) m] m] Suc.hyps(2) m
    by (subst build_loop.simps) (simp add: Let_def)
qed

lemma tree_build_ok: "tree_ok (tree_build cs) cs"
proof -
  have "built_ok cs 0 (0 # cs)"
    by (auto simp: built_ok_def built_0 nth_Cons')
  from build_loop_ok [OF this] show ?thesis
    using built_full [of _ "length cs"]
    by (auto simp: tree_ok_def nodes_ok_def built_ok_def tree_build_def node_sum_def
        covers_interval)
qed

lemma tree_ensure_ok:
  assumes "t_dirty t \<or> tree_ok t cs"
  shows "tree_ok (tree_ensure t cs) cs" and "\<not> t_dirty (tree_ensure t cs)"
  using assms tree_build_ok by (auto simp: tree_ensure_def tree_build_def)

subsection \<open>search\<close>

lemma lowbit_mult_pow: "lowbit (2 ^ k * x) = 2 ^ k * lowbit x"
  by (induction k) (simp_all add: lowbit_even mult.assoc)

lemma lowbit_dvd_add:
  assumes "2 ^ Suc k dvd pos"
  shows "lowbit (pos + 2 ^ k) = 2 ^ k"
proof -
  from assms obtain m where "pos = 2 ^ Suc k * m" by (elim dvdE)
  then have "pos + 2 ^ k = 2 ^ k * Suc (2 * m)" by (simp add: algebra_simps)
  then show ?thesis by (simp only: lowbit_mult_pow lowbit_odd mult_1_right)
qed

lemma less_pow_bitsLen: "x < 2 ^ bitsLen x"
proof (induction x rule: bitsLen.induct)
  case (1 x)
  then show ?case by (subst bitsLen.simps) auto
qed

lemma search_loop_ok:
  assumes ok: "nodes_ok nodes cs"
  shows "\<lbrakk>2 ^ Suc k dvd pos; pos \<le> length cs; prefix_of cs pos \<le> index;
      pos + 2 ^ Suc k > length cs \<or> prefix_of cs (pos + 2 ^ Suc k) > index\<rbrakk> \<Longrightarrow>
    \<exists>bi. search_loop (length cs) nodes (2 ^ k) pos (index - prefix_of cs pos)
          = (bi, index - prefix_of cs bi) \<and>
      bi \<le> length cs \<and> prefix_of cs bi \<le> index \<and>
      (bi = length cs \<or> prefix_of cs (Suc bi) > index)"
proof (induction k arbitrary: pos)
  case 0
  have lb: "lowbit (Suc pos) = 1" using lowbit_dvd_add [OF 0(1)] by simp
  have nd: "nodes ! Suc pos = prefix_of cs (Suc pos) - prefix_of cs pos" if "Suc pos \<le> length cs"
    using ok that prefix_of_node [of "Suc pos" cs] lb by (simp add: nodes_ok_def)
  show ?case
    using 0 nd
    by (subst search_loop.simps, subst (1 2) search_loop.simps) (auto simp: Let_def)
next
  case (Suc k)
  define b where "b = (2::nat) ^ Suc k"
  have lb: "lowbit (pos + b) = b" unfolding b_def by (rule lowbit_dvd_add [OF Suc.prems(1)])
  have nd: "nodes ! (pos + b) = prefix_of cs (pos + b) - prefix_of cs pos"
    if "pos + b \<le> length cs"
    using ok that prefix_of_node [of "pos + b" cs] lb by (simp add: nodes_ok_def b_def)
  have dvd: "2 ^ Suc k dvd pos" "2 ^ Suc k dvd pos + b"
    using Suc.prems(1) by (auto simp: b_def intro: dvd_trans [of _ "2 ^ Suc (Suc k)"])
  have half: "b div 2 = 2 ^ k" and pos_b: "0 < b" by (simp_all add: b_def)
  have top: "pos + b + b > length cs \<or> prefix_of cs (pos + b + b) > index"
    using Suc.prems(4) by (simp add: b_def mult_2 add.assoc)
  show ?case
  proof (cases "pos + b \<le> length cs \<and> nodes ! (pos + b) \<le> index - prefix_of cs pos")
    case True
    then have "prefix_of cs (pos + b) \<le> index" using nd by simp
    with True have "\<exists>bi. search_loop (length cs) nodes (2 ^ k) (pos + b) (index - prefix_of cs (pos + b))
          = (bi, index - prefix_of cs bi) \<and>
      bi \<le> length cs \<and> prefix_of cs bi \<le> index \<and>
      (bi = length cs \<or> prefix_of cs (Suc bi) > index)"
      using Suc.IH [OF dvd(2)] top by (simp add: b_def)
    then show ?thesis
      unfolding b_def [symmetric]
      using True nd pos_b by (subst search_loop.simps) (simp add: half Let_def)
  next
    case False
    then have "pos + b > length cs \<or> prefix_of cs (pos + b) > index" using nd by auto
    then have "\<exists>bi. search_loop (length cs) nodes (2 ^ k) pos (index - prefix_of cs pos)
          = (bi, index - prefix_of cs bi) \<and>
      bi \<le> length cs \<and> prefix_of cs bi \<le> index \<and>
      (bi = length cs \<or> prefix_of cs (Suc bi) > index)"
      using Suc.IH [OF dvd(1) Suc.prems(2,3)] by (simp add: b_def)
    then show ?thesis
      unfolding b_def [symmetric]
      using False pos_b by (subst search_loop.simps) (auto simp: half Let_def)
  qed
qed

lemma tree_search_ok:
  assumes ok: "tree_ok t cs" and idx: "0 \<le> index" "index < prefix_of cs (length cs)"
  obtains bi where "tree_search t index = (bi, index - prefix_of cs bi)"
    and "bi < length cs" and "prefix_of cs bi \<le> index" and "index < prefix_of cs (Suc bi)"
proof -
  have n: "t_n t = length cs" and nd: "nodes_ok (t_nodes t) cs"
    using ok by (simp_all add: tree_ok_def)
  have "cs \<noteq> []" using idx by (auto simp: prefix_of_def)
  then obtain k where k: "bitsLen (length cs) = Suc k"
    by (subst (asm) length_greater_0_conv [symmetric]) (subst (asm) bitsLen.simps, simp)
  have 0: "prefix_of cs 0 = 0" by (simp add: prefix_of_def)
  obtain bi where "search_loop (length cs) (t_nodes t) (2 ^ k) 0 (index - prefix_of cs 0)
      = (bi, index - prefix_of cs bi)" "bi \<le> length cs" "prefix_of cs bi \<le> index"
      "bi = length cs \<or> prefix_of cs (Suc bi) > index"
    using search_loop_ok [OF nd, of k 0 index] idx less_pow_bitsLen [of "length cs"] k 0 by auto
  moreover from this idx have "bi \<noteq> length cs" by auto
  ultimately show ?thesis
    using that [of bi] \<open>cs \<noteq> []\<close> k 0 by (auto simp: tree_search_def n)
qed

end
