(* ===== verification/Crdt_Seq.thy ===== *)
theory Crdt_Seq
  imports Crdt_Value Fenwick
begin

text \<open>
  The element index of \<^verbatim>\<open>crdt/seq.go\<close> (type \<open>seq\<close>). Elements live in document order in blocks
  of bounded size. The Go code reaches a block by pointer from two places, the slice
  \<open>blocks\<close> and the hash map \<open>byID\<close>; here the blocks live in a store and a pointer is an index
  into it, so the two paths alias as they do in the source. A store cell is never reused.

  The definitions follow the code operation by operation. The abstraction \<open>elems\<close> is the
  list of elements in document order.
\<close>

section \<open>State\<close>

record listElem =
  e_id :: opid
  e_after :: string
  e_value :: gvalue
  e_deleted :: bool
  e_vis :: opid

record seqBlock =
  b_elems :: "listElem list"
  b_visible :: int
  b_pos :: nat

record elemSeq =
  s_store :: "seqBlock list"
  s_blocks :: "nat list"
  s_byID :: "opid \<rightharpoonup> nat"
  s_total :: int
  s_vis :: int
  s_tree :: seqTree

definition seqBlockTarget :: nat where "seqBlockTarget = 128"
definition seqBlockMax :: nat where "seqBlockMax = 256"

text \<open>\<open>s.blocks[bi]\<close>, and the visible counts the tree is built from.\<close>

definition blk :: "elemSeq \<Rightarrow> nat \<Rightarrow> seqBlock" where
  "blk s bi = s_store s ! (s_blocks s ! bi)"

definition block_counts :: "elemSeq \<Rightarrow> int list" where
  "block_counts s = List.map (\<lambda>a. b_visible (s_store s ! a)) (s_blocks s)"

definition count_visible :: "listElem list \<Rightarrow> int" where
  "count_visible es = foldl (\<lambda>n e. if \<not> e_deleted e then n + 1 else n) 0 es"

section \<open>Construction\<close>

definition newSeq :: elemSeq where
  "newSeq = \<lparr>s_store = [\<lparr>b_elems = [], b_visible = 0, b_pos = 0\<rparr>], s_blocks = [0],
     s_byID = Map.empty, s_total = 0, s_vis = 0, s_tree = tree_build [0]\<rparr>"

definition index_ids :: "(opid \<rightharpoonup> nat) \<Rightarrow> listElem list \<Rightarrow> nat \<Rightarrow> (opid \<rightharpoonup> nat)" where
  "index_ids m es a = foldl (\<lambda>m e. m(e_id e \<mapsto> a)) m es"

function reset_loop :: "elemSeq \<Rightarrow> listElem list \<Rightarrow> elemSeq" where
  "reset_loop s es =
     (if es = [] then s
      else
        let chunk = take seqBlockTarget es;
            a = length (s_store s);
            block = \<lparr>b_elems = chunk, b_visible = count_visible chunk, b_pos = length (s_blocks s)\<rparr>
        in reset_loop
             (s\<lparr>s_store := s_store s @ [block],
                s_blocks := s_blocks s @ [a],
                s_byID := index_ids (s_byID s) chunk a,
                s_total := s_total s + int (length chunk),
                s_vis := s_vis s + b_visible block\<rparr>)
             (drop seqBlockTarget es))"
  by pat_completeness auto
termination
  by (relation "measure (\<lambda>(s, es). length es)") (auto simp: seqBlockTarget_def)

declare reset_loop.simps [simp del]

text \<open>\<open>reset\<close> drops the old blocks; nothing points to them afterwards.\<close>

definition seq_reset :: "elemSeq \<Rightarrow> listElem list \<Rightarrow> elemSeq" where
  "seq_reset s es =
     (let s0 = s\<lparr>s_store := [], s_blocks := [], s_byID := Map.empty, s_total := 0, s_vis := 0,
                 s_tree := (s_tree s)\<lparr>t_dirty := True\<rparr>\<rparr>;
          s1 = reset_loop s0 es
      in if s_blocks s1 = []
         then s1\<lparr>s_store := s_store s1 @ [\<lparr>b_elems = [], b_visible = 0, b_pos = 0\<rparr>],
                 s_blocks := [length (s_store s1)]\<rparr>
         else s1)"

section \<open>Lookups\<close>

definition seq_length :: "elemSeq \<Rightarrow> int" where
  "seq_length s = s_total s"

definition visibleLength :: "elemSeq \<Rightarrow> int" where
  "visibleLength s = s_vis s"

fun find_off :: "opid \<Rightarrow> listElem list \<Rightarrow> nat option" where
  "find_off oid [] = None"
| "find_off oid (e # es) = (if e_id e = oid then Some 0 else map_option Suc (find_off oid es))"

text \<open>The address of the block and the offset inside it.\<close>

definition locate :: "elemSeq \<Rightarrow> opid \<Rightarrow> (nat \<times> nat) option" where
  "locate s oid =
     (case s_byID s oid of
        None \<Rightarrow> None
      | Some a \<Rightarrow> map_option (\<lambda>off. (a, off)) (find_off oid (b_elems (s_store s ! a))))"

definition seq_contains :: "elemSeq \<Rightarrow> opid \<Rightarrow> bool" where
  "seq_contains s oid \<longleftrightarrow> locate s oid \<noteq> None"

definition elemByID :: "elemSeq \<Rightarrow> opid \<Rightarrow> listElem option" where
  "elemByID s oid = map_option (\<lambda>(a, off). b_elems (s_store s ! a) ! off) (locate s oid)"

text \<open>
  A query makes the tree current first (\<open>s.tree.ensure\<close>), which writes to the index.
\<close>

definition ensure_tree :: "elemSeq \<Rightarrow> elemSeq" where
  "ensure_tree s = s\<lparr>s_tree := tree_ensure (s_tree s) (block_counts s)\<rparr>"

definition visibleIndexOf :: "elemSeq \<Rightarrow> opid \<Rightarrow> int \<times> elemSeq" where
  "visibleIndexOf s oid =
     (case locate s oid of
        None \<Rightarrow> (s_vis s, s)
      | Some (a, off) \<Rightarrow>
          let block = s_store s ! a in
          if e_deleted (b_elems block ! off) then (s_vis s, s)
          else
            let s' = ensure_tree s in
            (prefixSum (s_tree s') (b_pos block) + count_visible (take off (b_elems block)), s'))"

fun scan_visible :: "listElem list \<Rightarrow> nat \<Rightarrow> int \<Rightarrow> nat option" where
  "scan_visible [] i remaining = None"
| "scan_visible (e # es) i remaining =
     (if e_deleted e then scan_visible es (Suc i) remaining
      else if remaining = 0 then Some i
      else scan_visible es (Suc i) (remaining - 1))"

definition blockAtVisible :: "elemSeq \<Rightarrow> int \<Rightarrow> (nat \<times> nat) option \<times> elemSeq" where
  "blockAtVisible s index =
     (let s' = ensure_tree s;
          (bi, remaining) = tree_search (s_tree s') index
      in if bi \<ge> length (s_blocks s') then (None, s')
         else (map_option (\<lambda>i. (s_blocks s' ! bi, i)) (scan_visible (b_elems (blk s' bi)) 0 remaining), s'))"

definition visibleAt :: "elemSeq \<Rightarrow> int \<Rightarrow> listElem option \<times> elemSeq" where
  "visibleAt s index =
     (if index < 0 \<or> index \<ge> s_vis s then (None, s)
      else
        let (r, s') = blockAtVisible s index in
        (map_option (\<lambda>(a, off). b_elems (s_store s' ! a) ! off) r, s'))"

definition visibleIDAt :: "elemSeq \<Rightarrow> int \<Rightarrow> opid option \<times> elemSeq" where
  "visibleIDAt s index = (let (r, s') = visibleAt s index in (map_option e_id r, s'))"

text \<open>\<open>collectVisibleRange\<close>: the inner loop over one block, then the loop over the blocks.\<close>

fun collect_block :: "listElem list \<Rightarrow> int \<Rightarrow> opid list \<Rightarrow> int \<times> opid list" where
  "collect_block [] count out = (count, out)"
| "collect_block (e # es) count out =
     (if count \<le> 0 then (count, out)
      else if e_deleted e then collect_block es count out
      else collect_block es (count - 1) (out @ [e_id e]))"

datatype seq_error = Err_visible_range

function collect_loop :: "elemSeq \<Rightarrow> nat \<Rightarrow> nat \<Rightarrow> int \<Rightarrow> opid list \<Rightarrow> seq_error + opid list" where
  "collect_loop s bi off count out =
     (if count \<le> 0 then Inr out
      else
        let (count', out') = collect_block (drop off (b_elems (blk s bi))) count out in
        if count' = 0 then Inr out'
        else if Suc bi \<ge> length (s_blocks s) then Inl Err_visible_range
        else collect_loop s (Suc bi) 0 count' out')"
  by pat_completeness auto
termination
  by (relation "measure (\<lambda>(s, bi, off, count, out). length (s_blocks s) - bi)") auto

declare collect_loop.simps [simp del]

definition collectVisibleRange ::
  "elemSeq \<Rightarrow> int \<Rightarrow> int \<Rightarrow> opid list \<Rightarrow> (seq_error + opid list) \<times> elemSeq" where
  "collectVisibleRange s index count out =
     (if count \<le> 0 then (Inr out, s)
      else if index < 0 \<or> index + count > s_vis s then (Inl Err_visible_range, s)
      else
        let (r, s') = blockAtVisible s index in
        case r of
          None \<Rightarrow> (Inl Err_visible_range, s')
        | Some (a, off) \<Rightarrow> (collect_loop s' (b_pos (s_store s' ! a)) off count out, s'))"

section \<open>Updates\<close>

definition seq_split :: "elemSeq \<Rightarrow> nat \<Rightarrow> elemSeq" where
  "seq_split s bi =
     (let a = s_blocks s ! bi;
          block = s_store s ! a;
          cut = length (b_elems block) div 2;
          moved = drop cut (b_elems block);
          a' = length (s_store s);
          next = \<lparr>b_elems = moved, b_visible = count_visible moved, b_pos = 0\<rparr>;
          block' = block\<lparr>b_elems := take cut (b_elems block),
                         b_visible := b_visible block - b_visible next\<rparr>;
          store1 = (s_store s)[a := block'] @ [next];
          blocks1 = take (Suc bi) (s_blocks s) @ a' # drop (Suc bi) (s_blocks s);
          store2 = foldl (\<lambda>st i. st[blocks1 ! i := (st ! (blocks1 ! i))\<lparr>b_pos := i\<rparr>])
                     store1 [Suc bi..<length blocks1]
      in s\<lparr>s_store := store2, s_blocks := blocks1, s_byID := index_ids (s_byID s) moved a',
           s_tree := (s_tree s)\<lparr>t_dirty := True\<rparr>\<rparr>)"

definition insertAt :: "elemSeq \<Rightarrow> nat \<Rightarrow> nat \<Rightarrow> listElem \<Rightarrow> elemSeq" where
  "insertAt s bi off elem =
     (let a = s_blocks s ! bi;
          block = s_store s ! a;
          es = (if off \<ge> length (b_elems block) then b_elems block @ [elem]
                else take off (b_elems block) @ elem # drop off (b_elems block));
          block1 = block\<lparr>b_elems := es\<rparr>;
          block2 = (if \<not> e_deleted elem then block1\<lparr>b_visible := b_visible block1 + 1\<rparr> else block1);
          s1 = s\<lparr>s_store := (s_store s)[a := block2],
                 s_vis := (if \<not> e_deleted elem then s_vis s + 1 else s_vis s),
                 s_tree := (if \<not> e_deleted elem then tree_add (s_tree s) bi 1 else s_tree s),
                 s_total := s_total s + 1,
                 s_byID := (s_byID s)(e_id elem \<mapsto> a)\<rparr>
      in if length es \<ge> seqBlockMax then seq_split s1 bi else s1)"

text \<open>The loop of \<open>insertAfter\<close> that steps over larger identities, across block boundaries.\<close>

function skip_greater :: "elemSeq \<Rightarrow> nat \<Rightarrow> nat \<Rightarrow> listElem \<Rightarrow> nat \<times> nat" where
  "skip_greater s bi off elem =
     (if off \<ge> length (b_elems (blk s bi)) then
        if Suc bi \<ge> length (s_blocks s) then (bi, off)
        else skip_greater s (Suc bi) 0 elem
      else if opid_Greater (e_id (b_elems (blk s bi) ! off)) (e_id elem)
        then skip_greater s bi (Suc off) elem
      else (bi, off))"
  by pat_completeness auto
termination
  by (relation "measures [\<lambda>(s, bi, off, elem). length (s_blocks s) - bi,
        \<lambda>(s, bi, off, elem). length (b_elems (blk s bi)) - off]") auto

declare skip_greater.simps [simp del]

definition insertAfter :: "elemSeq \<Rightarrow> opid option \<Rightarrow> listElem \<Rightarrow> elemSeq" where
  "insertAfter s after elem =
     (let (bi, off) =
        (case after of
           None \<Rightarrow> (0, 0)
         | Some r \<Rightarrow>
             (case locate s r of
                Some (a, o') \<Rightarrow> (b_pos (s_store s ! a), Suc o')
              | None \<Rightarrow> (length (s_blocks s) - 1,
                         length (b_elems (blk s (length (s_blocks s) - 1))))))
      in let (bi', off') = skip_greater s bi off elem in insertAt s bi' off' elem)"

definition setVisibility :: "elemSeq \<Rightarrow> opid \<Rightarrow> bool \<Rightarrow> opid \<Rightarrow> listElem option \<times> elemSeq" where
  "setVisibility s oid deleted visID =
     (case locate s oid of
        None \<Rightarrow> (None, s)
      | Some (a, off) \<Rightarrow>
          let block = s_store s ! a;
              elem = b_elems block ! off;
              current = (if op_actor (e_vis elem) = [] then e_id elem else e_vis elem)
          in if \<not> opid_Greater visID current then (Some elem, s)
          else
            let change = (if e_deleted elem \<noteq> deleted then (if deleted then -1 else 1) else 0);
                elem' = elem\<lparr>e_deleted := deleted, e_vis := visID\<rparr>;
                block' = block\<lparr>b_elems := (b_elems block)[off := elem'],
                               b_visible := b_visible block + change\<rparr>
            in (Some elem',
                s\<lparr>s_store := (s_store s)[a := block'],
                  s_vis := s_vis s + change,
                  s_tree := tree_add (s_tree s) (b_pos block) change\<rparr>))"

section \<open>Walks\<close>

definition seq_elems :: "elemSeq \<Rightarrow> listElem list" where
  "seq_elems s = foldl (\<lambda>out a. out @ b_elems (s_store s ! a)) [] (s_blocks s)"

definition visibleText :: "elemSeq \<Rightarrow> string" where
  "visibleText s =
     foldl (\<lambda>buf a.
       let block = s_store s ! a in
       if b_visible block = 0 then buf
       else foldl (\<lambda>buf e. if e_deleted e then buf else buf @ v_str (e_value e)) buf (b_elems block))
     [] (s_blocks s)"

text \<open>\<open>clone\<close> copies the values, which are immutable here, into a fresh sequence.\<close>

definition seq_clone :: "elemSeq \<Rightarrow> elemSeq" where
  "seq_clone s = seq_reset newSeq (seq_elems s)"

end
