(* ===== verification/Utf8.thy ===== *)
theory Utf8
  imports Go_Strings
begin

text \<open>
  Go's conversions between strings and runes: \<open>[]rune(s)\<close> decodes UTF-8 and yields U+FFFD for
  every byte that does not start a well-formed sequence, \<open>string(r)\<close> encodes one rune and
  writes U+FFFD for a value that is no Unicode scalar value. The document model uses them to
  split an inserted run of text into elements.
\<close>

type_synonym rune = nat

definition runeError :: rune where
  "runeError = 0xFFFD"

definition scalar :: "rune \<Rightarrow> bool" where
  "scalar r \<longleftrightarrow> r < 0x110000 \<and> \<not> (0xD800 \<le> r \<and> r \<le> 0xDFFF)"

definition cont :: "char \<Rightarrow> bool" where
  "cont c \<longleftrightarrow> 0x80 \<le> (of_char c :: nat) \<and> (of_char c :: nat) \<le> 0xBF"

text \<open>\<open>utf8.DecodeRuneInString\<close>: the rune and the number of bytes it takes.\<close>

fun decodeRune :: "string \<Rightarrow> rune \<times> nat" where
  "decodeRune [] = (runeError, 0)"
| "decodeRune (c0 # cs) =
     (let b0 = (of_char c0 :: nat) in
      if b0 < 0x80 then (b0, 1)
      else if 0xC2 \<le> b0 \<and> b0 \<le> 0xDF then
        (case cs of
           c1 # _ \<Rightarrow>
             if cont c1 then ((b0 - 0xC0) * 64 + (of_char c1 - 0x80), 2) else (runeError, 1)
         | _ \<Rightarrow> (runeError, 1))
      else if 0xE0 \<le> b0 \<and> b0 \<le> 0xEF then
        (case cs of
           c1 # c2 # _ \<Rightarrow>
             if cont c1 \<and> cont c2 \<and> (b0 = 0xE0 \<longrightarrow> 0xA0 \<le> (of_char c1 :: nat))
               \<and> (b0 = 0xED \<longrightarrow> (of_char c1 :: nat) \<le> 0x9F)
             then ((b0 - 0xE0) * 4096 + (of_char c1 - 0x80) * 64 + (of_char c2 - 0x80), 3)
             else (runeError, 1)
         | _ \<Rightarrow> (runeError, 1))
      else if 0xF0 \<le> b0 \<and> b0 \<le> 0xF4 then
        (case cs of
           c1 # c2 # c3 # _ \<Rightarrow>
             if cont c1 \<and> cont c2 \<and> cont c3 \<and> (b0 = 0xF0 \<longrightarrow> 0x90 \<le> (of_char c1 :: nat))
               \<and> (b0 = 0xF4 \<longrightarrow> (of_char c1 :: nat) \<le> 0x8F)
             then ((b0 - 0xF0) * 262144 + (of_char c1 - 0x80) * 4096
                   + (of_char c2 - 0x80) * 64 + (of_char c3 - 0x80), 4)
             else (runeError, 1)
         | _ \<Rightarrow> (runeError, 1))
      else (runeError, 1))"

lemma decodeRune_width: "s \<noteq> [] \<Longrightarrow> 0 < snd (decodeRune s)"
  by (cases s) (auto simp: Let_def split: list.splits)

declare decodeRune.simps [simp del]

function runes :: "string \<Rightarrow> rune list" where
  "runes s =
     (if s = [] then [] else fst (decodeRune s) # runes (drop (snd (decodeRune s)) s))"
  by pat_completeness auto
termination
  by (relation "measure length") (auto simp: decodeRune_width)

declare runes.simps [simp del]

text \<open>Bytes are written as numbers; \<open>string(r)\<close>.\<close>

definition encodeRune :: "rune \<Rightarrow> string" where
  "encodeRune r0 =
     (let r = (if scalar r0 then r0 else runeError) in
      List.map char_of
       (if r < 0x80 then [r]
        else if r < 0x800 then [0xC0 + r div 64, 0x80 + r mod 64]
        else if r < 0x10000 then [0xE0 + r div 4096, 0x80 + r div 64 mod 64, 0x80 + r mod 64]
        else [0xF0 + r div 262144, 0x80 + r div 4096 mod 64, 0x80 + r div 64 mod 64,
              0x80 + r mod 64]))"

text \<open>Well-formed UTF-8: decoding meets no error.\<close>

function utf8_valid :: "string \<Rightarrow> bool" where
  "utf8_valid s \<longleftrightarrow>
     (if s = [] then True
      else decodeRune s \<noteq> (runeError, 1) \<and> utf8_valid (drop (snd (decodeRune s)) s))"
  by pat_completeness auto
termination
  by (relation "measure length") (auto simp: decodeRune_width)

declare utf8_valid.simps [simp del]

section \<open>Decoding inverts encoding\<close>

lemma cont_char_of [simp]: "x < 64 \<Longrightarrow> cont (char_of (0x80 + x :: nat))"
  by (simp add: cont_def)

lemma runeError_scalar [simp]: "scalar runeError"
  by (simp add: scalar_def runeError_def)

lemma decode1: "a < 0x80 \<Longrightarrow> decodeRune (char_of (a :: nat) # s) = (a, 1)"
  by (simp add: decodeRune.simps)

lemma decode2:
  "2 \<le> a \<Longrightarrow> a < 32 \<Longrightarrow> b < 64 \<Longrightarrow>
   decodeRune (char_of (0xC0 + a :: nat) # char_of (0x80 + b :: nat) # s) = (a * 64 + b, 2)"
  by (simp add: decodeRune.simps)

lemma decode3:
  "a < 16 \<Longrightarrow> b < 64 \<Longrightarrow> c < 64 \<Longrightarrow> (a = 0 \<longrightarrow> 32 \<le> b) \<Longrightarrow> (a = 13 \<longrightarrow> b < 32) \<Longrightarrow>
   decodeRune (char_of (0xE0 + a :: nat) # char_of (0x80 + b :: nat) # char_of (0x80 + c :: nat) # s)
   = (a * 4096 + b * 64 + c, 3)"
  by (auto simp: decodeRune.simps)

lemma decode4:
  "a < 5 \<Longrightarrow> b < 64 \<Longrightarrow> c < 64 \<Longrightarrow> d < 64 \<Longrightarrow> (a = 0 \<longrightarrow> 16 \<le> b) \<Longrightarrow> (a = 4 \<longrightarrow> b < 16) \<Longrightarrow>
   decodeRune (char_of (0xF0 + a :: nat) # char_of (0x80 + b :: nat) # char_of (0x80 + c :: nat)
     # char_of (0x80 + d :: nat) # s) = (a * 262144 + b * 4096 + c * 64 + d, 4)"
  by (auto simp: decodeRune.simps)

lemma split64: obtains a b where "(r::nat) = a * 64 + b" "b < 64" "r div 64 = a" "r mod 64 = b"
  by (metis div_mult_mod_eq mod_less_divisor zero_less_numeral)

lemma div_4096: "(r::nat) div 4096 = r div 64 div 64"
  by (simp add: div_mult2_eq [symmetric])

lemma div_262144: "(r::nat) div 262144 = r div 64 div 64 div 64"
  by (simp add: div_mult2_eq [symmetric])

lemma decodeRune_encodeRune:
  assumes "scalar r"
  shows "decodeRune (encodeRune r @ s) = (r, length (encodeRune r))"
proof -
  have r: "r < 0x110000" "\<not> (0xD800 \<le> r \<and> r \<le> 0xDFFF)" using assms by (simp_all add: scalar_def)
  obtain a d where 1: "r = a * 64 + d" "d < 64" "r div 64 = a" "r mod 64 = d" by (rule split64)
  obtain b c where 2: "a = b * 64 + c" "c < 64" "a div 64 = b" "a mod 64 = c" by (rule split64)
  obtain e f where 3: "b = e * 64 + f" "f < 64" "b div 64 = e" "b mod 64 = f" by (rule split64)
  note D = 1(3,4) 2(3,4) 3(3,4) div_4096 div_262144
  consider "r < 0x80" | "0x80 \<le> r" "r < 0x800" | "0x800 \<le> r" "r < 0x10000" | "0x10000 \<le> r"
    by linarith
  then show ?thesis
  proof cases
    case 1
    then show ?thesis using assms by (simp add: encodeRune_def decode1)
  next
    case 2
    then have "2 \<le> a" "a < 32" using 1 by linarith+
    then show ?thesis using assms 2 1 decode2 [of a d s] by (simp add: encodeRune_def D)
  next
    case 3
    then have "b < 16" "b = 0 \<longrightarrow> 32 \<le> c" "b = 13 \<longrightarrow> c < 32" using 1 2 r by linarith+
    then show ?thesis using assms 3 1 2 decode3 [of b c d s] by (simp add: encodeRune_def D)
  next
    case 4
    then have "e < 5" "e = 0 \<longrightarrow> 16 \<le> f" "e = 4 \<longrightarrow> f < 16" using 1 2 3 r by linarith+
    then show ?thesis
      using assms 4 1 2 3 decode4 [of e f c d s] by (simp add: encodeRune_def D)
  qed
qed

lemma encodeRune_not_Nil [simp]: "encodeRune r \<noteq> []"
  by (simp add: encodeRune_def Let_def)

lemma runes_encodeRune_append: "scalar r \<Longrightarrow> runes (encodeRune r @ s) = r # runes s"
  by (subst runes.simps) (simp add: decodeRune_encodeRune)

lemma runes_encode:
  "list_all scalar rs \<Longrightarrow> runes (concat (List.map encodeRune rs)) = rs"
  by (induction rs) (simp_all add: runes_encodeRune_append, simp add: runes.simps)

section \<open>Encoding inverts decoding of well-formed text\<close>

lemma encodeRune_error [simp]: "\<not> scalar r \<Longrightarrow> encodeRune r = encodeRune runeError"
  by (simp add: encodeRune_def)

lemma cont_cases: "cont c \<Longrightarrow> \<exists>x < 64. c = char_of (0x80 + x :: nat) \<and> of_char c - 0x80 = x"
  by (intro exI [of _ "of_char c - 0x80"]) (auto simp: cont_def)

lemma lead_char: "k \<le> (of_char c :: nat) \<Longrightarrow> c = char_of (k + (of_char c - k) :: nat)"
  by simp

lemma decode_lead2:
  "0xC2 \<le> (of_char c0 :: nat) \<Longrightarrow> (of_char c0 :: nat) \<le> 0xDF \<Longrightarrow>
   decodeRune (c0 # cs) \<noteq> (runeError, 1) \<Longrightarrow> \<exists>c1 t. cs = c1 # t \<and> cont c1"
  by (auto simp add: decodeRune.simps Let_def split: list.splits if_splits)

lemma decode_lead3:
  "0xE0 \<le> (of_char c0 :: nat) \<Longrightarrow> (of_char c0 :: nat) \<le> 0xEF \<Longrightarrow>
   decodeRune (c0 # cs) \<noteq> (runeError, 1) \<Longrightarrow>
   \<exists>c1 c2 t. cs = c1 # c2 # t \<and> cont c1 \<and> cont c2 \<and> (of_char c0 = (0xE0::nat) \<longrightarrow> 0xA0 \<le> (of_char c1 :: nat))
     \<and> (of_char c0 = (0xED::nat) \<longrightarrow> (of_char c1 :: nat) \<le> 0x9F)"
  by (auto simp add: decodeRune.simps Let_def split: list.splits if_splits)

lemma decode_lead4:
  "0xF0 \<le> (of_char c0 :: nat) \<Longrightarrow> (of_char c0 :: nat) \<le> 0xF4 \<Longrightarrow>
   decodeRune (c0 # cs) \<noteq> (runeError, 1) \<Longrightarrow>
   \<exists>c1 c2 c3 t. cs = c1 # c2 # c3 # t \<and> cont c1 \<and> cont c2 \<and> cont c3 \<and>
     (of_char c0 = (0xF0::nat) \<longrightarrow> 0x90 \<le> (of_char c1 :: nat))
     \<and> (of_char c0 = (0xF4::nat) \<longrightarrow> (of_char c1 :: nat) \<le> 0x8F)"
  by (auto simp add: decodeRune.simps Let_def split: list.splits if_splits)

lemma decodeRune_shape:
  assumes "s \<noteq> []" "decodeRune s \<noteq> (runeError, 1)"
  obtains
    (One) a t where "s = char_of a # t" "a < (0x80 :: nat)"
  | (Two) a b t where "s = char_of (0xC0 + a) # char_of (0x80 + b) # t"
      "2 \<le> a" "a < (32 :: nat)" "b < (64 :: nat)"
  | (Three) a b c t where "s = char_of (0xE0 + a) # char_of (0x80 + b) # char_of (0x80 + c) # t"
      "a < (16 :: nat)" "b < (64 :: nat)" "c < (64 :: nat)" "a = 0 \<longrightarrow> 32 \<le> b" "a = 13 \<longrightarrow> b < 32"
  | (Four) a b c d t where "s = char_of (0xF0 + a) # char_of (0x80 + b) # char_of (0x80 + c)
       # char_of (0x80 + d) # t" "a < (5 :: nat)" "b < (64 :: nat)" "c < (64 :: nat)" "d < (64 :: nat)"
       "a = 0 \<longrightarrow> 16 \<le> b" "a = 4 \<longrightarrow> b < (16 :: nat)"
proof -
  obtain c0 cs where s: "s = c0 # cs" using assms(1) by (cases s) auto
  define b0 where "b0 = (of_char c0 :: nat)"
  have c0: "c0 = char_of b0" by (simp add: b0_def)
  have ne: "decodeRune (c0 # cs) \<noteq> (runeError, 1)" using assms(2) s by simp
  consider "b0 < 0x80" | "0xC2 \<le> b0" "b0 \<le> 0xDF" | "0xE0 \<le> b0" "b0 \<le> 0xEF" | "0xF0 \<le> b0" "b0 \<le> 0xF4"
    using ne by (force simp: decodeRune.simps Let_def b0_def)
  then show ?thesis
  proof cases
    case 1
    then show ?thesis using One s c0 by simp
  next
    case 2
    then obtain c1 t where t: "cs = c1 # t" "cont c1"
      using decode_lead2 [of c0 cs] ne by (auto simp: b0_def)
    obtain b where "b < 64" "c1 = char_of (0x80 + b :: nat)" using cont_cases [OF t(2)] by blast
    then show ?thesis using Two [of "b0 - 0xC0" b t] 2 c0 s t by simp
  next
    case 3
    then obtain c1 c2 t where t: "cs = c1 # c2 # t" "cont c1" "cont c2"
      and lo: "b0 = 0xE0 \<longrightarrow> 0xA0 \<le> (of_char c1 :: nat)" "b0 = 0xED \<longrightarrow> (of_char c1 :: nat) \<le> 0x9F"
      using decode_lead3 [of c0 cs] ne by (auto simp: b0_def)
    obtain b where b: "b < 64" "c1 = char_of (0x80 + b :: nat)" "of_char c1 - 0x80 = b"
      using cont_cases [OF t(2)] by blast
    obtain c where "c < 64" "c2 = char_of (0x80 + c :: nat)" using cont_cases [OF t(3)] by blast
    moreover have "b0 - 0xE0 = 0 \<longrightarrow> 32 \<le> b" "b0 - 0xE0 = 13 \<longrightarrow> b < 32" using 3 lo b by auto
    ultimately show ?thesis using Three [of "b0 - 0xE0" b c t] 3 c0 s t b(1,2) by simp
  next
    case 4
    then obtain c1 c2 c3 t where t: "cs = c1 # c2 # c3 # t" "cont c1" "cont c2" "cont c3"
      and lo: "b0 = 0xF0 \<longrightarrow> 0x90 \<le> (of_char c1 :: nat)" "b0 = 0xF4 \<longrightarrow> (of_char c1 :: nat) \<le> 0x8F"
      using decode_lead4 [of c0 cs] ne by (auto simp: b0_def)
    obtain b where b: "b < 64" "c1 = char_of (0x80 + b :: nat)" "of_char c1 - 0x80 = b"
      using cont_cases [OF t(2)] by blast
    obtain c where "c < 64" "c2 = char_of (0x80 + c :: nat)" using cont_cases [OF t(3)] by blast
    moreover obtain d where "d < 64" "c3 = char_of (0x80 + d :: nat)" using cont_cases [OF t(4)] by blast
    moreover have "b0 - 0xF0 = 0 \<longrightarrow> 16 \<le> b" "b0 - 0xF0 = 4 \<longrightarrow> b < 16" using 4 lo b by auto
    ultimately show ?thesis using Four [of "b0 - 0xF0" b c d t] 4 c0 s t b(1,2) by simp
  qed
qed

lemma scalar3:
  assumes "a < (16::nat)" "b < 64" "c < (64::nat)" "a = 13 \<longrightarrow> b < 32"
  shows "scalar (a * 4096 + b * 64 + c)"
proof -
  consider "a \<le> 12" | "a = 13" | "14 \<le> a" by linarith
  then show ?thesis using assms by cases (auto simp: scalar_def)
qed

lemma encode_digits:
  fixes a b c d :: nat
  shows "a < 0x80 \<Longrightarrow> encodeRune a = [char_of a]"
  "2 \<le> a \<Longrightarrow> a < 32 \<Longrightarrow> b < 64 \<Longrightarrow>
     encodeRune (a * 64 + b) = [char_of (0xC0 + a), char_of (0x80 + b)]"
  "a < 16 \<Longrightarrow> b < 64 \<Longrightarrow> c < 64 \<Longrightarrow> (a = 0 \<longrightarrow> 32 \<le> b) \<Longrightarrow> (a = 13 \<longrightarrow> b < 32) \<Longrightarrow>
     encodeRune (a * 4096 + b * 64 + c) = [char_of (0xE0 + a), char_of (0x80 + b), char_of (0x80 + c)]"
  "a < 5 \<Longrightarrow> b < 64 \<Longrightarrow> c < 64 \<Longrightarrow> d < 64 \<Longrightarrow> (a = 0 \<longrightarrow> 16 \<le> b) \<Longrightarrow> (a = 4 \<longrightarrow> b < 16) \<Longrightarrow>
     encodeRune (a * 262144 + b * 4096 + c * 64 + d)
     = [char_of (0xF0 + a), char_of (0x80 + b), char_of (0x80 + c), char_of (0x80 + d)]"
proof goal_cases
  case 1
  then show ?case by (simp add: encodeRune_def scalar_def)
next
  case 2
  then show ?case by (simp add: encodeRune_def scalar_def)
next
  case 3
  define r where "r = a * 4096 + b * 64 + c"
  have d: "r div 64 = a * 64 + b" "r div 4096 = a" "r mod 64 = c"
    using 3 mod_mult_self3 [of "a * 64 + b" 64 c] by (simp_all add: r_def div_4096 algebra_simps)
  have "scalar r" "0x800 \<le> r" "r < 0x10000"
    using 3 scalar3 [of a b c] by (auto simp: r_def)
  then show ?case using 3 d unfolding r_def [symmetric] by (simp add: encodeRune_def)
next
  case 4
  define r where "r = a * 262144 + b * 4096 + c * 64 + d"
  have d: "r div 64 = a * 4096 + b * 64 + c" "r div 4096 = a * 64 + b" "r div 262144 = a" "r mod 64 = d"
    using 4 mod_mult_self3 [of "a * 4096 + b * 64 + c" 64 d]
    by (simp_all add: r_def div_4096 div_262144 algebra_simps)
  moreover have "(a * 4096 + b * 64 + c) mod 64 = c"
    using 4 mod_mult_self3 [of "a * 64 + b" 64 c] by (simp add: algebra_simps)
  moreover have "scalar r" "0x10000 \<le> r" using 4 by (auto simp: r_def scalar_def)
  ultimately show ?case using 4 unfolding r_def [symmetric] by (simp add: encodeRune_def)
qed

lemma decodeRune_take:
  assumes "decodeRune s \<noteq> (runeError, 1)" "s \<noteq> []"
  shows "encodeRune (fst (decodeRune s)) = take (snd (decodeRune s)) s"
  by (rule decodeRune_shape [OF assms(2,1)])
    (simp_all add: decode1 decode2 decode3 decode4 encode_digits)

lemma decodeRune_scalar: "scalar (fst (decodeRune s))"
proof (cases "s = [] \<or> decodeRune s = (runeError, 1)")
  case True
  then show ?thesis by (auto simp: decodeRune.simps)
next
  case False
  then have "s \<noteq> []" "decodeRune s \<noteq> (runeError, 1)" by auto
  then show ?thesis
  proof (cases rule: decodeRune_shape)
    case (Three a b c t)
    then show ?thesis using scalar3 [of a b c] by (simp add: decode3)
  qed (auto simp: decode1 decode2 decode4 scalar_def)
qed

lemma concat_encode_runes:
  "utf8_valid s \<Longrightarrow> concat (List.map encodeRune (runes s)) = s"
proof (induction s rule: runes.induct)
  case (1 s)
  show ?case
  proof (cases "s = []")
    case True
    then show ?thesis by (simp add: runes.simps)
  next
    case False
    have v: "decodeRune s \<noteq> (runeError, 1)" "utf8_valid (drop (snd (decodeRune s)) s)"
      using "1.prems" False utf8_valid.simps [of s] by auto
    have "encodeRune (fst (decodeRune s)) = take (snd (decodeRune s)) s"
      using decodeRune_take [OF v(1) False] .
    then show ?thesis using "1.IH" [OF False v(2)] False
      by (subst runes.simps) simp
  qed
qed

lemma runes_scalar: "list_all scalar (runes s)"
proof (induction s rule: runes.induct)
  case (1 s)
  then show ?case by (subst runes.simps) (simp add: decodeRune_scalar)
qed

end
