(* ===== verification/Crdt_Doc.thy ===== *)
theory Crdt_Doc
  imports Crdt_Seq Utf8 "HOL-Library.Product_Lexorder"
begin

text \<open>
  The document of \<^verbatim>\<open>crdt/doc.go\<close> and the operations and changes of \<^verbatim>\<open>crdt/change.go\<close>:
  objects, the six actions \<open>applyOpLocked\<close> dispatches on, the local edits that journal an
  operation, commits, and the application of remote changes.

  A \<open>Doc\<close> method is a function from the document to a result and the document after it, also
  when it fails: an error returns the state as the code leaves it. The locks make each method
  one step. A read returns the document too, because a lookup by index rebuilds a stale
  Fenwick tree. An error is a constructor of \<open>doc_error\<close> in place of its message.

  A map object leaves its element index nil and no operation reads it; the model puts the
  empty index there. \<open>encoding/json\<close> and the hash are parameters (\<open>marshal\<close>, \<open>sha\<close>), and so is
  the clock.
\<close>

section \<open>Data\<close>

record mapEntry =
  me_value :: gvalue
  me_id :: opid
  me_deleted :: bool

definition zeroOpID :: opid where "zeroOpID = OpID 0 []"

definition zeroEntry :: mapEntry where
  "zeroEntry = \<lparr>me_value = zeroValue, me_id = zeroOpID, me_deleted = False\<rparr>"

record crdtObject =
  obj_kind :: string
  obj_map :: "(string, mapEntry) fmap"
  obj_seq :: elemSeq

record gop =
  o_id :: opid
  o_action :: string
  o_obj :: string
  o_prop :: string
  o_value :: gvalue
  o_after :: string
  o_run :: string
  o_delruns :: "opid_run list"

record gchange =
  c_hash :: "byte list"
  c_actor :: string
  c_seq :: uint64
  c_deps :: "byte list list"
  c_start :: uint64
  c_time :: gtime
  c_msg :: string
  c_group :: string
  c_ops :: "gop list"

record gpatch =
  p_obj :: string
  p_prop :: string
  p_action :: string
  p_value :: gvalue

record gdoc =
  d_actor :: "byte list"
  d_objects :: "(string, crdtObject) fmap"
  d_changes :: "gchange list"
  d_index :: "string \<rightharpoonup> gchange"
  d_deps :: "byte list list"
  d_seq :: uint64
  d_maxOp :: uint64
  d_pending :: "gop list"
  d_patches :: "gpatch list"
  d_hooks :: "nat list"

datatype doc_error =
    Object_not_found string
  | Prop_not_found string string
  | Not_an_index string
  | Unknown_kind string
  | Not_list_like string
  | Not_text string
  | Index_out_of_range int
  | Negative_index
  | Splice_out_of_range uint64 uint64
  | Splice_cursor int
  | Visible_range
  | Element_not_found string
  | Splice_only_text
  | Put_only_map
  | Delete_unsupported string
  | Revive_only_list
  | Increment_only_map
  | Insert_only_list
  | Bad_ref string
  | Unknown_action string
  | Encode_change

type_synonym 'a outcome = "(doc_error + 'a) \<times> gdoc"

definition rootID :: string where "rootID = ''root''"

definition zeroHash :: "byte list" where "zeroHash = replicate 32 0"

definition listLike :: "string \<Rightarrow> bool" where
  "listLike k \<longleftrightarrow> k = KList \<or> k = KText"

section \<open>Objects\<close>

definition newMapObject :: crdtObject where
  "newMapObject = \<lparr>obj_kind = KMap, obj_map = fmempty, obj_seq = newSeq\<rparr>"

definition newListObject :: "string \<Rightarrow> crdtObject" where
  "newListObject k = \<lparr>obj_kind = k, obj_map = fmempty, obj_seq = newSeq\<rparr>"

definition newDocWithActor :: "byte list \<Rightarrow> gdoc" where
  "newDocWithActor actor = \<lparr>d_actor = actor, d_objects = fmupd rootID newMapObject fmempty,
     d_changes = [], d_index = Map.empty, d_deps = [], d_seq = 0, d_maxOp = 0, d_pending = [],
     d_patches = [], d_hooks = []\<rparr>"

definition objectLocked :: "gdoc \<Rightarrow> string \<Rightarrow> doc_error + crdtObject" where
  "objectLocked d obj =
     (case fmlookup (d_objects d) obj of None \<Rightarrow> Inl (Object_not_found obj) | Some t \<Rightarrow> Inr t)"

definition put_object :: "gdoc \<Rightarrow> string \<Rightarrow> crdtObject \<Rightarrow> gdoc" where
  "put_object d obj t = d\<lparr>d_objects := fmupd obj t (d_objects d)\<rparr>"

definition ensureObjectForValue :: "gdoc \<Rightarrow> gvalue \<Rightarrow> gdoc" where
  "ensureObjectForValue d v =
     (if \<not> isObject v then d
      else case fmlookup (d_objects d) (v_obj v) of
        Some _ \<Rightarrow> d
      | None \<Rightarrow>
          if v_kind v = KMap then put_object d (v_obj v) newMapObject
          else if v_kind v = KList then put_object d (v_obj v) (newListObject KList)
          else if v_kind v = KText then put_object d (v_obj v) (newListObject KText)
          else d)"

section \<open>Applying one operation\<close>

definition map_current :: "crdtObject \<Rightarrow> string \<Rightarrow> mapEntry" where
  "map_current t prop = (case fmlookup (obj_map t) prop of None \<Rightarrow> zeroEntry | Some e \<Rightarrow> e)"

definition set_entry :: "crdtObject \<Rightarrow> string \<Rightarrow> mapEntry \<Rightarrow> crdtObject" where
  "set_entry t prop e = t\<lparr>obj_map := fmupd prop e (obj_map t)\<rparr>"

definition op_patch :: "gop \<Rightarrow> string \<Rightarrow> string \<Rightarrow> gvalue \<Rightarrow> gpatch" where
  "op_patch op prop action v = \<lparr>p_obj = o_obj op, p_prop = prop, p_action = action, p_value = v\<rparr>"

definition applyPut :: "crdtObject \<Rightarrow> gop \<Rightarrow> (doc_error + gpatch) \<times> crdtObject" where
  "applyPut t op =
     (if obj_kind t = KMap then
        let current = map_current t (o_prop op);
            t' = (if op_actor (me_id current) = [] \<or> opid_Greater (o_id op) (me_id current)
                  then set_entry t (o_prop op) \<lparr>me_value = o_value op, me_id = o_id op, me_deleted = False\<rparr>
                  else t)
        in (Inr (op_patch op (o_prop op) ''put'' (o_value op)), t')
      else (Inl Put_only_map, t))"

definition parseOpIDProp :: "string \<Rightarrow> ref_error + opid option" where
  "parseOpIDProp prop = parseOpIDRef prop"

definition applyDelete :: "crdtObject \<Rightarrow> gop \<Rightarrow> (doc_error + gpatch) \<times> crdtObject" where
  "applyDelete t op =
     (if obj_kind t = KMap then
        let current = map_current t (o_prop op);
            t' = (if op_actor (me_id current) = [] \<or> opid_Greater (o_id op) (me_id current)
                  then set_entry t (o_prop op) \<lparr>me_value = zeroValue, me_id = o_id op, me_deleted = True\<rparr>
                  else t)
        in (Inr (op_patch op (o_prop op) ''delete'' zeroValue), t')
      else if listLike (obj_kind t) then
        (Inr (op_patch op (o_prop op) ''delete'' zeroValue),
         case parseOpIDProp (o_prop op) of
           Inr (Some elemID) \<Rightarrow> t\<lparr>obj_seq := snd (setVisibility (obj_seq t) elemID True (o_id op))\<rparr>
         | _ \<Rightarrow> t)
      else (Inl (Delete_unsupported (obj_kind t)), t))"

definition applyRevive :: "crdtObject \<Rightarrow> gop \<Rightarrow> (doc_error + gpatch) \<times> crdtObject" where
  "applyRevive t op =
     (if \<not> listLike (obj_kind t) then (Inl Revive_only_list, t)
      else case parseOpIDProp (o_prop op) of
        Inr (Some elemID) \<Rightarrow>
          (let (found, s') = setVisibility (obj_seq t) elemID False (o_id op) in
           (case found of
              None \<Rightarrow> Inl (Element_not_found (opid_String elemID))
            | Some elem \<Rightarrow> Inr (op_patch op (o_prop op) ''revive'' (e_value elem)),
            t\<lparr>obj_seq := s'\<rparr>))
      | _ \<Rightarrow> (Inl (Element_not_found (o_prop op)), t))"

definition applyIncrement :: "crdtObject \<Rightarrow> gop \<Rightarrow> (doc_error + gpatch) \<times> crdtObject" where
  "applyIncrement t op =
     (if obj_kind t = KMap then
        let current = map_current t (o_prop op);
            v = (if v_kind (me_value current) = KCounter
                 then counterValue (v_counter (me_value current) + v_counter (o_value op))
                 else if v_kind (me_value current) = KInt
                 then intValue (v_int (me_value current) + v_counter (o_value op))
                 else counterValue (v_counter (o_value op)))
        in (Inr (op_patch op (o_prop op) ''increment'' v),
            set_entry t (o_prop op) \<lparr>me_value = v, me_id = o_id op, me_deleted = False\<rparr>)
      else (Inl Increment_only_map, t))"

definition applyInsert :: "crdtObject \<Rightarrow> gop \<Rightarrow> (doc_error + gpatch) \<times> crdtObject" where
  "applyInsert t op =
     (if \<not> listLike (obj_kind t) then (Inl Insert_only_list, t)
      else case parseOpIDRef (o_after op) of
        Inl _ \<Rightarrow> (Inl (Bad_ref (o_after op)), t)
      | Inr afterID \<Rightarrow>
          let s1 = (if seq_contains (obj_seq t) (o_id op) then obj_seq t
                    else insertAfter (obj_seq t) afterID
                           \<lparr>e_id = o_id op, e_after = o_after op, e_value = o_value op,
                            e_deleted = False, e_vis = o_id op\<rparr>);
              (index, s2) = visibleIndexOf s1 (o_id op)
          in (Inr (op_patch op (itoa index) ''insert'' (o_value op)), t\<lparr>obj_seq := s2\<rparr>))"

text \<open>The two loops of \<open>applySpliceLocked\<close>; the first stops at an unknown element.\<close>

fun splice_delete :: "elemSeq \<Rightarrow> opid list \<Rightarrow> opid \<Rightarrow> opid option \<times> elemSeq" where
  "splice_delete s [] visID = (None, s)"
| "splice_delete s (oid # oids) visID =
     (case setVisibility s oid True visID of
        (None, s') \<Rightarrow> (Some oid, s')
      | (Some _, s') \<Rightarrow> splice_delete s' oids visID)"

definition run_id :: "opid \<Rightarrow> nat \<Rightarrow> opid" where
  "run_id oid i = OpID (op_counter oid + word_of_nat i) (op_actor oid)"

definition run_elem :: "opid \<Rightarrow> opid option \<Rightarrow> rune \<Rightarrow> listElem" where
  "run_elem oid afterID r = \<lparr>e_id = oid, e_after = formatOpIDRef afterID,
     e_value = stringValue (encodeRune r), e_deleted = False, e_vis = oid\<rparr>"

fun splice_insert :: "elemSeq \<Rightarrow> opid \<Rightarrow> nat \<Rightarrow> rune list \<Rightarrow> opid option \<Rightarrow> elemSeq" where
  "splice_insert s oid i [] afterID = s"
| "splice_insert s oid i (r # rs) afterID =
     (let id' = run_id oid i in
      if seq_contains s id' then splice_insert s oid (Suc i) rs (Some id')
      else splice_insert (insertAfter s afterID (run_elem id' afterID r)) oid (Suc i) rs (Some id'))"

definition applySplice :: "crdtObject \<Rightarrow> gop \<Rightarrow> (doc_error + gpatch) \<times> crdtObject" where
  "applySplice t op =
     (if obj_kind t \<noteq> KText then (Inl Splice_only_text, t)
      else case splice_delete (obj_seq t) (expandOpIDRuns (o_delruns op)) (o_id op) of
        (Some oid, s1) \<Rightarrow> (Inl (Element_not_found (opid_String oid)), t\<lparr>obj_seq := s1\<rparr>)
      | (None, s1) \<Rightarrow>
          (case parseOpIDRef (o_after op) of
             Inl _ \<Rightarrow> (Inl (Bad_ref (o_after op)), t\<lparr>obj_seq := s1\<rparr>)
           | Inr afterID \<Rightarrow>
               let s2 = splice_insert s1 (o_id op) 0 (runes (o_run op)) afterID;
                   (index, s3) = (if o_run op \<noteq> [] then visibleIndexOf s2 (o_id op) else (0, s2))
               in (Inr (op_patch op (itoa index) ''splice'' (stringValue (o_run op))),
                   t\<lparr>obj_seq := s3\<rparr>)))"

definition dispatch :: "crdtObject \<Rightarrow> gop \<Rightarrow> (doc_error + gpatch) \<times> crdtObject" where
  "dispatch t op =
     (if o_action op = ''put'' then applyPut t op
      else if o_action op = ''delete'' then applyDelete t op
      else if o_action op = ''revive'' then applyRevive t op
      else if o_action op = ''increment'' then applyIncrement t op
      else if o_action op = ''insert'' then applyInsert t op
      else if o_action op = ''splice'' then applySplice t op
      else (Inl (Unknown_action (o_action op)), t))"

definition applyOp :: "gdoc \<Rightarrow> gop \<Rightarrow> gpatch outcome" where
  "applyOp d op =
     (case objectLocked d (o_obj op) of
        Inl e \<Rightarrow> (Inl e, d)
      | Inr t \<Rightarrow>
          let d1 = ensureObjectForValue d (o_value op);
              (r, t') = dispatch t op
          in (r, put_object d1 (o_obj op) t'))"

section \<open>Local edits\<close>

definition newLocalOp :: "gdoc \<Rightarrow> string \<Rightarrow> string \<Rightarrow> string \<Rightarrow> gvalue \<Rightarrow> gop \<times> gdoc" where
  "newLocalOp d action obj prop value =
     (let m = d_maxOp d + 1 in
      (\<lparr>o_id = OpID m (actor_String (d_actor d)), o_action = action, o_obj = obj, o_prop = prop,
        o_value = value, o_after = [], o_run = [], o_delruns = []\<rparr>, d\<lparr>d_maxOp := m\<rparr>))"

definition newLocalRunOp :: "gdoc \<Rightarrow> string \<Rightarrow> string \<Rightarrow> nat \<Rightarrow> gop \<times> gdoc" where
  "newLocalRunOp d action obj runLength =
     (let width = (if runLength < 1 then 1 else runLength) in
      (\<lparr>o_id = OpID (d_maxOp d + 1) (actor_String (d_actor d)), o_action = action, o_obj = obj,
        o_prop = [], o_value = zeroValue, o_after = [], o_run = [], o_delruns = []\<rparr>,
       d\<lparr>d_maxOp := d_maxOp d + word_of_nat width\<rparr>))"

definition newObjectID :: "gdoc \<Rightarrow> string \<times> gdoc" where
  "newObjectID d =
     (let m = d_maxOp d + 1 in (actor_String (d_actor d) @ ''-'' @ formatUint m, d\<lparr>d_maxOp := m\<rparr>))"

text \<open>The tail every local edit shares: apply, and journal on success.\<close>

definition journal :: "gdoc \<Rightarrow> gop \<Rightarrow> gpatch \<Rightarrow> gdoc" where
  "journal d op patch = d\<lparr>d_pending := d_pending d @ [op], d_patches := d_patches d @ [patch]\<rparr>"

definition localApply :: "gdoc \<Rightarrow> gop \<Rightarrow> 'a \<Rightarrow> 'a outcome" where
  "localApply d op result =
     (case applyOp d op of
        (Inl e, d') \<Rightarrow> (Inl e, d')
      | (Inr patch, d') \<Rightarrow> (Inr result, journal d' op patch))"

definition Put :: "gdoc \<Rightarrow> string \<Rightarrow> string \<Rightarrow> gvalue \<Rightarrow> unit outcome" where
  "Put d obj prop v = (let (op, d1) = newLocalOp d ''put'' obj prop v in localApply d1 op ())"

definition Delete :: "gdoc \<Rightarrow> string \<Rightarrow> string \<Rightarrow> unit outcome" where
  "Delete d obj prop = (let (op, d1) = newLocalOp d ''delete'' obj prop nullValue in localApply d1 op ())"

definition Increment :: "gdoc \<Rightarrow> string \<Rightarrow> string \<Rightarrow> int64 \<Rightarrow> unit outcome" where
  "Increment d obj prop n =
     (let (op, d1) = newLocalOp d ''increment'' obj prop (counterValue n) in localApply d1 op ())"

definition make_object :: "(string \<Rightarrow> gvalue) \<Rightarrow> gdoc \<Rightarrow> string \<Rightarrow> string \<Rightarrow> string outcome" where
  "make_object mk d obj prop =
     (let (child, d1) = newObjectID d;
          (op, d2) = newLocalOp d1 ''put'' obj prop (mk child)
      in localApply d2 op child)"

definition MakeMap :: "gdoc \<Rightarrow> string \<Rightarrow> string \<Rightarrow> string outcome" where
  "MakeMap = make_object mapValue"

definition MakeList :: "gdoc \<Rightarrow> string \<Rightarrow> string \<Rightarrow> string outcome" where
  "MakeList = make_object listValue"

definition MakeText :: "gdoc \<Rightarrow> string \<Rightarrow> string \<Rightarrow> string outcome" where
  "MakeText = make_object textValue"

definition afterID :: "elemSeq \<Rightarrow> int \<Rightarrow> (doc_error + string) \<times> elemSeq" where
  "afterID s index =
     (if index < 0 then (Inl Negative_index, s)
      else if index = 0 then (Inr [], s)
      else if index > visibleLength s then (Inl (Index_out_of_range index), s)
      else case visibleIDAt s (index - 1) of
        (None, s') \<Rightarrow> (Inl (Index_out_of_range index), s')
      | (Some oid, s') \<Rightarrow> (Inr (opid_String oid), s'))"

definition InsertAt :: "gdoc \<Rightarrow> string \<Rightarrow> uint64 \<Rightarrow> gvalue \<Rightarrow> unit outcome" where
  "InsertAt d lst index v =
     (case objectLocked d lst of
        Inl e \<Rightarrow> (Inl e, d)
      | Inr t \<Rightarrow>
          if \<not> listLike (obj_kind t) then (Inl (Not_list_like lst), d)
          else case afterID (obj_seq t) (sint index) of
            (Inl e, s') \<Rightarrow> (Inl e, put_object d lst (t\<lparr>obj_seq := s'\<rparr>))
          | (Inr after, s') \<Rightarrow>
              let d0 = put_object d lst (t\<lparr>obj_seq := s'\<rparr>);
                  (op, d1) = newLocalOp d0 ''insert'' lst (formatUint index) v
              in localApply d1 (op\<lparr>o_after := after\<rparr>) ())"

definition DeleteAt :: "gdoc \<Rightarrow> string \<Rightarrow> uint64 \<Rightarrow> unit outcome" where
  "DeleteAt d lst index =
     (case objectLocked d lst of
        Inl e \<Rightarrow> (Inl e, d)
      | Inr t \<Rightarrow>
          if \<not> listLike (obj_kind t) then (Inl (Not_list_like lst), d)
          else case visibleIDAt (obj_seq t) (sint index) of
            (None, s') \<Rightarrow> (Inl (Index_out_of_range (uint index)), put_object d lst (t\<lparr>obj_seq := s'\<rparr>))
          | (Some oid, s') \<Rightarrow>
              let d0 = put_object d lst (t\<lparr>obj_seq := s'\<rparr>);
                  (op, d1) = newLocalOp d0 ''delete'' lst (opid_String oid) nullValue
              in localApply d1 op ())"

definition ElementIDAt :: "gdoc \<Rightarrow> string \<Rightarrow> uint64 \<Rightarrow> opid outcome" where
  "ElementIDAt d lst index =
     (case objectLocked d lst of
        Inl e \<Rightarrow> (Inl e, d)
      | Inr t \<Rightarrow>
          if \<not> listLike (obj_kind t) then (Inl (Not_list_like lst), d)
          else case visibleIDAt (obj_seq t) (sint index) of
            (None, s') \<Rightarrow> (Inl (Index_out_of_range (uint index)), put_object d lst (t\<lparr>obj_seq := s'\<rparr>))
          | (Some oid, s') \<Rightarrow> (Inr oid, put_object d lst (t\<lparr>obj_seq := s'\<rparr>)))"

definition setElementVisibility :: "gdoc \<Rightarrow> string \<Rightarrow> opid \<Rightarrow> bool \<Rightarrow> unit outcome" where
  "setElementVisibility d lst elemID deleted =
     (case objectLocked d lst of
        Inl e \<Rightarrow> (Inl e, d)
      | Inr t \<Rightarrow>
          if \<not> listLike (obj_kind t) then (Inl (Not_list_like lst), d)
          else if \<not> seq_contains (obj_seq t) elemID then (Inl (Element_not_found (opid_String elemID)), d)
          else
            let (op, d1) = newLocalOp d (if deleted then ''delete'' else ''revive'') lst
                             (opid_String elemID) nullValue
            in localApply d1 op ())"

definition DeleteByElemID :: "gdoc \<Rightarrow> string \<Rightarrow> opid \<Rightarrow> unit outcome" where
  "DeleteByElemID d lst elemID = setElementVisibility d lst elemID True"

definition ReviveElem :: "gdoc \<Rightarrow> string \<Rightarrow> opid \<Rightarrow> unit outcome" where
  "ReviveElem d lst elemID = setElementVisibility d lst elemID False"

text \<open>
  \<open>SpliceText\<close>: the bounds check is on \<open>uint64\<close>; the identity before the cursor and the
  identities of the deleted range are looked up before the operation is built.
\<close>

definition splice_cursor :: "elemSeq \<Rightarrow> uint64 \<Rightarrow> (doc_error + string) \<times> elemSeq" where
  "splice_cursor s index =
     (if index > 0 then
        (case visibleIDAt s (sint index - 1) of
           (None, s') \<Rightarrow> (Inl (Splice_cursor (sint index - 1)), s')
         | (Some oid, s') \<Rightarrow> (Inr (opid_String oid), s'))
      else (Inr [], s))"

definition splice_range :: "elemSeq \<Rightarrow> uint64 \<Rightarrow> uint64 \<Rightarrow> (doc_error + opid list) \<times> elemSeq" where
  "splice_range s index deleteCount =
     (if deleteCount > 0 then
        (case collectVisibleRange s (sint index) (sint deleteCount) [] of
           (Inl _, s') \<Rightarrow> (Inl Visible_range, s')
         | (Inr oids, s') \<Rightarrow> (Inr oids, s'))
      else (Inr [], s))"

definition SpliceText ::
  "gdoc \<Rightarrow> string \<Rightarrow> uint64 \<Rightarrow> uint64 \<Rightarrow> string \<Rightarrow> (opid list \<times> opid list) outcome" where
  "SpliceText d txt index deleteCount ins =
     (case objectLocked d txt of
        Inl e \<Rightarrow> (Inl e, d)
      | Inr t \<Rightarrow>
          if obj_kind t \<noteq> KText then (Inl (Not_text txt), d)
          else
            let visibleLen = word_of_int (visibleLength (obj_seq t)) in
            if index > visibleLen \<or> deleteCount > visibleLen - index
            then (Inl (Splice_out_of_range index deleteCount), d)
            else case splice_cursor (obj_seq t) index of
              (Inl e, s1) \<Rightarrow> (Inl e, put_object d txt (t\<lparr>obj_seq := s1\<rparr>))
            | (Inr after, s1) \<Rightarrow>
                (case splice_range s1 index deleteCount of
                   (Inl e, s2) \<Rightarrow> (Inl e, put_object d txt (t\<lparr>obj_seq := s2\<rparr>))
                 | (Inr deleted, s2) \<Rightarrow>
                     let d0 = put_object d txt (t\<lparr>obj_seq := s2\<rparr>);
                         insertRunes = runes ins
                     in if deleted = [] \<and> insertRunes = [] then (Inr ([], []), d0)
                        else
                          let (op, d1) = newLocalRunOp d0 ''splice'' txt (length insertRunes);
                              inserted = List.map (run_id (o_id op)) [0..<length insertRunes]
                          in localApply d1
                               (op\<lparr>o_after := after, o_run := ins, o_delruns := compressOpIDRuns deleted\<rparr>)
                               (inserted, deleted)))"

end
