(* ===== verification/Leb128.thy ===== *)
theory Leb128
  imports Gosx_Prelude
begin

unbundle bit_operations_syntax

text \<open>
  Variable-length integers: \<^verbatim>\<open>crdt/encoding/leb128.go\<close> (unsigned LEB128 over \<open>uint64\<close>) and the
  zigzag map of \<^verbatim>\<open>crdt/snapshot.go\<close> that sends signed deltas to unsigned integers. The writer
  and the reader are inverse to each other on every 64-bit value; the reader's overflow test
  looks at the shift only, so a tenth byte may carry bits that are lost.
\<close>

section \<open>Definitions\<close>

lemma unat_drop_bit7: "unat (drop_bit 7 (v :: uint64)) = unat v div 128"
  by (simp only: unat_drop_bit_eq) (simp add: drop_bit_eq_div)

lemma unat_drop_bit7_less: "drop_bit 7 (v :: uint64) \<noteq> 0 \<Longrightarrow> unat (drop_bit 7 v) < unat v"
proof -
  assume "drop_bit 7 v \<noteq> 0"
  then have "unat v div 128 \<noteq> 0"
    by (metis unat_drop_bit7 unat_eq_zero)
  then show "unat (drop_bit 7 v) < unat v"
    by (cases "unat v = 0") (auto simp only: unat_drop_bit7)
qed

datatype leb_error = Uleb_overflow | Uleb_truncated

function appendULEB128 :: "byte list \<Rightarrow> uint64 \<Rightarrow> byte list" where
  "appendULEB128 dst v =
     (let b = ucast (v AND 0x7f) :: byte; v' = drop_bit 7 v in
      if v' \<noteq> 0 then appendULEB128 (dst @ [b OR 0x80]) v'
      else dst @ [b])"
  by pat_completeness auto

termination
  by (relation "measure (\<lambda>(dst, v). unat v)") (auto dest: unat_drop_bit7_less)

declare appendULEB128.simps [simp del]

fun readULEB128_loop :: "uint64 \<Rightarrow> nat \<Rightarrow> nat \<Rightarrow> byte list \<Rightarrow> leb_error + uint64 \<times> nat" where
  "readULEB128_loop v shift i [] = Inl Uleb_truncated"
| "readULEB128_loop v shift i (b # bs) =
     (let v' = v OR push_bit shift (ucast (b AND 0x7f)) in
      if b AND 0x80 = 0 then Inr (v', Suc i)
      else if shift + 7 \<ge> 64 then Inl Uleb_overflow
      else readULEB128_loop v' (shift + 7) (Suc i) bs)"

definition readULEB128 :: "byte list \<Rightarrow> leb_error + uint64 \<times> nat" where
  "readULEB128 src = readULEB128_loop 0 0 0 src"

definition zigzagEncode :: "int64 \<Rightarrow> uint64" where
  "zigzagEncode v = push_bit 1 v XOR signed_drop_bit 63 v"

definition zigzagDecode :: "uint64 \<Rightarrow> int64" where
  "zigzagDecode v = drop_bit 1 v XOR - (v AND 1)"

section \<open>The writer\<close>

lemma appendULEB128_step:
  "drop_bit 7 v \<noteq> 0 \<Longrightarrow>
     appendULEB128 dst v = appendULEB128 (dst @ [ucast (v AND 0x7f) OR 0x80]) (drop_bit 7 v)"
  by (subst appendULEB128.simps) (simp add: Let_def)

lemma appendULEB128_last:
  "drop_bit 7 v = 0 \<Longrightarrow> appendULEB128 dst v = dst @ [ucast (v AND 0x7f)]"
  by (subst appendULEB128.simps) (simp add: Let_def)

lemma appendULEB128_append: "appendULEB128 dst v = dst @ appendULEB128 [] v"
proof (induction "unat v" arbitrary: dst v rule: less_induct)
  case less
  show ?case
  proof (cases "drop_bit 7 v = 0")
    case True
    then show ?thesis by (simp add: appendULEB128_last)
  next
    case False
    note IH = less [OF unat_drop_bit7_less [OF False]]
    show ?thesis
      using IH [of "dst @ [ucast (v AND 0x7f) OR 0x80]"] IH [of "[ucast (v AND 0x7f) OR 0x80]"]
      by (simp add: appendULEB128_step [OF False])
  qed
qed

abbreviation uleb :: "uint64 \<Rightarrow> byte list" where
  "uleb v \<equiv> appendULEB128 [] v"

lemma uleb_step:
  "drop_bit 7 v \<noteq> 0 \<Longrightarrow> uleb v = (ucast (v AND 0x7f) OR 0x80) # uleb (drop_bit 7 v)"
  by (simp add: appendULEB128_step appendULEB128_append [of "[_]"])

lemma uleb_last: "drop_bit 7 v = 0 \<Longrightarrow> uleb v = [ucast (v AND 0x7f)]"
  by (simp add: appendULEB128_last)

lemma uleb_not_Nil [simp]: "uleb v \<noteq> []"
  by (cases "drop_bit 7 v = 0") (simp_all add: uleb_step uleb_last)

section \<open>The round trip\<close>

lemma low7_take_bit:
  "(v :: uint64) AND 0x7f = take_bit 7 v" "(b :: byte) AND 0x7f = take_bit 7 b"
  by (simp_all add: take_bit_eq_mask mask_eq_decr_exp)
lemma high_bit_or: "(b :: byte) OR 0x80 = set_bit 7 b"
  by (simp add: set_bit_eq_or)
lemma high_bit_test: "(b :: byte) AND 0x80 = 0 \<longleftrightarrow> \<not> bit b 7"
  using and_exp_eq_0_iff_not_bit [of b 7] by simp

lemma low7_byte: "(ucast (v AND 0x7f :: uint64) :: byte) AND 0x80 = 0"
  "(ucast (v AND 0x7f :: uint64) OR 0x80 :: byte) AND 0x80 \<noteq> 0"
  "ucast ((ucast (v AND 0x7f) :: byte) AND 0x7f) = (v AND 0x7f :: uint64)"
  "ucast ((ucast (v AND 0x7f) OR 0x80 :: byte) AND 0x7f) = (v AND 0x7f :: uint64)"
  unfolding low7_take_bit high_bit_or high_bit_test
  by (auto simp: bit_simps intro: bit_word_eqI)

lemma push_low7_drop7:
  "push_bit n (v AND 0x7f) OR push_bit (n + 7) (drop_bit 7 v) = push_bit n (v :: uint64)"
  unfolding low7_take_bit
proof (rule bit_word_eqI)
  fix m assume m: "m < LENGTH(64)"
  show "bit (push_bit n (take_bit 7 v) OR push_bit (n + 7) (drop_bit 7 v)) m = bit (push_bit n v) m"
  proof (cases "n \<le> m")
    case True
    then obtain k where "m = n + k" using le_Suc_ex by blast
    with m show ?thesis by (cases "k < 7") (auto simp: bit_simps not_less)
  qed (auto simp: bit_simps)
qed

lemma low7_ident: "drop_bit 7 v = 0 \<Longrightarrow> v AND 0x7f = (v :: uint64)"
  unfolding low7_take_bit  using bits_ident [of 7 v] by simp

lemma readULEB128_loop_uleb:
  assumes "unat v < 2 ^ (64 - s)" and "s < 64"
  shows "readULEB128_loop acc s i (uleb v @ rest)
         = Inr (acc OR push_bit s v, i + length (uleb v))"
  using assms
proof (induction "unat v" arbitrary: v s acc i rule: less_induct)
  case less
  show ?case
  proof (cases "drop_bit 7 v = 0")
    case True
    then have "v AND 0x7f = v" by (rule low7_ident)
    with True show ?thesis
      using low7_byte(1,3) [of v] by (simp add: uleb_last)
  next
    case False
    have "128 \<le> unat v"
      using False unat_drop_bit7 [of v] by (metis div_less not_le unat_eq_zero)
    then have "(2::nat) ^ 7 < 2 ^ (64 - s)" using less.prems by simp
    then have s: "7 < 64 - s" by (simp only: power_strict_increasing_iff) 
    have "2 ^ (64 - s) = (2::nat) ^ (64 - (s + 7)) * 128"
      using s power_add [of "2::nat" "64 - (s + 7)" 7] by simp
    then have "unat (drop_bit 7 v) < 2 ^ (64 - (s + 7))"
      using less.prems(1) unfolding unat_drop_bit7 by (simp add: div_less_iff_less_mult)
    note IH = less.hyps [OF unat_drop_bit7_less [OF False] this]
    let ?b = "ucast (v AND 0x7f) OR 0x80 :: byte"
    have more: "\<not> s + 7 \<ge> 64" using s by linarith
    have "readULEB128_loop acc s i (uleb v @ rest) =
        readULEB128_loop (acc OR push_bit s (ucast (?b AND 0x7f))) (s + 7) (Suc i)
          (uleb (drop_bit 7 v) @ rest)"
      unfolding uleb_step [OF False] append_Cons readULEB128_loop.simps Let_def
      by (simp only: low7_byte(2) more if_False)
    also have "\<dots> = Inr ((acc OR push_bit s (v AND 0x7f)) OR push_bit (s + 7) (drop_bit 7 v),
        Suc i + length (uleb (drop_bit 7 v)))"
      unfolding low7_byte(4) by (rule IH) (use s in linarith)
    also have "\<dots> = Inr (acc OR push_bit s v, i + length (uleb v))"
      unfolding or.assoc push_low7_drop7 by (simp add: uleb_step [OF False])
    finally show ?thesis .
  qed
qed

lemma readULEB128_uleb [simp]:
  "readULEB128 (uleb v @ rest) = Inr (v, length (uleb v))"
  using readULEB128_loop_uleb [of v 0 0 0 rest] unsigned_less [of v]
  by (simp add: readULEB128_def)

lemma bit_sign_spread: "bit (signed_drop_bit 63 (v :: uint64)) n \<longleftrightarrow> n < 64 \<and> bit v 63"
  using bit_imp_le_length [of v "63 + n"]
  by (cases "n = 0") (auto simp: bit_signed_drop_bit_iff Suc_le_eq)

lemma bit_low_spread: "bit (- ((v :: uint64) AND 1)) n \<longleftrightarrow> n < 64 \<and> bit v 0"
proof (cases "bit v 0")
  case True
  then have "v AND 1 = 1" by (simp add: and_one_eq bit_0 odd_iff_mod_2_eq_one)
  then show ?thesis using True by (simp add: bit_minus_1_iff)
next
  case False
  then have "v AND 1 = 0" by (simp add: and_one_eq bit_0 even_iff_mod_2_eq_zero)
  then show ?thesis using False by simp
qed

lemma bit_zigzagEncode:
  "bit (zigzagEncode v) n \<longleftrightarrow> n < 64 \<and> ((0 < n \<and> bit v (n - 1)) \<noteq> bit v 63)"
  by (auto simp only: zigzagEncode_def bit_xor_iff bit_push_bit_iff bit_sign_spread
      possible_bit_word len_of_numeral_defs Suc_le_eq One_nat_def)

lemma bit_zigzagDecode:
  "bit (zigzagDecode v) n \<longleftrightarrow> n < 64 \<and> (bit v (Suc n) \<noteq> bit v 0)"
  using bit_imp_le_length [of v "Suc n"]
  by (auto simp: zigzagDecode_def bit_xor_iff bit_drop_bit_eq bit_low_spread)

lemma zigzagDecode_Encode [simp]: "zigzagDecode (zigzagEncode v) = v"
proof (rule bit_word_eqI)
  fix n assume "n < LENGTH(64)"
  then show "bit (zigzagDecode (zigzagEncode v)) n = bit v n"
    by (cases "n = 63") (auto simp: bit_zigzagEncode bit_zigzagDecode)
qed
lemma zigzagEncode_Decode [simp]: "zigzagEncode (zigzagDecode v) = v"
proof (rule bit_word_eqI)
  fix n assume "n < LENGTH(64)"
  then show "bit (zigzagEncode (zigzagDecode v)) n = bit v n"
    using bit_imp_le_length [of v 64]
    by (cases n) (auto simp: bit_zigzagEncode bit_zigzagDecode)
qed

section \<open>Size\<close>

lemma length_uleb_below: "unat v < 2 ^ (7 * Suc n) \<Longrightarrow> length (uleb v) \<le> Suc n"
proof (induction n arbitrary: v)
  case 0
  then have "unat (drop_bit 7 v) = 0" unfolding unat_drop_bit7 by simp
  then have "drop_bit 7 v = 0" by (simp only: unat_eq_0)
  then show ?case by (simp add: uleb_last)
next
  case (Suc n)
  then have "unat (drop_bit 7 v) < 2 ^ (7 * Suc n)"
    unfolding unat_drop_bit7 by (simp add: less_mult_imp_div_less power_add)
  from Suc.IH [OF this] show ?case
    by (cases "drop_bit 7 v = 0") (simp_all add: uleb_step uleb_last)
qed

lemma length_uleb: "length (uleb v) \<le> 10"
proof -
  have "unat v < 2 ^ 64" using unsigned_less [of v] by simp
  then have "unat v < 2 ^ (7 * Suc 9)" by simp
  from length_uleb_below [OF this] show ?thesis by simp
qed

end
