(* ===== verification/Sha256.thy ===== *)
theory Sha256
  imports Gosx_Prelude
begin

unbundle bit_operations_syntax

text \<open>
  \<open>crypto/sha256.Sum256\<close>, the digest of the change hashes and chunk checksums (FIPS 180-4).
  Only its length matters for the proofs.
\<close>

definition sha_k :: "uint32 list" where
  "sha_k = [1116352408, 1899447441, 3049323471, 3921009573, 961987163, 1508970993, 2453635748,
    2870763221, 3624381080, 310598401, 607225278, 1426881987, 1925078388, 2162078206,
    2614888103, 3248222580, 3835390401, 4022224774, 264347078, 604807628, 770255983,
    1249150122, 1555081692, 1996064986, 2554220882, 2821834349, 2952996808, 3210313671,
    3336571891, 3584528711, 113926993, 338241895, 666307205, 773529912, 1294757372,
    1396182291, 1695183700, 1986661051, 2177026350, 2456956037, 2730485921, 2820302411,
    3259730800, 3345764771, 3516065817, 3600352804, 4094571909, 275423344, 430227734,
    506948616, 659060556, 883997877, 958139571, 1322822218, 1537002063, 1747873779,
    1955562222, 2024104815, 2227730452, 2361852424, 2428436474, 2756734187, 3204031479,
    3329325298]"

definition sha_init :: "uint32 list" where
  "sha_init = [1779033703, 3144134277, 1013904242, 2773480762, 1359893119, 2600822924, 528734635,
    1541459225]"

definition rotr :: "nat \<Rightarrow> uint32 \<Rightarrow> uint32" where
  "rotr n x = drop_bit n x OR push_bit (32 - n) x"

definition be_bytes4 :: "uint32 \<Rightarrow> byte list" where
  "be_bytes4 w = List.map (\<lambda>i. ucast (drop_bit i w)) [24, 16, 8, 0]"

definition be_bytes8 :: "uint64 \<Rightarrow> byte list" where
  "be_bytes8 w = List.map (\<lambda>i. ucast (drop_bit i w)) [56, 48, 40, 32, 24, 16, 8, 0]"

fun be_word :: "byte list \<Rightarrow> uint32" where
  "be_word bs = foldl (\<lambda>w b. push_bit 8 w OR ucast b) 0 bs"

fun chunks_of :: "nat \<Rightarrow> nat \<Rightarrow> 'a list \<Rightarrow> 'a list list" where
  "chunks_of 0 k xs = []"
| "chunks_of (Suc n) k xs = take k xs # chunks_of n k (drop k xs)"

definition sha_pad :: "byte list \<Rightarrow> byte list" where
  "sha_pad m = m @ [0x80] @ replicate ((119 - length m mod 64) mod 64) 0 @ be_bytes8 (word_of_nat (8 * length m))"

fun schedule :: "nat \<Rightarrow> uint32 list \<Rightarrow> uint32 list" where
  "schedule 0 w = w"
| "schedule (Suc n) w =
     (let t = length w;
          a = w ! (t - 15); b = w ! (t - 2);
          s0 = rotr 7 a XOR rotr 18 a XOR drop_bit 3 a;
          s1 = rotr 17 b XOR rotr 19 b XOR drop_bit 10 b
      in schedule n (w @ [w ! (t - 16) + s0 + w ! (t - 7) + s1]))"

fun sha_round :: "uint32 list \<Rightarrow> uint32 \<times> uint32 \<Rightarrow> uint32 list" where
  "sha_round [a, b, c, d, e, f, g, h] (k, w) =
     (let s1 = rotr 6 e XOR rotr 11 e XOR rotr 25 e;
          ch = (e AND f) XOR (NOT e AND g);
          t1 = h + s1 + ch + k + w;
          s0 = rotr 2 a XOR rotr 13 a XOR rotr 22 a;
          maj = (a AND b) XOR (a AND c) XOR (b AND c)
      in [t1 + (s0 + maj), a, b, c, d + t1, e, f, g])"
| "sha_round st kw = st"

definition sha_block :: "uint32 list \<Rightarrow> byte list \<Rightarrow> uint32 list" where
  "sha_block st blk =
     (let w = schedule 48 (List.map be_word (chunks_of 16 4 blk))
      in map2 (+) st (foldl sha_round st (zip sha_k w)))"

definition sha256 :: "byte list \<Rightarrow> byte list" where
  "sha256 m =
     (let p = sha_pad m in
      concat (List.map be_bytes4
        (foldl sha_block sha_init (chunks_of (length p div 64) 64 p))))"

lemma length_sha_round [simp]: "length (sha_round st kw) = length st"
  by (induction st kw rule: sha_round.induct) (auto simp: Let_def)

lemma length_sha_block: "length (sha_block st blk) = length st"
proof -
  have "length (foldl sha_round st' kws) = length st'" for st' kws
    by (induction kws arbitrary: st') auto
  then show ?thesis by (simp add: sha_block_def Let_def)
qed

lemma length_sha256 [simp]: "length (sha256 m) = 32"
proof -
  have "length (foldl sha_block st bs) = length st" for st bs
    by (induction bs arbitrary: st) (auto simp: length_sha_block)
  then have "length (foldl sha_block sha_init bs) = 8" for bs by (simp add: sha_init_def)
  moreover have "length (concat (List.map be_bytes4 ws)) = 4 * length ws"
    for ws :: "uint32 list"
    by (induction ws) (auto simp: be_bytes4_def)
  ultimately show ?thesis by (simp add: sha256_def Let_def)
qed

end
