(* ===== verification/Chunk.thy ===== *)
theory Chunk
  imports Leb128 Sha256
begin

text \<open>
  The container of \<^verbatim>\<open>crdt/encoding/document.go\<close> and \<^verbatim>\<open>change.go\<close>: magic bytes, a chunk type, the
  length of the body in LEB128, four bytes of the SHA-256 digest, and the body.
\<close>

datatype chunk_error =
    Chunk_too_short | Bad_magic | Bad_length_prefix leb_error | Missing_checksum
  | Length_mismatch | Checksum_mismatch | Unexpected_chunk_type byte

definition magicBytes :: "byte list" where "magicBytes = [0x85, 0x6f, 0x4a, 0x83]"

definition documentChunkType :: byte where "documentChunkType = 0x00"
definition changeChunkType :: byte where "changeChunkType = 0x01"
definition compressedChangeChunkType :: byte where "compressedChangeChunkType = 0x02"

definition hashInput :: "byte \<Rightarrow> byte list \<Rightarrow> byte list \<Rightarrow> byte list" where
  "hashInput chunkType len body = [chunkType] @ len @ body"

definition encodeChunk :: "byte \<Rightarrow> byte list \<Rightarrow> byte list" where
  "encodeChunk chunkType body =
     (let len = appendULEB128 [] (word_of_nat (length body));
          checksum = sha256 (hashInput chunkType len body)
      in magicBytes @ [chunkType] @ len @ take 4 checksum @ body)"

text \<open>\<open>int(bodyLen)\<close> reads the length as a signed number.\<close>

definition decodeChunk :: "byte list \<Rightarrow> chunk_error + byte \<times> byte list" where
  "decodeChunk data =
     (if length data < length magicBytes + 1 + 4 then Inl Chunk_too_short
      else if take (length magicBytes) data \<noteq> magicBytes then Inl Bad_magic
      else
        let offset = length magicBytes; chunkType = data ! offset; offset = offset + 1 in
        case readULEB128 (drop offset data) of
          Inl e \<Rightarrow> Inl (Bad_length_prefix e)
        | Inr (bodyLen, n) \<Rightarrow>
            let lengthBytes = take n (drop offset data); offset = offset + n in
            if length (drop offset data) < 4 then Inl Missing_checksum
            else
              let checksum = take 4 (drop offset data); offset = offset + 4 in
              if int (length (drop offset data)) \<noteq> sint bodyLen then Inl Length_mismatch
              else
                let body = drop offset data in
                if checksum \<noteq> take 4 (sha256 (hashInput chunkType lengthBytes body))
                then Inl Checksum_mismatch
                else Inr (chunkType, body))"

definition encodeDocument :: "byte list \<Rightarrow> byte list" where
  "encodeDocument body = encodeChunk documentChunkType body"

definition decodeDocument :: "byte list \<Rightarrow> chunk_error + byte list" where
  "decodeDocument data =
     (case decodeChunk data of
        Inl e \<Rightarrow> Inl e
      | Inr (chunkType, body) \<Rightarrow>
          if chunkType \<noteq> documentChunkType then Inl (Unexpected_chunk_type chunkType) else Inr body)"

definition encodeChange :: "byte list \<Rightarrow> byte list" where
  "encodeChange body = encodeChunk changeChunkType body"

definition decodeChange :: "byte list \<Rightarrow> chunk_error + byte list" where
  "decodeChange data =
     (case decodeChunk data of
        Inl e \<Rightarrow> Inl e
      | Inr (chunkType, body) \<Rightarrow>
          if chunkType \<noteq> changeChunkType \<and> chunkType \<noteq> compressedChangeChunkType
          then Inl (Unexpected_chunk_type chunkType) else Inr body)"

definition changeHash :: "byte list \<Rightarrow> byte list" where
  "changeHash body =
     (let len = appendULEB128 [] (word_of_nat (length body)) in sha256 ([changeChunkType] @ len @ body))"

section \<open>Round trips\<close>

lemma length_changeHash [simp]: "length (changeHash body) = 32"
  by (simp add: changeHash_def Let_def)

lemma decodeChunk_encodeChunk [codec_simps]:
  assumes "length body < 2 ^ 63"
  shows "decodeChunk (encodeChunk t body) = Inr (t, body)"
proof -
  let ?n = "word_of_nat (length body) :: uint64"
  have s: "sint ?n = int (length body)" by (rule sint_word_of_size [OF assms])
  have d: "encodeChunk t body = magicBytes @ t # uleb ?n
      @ take 4 (sha256 (hashInput t (uleb ?n) body)) @ body"
    by (simp add: encodeChunk_def Let_def)
  have skip: "drop (9 + k) (a # b # c # d # e # xs) = drop (4 + k) (xs :: byte list)" for k a b c d e xs
    by (simp add: numeral_eq_Suc)
  show ?thesis
    using s unfolding d by (simp add: decodeChunk_def Let_def magicBytes_def skip)
qed

lemma decodeDocument_encodeDocument:
  "length body < 2 ^ 63 \<Longrightarrow> decodeDocument (encodeDocument body) = Inr body"
  by (simp add: decodeDocument_def encodeDocument_def decodeChunk_encodeChunk)

lemma decodeChange_encodeChange:
  "length body < 2 ^ 63 \<Longrightarrow> decodeChange (encodeChange body) = Inr body"
  by (simp add: decodeChange_def encodeChange_def decodeChunk_encodeChunk)

lemma decodeDocument_of_change:
  "length body < 2 ^ 63 \<Longrightarrow>
     decodeDocument (encodeChange body) = Inl (Unexpected_chunk_type changeChunkType)"
  by (simp add: decodeDocument_def encodeChange_def decodeChunk_encodeChunk
      documentChunkType_def changeChunkType_def)

end
