(* ===== verification/Crdt_Change.thy ===== *)
theory Crdt_Change
  imports Crdt_Doc Chunk
begin

text \<open>
  Reads, commits, remote changes and merges of \<^verbatim>\<open>crdt/doc.go\<close>, and the change chunks of
  \<^verbatim>\<open>crdt/change.go\<close>. \<open>marshal\<close> and \<open>unmarshal\<close> stand for \<open>encoding/json\<close> on a \<open>Change\<close>
  (\<^verbatim>\<open>crdt/json.go\<close>): \<open>marshal\<close> never reads the hash, which the struct tag excludes. The clock is
  an argument. A method that fires the change hooks returns the calls it makes, a list of
  hook and patches.
\<close>

section \<open>Change chunks\<close>

definition encodeChangeChunk ::
  "(gchange \<Rightarrow> byte list option) \<Rightarrow> gchange \<Rightarrow> (byte list \<times> byte list) option" where
  "encodeChangeChunk marshal c =
     (case marshal c of
        None \<Rightarrow> None
      | Some body \<Rightarrow> let hash = changeHash body in Some (encodeChange body, hash))"

datatype change_error = Bad_chunk chunk_error | Bad_body

definition decodeChangeChunk ::
  "(byte list \<Rightarrow> gchange option) \<Rightarrow> byte list \<Rightarrow> change_error + gchange" where
  "decodeChangeChunk unmarshal data =
     (case decodeChange data of
        Inl e \<Rightarrow> Inl (Bad_chunk e)
      | Inr body \<Rightarrow>
          (case unmarshal body of
             None \<Rightarrow> Inl Bad_body
           | Some c \<Rightarrow> Inr (c\<lparr>c_hash := changeHash body\<rparr>)))"

section \<open>Reads\<close>

definition listValue_at :: "crdtObject \<Rightarrow> int \<Rightarrow> (doc_error + gvalue) \<times> crdtObject" where
  "listValue_at t index =
     (case visibleAt (obj_seq t) index of
        (None, s') \<Rightarrow> (Inl (Index_out_of_range index), t\<lparr>obj_seq := s'\<rparr>)
      | (Some elem, s') \<Rightarrow> (Inr (e_value elem), t\<lparr>obj_seq := s'\<rparr>))"

definition Get :: "gdoc \<Rightarrow> string \<Rightarrow> string \<Rightarrow> (gvalue \<times> string) outcome" where
  "Get d obj prop =
     (case objectLocked d obj of
        Inl e \<Rightarrow> (Inl e, d)
      | Inr t \<Rightarrow>
          if obj_kind t = KMap then
            (case fmlookup (obj_map t) prop of
               None \<Rightarrow> (Inl (Prop_not_found prop obj), d)
             | Some entry \<Rightarrow>
                 if me_deleted entry then (Inl (Prop_not_found prop obj), d)
                 else (Inr (me_value entry, v_obj (me_value entry)), d))
          else if listLike (obj_kind t) then
            (case atoi prop of
               None \<Rightarrow> (Inl (Not_an_index prop), d)
             | Some index \<Rightarrow>
                 (case listValue_at t index of
                    (Inl e, t') \<Rightarrow> (Inl e, put_object d obj t')
                  | (Inr v, t') \<Rightarrow> (Inr (v, v_obj v), put_object d obj t')))
          else (Inl (Unknown_kind (obj_kind t)), d))"

definition mapEntryValue :: "crdtObject \<Rightarrow> string \<Rightarrow> (gvalue \<times> string) option" where
  "mapEntryValue t key =
     (case fmlookup (obj_map t) key of
        None \<Rightarrow> None
      | Some entry \<Rightarrow> if me_deleted entry then None else Some (me_value entry, v_obj (me_value entry)))"

definition seqElemValue :: "crdtObject \<Rightarrow> int \<Rightarrow> (gvalue \<times> string) option \<times> crdtObject" where
  "seqElemValue t index =
     (case visibleAt (obj_seq t) index of
        (None, s') \<Rightarrow> (None, t\<lparr>obj_seq := s'\<rparr>)
      | (Some elem, s') \<Rightarrow> (Some (e_value elem, v_obj (e_value elem)), t\<lparr>obj_seq := s'\<rparr>))"

definition Lookup :: "gdoc \<Rightarrow> string \<Rightarrow> string \<Rightarrow> (gvalue \<times> string) option \<times> gdoc" where
  "Lookup d obj prop =
     (case fmlookup (d_objects d) obj of
        None \<Rightarrow> (None, d)
      | Some t \<Rightarrow>
          if obj_kind t = KMap then (mapEntryValue t prop, d)
          else if listLike (obj_kind t) then
            (case atoi prop of
               None \<Rightarrow> (None, d)
             | Some index \<Rightarrow> (let (r, t') = seqElemValue t index in (r, put_object d obj t')))
          else (None, d))"

definition LookupKey :: "gdoc \<Rightarrow> string \<Rightarrow> string \<Rightarrow> (gvalue \<times> string) option" where
  "LookupKey d obj key =
     (case fmlookup (d_objects d) obj of
        None \<Rightarrow> None
      | Some t \<Rightarrow> if obj_kind t \<noteq> KMap then None else mapEntryValue t key)"

definition LookupIndex :: "gdoc \<Rightarrow> string \<Rightarrow> int \<Rightarrow> (gvalue \<times> string) option \<times> gdoc" where
  "LookupIndex d lst index =
     (case fmlookup (d_objects d) lst of
        None \<Rightarrow> (None, d)
      | Some t \<Rightarrow>
          if \<not> listLike (obj_kind t) then (None, d)
          else let (r, t') = seqElemValue t index in (r, put_object d lst t'))"

definition TextToString :: "gdoc \<Rightarrow> string \<Rightarrow> doc_error + string" where
  "TextToString d txt =
     (case objectLocked d txt of
        Inl e \<Rightarrow> Inl e
      | Inr t \<Rightarrow> if \<not> listLike (obj_kind t) then Inl (Not_text txt) else Inr (visibleText (obj_seq t)))"

definition ListLen :: "gdoc \<Rightarrow> string \<Rightarrow> doc_error + int" where
  "ListLen d lst =
     (case objectLocked d lst of
        Inl e \<Rightarrow> Inl e
      | Inr t \<Rightarrow> if \<not> listLike (obj_kind t) then Inl (Not_list_like lst)
               else Inr (visibleLength (obj_seq t)))"

section \<open>Hooks\<close>

type_synonym fired = "(nat \<times> gpatch list) list"

definition fireHooks :: "nat list \<Rightarrow> gpatch list \<Rightarrow> fired" where
  "fireHooks hooks patches =
     (if hooks = [] \<or> patches = [] then [] else List.map (\<lambda>h. (h, patches)) hooks)"

definition OnChange :: "gdoc \<Rightarrow> nat \<Rightarrow> gdoc" where
  "OnChange d hook = d\<lparr>d_hooks := d_hooks d @ [hook]\<rparr>"

section \<open>Commit\<close>

text \<open>\<open>commitPending\<close> returns the hooks, the patches and the hash.\<close>

definition commitPending ::
  "(gchange \<Rightarrow> byte list option) \<Rightarrow> gtime \<Rightarrow> gdoc \<Rightarrow> string \<Rightarrow> string \<Rightarrow>
   (nat list \<times> gpatch list \<times> byte list) outcome" where
  "commitPending marshal now d msg changeGroupID =
     (if d_pending d = [] then (Inr ([], [], zeroHash), d)
      else
        let group' = (if changeGroupID = []
                      then actor_String (d_actor d) @ '':'' @ formatUint (d_seq d + 1)
                      else changeGroupID);
            change = \<lparr>c_hash = zeroHash, c_actor = actor_String (d_actor d), c_seq = d_seq d + 1,
              c_deps = d_deps d, c_start = op_counter (o_id (hd (d_pending d))), c_time = now,
              c_msg = msg, c_group = group', c_ops = d_pending d\<rparr>
        in case encodeChangeChunk marshal change of
          None \<Rightarrow> (Inl Encode_change, d)
        | Some (chunk, hash) \<Rightarrow>
            let change' = change\<lparr>c_hash := hash\<rparr>
            in (Inr (d_hooks d, d_patches d, hash),
                d\<lparr>d_seq := c_seq change', d_changes := d_changes d @ [change'],
                  d_index := (d_index d)(hash_String hash \<mapsto> change'), d_deps := [hash],
                  d_pending := [], d_patches := []\<rparr>))"

definition CommitWithGroup ::
  "(gchange \<Rightarrow> byte list option) \<Rightarrow> gtime \<Rightarrow> gdoc \<Rightarrow> string \<Rightarrow> string \<Rightarrow> (byte list \<times> fired) outcome" where
  "CommitWithGroup marshal now d msg changeGroupID =
     (case commitPending marshal now d msg changeGroupID of
        (Inl e, d') \<Rightarrow> (Inl e, d')
      | (Inr (hooks, patches, hash), d') \<Rightarrow> (Inr (hash, fireHooks hooks patches), d'))"

definition Commit ::
  "(gchange \<Rightarrow> byte list option) \<Rightarrow> gtime \<Rightarrow> gdoc \<Rightarrow> string \<Rightarrow> (byte list \<times> fired) outcome" where
  "Commit marshal now d msg = CommitWithGroup marshal now d msg []"

section \<open>Remote changes\<close>

definition missingDeps :: "gdoc \<Rightarrow> gchange \<Rightarrow> byte list list" where
  "missingDeps d c = filter (\<lambda>dep. d_index d (hash_String dep) = None) (c_deps c)"

text \<open>
  \<open>heads\<close> is a Go map keyed by the hash string, read out sorted by key; here a list of heads
  with distinct keys.
\<close>

definition head_put :: "byte list \<Rightarrow> byte list list \<Rightarrow> byte list list" where
  "head_put h hs = h # filter (\<lambda>x. hash_String x \<noteq> hash_String h) hs"

definition head_delete :: "byte list \<Rightarrow> byte list list \<Rightarrow> byte list list" where
  "head_delete h hs = filter (\<lambda>x. hash_String x \<noteq> hash_String h) hs"

definition mergeHeads :: "gdoc \<Rightarrow> gchange \<Rightarrow> byte list list" where
  "mergeHeads d c =
     (let heads = fold head_put (d_deps d) [];
          heads = fold head_delete (c_deps c) heads;
          heads = head_put (c_hash c) heads
      in sort_key hash_String heads)"

definition max_counter :: "gop \<Rightarrow> uint64" where
  "max_counter op =
     (if o_action op = ''splice'' then
        let runLength = word_of_nat (length (runes (o_run op))) in
        if runLength > 1 then op_counter (o_id op) + (runLength - 1) else op_counter (o_id op)
      else op_counter (o_id op))"

text \<open>The loop over the operations; it stops at the first one that fails.\<close>

fun apply_ops :: "gdoc \<Rightarrow> gop list \<Rightarrow> gpatch list \<Rightarrow> gpatch list outcome" where
  "apply_ops d [] patches = (Inr patches, d)"
| "apply_ops d (op # ops) patches =
     (case applyOp d op of
        (Inl e, d') \<Rightarrow> (Inl e, d')
      | (Inr patch, d') \<Rightarrow>
          apply_ops (if max_counter op > d_maxOp d' then d'\<lparr>d_maxOp := max_counter op\<rparr> else d')
            ops (patches @ [patch]))"

definition record_change :: "gdoc \<Rightarrow> gchange \<Rightarrow> gdoc" where
  "record_change d c =
     (let d1 = d\<lparr>d_changes := d_changes d @ [c], d_index := (d_index d)(hash_String (c_hash c) \<mapsto> c)\<rparr>
      in d1\<lparr>d_deps := mergeHeads d1 c\<rparr>)"

definition applyRemoteChange ::
  "(gchange \<Rightarrow> byte list option) \<Rightarrow> gdoc \<Rightarrow> gchange \<Rightarrow> gpatch list outcome" where
  "applyRemoteChange marshal d change =
     (case (if c_hash change = zeroHash then map_option snd (encodeChangeChunk marshal change)
            else Some (c_hash change)) of
        None \<Rightarrow> (Inl Encode_change, d)
      | Some hash \<Rightarrow>
          let c = change\<lparr>c_hash := hash\<rparr> in
          (case apply_ops d (c_ops c) [] of
             (Inl e, d') \<Rightarrow> (Inl e, d')
           | (Inr patches, d') \<Rightarrow> (Inr patches, record_change d' c)))"

section \<open>Merge\<close>

definition merge_order :: "gchange list \<Rightarrow> gchange list" where
  "merge_order cs = sort_key (\<lambda>c. (c_start c, hash_String (c_hash c))) cs"

fun merge_changes ::
  "(gchange \<Rightarrow> byte list option) \<Rightarrow> gdoc \<Rightarrow> gchange list \<Rightarrow> gpatch list \<Rightarrow> gpatch list outcome" where
  "merge_changes marshal d [] patches = (Inr patches, d)"
| "merge_changes marshal d (c # cs) patches =
     (if d_index d (hash_String (c_hash c)) \<noteq> None then merge_changes marshal d cs patches
      else case applyRemoteChange marshal d c of
        (Inl e, d') \<Rightarrow> (Inl e, d')
      | (Inr applied, d') \<Rightarrow> merge_changes marshal d' cs (patches @ applied))"

definition Merge :: "(gchange \<Rightarrow> byte list option) \<Rightarrow> gdoc \<Rightarrow> gdoc \<Rightarrow> fired outcome" where
  "Merge marshal d other =
     (case merge_changes marshal d (merge_order (d_changes other)) [] of
        (Inl e, d') \<Rightarrow> (Inl e, d')
      | (Inr patches, d') \<Rightarrow> (Inr (fireHooks (d_hooks d') patches), d'))"

section \<open>Loading order\<close>

text \<open>
  \<open>orderListElems\<close> and \<open>normalizeSeqOrder\<close>, which repair the element order of a decoded
  list. \<open>walk\<close> visits the children of a reference from the newest identity to the oldest; the
  nesting of calls is bounded by the number of elements, which is the fuel given.
\<close>

definition children_of :: "listElem list \<Rightarrow> string \<Rightarrow> listElem list" where
  "children_of elems after = rev (sort_key e_id (filter (\<lambda>e. e_after e = after) elems))"

text \<open>The pair is the visited set and the order so far.\<close>

fun walk :: "nat \<Rightarrow> listElem list \<Rightarrow> string \<Rightarrow> string list \<times> listElem list \<Rightarrow> string list \<times> listElem list" where
  "walk 0 elems after st = st"
| "walk (Suc fuel) elems after st =
     foldl (\<lambda>(visited, out) child.
         if opid_String (e_id child) \<in> set visited then (visited, out)
         else walk fuel elems (opid_String (e_id child))
                (opid_String (e_id child) # visited, out @ [child]))
       st (children_of elems after)"

definition orderListElems :: "listElem list \<Rightarrow> listElem list" where
  "orderListElems elems =
     (let fuel = Suc (length elems);
          (visited, ordered) = walk fuel elems [] ([], [])
      in if length ordered = length elems then ordered
         else
           let remaining = sort_key (\<lambda>e. (e_after e, e_id e))
                 (filter (\<lambda>e. opid_String (e_id e) \<notin> set visited) elems)
           in snd (foldl (\<lambda>(visited, out) e.
                if opid_String (e_id e) \<in> set visited then (visited, out)
                else walk fuel elems (opid_String (e_id e))
                       (opid_String (e_id e) # visited, out @ [e]))
              (visited, ordered) remaining))"

definition normalizeSeqOrder :: "elemSeq \<Rightarrow> elemSeq" where
  "normalizeSeqOrder s =
     (if seq_length s < 2 then s
      else
        let elems = seq_elems s; ordered = orderListElems elems in
        if length ordered \<noteq> length elems then s
        else if List.map e_id ordered = List.map e_id elems then s
        else seq_reset s ordered)"

end
