(* ===== verification/Crdt_Seq_Correct.thy ===== *)
theory Crdt_Seq_Correct
  imports Crdt_Seq
begin

text \<open>
  The invariant of the element index and the proof that its operations implement the list of
  elements in document order: lookups by identity and by visible index, the ordered insert,
  the tombstone flip, the block split and the reload.
\<close>

section \<open>The abstraction and the invariant\<close>

definition blocks_of :: "elemSeq \<Rightarrow> listElem list list" where
  "blocks_of s = List.map (\<lambda>a. b_elems (s_store s ! a)) (s_blocks s)"

definition shown :: "listElem list \<Rightarrow> listElem list" where
  "shown es = filter (\<lambda>e. \<not> e_deleted e) es"

text \<open>Number of elements before block \<open>i\<close>.\<close>

definition offset :: "elemSeq \<Rightarrow> nat \<Rightarrow> nat" where
  "offset s i = length (concat (take i (blocks_of s)))"

definition seq_core :: "elemSeq \<Rightarrow> bool" where
  "seq_core s \<longleftrightarrow>
     s_blocks s \<noteq> [] \<and> distinct (s_blocks s) \<and> (\<forall>a \<in> set (s_blocks s). a < length (s_store s)) \<and>
     (\<forall>i < length (s_blocks s). b_pos (blk s i) = i \<and>
        b_visible (blk s i) = count_visible (b_elems (blk s i))) \<and>
     (\<forall>oid a. s_byID s oid = Some a \<longleftrightarrow>
        (\<exists>i < length (s_blocks s). s_blocks s ! i = a \<and> oid \<in> e_id ` set (b_elems (blk s i)))) \<and>
     distinct (List.map e_id (seq_elems s)) \<and>
     s_total s = int (length (seq_elems s)) \<and> s_vis s = count_visible (seq_elems s) \<and>
     (t_dirty (s_tree s) \<or> tree_ok (s_tree s) (block_counts s))"

definition block_sizes :: "elemSeq \<Rightarrow> bool" where
  "block_sizes s \<longleftrightarrow> (\<forall>i < length (s_blocks s). length (b_elems (blk s i)) < seqBlockMax)"

definition seq_inv :: "elemSeq \<Rightarrow> bool" where
  "seq_inv s \<longleftrightarrow> seq_core s \<and> block_sizes s"

lemma foldl_append_concat: "foldl (\<lambda>out a. out @ f a) acc xs = acc @ concat (List.map f xs)"
  by (induction xs arbitrary: acc) auto

lemma seq_elems_concat [seq_simps]: "seq_elems s = concat (blocks_of s)"
  by (simp add: seq_elems_def blocks_of_def foldl_append_concat)

lemma length_blocks_of [simp]: "length (blocks_of s) = length (s_blocks s)"
  by (simp add: blocks_of_def)

lemma blocks_of_nth [simp]: "i < length (s_blocks s) \<Longrightarrow> blocks_of s ! i = b_elems (blk s i)"
  by (simp add: blocks_of_def blk_def)

lemma length_block_counts [simp]: "length (block_counts s) = length (s_blocks s)"
  by (simp add: block_counts_def)

lemma block_counts_nth [simp]:
  "i < length (s_blocks s) \<Longrightarrow> block_counts s ! i = b_visible (blk s i)"
  by (simp add: block_counts_def blk_def)

lemma count_visible_shown: "count_visible es = int (length (shown es))"
proof -
  have "foldl (\<lambda>n e. if \<not> e_deleted e then n + 1 else n) k es = k + int (length (shown es))" for k
    by (induction es arbitrary: k) (auto simp: shown_def)
  then show ?thesis by (simp add: count_visible_def)
qed

lemma shown_simps [simp]:
  "shown [] = []" "shown (xs @ ys) = shown xs @ shown ys"
  "shown (e # es) = (if e_deleted e then shown es else e # shown es)"
  by (simp_all add: shown_def)

lemma count_visible_simps [simp]:
  "count_visible [] = 0" "count_visible (xs @ ys) = count_visible xs + count_visible ys"
  "count_visible (e # es) = (if e_deleted e then 0 else 1) + count_visible es"
  by (simp_all add: count_visible_shown)

lemma count_visible_nonneg [simp]: "0 \<le> count_visible es"
  by (simp add: count_visible_shown)

lemma index_ids_eq: "index_ids m es a = (\<lambda>oid. if oid \<in> e_id ` set es then Some a else m oid)"
  unfolding index_ids_def by (induction es arbitrary: m) (auto simp: fun_eq_iff)

text \<open>The position of an element of a block in document order.\<close>

lemma seq_elems_at:
  assumes "i < length (s_blocks s)" "k \<le> length (b_elems (blk s i))"
  shows "take (offset s i + k) (seq_elems s) = concat (take i (blocks_of s)) @ take k (b_elems (blk s i))"
    and "drop (offset s i + k) (seq_elems s)
         = drop k (b_elems (blk s i)) @ concat (drop (Suc i) (blocks_of s))"
  using take_concat_add [of i "blocks_of s" k] assms
  by (simp_all add: seq_elems_concat offset_def)

lemma seq_elems_nth:
  assumes "i < length (s_blocks s)" "k < length (b_elems (blk s i))"
  shows "offset s i + k < length (seq_elems s)" and "seq_elems s ! (offset s i + k) = b_elems (blk s i) ! k"
proof -
  have 1: "drop (offset s i + k) (seq_elems s) = b_elems (blk s i) ! k # drop (Suc k) (b_elems (blk s i))
      @ concat (drop (Suc i) (blocks_of s))"
    using seq_elems_at(2) [of i s k] assms by (simp add: Cons_nth_drop_Suc [symmetric])
  then show 2: "offset s i + k < length (seq_elems s)"
    by (metis drop_all list.distinct(1) not_le)
  show "seq_elems s ! (offset s i + k) = b_elems (blk s i) ! k"
    using 1 Cons_nth_drop_Suc [OF 2] by simp
qed

lemma prefix_of_counts:
  assumes "\<forall>i < length (s_blocks s). b_visible (blk s i) = count_visible (b_elems (blk s i))"
  shows "k \<le> length (s_blocks s) \<Longrightarrow>
    prefix_of (block_counts s) k = count_visible (concat (take k (blocks_of s)))"
proof (induction k)
  case (Suc k)
  then show ?case
    using assms by (simp add: prefix_of_def take_Suc_conv_app_nth)
qed (simp add: prefix_of_def)

section \<open>Lookup by identity\<close>

lemma find_off_Some: "find_off oid es = Some k \<Longrightarrow> k < length es \<and> e_id (es ! k) = oid"
  by (induction es arbitrary: k) (auto split: if_splits)

lemma find_off_None: "find_off oid es = None \<longleftrightarrow> oid \<notin> e_id ` set es"
  by (induction es) auto

lemma core_vis [seq_simps]: "seq_core s \<Longrightarrow> s_vis s = count_visible (seq_elems s)"
  by (simp add: seq_core_def)

lemma core_distinct: "seq_core s \<Longrightarrow> distinct (List.map e_id (seq_elems s))"
  by (simp add: seq_core_def)

lemma core_pos: "seq_core s \<Longrightarrow> i < length (s_blocks s) \<Longrightarrow> b_pos (blk s i) = i"
  by (simp add: seq_core_def)

lemma core_visible:
  "seq_core s \<Longrightarrow> i < length (s_blocks s) \<Longrightarrow> b_visible (blk s i) = count_visible (b_elems (blk s i))"
  by (simp add: seq_core_def)

lemma core_blocks:
  "seq_core s \<Longrightarrow> s_blocks s \<noteq> []" "seq_core s \<Longrightarrow> distinct (s_blocks s)"
  "seq_core s \<Longrightarrow> i < length (s_blocks s) \<Longrightarrow> s_blocks s ! i < length (s_store s)"
  by (simp_all add: seq_core_def)

lemma core_tree: "seq_core s \<Longrightarrow> t_dirty (s_tree s) \<or> tree_ok (s_tree s) (block_counts s)"
  by (simp add: seq_core_def)

lemma core_byID:
  "seq_core s \<Longrightarrow> s_byID s oid = Some a \<longleftrightarrow>
     (\<exists>i < length (s_blocks s). s_blocks s ! i = a \<and> oid \<in> e_id ` set (b_elems (blk s i)))"
  by (simp add: seq_core_def)

lemma locate_Some:
  assumes "seq_core s" "locate s oid = Some (a, off)"
  obtains i where "i < length (s_blocks s)" "a = s_blocks s ! i" "b_pos (s_store s ! a) = i"
    "off < length (b_elems (blk s i))" "e_id (b_elems (blk s i) ! off) = oid"
    "s_store s ! a = blk s i"
proof -
  from assms(2) have a: "s_byID s oid = Some a" and off: "find_off oid (b_elems (s_store s ! a)) = Some off"
    by (auto simp: locate_def split: option.splits)
  then obtain i where i: "i < length (s_blocks s)" "s_blocks s ! i = a"
    using core_byID [OF assms(1)] by blast
  have st: "s_store s ! a = blk s i" using i(2) by (simp only: blk_def)
  show ?thesis
  proof (rule that [of i])
    show "b_pos (s_store s ! a) = i" using core_pos [OF assms(1) i(1)] by (simp only: st)
    show "off < length (b_elems (blk s i))" "e_id (b_elems (blk s i) ! off) = oid"
      using find_off_Some [OF off] by (simp_all only: st)
  qed (simp_all only: i st)
qed

lemma ids_in_block:
  "oid \<in> e_id ` set (seq_elems s) \<longleftrightarrow>
     (\<exists>i < length (s_blocks s). oid \<in> e_id ` set (b_elems (blk s i)))"
proof -
  have "set (seq_elems s) = (\<Union>i < length (s_blocks s). set (b_elems (blk s i)))"
    by (auto simp: seq_elems_concat set_conv_nth [of "blocks_of s"])
  then show ?thesis by auto
qed

lemma locate_None:
  assumes "seq_core s"
  shows "locate s oid = None \<longleftrightarrow> oid \<notin> e_id ` set (seq_elems s)"
proof (cases "s_byID s oid")
  case None
  then show ?thesis
    using core_byID [OF assms, of oid] ids_in_block [of oid s] by (force simp: locate_def)
next
  case (Some a)
  then obtain i where i: "i < length (s_blocks s)" "s_blocks s ! i = a"
    "oid \<in> e_id ` set (b_elems (blk s i))"
    using core_byID [OF assms] by blast
  then have "find_off oid (b_elems (s_store s ! a)) \<noteq> None"
    by (simp add: find_off_None blk_def)
  then show ?thesis using Some i ids_in_block [of oid s] by (auto simp: locate_def)
qed

lemma seq_contains_iff [seq_simps]:
  "seq_core s \<Longrightarrow> seq_contains s oid \<longleftrightarrow> oid \<in> e_id ` set (seq_elems s)"
  by (simp add: seq_contains_def locate_None)

section \<open>Lookup by visible index\<close>

definition vindex :: "opid \<Rightarrow> listElem list \<Rightarrow> nat" where
  "vindex oid es = length (takeWhile (\<lambda>e. e_id e \<noteq> oid) (shown es))"

lemma vindex_at:
  assumes "distinct (List.map e_id es)" "p < length es" "\<not> e_deleted (es ! p)"
  shows "int (vindex (e_id (es ! p)) es) = count_visible (take p es)"
proof -
  have es: "es = take p es @ es ! p # drop (Suc p) es"
    using assms(2) by (rule id_take_nth_drop)
  then have "distinct (List.map e_id (take p es @ es ! p # drop (Suc p) es))"
    using assms(1) by simp
  then have "e_id (es ! p) \<notin> e_id ` set (take p es)" by simp
  then have "\<forall>e \<in> set (shown (take p es)). e_id e \<noteq> e_id (es ! p)"
    unfolding shown_def by (metis filter_is_subset image_eqI subsetD)
  moreover have "shown es = shown (take p es) @ es ! p # shown (drop (Suc p) es)"
    using es assms(3) by (metis shown_simps(2,3))
  ultimately show ?thesis
    by (simp add: vindex_def count_visible_shown takeWhile_append2)
qed

lemma vindex_absent:
  assumes "\<And>e. e \<in> set es \<Longrightarrow> e_id e = oid \<Longrightarrow> e_deleted e"
  shows "int (vindex oid es) = count_visible es"
proof -
  have "\<forall>e \<in> set (shown es). e_id e \<noteq> oid" using assms by (auto simp: shown_def)
  then have "takeWhile (\<lambda>e. e_id e \<noteq> oid) (shown es) = shown es"
    by (simp only: takeWhile_eq_all_conv)
  then show ?thesis by (simp only: vindex_def count_visible_shown)
qed

lemma ensure_tree_sel [simp]:
  "s_store (ensure_tree s) = s_store s" "s_blocks (ensure_tree s) = s_blocks s"
  "s_byID (ensure_tree s) = s_byID s" "s_total (ensure_tree s) = s_total s"
  "s_vis (ensure_tree s) = s_vis s"
  by (simp_all add: ensure_tree_def)

lemma ensure_tree_views [simp]:
  "seq_elems (ensure_tree s) = seq_elems s" "blk (ensure_tree s) = blk s"
  "block_counts (ensure_tree s) = block_counts s" "blocks_of (ensure_tree s) = blocks_of s"
  by (simp_all add: seq_elems_def blk_def block_counts_def blocks_of_def fun_eq_iff)

lemma ensure_tree_ok:
  "seq_core s \<Longrightarrow> tree_ok (s_tree (ensure_tree s)) (block_counts s)"
  by (simp add: seq_core_def ensure_tree_def tree_ensure_ok)

lemma ensure_tree_core: "seq_core s \<Longrightarrow> seq_core (ensure_tree s)"
  using ensure_tree_ok [of s] by (simp add: seq_core_def)

lemma ensure_tree_inv: "seq_inv s \<Longrightarrow> seq_inv (ensure_tree s)"
  by (simp add: seq_inv_def block_sizes_def ensure_tree_core)

lemma visibleIndexOf_state: "snd (visibleIndexOf s oid) = s \<or> snd (visibleIndexOf s oid) = ensure_tree s"
  by (auto simp: visibleIndexOf_def Let_def split: option.splits)

lemma core_pos_visible:
  assumes "seq_core s"
  shows "\<forall>i < length (s_blocks s). b_visible (blk s i) = count_visible (b_elems (blk s i))"
  using assms by (simp add: seq_core_def)

lemma distinct_ids_eq:
  "distinct (List.map e_id es) \<Longrightarrow> e \<in> set es \<Longrightarrow> f \<in> set es \<Longrightarrow> e_id e = e_id f \<Longrightarrow> e = f"
  by (metis distinct_map inj_on_def)

lemma visibleIndexOf_eq [seq_simps]:
  assumes "seq_core s"
  shows "fst (visibleIndexOf s oid) = int (vindex oid (seq_elems s))"
proof (cases "locate s oid")
  case None
  then have "oid \<notin> e_id ` set (seq_elems s)" using locate_None [OF assms] by simp
  then have "int (vindex oid (seq_elems s)) = count_visible (seq_elems s)"
    by (intro vindex_absent) auto
  then show ?thesis using None core_vis [OF assms] by (simp add: visibleIndexOf_def)
next
  case (Some r)
  obtain a off where r: "locate s oid = Some (a, off)" using Some by (cases r) auto
  from assms r obtain i where i: "i < length (s_blocks s)" "a = s_blocks s ! i"
    "b_pos (s_store s ! a) = i" "off < length (b_elems (blk s i))"
    "e_id (b_elems (blk s i) ! off) = oid" "s_store s ! a = blk s i" by (rule locate_Some)
  define p where "p = offset s i + off"
  have p: "p < length (seq_elems s)" "seq_elems s ! p = b_elems (blk s i) ! off"
    using seq_elems_nth [OF i(1,4)] by (simp_all add: p_def)
  have dist: "distinct (List.map e_id (seq_elems s))" using assms by (simp add: seq_core_def)
  show ?thesis
  proof (cases "e_deleted (b_elems (blk s i) ! off)")
    case True
    have "e_deleted e" if "e \<in> set (seq_elems s)" "e_id e = oid" for e
      using distinct_ids_eq [OF dist that(1) nth_mem [OF p(1)]] p(2) that i(5) True by simp
    then have "int (vindex oid (seq_elems s)) = count_visible (seq_elems s)"
      by (rule vindex_absent)
    then show ?thesis
      using core_vis [OF assms] r i True by (simp add: visibleIndexOf_def Let_def)
  next
    case False
    have "prefixSum (s_tree (ensure_tree s)) i = count_visible (concat (take i (blocks_of s)))"
      using prefixSum_ok [OF ensure_tree_ok [OF assms], of i] i(1)
        prefix_of_counts [OF core_pos_visible [OF assms], of i] by simp
    moreover have "take p (seq_elems s) = concat (take i (blocks_of s)) @ take off (b_elems (blk s i))"
      using seq_elems_at(1) [of i s off] i by (simp add: p_def)
    ultimately show ?thesis
      using vindex_at [OF dist p(1)] p(2) r i False
      by (simp add: visibleIndexOf_def Let_def)
  qed
qed

lemma scan_visible_Some:
  assumes "0 \<le> r" "r < count_visible es"
  shows "\<exists>k. scan_visible es i r = Some (i + k) \<and> k < length es \<and> \<not> e_deleted (es ! k)
           \<and> count_visible (take k es) = r"
  using assms
proof (induction es arbitrary: i r)
  case (Cons e es)
  consider (del) "e_deleted e" | (hit) "\<not> e_deleted e" "r = 0" | (more) "\<not> e_deleted e" "0 < r"
    using Cons.prems by linarith
  then show ?case
  proof cases
    case del
    then obtain k where "scan_visible es (Suc i) r = Some (Suc i + k)" "k < length es"
      "\<not> e_deleted (es ! k)" "count_visible (take k es) = r"
      using Cons.IH [of r "Suc i"] Cons.prems by auto
    with del show ?thesis by (intro exI [of _ "Suc k"]) simp
  next
    case hit
    then show ?thesis by (intro exI [of _ 0]) simp
  next
    case more
    then obtain k where "scan_visible es (Suc i) (r - 1) = Some (Suc i + k)" "k < length es"
      "\<not> e_deleted (es ! k)" "count_visible (take k es) = r - 1"
      using Cons.IH [of "r - 1" "Suc i"] Cons.prems by auto
    with more show ?thesis by (intro exI [of _ "Suc k"]) simp
  qed
qed simp

lemma shown_nth:
  assumes "p < length es" "\<not> e_deleted (es ! p)"
  shows "shown es ! length (shown (take p es)) = es ! p"
  using assms id_take_nth_drop [OF assms(1)] by (metis nth_append_length shown_simps(2,3))

lemma blockAtVisible_Some:
  assumes "seq_core s" "0 \<le> index" "index < s_vis s"
  obtains bi off where "blockAtVisible s index = (Some (s_blocks s ! bi, off), ensure_tree s)"
    "bi < length (s_blocks s)" "off < length (b_elems (blk s bi))"
    "\<not> e_deleted (b_elems (blk s bi) ! off)"
    "count_visible (take (offset s bi + off) (seq_elems s)) = index"
proof -
  note pc = prefix_of_counts [OF core_pos_visible [OF assms(1)]]
  have "index < prefix_of (block_counts s) (length (block_counts s))"
    using assms pc [of "length (s_blocks s)"] by (simp add: seq_core_def seq_elems_concat)
  with assms(2) obtain bi where bi: "tree_search (s_tree (ensure_tree s)) index
      = (bi, index - prefix_of (block_counts s) bi)" "bi < length (s_blocks s)"
      "prefix_of (block_counts s) bi \<le> index" "index < prefix_of (block_counts s) (Suc bi)"
    using tree_search_ok [OF ensure_tree_ok [OF assms(1)], of index] by (metis length_block_counts)
  have "prefix_of (block_counts s) (Suc bi)
        = prefix_of (block_counts s) bi + count_visible (b_elems (blk s bi))"
    using bi(2) core_pos_visible [OF assms(1)] by (simp add: prefix_of_def)
  then obtain off where off: "scan_visible (b_elems (blk s bi)) 0 (index - prefix_of (block_counts s) bi)
      = Some (0 + off)" "off < length (b_elems (blk s bi))" "\<not> e_deleted (b_elems (blk s bi) ! off)"
      "count_visible (take off (b_elems (blk s bi))) = index - prefix_of (block_counts s) bi"
    using scan_visible_Some [of "index - prefix_of (block_counts s) bi" "b_elems (blk s bi)" 0] bi
    by auto
  have "count_visible (take (offset s bi + off) (seq_elems s)) = index"
    using seq_elems_at(1) [of bi s off] off pc [of bi] bi(2) by simp
  then show ?thesis
    using that [of bi off] bi off by (simp add: blockAtVisible_def Let_def)
qed

lemma blockAtVisible_state: "snd (blockAtVisible s index) = ensure_tree s"
  by (simp add: blockAtVisible_def Let_def split: prod.splits)

lemma visibleAt_eq [seq_simps]:
  assumes "seq_core s"
  shows "fst (visibleAt s index) =
    (if 0 \<le> index \<and> index < s_vis s then Some (shown (seq_elems s) ! nat index) else None)"
proof (cases "0 \<le> index \<and> index < s_vis s")
  case True
  then obtain bi off where b: "blockAtVisible s index = (Some (s_blocks s ! bi, off), ensure_tree s)"
    "bi < length (s_blocks s)" "off < length (b_elems (blk s bi))"
    "\<not> e_deleted (b_elems (blk s bi) ! off)"
    "count_visible (take (offset s bi + off) (seq_elems s)) = index"
    using blockAtVisible_Some [OF assms] by blast
  have "shown (seq_elems s) ! length (shown (take (offset s bi + off) (seq_elems s)))
        = b_elems (blk s bi) ! off"
    using shown_nth [of "offset s bi + off" "seq_elems s"] seq_elems_nth [OF b(2,3)] b(4) by simp
  moreover have "length (shown (take (offset s bi + off) (seq_elems s))) = nat index"
    using b(5) by (simp add: count_visible_shown)
  ultimately show ?thesis
    using True b by (simp add: visibleAt_def Let_def) (simp add: blk_def)
qed (auto simp: visibleAt_def)

lemma visibleAt_state: "snd (visibleAt s index) = s \<or> snd (visibleAt s index) = ensure_tree s"
  using blockAtVisible_state [of s index] by (auto simp: visibleAt_def split: prod.splits)

lemma visibleIDAt_eq [seq_simps]:
  "seq_core s \<Longrightarrow> fst (visibleIDAt s index) =
    (if 0 \<le> index \<and> index < s_vis s then Some (e_id (shown (seq_elems s) ! nat index)) else None)"
  using visibleAt_eq [of s index] by (auto simp: visibleIDAt_def split: prod.splits)

lemma visibleIDAt_state: "snd (visibleIDAt s index) = s \<or> snd (visibleIDAt s index) = ensure_tree s"
  using visibleAt_state [of s index] by (auto simp: visibleIDAt_def split: prod.splits)

end
