(* ===== verification/Commuting.thy ===== *)
theory Commuting
  imports Main
begin

text \<open>
  Steps that commute whenever both can be taken: the argument that two replicas which apply
  the same steps, each in an order that respects the preconditions, end in the same state.
  The precondition carries the causality (a step needs what earlier steps created), so no
  separate happened-before relation is needed.
\<close>

fun steps_valid :: "('s \<Rightarrow> 'o \<Rightarrow> 's) \<Rightarrow> ('s \<Rightarrow> 'o \<Rightarrow> bool) \<Rightarrow> 's \<Rightarrow> 'o list \<Rightarrow> bool" where
  "steps_valid step pre s [] = True"
| "steps_valid step pre s (a # as) = (pre s a \<and> steps_valid step pre (step s a) as)"

lemma steps_valid_append [simp]:
  "steps_valid step pre s (as @ bs) \<longleftrightarrow>
     steps_valid step pre s as \<and> steps_valid step pre (foldl step s as) bs"
  by (induction as arbitrary: s) auto

locale commuting_steps =
  fixes step :: "'s \<Rightarrow> 'o \<Rightarrow> 's"
    and pre :: "'s \<Rightarrow> 'o \<Rightarrow> bool"
    and compat :: "'o \<Rightarrow> 'o \<Rightarrow> bool"
  assumes compat_sym: "compat a b \<Longrightarrow> compat b a"
    and pre_step: "pre s a \<Longrightarrow> pre s b \<Longrightarrow> compat a b \<Longrightarrow> pre (step s b) a"
    and step_commute: "pre s a \<Longrightarrow> pre s b \<Longrightarrow> compat a b \<Longrightarrow> step (step s a) b = step (step s b) a"
begin

lemma step_past:
  assumes "steps_valid step pre s bs" "pre s a" "\<forall>b \<in> set bs. compat a b"
  shows "pre (foldl step s bs) a \<and> steps_valid step pre (step s a) bs \<and>
    foldl step (step s a) bs = step (foldl step s bs) a"
  using assms
proof (induction bs arbitrary: s)
  case (Cons b bs)
  then have b: "pre s b" "compat a b" and bs: "steps_valid step pre (step s b) bs" by simp_all
  then have "pre (step s b) a" "pre (step s a) b" "step (step s a) b = step (step s b) a"
    using Cons.prems(2) pre_step step_commute compat_sym by blast+
  then show ?case using Cons.IH [OF bs] Cons.prems(3) by simp
qed simp

text \<open>Two blocks of steps commute.\<close>

lemma blocks_commute:
  assumes "steps_valid step pre s as" "steps_valid step pre s bs"
    and "\<forall>a \<in> set as. \<forall>b \<in> set bs. compat a b"
  shows "steps_valid step pre (foldl step s as) bs \<and>
    foldl step (foldl step s as) bs = foldl step (foldl step s bs) as"
  using assms
proof (induction as arbitrary: s)
  case (Cons a as)
  then have "steps_valid step pre (step s a) bs \<and> foldl step (step s a) bs = step (foldl step s bs) a"
    using step_past [of s bs a] by simp
  then show ?case using Cons.IH [of "step s a"] Cons.prems by simp
qed simp

lemma converge:
  assumes "steps_valid step pre s as" "steps_valid step pre s bs"
    and "distinct as" "distinct bs" "set as = set bs"
    and "\<forall>a \<in> set as. \<forall>b \<in> set as. a \<noteq> b \<longrightarrow> compat a b"
  shows "foldl step s as = foldl step s bs"
  using assms
proof (induction as arbitrary: s bs)
  case (Cons a as)
  then obtain xs ys where bs: "bs = xs @ a # ys" by (metis list.set_intros(1) split_list)
  have a: "a \<notin> set xs" "a \<notin> set ys" "a \<notin> set as" "set as = set (xs @ ys)"
    using Cons.prems(3-5) unfolding bs by auto
  then have "\<forall>b \<in> set xs. compat a b"
    using Cons.prems(6) by (metis Un_iff list.set_intros(1,2) set_append)
  with Cons.prems(1,2) have p: "steps_valid step pre (step s a) xs"
    "foldl step (step s a) xs = step (foldl step s xs) a"
    using step_past [of s xs a] unfolding bs by simp_all
  have "foldl step (step s a) as = foldl step (step s a) (xs @ ys)"
  proof (rule Cons.IH)
    show "steps_valid step pre (step s a) as" using Cons.prems(1) by simp
    show "steps_valid step pre (step s a) (xs @ ys)" using Cons.prems(2) p unfolding bs by simp
    show "distinct as" "distinct (xs @ ys)" "set as = set (xs @ ys)"
      using Cons.prems(3,4) a unfolding bs by auto
    show "\<forall>b \<in> set as. \<forall>c \<in> set as. b \<noteq> c \<longrightarrow> compat b c" using Cons.prems(6) by simp
  qed
  then show ?case using p(2) unfolding bs by simp
qed simp

end

end
