(* ===== verification/Rga.thy ===== *)
theory Rga
  imports Crdt_Seq Commuting
begin

text \<open>
  The specification of a list or text object: a list of elements in document order, the
  replicated-growable-array insert and the tombstone flip, and the laws that make replicas
  converge. The block index of \<^verbatim>\<open>crdt/seq.go\<close> is proved to implement these operations.
\<close>

section \<open>Operations\<close>

text \<open>Step over the elements with a larger identity, then insert.\<close>

fun place :: "listElem \<Rightarrow> listElem list \<Rightarrow> listElem list" where
  "place e [] = [e]"
| "place e (x # xs) = (if opid_Greater (e_id x) (e_id e) then x # place e xs else e # x # xs)"

fun insert_after :: "opid \<Rightarrow> listElem \<Rightarrow> listElem list \<Rightarrow> listElem list" where
  "insert_after r e [] = [e]"
| "insert_after r e (x # xs) = (if e_id x = r then x # place e xs else x # insert_after r e xs)"

fun rga_insert :: "opid option \<Rightarrow> listElem \<Rightarrow> listElem list \<Rightarrow> listElem list" where
  "rga_insert None e xs = place e xs"
| "rga_insert (Some r) e xs = insert_after r e xs"

definition vis_current :: "listElem \<Rightarrow> opid" where
  "vis_current e = (if op_actor (e_vis e) = [] then e_id e else e_vis e)"

definition flip_elem :: "bool \<Rightarrow> opid \<Rightarrow> listElem \<Rightarrow> listElem" where
  "flip_elem deleted visID e =
     (if opid_Greater visID (vis_current e) then e\<lparr>e_deleted := deleted, e_vis := visID\<rparr> else e)"

definition set_visible :: "opid \<Rightarrow> bool \<Rightarrow> opid \<Rightarrow> listElem list \<Rightarrow> listElem list" where
  "set_visible oid deleted visID es =
     List.map (\<lambda>e. if e_id e = oid then flip_elem deleted visID e else e) es"

definition ids_of :: "listElem list \<Rightarrow> opid set" where
  "ids_of es = e_id ` set es"

definition ref_in :: "opid option \<Rightarrow> listElem list \<Rightarrow> bool" where
  "ref_in r es \<longleftrightarrow> (case r of None \<Rightarrow> True | Some x \<Rightarrow> x \<in> ids_of es)"

lemma ids_of_simps [simp]:
  "ids_of [] = {}" "ids_of (e # es) = insert (e_id e) (ids_of es)"
  "ids_of (xs @ ys) = ids_of xs \<union> ids_of ys"
  by (auto simp: ids_of_def)

section \<open>What the operations keep\<close>

lemma set_place [simp]: "set (place e xs) = insert e (set xs)"
  by (induction xs) auto

lemma set_insert_after [simp]: "set (insert_after r e xs) = insert e (set xs)"
  by (induction xs) auto

lemma set_rga_insert [simp]: "set (rga_insert r e xs) = insert e (set xs)"
  by (cases r) auto

lemma ids_rga_insert [simp]: "ids_of (rga_insert r e xs) = insert (e_id e) (ids_of xs)"
  by (simp add: ids_of_def)

lemma flip_elem_id [simp]: "e_id (flip_elem d v e) = e_id e"
  by (simp add: flip_elem_def)

lemma map_ids_set_visible [simp]: "List.map e_id (set_visible oid d v es) = List.map e_id es"
  by (simp add: set_visible_def comp_def if_distrib cong: if_cong)

lemma ids_set_visible [simp]: "ids_of (set_visible oid d v es) = ids_of es"
  by (metis ids_of_def list.set_map map_ids_set_visible)

lemma place_split: "place e xs = takeWhile (\<lambda>x. opid_Greater (e_id x) (e_id e)) xs @ e #
    dropWhile (\<lambda>x. opid_Greater (e_id x) (e_id e)) xs"
  by (induction xs) auto

lemma insert_after_at:
  assumes "distinct (List.map e_id xs)" "p < length xs" "e_id (xs ! p) = r"
  shows "insert_after r e xs = take (Suc p) xs @ place e (drop (Suc p) xs)"
  using assms
proof (induction xs arbitrary: p)
  case (Cons x xs)
  show ?case
  proof (cases p)
    case (Suc q)
    then have "e_id x \<noteq> r" using Cons.prems by auto
    then show ?thesis using Cons Suc by simp
  qed (use Cons.prems in simp)
qed simp

lemma insert_after_absent: "r \<notin> ids_of xs \<Longrightarrow> insert_after r e xs = xs @ [e]"
  by (induction xs) auto

lemma distinct_place:
  "distinct (List.map e_id xs) \<Longrightarrow> e_id e \<notin> ids_of xs \<Longrightarrow> distinct (List.map e_id (place e xs))"
  by (induction xs) (auto simp: ids_of_def)

lemma distinct_insert_after:
  "distinct (List.map e_id xs) \<Longrightarrow> e_id e \<notin> ids_of xs \<Longrightarrow>
     distinct (List.map e_id (insert_after r e xs))"
  by (induction xs) (auto simp: ids_of_def distinct_place)

lemma distinct_rga_insert:
  "distinct (List.map e_id xs) \<Longrightarrow> e_id e \<notin> ids_of xs \<Longrightarrow>
     distinct (List.map e_id (rga_insert r e xs))"
  by (cases r) (simp_all add: distinct_place distinct_insert_after)

section \<open>Concurrent operations commute\<close>

lemma place_place:
  "e_id e \<noteq> e_id f \<Longrightarrow> place e (place f xs) = place f (place e xs)"
  by (induction xs) auto

lemma insert_after_place:
  "\<lbrakk>r \<in> ids_of xs; r \<noteq> e_id f; e_id e \<noteq> e_id f\<rbrakk> \<Longrightarrow>
     insert_after r e (place f xs) = place f (insert_after r e xs)"
  by (induction xs) (auto simp: place_place)

lemma insert_after_insert_after:
  "\<lbrakk>r \<in> ids_of xs; q \<in> ids_of xs; r \<noteq> e_id f; q \<noteq> e_id e; e_id e \<noteq> e_id f\<rbrakk> \<Longrightarrow>
     insert_after r e (insert_after q f xs) = insert_after q f (insert_after r e xs)"
  by (induction xs) (auto simp: place_place insert_after_place)

text \<open>No law on the identities is needed beyond their being different.\<close>

lemma rga_insert_commute:
  assumes "\<And>r'. r = Some r' \<Longrightarrow> r' \<in> ids_of xs \<and> r' \<noteq> e_id f"
    and "\<And>q'. q = Some q' \<Longrightarrow> q' \<in> ids_of xs \<and> q' \<noteq> e_id e"
    and "e_id e \<noteq> e_id f"
  shows "rga_insert r e (rga_insert q f xs) = rga_insert q f (rga_insert r e xs)"
  using assms
  by (cases r; cases q) (auto simp: place_place insert_after_place insert_after_insert_after)

lemma set_visible_place:
  "e_id e \<noteq> oid \<Longrightarrow> set_visible oid d v (place e xs) = place e (set_visible oid d v xs)"
  by (induction xs) (auto simp: set_visible_def)

lemma set_visible_rga_insert:
  "e_id e \<noteq> oid \<Longrightarrow>
     set_visible oid d v (rga_insert r e xs) = rga_insert r e (set_visible oid d v xs)"
proof (cases r)
  case (Some r')
  assume ne: "e_id e \<noteq> oid"
  have "set_visible oid d v (insert_after r' e xs) = insert_after r' e (set_visible oid d v xs)"
  proof (induction xs)
    case (Cons x xs)
    then show ?case
      using set_visible_place [OF ne] ne by (auto simp: set_visible_def)
  qed (use ne in \<open>simp add: set_visible_def\<close>)
  then show ?thesis using Some by simp
qed (simp add: set_visible_place)

lemma flip_elem_commute:
  assumes "op_actor v \<noteq> []" "op_actor w \<noteq> []" "v \<noteq> w"
  shows "flip_elem d v (flip_elem d' w e) = flip_elem d' w (flip_elem d v e)"
  using assms by (auto simp: flip_elem_def vis_current_def)

lemma set_visible_commute:
  assumes "op_actor v \<noteq> []" "op_actor w \<noteq> []" "v \<noteq> w"
  shows "set_visible x d v (set_visible y d' w es) = set_visible y d' w (set_visible x d v es)"
  unfolding set_visible_def using flip_elem_commute [OF assms] by auto

section \<open>Edits\<close>

text \<open>The two edits of a list, when one can be taken, and when two of them do not conflict.\<close>

datatype edit = Ins "opid option" listElem | Flip opid bool opid

fun edit_step :: "listElem list \<Rightarrow> edit \<Rightarrow> listElem list" where
  "edit_step es (Ins r e) = rga_insert r e es"
| "edit_step es (Flip oid d v) = set_visible oid d v es"

fun edit_pre :: "listElem list \<Rightarrow> edit \<Rightarrow> bool" where
  "edit_pre es (Ins r e) \<longleftrightarrow> e_id e \<notin> ids_of es \<and> ref_in r es"
| "edit_pre es (Flip oid d v) \<longleftrightarrow> oid \<in> ids_of es"

fun edit_compat :: "edit \<Rightarrow> edit \<Rightarrow> bool" where
  "edit_compat (Ins r e) (Ins q f) \<longleftrightarrow> e_id e \<noteq> e_id f"
| "edit_compat (Flip x d v) (Flip y c w) \<longleftrightarrow>
     x \<noteq> y \<or> v \<noteq> w \<and> op_actor v \<noteq> [] \<and> op_actor w \<noteq> [] \<or> d = c \<and> v = w"
| "edit_compat a b \<longleftrightarrow> True"

lemma set_visible_commute_other:
  "x \<noteq> y \<Longrightarrow> set_visible x d v (set_visible y d' w es) = set_visible y d' w (set_visible x d v es)"
  unfolding set_visible_def by auto

interpretation list_edits: commuting_steps edit_step edit_pre edit_compat
proof
  show "edit_compat a b \<Longrightarrow> edit_compat b a" for a b
    by (cases a; cases b) auto
  show "edit_pre s a \<Longrightarrow> edit_pre s b \<Longrightarrow> edit_compat a b \<Longrightarrow> edit_pre (edit_step s b) a" for s a b
    by (cases a; cases b) (auto simp: ref_in_def split: option.splits)
  show "edit_pre s a \<Longrightarrow> edit_pre s b \<Longrightarrow> edit_compat a b \<Longrightarrow>
      edit_step (edit_step s a) b = edit_step (edit_step s b) a" for s a b
  proof (cases a; cases b)
    fix r e q f
    assume p: "edit_pre s a" "edit_pre s b" "edit_compat a b" "a = Ins r e" "b = Ins q f"
    then have "rga_insert q f (rga_insert r e s) = rga_insert r e (rga_insert q f s)"
      by (intro rga_insert_commute) (auto simp: ref_in_def)
    with p show "edit_step (edit_step s a) b = edit_step (edit_step s b) a" by simp
  next
    fix r e oid d v
    assume p: "edit_pre s a" "edit_pre s b" "a = Ins r e" "b = Flip oid d v"
    then have "e_id e \<noteq> oid" by auto
    with p show ?thesis by (simp add: set_visible_rga_insert)
  next
    fix r e oid d v
    assume p: "edit_pre s a" "edit_pre s b" "b = Ins r e" "a = Flip oid d v"
    then have "e_id e \<noteq> oid" by auto
    with p show ?thesis by (simp add: set_visible_rga_insert)
  next
    fix x d v y c w
    assume "edit_compat a b" "a = Flip x d v" "b = Flip y c w"
    then show ?thesis
      by (cases "x = y") (auto intro: set_visible_commute set_visible_commute_other)
  qed
qed

lemma edits_keep_distinct:
  assumes "steps_valid edit_step edit_pre es as" "distinct (List.map e_id es)"
  shows "distinct (List.map e_id (foldl edit_step es as))"
  using assms
proof (induction as arbitrary: es)
  case (Cons a as)
  then have "distinct (List.map e_id (edit_step es a))"
    by (cases a) (auto simp: distinct_rga_insert)
  then show ?case using Cons by simp
qed simp

end
