(* ===== verification/Crdt_Seq_Update.thy ===== *)
theory Crdt_Seq_Update
  imports Crdt_Seq_Correct Rga
begin

text \<open>
  The range query and the updates of the element index implement the corresponding operations
  on the list of elements in document order, and keep the invariant \<open>seq_inv\<close>.
\<close>

section \<open>The visible range\<close>

lemma collect_block_eq:
  "0 \<le> count \<Longrightarrow> collect_block es count out =
     (count - int (min (nat count) (length (shown es))),
      out @ List.map e_id (take (nat count) (shown es)))"
proof (induction es count out rule: collect_block.induct)
  case (2 e es count out)
  show ?case
  proof (cases "count \<le> 0")
    case True
    with 2 show ?thesis by simp
  next
    case False
    then have "nat count = Suc (nat (count - 1))" by simp
    with False 2 show ?thesis by auto
  qed
qed simp

definition tail_from :: "elemSeq \<Rightarrow> nat \<Rightarrow> nat \<Rightarrow> listElem list" where
  "tail_from s bi off = drop off (b_elems (blk s bi)) @ concat (drop (Suc bi) (blocks_of s))"

lemma tail_from_0:
  "bi < length (s_blocks s) \<Longrightarrow> tail_from s bi 0 = concat (drop bi (blocks_of s))"
  by (simp add: tail_from_def Cons_nth_drop_Suc [symmetric])

lemma collect_loop_eq:
  assumes "bi < length (s_blocks s)" "0 \<le> count" "count \<le> count_visible (tail_from s bi off)"
  shows "collect_loop s bi off count out
         = Inr (out @ List.map e_id (take (nat count) (shown (tail_from s bi off))))"
  using assms
proof (induction s bi off count out rule: collect_loop.induct)
  case (1 s bi off count out)
  show ?case
  proof (cases "count \<le> 0")
    case True
    then show ?thesis by (subst collect_loop.simps) simp
  next
    case False
    let ?es = "drop off (b_elems (blk s bi))"
    let ?k = "int (min (nat count) (length (shown ?es)))"
    have cb: "collect_block ?es count out
       = (count - ?k, out @ List.map e_id (take (nat count) (shown ?es)))"
      by (rule collect_block_eq) (rule "1.prems"(2))
    show ?thesis
    proof (cases "count - ?k = 0")
      case True
      then have "nat count \<le> length (shown ?es)" by simp
      with True False cb show ?thesis
        by (subst collect_loop.simps) (simp add: tail_from_def)
    next
      case more: False
      then have lt: "length (shown ?es) < nat count" using False by (simp add: min_def split: if_splits)
      then have k: "?k = count_visible ?es" by (simp add: count_visible_shown)
      have bi: "Suc bi < length (s_blocks s)"
      proof (rule ccontr)
        assume "\<not> Suc bi < length (s_blocks s)"
        then show False using 1 lt False by (simp add: tail_from_def count_visible_shown)
      qed
      have tl: "tail_from s bi off = ?es @ tail_from s (Suc bi) 0"
        using bi by (simp add: tail_from_0) (simp add: tail_from_def)
      have "count - ?k \<le> count_visible (tail_from s (Suc bi) 0)"
        using "1.prems"(3) unfolding k tl by simp
      moreover have "0 \<le> count - ?k" using lt by (simp add: min_def)
      ultimately have "collect_loop s (Suc bi) 0 (count - ?k)
            (out @ List.map e_id (take (nat count) (shown ?es)))
        = Inr ((out @ List.map e_id (take (nat count) (shown ?es)))
            @ List.map e_id (take (nat (count - ?k)) (shown (tail_from s (Suc bi) 0))))"
        using False more bi cb by (intro "1.IH" [OF False _ _ more]) (simp_all del: of_nat_min)
      moreover have "nat (count - ?k) = nat count - length (shown ?es)" using lt by simp
      moreover have "take (nat count) (shown ?es) = shown ?es" using lt by simp
      ultimately show ?thesis
        using False more bi cb unfolding tl
        by (subst collect_loop.simps) (simp del: of_nat_min)
    qed
  qed
qed

lemma drop_shown:
  "drop (length (shown (take p es))) (shown es) = shown (drop p es)"
  by (metis append_eq_conv_conj append_take_drop_id shown_simps(2))

lemma collectVisibleRange_eq [seq_simps]:
  assumes "seq_core s"
  shows "fst (collectVisibleRange s index count out) =
    (if count \<le> 0 then Inr out
     else if index < 0 \<or> index + count > s_vis s then Inl Err_visible_range
     else Inr (out @ List.map e_id (take (nat count) (drop (nat index) (shown (seq_elems s))))))"
proof (cases "count \<le> 0 \<or> index < 0 \<or> index + count > s_vis s")
  case False
  then have "0 \<le> index" "index < s_vis s" by auto
  with assms obtain bi off where b:
    "blockAtVisible s index = (Some (s_blocks s ! bi, off), ensure_tree s)"
    "bi < length (s_blocks s)" "off < length (b_elems (blk s bi))"
    "\<not> e_deleted (b_elems (blk s bi) ! off)"
    "count_visible (take (offset s bi + off) (seq_elems s)) = index"
    using blockAtVisible_Some by blast
  have tf: "tail_from s bi off = drop (offset s bi + off) (seq_elems s)"
    using seq_elems_at(2) [of bi s off] b by (simp add: tail_from_def)
  have idx: "nat index = length (shown (take (offset s bi + off) (seq_elems s)))"
    using b(5) by (simp add: count_visible_shown)
  then have sh: "shown (tail_from s bi off) = drop (nat index) (shown (seq_elems s))"
    by (simp add: tf drop_shown)
  have "tail_from (ensure_tree s) bi off = tail_from s bi off" by (simp add: tail_from_def)
  moreover have "count \<le> count_visible (tail_from s bi off)"
    using False core_vis [OF assms] sh by (simp add: count_visible_shown) linarith
  ultimately have "collect_loop (ensure_tree s) bi off count out
      = Inr (out @ List.map e_id (take (nat count) (shown (tail_from s bi off))))"
    using False b collect_loop_eq [of bi "ensure_tree s" count off out] by simp
  moreover have "b_pos (s_store (ensure_tree s) ! (s_blocks s ! bi)) = bi"
    using core_pos [OF assms b(2)] by (simp add: blk_def)
  ultimately show ?thesis
    using False b sh by (simp add: collectVisibleRange_def)
qed (auto simp: collectVisibleRange_def)

lemma collectVisibleRange_state:
  "snd (collectVisibleRange s index count out) = s \<or>
   snd (collectVisibleRange s index count out) = ensure_tree s"
  using blockAtVisible_state [of s index]
  by (auto simp: collectVisibleRange_def split: prod.splits option.splits)

section \<open>Building an index that satisfies the invariant\<close>

lemma seq_coreI:
  assumes "s_blocks s \<noteq> []" "distinct (s_blocks s)"
    and "\<And>i. i < length (s_blocks s) \<Longrightarrow> s_blocks s ! i < length (s_store s)"
    and "\<And>i. i < length (s_blocks s) \<Longrightarrow> b_pos (blk s i) = i"
    and "\<And>i. i < length (s_blocks s) \<Longrightarrow> b_visible (blk s i) = count_visible (b_elems (blk s i))"
    and A: "\<And>i e. i < length (s_blocks s) \<Longrightarrow> e \<in> set (b_elems (blk s i)) \<Longrightarrow>
              s_byID s (e_id e) = Some (s_blocks s ! i)"
    and B: "\<And>oid a. s_byID s oid = Some a \<Longrightarrow> oid \<in> e_id ` set (seq_elems s)"
    and "distinct (List.map e_id (seq_elems s))"
    and "s_total s = int (length (seq_elems s))" and "s_vis s = count_visible (seq_elems s)"
    and "t_dirty (s_tree s) \<or> tree_ok (s_tree s) (block_counts s)"
  shows "seq_core s"
proof -
  have "s_byID s oid = Some a \<longleftrightarrow>
      (\<exists>i < length (s_blocks s). s_blocks s ! i = a \<and> oid \<in> e_id ` set (b_elems (blk s i)))" for oid a
  proof
    assume a: "s_byID s oid = Some a"
    then obtain i where i: "i < length (s_blocks s)" "oid \<in> e_id ` set (b_elems (blk s i))"
      using B ids_in_block by blast
    then have "s_byID s oid = Some (s_blocks s ! i)" using A by blast
    then show "\<exists>i < length (s_blocks s). s_blocks s ! i = a \<and> oid \<in> e_id ` set (b_elems (blk s i))"
      using i a by auto
  next
    assume "\<exists>i < length (s_blocks s). s_blocks s ! i = a \<and> oid \<in> e_id ` set (b_elems (blk s i))"
    then show "s_byID s oid = Some a" using A by blast
  qed
  moreover have "\<forall>a \<in> set (s_blocks s). a < length (s_store s)"
    using assms(3) by (auto simp: in_set_conv_nth)
  ultimately show ?thesis
    unfolding seq_core_def using assms by blast
qed

lemma core_byID_at:
  "seq_core s \<Longrightarrow> i < length (s_blocks s) \<Longrightarrow> e \<in> set (b_elems (blk s i)) \<Longrightarrow>
     s_byID s (e_id e) = Some (s_blocks s ! i)"
  using core_byID by blast

lemma core_byID_in:
  "seq_core s \<Longrightarrow> s_byID s oid = Some a \<Longrightarrow> oid \<in> e_id ` set (seq_elems s)"
  using core_byID ids_in_block by blast

lemma core_total: "seq_core s \<Longrightarrow> s_total s = int (length (seq_elems s))"
  by (simp add: seq_core_def)

lemma blocks_disjoint:
  assumes "seq_core s" "i < length (s_blocks s)" "j < length (s_blocks s)" "i \<noteq> j"
    and "e \<in> set (b_elems (blk s i))" "f \<in> set (b_elems (blk s j))"
  shows "e_id e \<noteq> e_id f"
proof
  assume "e_id e = e_id f"
  then have "s_blocks s ! i = s_blocks s ! j"
    using core_byID_at [OF assms(1)] assms by (metis option.inject)
  then show False
    using assms core_blocks(2) by (simp add: nth_eq_iff_index_eq)
qed


section \<open>Changing one block\<close>

text \<open>
  Both the insert without a split and the tombstone flip rewrite one block, and move the
  counters by the difference.
\<close>

definition set_block :: "elemSeq \<Rightarrow> nat \<Rightarrow> seqBlock \<Rightarrow> elemSeq" where
  "set_block s bi b =
     s\<lparr>s_store := (s_store s)[s_blocks s ! bi := b],
       s_vis := s_vis s + (b_visible b - b_visible (blk s bi)),
       s_tree := tree_add (s_tree s) bi (b_visible b - b_visible (blk s bi))\<rparr>"

lemma set_block_sel [simp]:
  "s_blocks (set_block s bi b) = s_blocks s" "s_byID (set_block s bi b) = s_byID s"
  "s_total (set_block s bi b) = s_total s"
  "length (s_store (set_block s bi b)) = length (s_store s)"
  by (simp_all add: set_block_def)

lemma blk_set_block:
  assumes "seq_core s" "bi < length (s_blocks s)" "i < length (s_blocks s)"
  shows "blk (set_block s bi b) i = (if i = bi then b else blk s i)"
  using assms core_blocks [OF assms(1)]
  by (auto simp: blk_def set_block_def nth_list_update nth_eq_iff_index_eq)

lemma blocks_of_set_block:
  "seq_core s \<Longrightarrow> bi < length (s_blocks s) \<Longrightarrow>
     blocks_of (set_block s bi b) = (blocks_of s)[bi := b_elems b]"
  by (intro nth_equalityI) (simp_all add: blk_set_block nth_list_update)

lemma counts_set_block:
  "seq_core s \<Longrightarrow> bi < length (s_blocks s) \<Longrightarrow>
     block_counts (set_block s bi b) = (block_counts s)[bi := b_visible b]"
  by (intro nth_equalityI) (simp_all add: blk_set_block nth_list_update)

lemma elems_set_block:
  "seq_core s \<Longrightarrow> bi < length (s_blocks s) \<Longrightarrow> seq_elems (set_block s bi b)
   = concat (take bi (blocks_of s)) @ b_elems b @ concat (drop (Suc bi) (blocks_of s))"
  by (simp add: seq_elems_concat blocks_of_set_block concat_list_update)

lemma tree_set_block:
  assumes "seq_core s" "bi < length (s_blocks s)"
  shows "t_dirty (s_tree (set_block s bi b)) \<or>
    tree_ok (s_tree (set_block s bi b)) (block_counts (set_block s bi b))"
  using tree_add_ok [OF core_tree [OF assms(1)], of bi "b_visible b - b_visible (blk s bi)"] assms
  by (simp add: counts_set_block) (simp add: set_block_def)

lemma seq_elems_around:
  "i < length (s_blocks s) \<Longrightarrow> seq_elems s
   = concat (take i (blocks_of s)) @ b_elems (blk s i) @ concat (drop (Suc i) (blocks_of s))"
  using concat_list_update [of i "blocks_of s" "b_elems (blk s i)"]
  by (metis blocks_of_nth length_blocks_of list_update_id seq_elems_concat)

section \<open>setVisibility\<close>

lemma tree_add_0 [simp]: "tree_add t bi 0 = t"
  by (simp add: tree_add_def)

definition shift_visible :: "bool \<Rightarrow> bool \<Rightarrow> int" where
  "shift_visible old new = (if old \<noteq> new then (if new then -1 else 1) else 0)"

lemma count_visible_list_update:
  "k < length es \<Longrightarrow> count_visible (es[k := e])
     = count_visible es + shift_visible (e_deleted (es ! k)) (e_deleted e)"
  by (induction es arbitrary: k) (auto simp: shift_visible_def split: nat.split)

lemma core_replace_elem:
  assumes core: "seq_core s" and i: "i < length (s_blocks s)" and k: "k < length (b_elems (blk s i))"
    and e: "e_id e = e_id (b_elems (blk s i) ! k)"
    and b: "b = (blk s i)\<lparr>b_elems := (b_elems (blk s i))[k := e],
       b_visible := b_visible (blk s i) + shift_visible (e_deleted (b_elems (blk s i) ! k)) (e_deleted e)\<rparr>"
  shows "seq_core (set_block s i b)"
    and "seq_elems (set_block s i b) = (seq_elems s)[offset s i + k := e]"
proof -
  have el: "seq_elems (set_block s i b) = concat (take i (blocks_of s)) @ (b_elems (blk s i))[k := e]
      @ concat (drop (Suc i) (blocks_of s))"
    using core i by (simp add: elems_set_block b)
  have p: "offset s i + k < length (seq_elems s)" by (rule seq_elems_nth(1) [OF i k])
  show upd: "seq_elems (set_block s i b) = (seq_elems s)[offset s i + k := e]"
    unfolding el using i k by (simp add: seq_elems_around [OF i] list_update_append offset_def)
  have ids: "List.map e_id ((b_elems (blk s i))[k := e]) = List.map e_id (b_elems (blk s i))"
    using k e by (simp add: map_update list_update_same_conv)
  then have idset: "e_id ` set ((b_elems (blk s i))[k := e]) = e_id ` set (b_elems (blk s i))"
    by (metis list.set_map)
  have all_ids: "List.map e_id (seq_elems (set_block s i b)) = List.map e_id (seq_elems s)"
    by (simp add: el ids seq_elems_around [OF i])
  show "seq_core (set_block s i b)"
  proof (rule seq_coreI)
    fix j e' assume j: "j < length (s_blocks (set_block s i b))"
      and e': "e' \<in> set (b_elems (blk (set_block s i b) j))"
    then have "e_id e' \<in> e_id ` set (b_elems (blk s j))"
      using core i idset by (auto simp: blk_set_block b split: if_splits)
    then show "s_byID (set_block s i b) (e_id e') = Some (s_blocks (set_block s i b) ! j)"
      using core_byID_at [OF core] j by auto
  next
    fix oid a assume "s_byID (set_block s i b) oid = Some a"
    then have "oid \<in> e_id ` set (seq_elems s)" using core_byID_in [OF core] by simp
    then show "oid \<in> e_id ` set (seq_elems (set_block s i b))"
      using all_ids by (metis list.set_map)
  next
    show "s_vis (set_block s i b) = count_visible (seq_elems (set_block s i b))"
      using core_vis [OF core] count_visible_list_update [OF p, of e] seq_elems_nth(2) [OF i k]
      unfolding upd by (simp add: set_block_def b)
  next
    show "s_total (set_block s i b) = int (length (seq_elems (set_block s i b)))"
      unfolding upd using core_total [OF core] by simp
    show "distinct (List.map e_id (seq_elems (set_block s i b)))"
      unfolding all_ids by (rule core_distinct [OF core])
    show "t_dirty (s_tree (set_block s i b)) \<or>
      tree_ok (s_tree (set_block s i b)) (block_counts (set_block s i b))"
      by (rule tree_set_block [OF core i])
  qed (use core i in \<open>simp_all add: core_blocks blk_set_block core_pos core_visible b
      count_visible_list_update k\<close>)
qed

lemma set_visible_at:
  assumes "distinct (List.map e_id es)" "p < length es" "e_id (es ! p) = oid"
  shows "set_visible oid d v es = es[p := flip_elem d v (es ! p)]"
proof (intro nth_equalityI)
  fix q assume q: "q < length (set_visible oid d v es)"
  then have "e_id (es ! q) = oid \<longleftrightarrow> q = p"
    using assms nth_eq_iff_index_eq [OF assms(1), of q p] by (auto simp: set_visible_def)
  then show "set_visible oid d v es ! q = es[p := flip_elem d v (es ! p)] ! q"
    using q assms by (auto simp: set_visible_def nth_list_update)
qed (simp add: set_visible_def)

lemma set_visible_absent:
  "oid \<notin> e_id ` set es \<Longrightarrow> set_visible oid d v es = es"
  by (induction es) (auto simp: set_visible_def)

lemma setVisibility_located:
  assumes "locate s oid = Some (a, k)" "a = s_blocks s ! i" "s_store s ! a = blk s i"
    and "b_pos (s_store s ! a) = i"
  shows "setVisibility s oid d v =
    (let el = b_elems (blk s i) ! k; e = el\<lparr>e_deleted := d, e_vis := v\<rparr> in
     if \<not> opid_Greater v (vis_current el) then (Some el, s)
     else (Some e, set_block s i ((blk s i)\<lparr>b_elems := (b_elems (blk s i))[k := e],
       b_visible := b_visible (blk s i) + shift_visible (e_deleted el) (e_deleted e)\<rparr>)))"
  using assms(4) unfolding setVisibility_def assms(1) option.case prod.case Let_def
    vis_current_def [symmetric] shift_visible_def set_block_def assms(2) blk_def
  by simp

lemma setVisibility_cases:
  assumes core: "seq_core s"
  obtains (absent) "oid \<notin> e_id ` set (seq_elems s)" "setVisibility s oid d v = (None, s)"
  | (stale) i k where "i < length (s_blocks s)" "k < length (b_elems (blk s i))"
      "e_id (b_elems (blk s i) ! k) = oid" "\<not> opid_Greater v (vis_current (b_elems (blk s i) ! k))"
      "setVisibility s oid d v = (Some (b_elems (blk s i) ! k), s)"
  | (flip) i k b e where "i < length (s_blocks s)" "k < length (b_elems (blk s i))"
      "e_id (b_elems (blk s i) ! k) = oid" "opid_Greater v (vis_current (b_elems (blk s i) ! k))"
      "e = (b_elems (blk s i) ! k)\<lparr>e_deleted := d, e_vis := v\<rparr>"
      "b = (blk s i)\<lparr>b_elems := (b_elems (blk s i))[k := e],
       b_visible := b_visible (blk s i) + shift_visible (e_deleted (b_elems (blk s i) ! k)) (e_deleted e)\<rparr>"
      "setVisibility s oid d v = (Some e, set_block s i b)"
proof (cases "locate s oid")
  case None
  show ?thesis
  proof (rule absent)
    show "oid \<notin> e_id ` set (seq_elems s)" using None locate_None [OF core] by simp
  qed (simp add: setVisibility_def None)
next
  case (Some r)
  then obtain a k where r: "locate s oid = Some (a, k)" by (cases r) auto
  from core this obtain i where i: "i < length (s_blocks s)" "a = s_blocks s ! i"
    "b_pos (s_store s ! a) = i" "k < length (b_elems (blk s i))"
    "e_id (b_elems (blk s i) ! k) = oid" "s_store s ! a = blk s i" by (rule locate_Some)
  show ?thesis
  proof (cases "opid_Greater v (vis_current (b_elems (blk s i) ! k))")
    case False
    then show ?thesis
      by (intro stale [OF i(1,4,5)])
        (use False r i(6) in \<open>simp_all add: setVisibility_def vis_current_def\<close>)
  next
    case True
    show ?thesis
      using setVisibility_located [OF r i(2,6,3), of d v] True
      by (intro flip [OF i(1,4,5) True refl refl]) (simp add: Let_def)
  qed
qed

lemma setVisibility_elems [seq_simps]:
  assumes "seq_core s"
  shows "seq_elems (snd (setVisibility s oid d v)) = set_visible oid d v (seq_elems s)"
  using assms
proof (cases rule: setVisibility_cases [of s oid d v])
  case absent
  then show ?thesis by (simp add: set_visible_absent)
next
  case (stale i k)
  have "set_visible oid d v (seq_elems s) = seq_elems s"
    using set_visible_at [OF core_distinct [OF assms], of "offset s i + k" oid d v]
      seq_elems_nth [OF stale(1,2)] stale
    by (simp add: flip_elem_def) (metis list_update_id)
  then show ?thesis using stale by simp
next
  case (flip i k b e)
  have "set_visible oid d v (seq_elems s) = (seq_elems s)[offset s i + k := e]"
    using set_visible_at [OF core_distinct [OF assms], of "offset s i + k" oid d v]
      seq_elems_nth [OF flip(1,2)] flip by (simp add: flip_elem_def)
  moreover have "e_id e = e_id (b_elems (blk s i) ! k)" using flip by simp
  ultimately show ?thesis
    using core_replace_elem(2) [OF assms flip(1,2) _ flip(6)] flip(7) by simp
qed

lemma setVisibility_inv:
  assumes "seq_inv s"
  shows "seq_inv (snd (setVisibility s oid d v))"
proof -
  have core: "seq_core s" and bs: "block_sizes s" using assms by (simp_all add: seq_inv_def)
  show ?thesis
    using core
  proof (cases rule: setVisibility_cases [of s oid d v])
    case (flip i k b e)
    have "e_id e = e_id (b_elems (blk s i) ! k)" using flip by simp
    then have "seq_core (set_block s i b)"
      using core_replace_elem(1) [OF core flip(1,2) _ flip(6)] by simp
    moreover have "block_sizes (set_block s i b)"
      using bs core flip(1,6) by (simp add: block_sizes_def blk_set_block)
    ultimately show ?thesis using flip(7) by (simp add: seq_inv_def)
  qed (use assms in simp_all)
qed

lemma setVisibility_None:
  assumes "seq_core s"
  shows "fst (setVisibility s oid d v) = None \<longleftrightarrow> oid \<notin> ids_of (seq_elems s)"
  using assms
proof (cases rule: setVisibility_cases [of s oid d v])
  case absent
  then show ?thesis by (simp add: ids_of_def)
next
  case (stale i k)
  then have "oid \<in> e_id ` set (seq_elems s)" using seq_elems_nth [of i s k] nth_mem by force
  then show ?thesis using stale by (simp add: ids_of_def)
next
  case (flip i k b e)
  then have "oid \<in> e_id ` set (seq_elems s)" using seq_elems_nth [of i s k] nth_mem by force
  then show ?thesis using flip by (simp add: ids_of_def)
qed

section \<open>insertAt\<close>

lemma elems_counters [simp]:
  "seq_elems (s\<lparr>s_total := t, s_byID := m\<rparr>) = seq_elems s"
  "blk (s\<lparr>s_total := t, s_byID := m\<rparr>) = blk s"
  "block_counts (s\<lparr>s_total := t, s_byID := m\<rparr>) = block_counts s"
  "blocks_of (s\<lparr>s_total := t, s_byID := m\<rparr>) = blocks_of s"
  by (simp_all add: seq_elems_def blk_def block_counts_def blocks_of_def fun_eq_iff)

definition grown_block :: "seqBlock \<Rightarrow> nat \<Rightarrow> listElem \<Rightarrow> seqBlock" where
  "grown_block b off e = b\<lparr>b_elems := take off (b_elems b) @ e # drop off (b_elems b),
     b_visible := b_visible b + (if e_deleted e then 0 else 1)\<rparr>"

definition insert_raw :: "elemSeq \<Rightarrow> nat \<Rightarrow> nat \<Rightarrow> listElem \<Rightarrow> elemSeq" where
  "insert_raw s bi off e =
     (set_block s bi (grown_block (blk s bi) off e))
       \<lparr>s_total := s_total s + 1, s_byID := (s_byID s)(e_id e \<mapsto> s_blocks s ! bi)\<rparr>"

lemma insertAt_raw:
  "insertAt s bi off e =
     (if length (b_elems (blk s bi)) + 1 \<ge> seqBlockMax
      then seq_split (insert_raw s bi off e) bi else insert_raw s bi off e)"
proof -
  have es: "(if off \<ge> length xs then xs @ [e] else take off xs @ e # drop off xs)
      = take off xs @ e # drop off xs" for xs :: "listElem list"
    by simp
  show ?thesis
    unfolding insertAt_def insert_raw_def set_block_def grown_block_def es Let_def blk_def [symmetric]
    by (simp add: add.commute)
qed

lemma ids_insert_at: "ids_of (take p xs @ e # drop p xs) = insert (e_id e) (ids_of xs)"
  by (metis append_take_drop_id ids_of_simps(2,3) Un_insert_right)

lemma distinct_insert_at:
  "distinct (List.map e_id xs) \<Longrightarrow> e_id e \<notin> ids_of xs \<Longrightarrow>
     distinct (List.map e_id (take p xs @ e # drop p xs))"
proof (induction xs arbitrary: p)
  case (Cons x xs)
  have "e_id x \<notin> ids_of (take q xs @ e # drop q xs)" for q
    using Cons.prems unfolding ids_insert_at by (auto simp: ids_of_def)
  then show ?case
    using Cons by (cases p) (auto simp: ids_of_def)
qed simp

lemma length_insert_at: "length (take p xs @ e # drop p xs) = Suc (length xs)"
  by (cases "p \<le> length xs") auto

lemma count_visible_insert_at:
  "count_visible (take p xs @ e # drop p xs) = count_visible xs + (if e_deleted e then 0 else 1)"
  using count_visible_simps(2) [of "take p xs" "drop p xs"] by simp

lemma insert_raw_core:
  assumes core: "seq_core s" and bi: "bi < length (s_blocks s)"
    and off: "off \<le> length (b_elems (blk s bi))" and new: "e_id e \<notin> ids_of (seq_elems s)"
  shows "seq_core (insert_raw s bi off e)"
    and "seq_elems (insert_raw s bi off e)
         = take (offset s bi + off) (seq_elems s) @ e # drop (offset s bi + off) (seq_elems s)"
proof -
  let ?b = "grown_block (blk s bi) off e" and ?s = "insert_raw s bi off e"
  let ?p = "offset s bi + off"
  have b: "b_elems ?b = take off (b_elems (blk s bi)) @ e # drop off (b_elems (blk s bi))"
    "b_pos ?b = b_pos (blk s bi)" "b_visible ?b = b_visible (blk s bi) + (if e_deleted e then 0 else 1)"
    by (simp_all add: grown_block_def)
  have views: "seq_elems ?s = seq_elems (set_block s bi ?b)" "blk ?s = blk (set_block s bi ?b)"
    "block_counts ?s = block_counts (set_block s bi ?b)" "s_blocks ?s = s_blocks s"
    "s_tree ?s = s_tree (set_block s bi ?b)" "s_vis ?s = s_vis (set_block s bi ?b)"
    "length (s_store ?s) = length (s_store s)" "s_total ?s = s_total s + 1"
    "s_byID ?s = (s_byID s)(e_id e \<mapsto> s_blocks s ! bi)"
    by (simp_all add: insert_raw_def)
  show el: "seq_elems ?s = take ?p (seq_elems s) @ e # drop ?p (seq_elems s)"
    using seq_elems_at [OF bi off] by (simp add: views elems_set_block [OF core bi] b)
  have ids: "ids_of (seq_elems ?s) = insert (e_id e) (ids_of (seq_elems s))"
    by (simp only: el ids_insert_at)
  show "seq_core ?s"
  proof (rule seq_coreI)
    show "distinct (List.map e_id (seq_elems ?s))"
      unfolding el by (rule distinct_insert_at [OF core_distinct [OF core] new])
    show "s_total ?s = int (length (seq_elems ?s))"
      unfolding el views length_insert_at using core_total [OF core] by simp
    show "t_dirty (s_tree ?s) \<or> tree_ok (s_tree ?s) (block_counts ?s)"
      unfolding views by (rule tree_set_block [OF core bi])
    show "s_vis ?s = count_visible (seq_elems ?s)"
      unfolding el views using core_vis [OF core] count_visible_insert_at [of ?p "seq_elems s" e]
      by (simp add: set_block_def b(3))
  next
    fix i e' assume i: "i < length (s_blocks ?s)" and e': "e' \<in> set (b_elems (blk ?s i))"
    then have "e' \<in> set (b_elems (blk s i)) \<or> (i = bi \<and> e' = e)"
      using core bi by (auto simp: views blk_set_block b split: if_splits dest: in_set_takeD in_set_dropD)
    then show "s_byID ?s (e_id e') = Some (s_blocks ?s ! i)"
    proof
      assume mem: "e' \<in> set (b_elems (blk s i))"
      then have "e_id e' \<in> ids_of (seq_elems s)"
        using i ids_in_block [of "e_id e'" s] by (auto simp: views ids_of_def)
      then have "e_id e' \<noteq> e_id e" using new by auto
      then show ?thesis using core_byID_at [OF core _ mem] i by (simp add: views)
    qed (simp add: views)
  next
    fix oid a assume "s_byID ?s oid = Some a"
    then have "oid = e_id e \<or> oid \<in> ids_of (seq_elems s)"
      using core_byID_in [OF core, of oid a] by (auto simp: views ids_of_def split: if_splits)
    then show "oid \<in> e_id ` set (seq_elems ?s)" using ids by (auto simp: ids_of_def)
  qed (use core bi in \<open>simp_all add: core_blocks blk_set_block core_pos core_visible b views
      count_visible_insert_at del: count_visible_simps\<close>)
qed

section \<open>The split\<close>

lemma renumber_fold:
  assumes "distinct bs" "\<forall>a \<in> set bs. a < length st" "k \<le> m" "m \<le> length bs"
  shows "let st' = foldl (\<lambda>st i. st[bs ! i := (st ! (bs ! i))\<lparr>b_pos := i\<rparr>]) st [k..<m] in
     length st' = length st \<and> (\<forall>j < length bs. st' ! (bs ! j) =
       (if k \<le> j \<and> j < m then (st ! (bs ! j))\<lparr>b_pos := j\<rparr> else st ! (bs ! j)))"
  using assms(3,4)
proof (induction m rule: dec_induct)
  case (step m)
  let ?f = "\<lambda>m. foldl (\<lambda>st i. st[bs ! i := (st ! (bs ! i))\<lparr>b_pos := i\<rparr>]) st [k..<m]"
  have IH: "length (?f m) = length st" "\<And>j. j < length bs \<Longrightarrow> ?f m ! (bs ! j) =
       (if k \<le> j \<and> j < m then (st ! (bs ! j))\<lparr>b_pos := j\<rparr> else st ! (bs ! j))"
    using step by (simp_all add: Let_def)
  have m: "m < length bs" "bs ! m < length (?f m)"
    using step assms(2) IH(1) by auto
  have "?f (Suc m) = (?f m)[bs ! m := (?f m ! (bs ! m))\<lparr>b_pos := m\<rparr>]"
    using step.hyps by simp
  moreover have "(?f m)[bs ! m := (?f m ! (bs ! m))\<lparr>b_pos := m\<rparr>] ! (bs ! j) =
      (if k \<le> j \<and> j < Suc m then (st ! (bs ! j))\<lparr>b_pos := j\<rparr> else st ! (bs ! j))"
    if "j < length bs" for j
  proof (cases "j = m")
    case True
    then show ?thesis using m IH(2) [OF m(1)] step.hyps by simp
  next
    case False
    then have "bs ! m \<noteq> bs ! j" using assms(1) m(1) that by (simp add: nth_eq_iff_index_eq)
    then show ?thesis using IH(2) [OF that] False by (simp add: less_Suc_eq)
  qed
  ultimately show ?case using IH(1) by (simp only: Let_def length_list_update) blast
qed (simp add: Let_def)

definition split_left :: "seqBlock \<Rightarrow> seqBlock" where
  "split_left b = b\<lparr>b_elems := take (length (b_elems b) div 2) (b_elems b),
     b_visible := b_visible b - count_visible (drop (length (b_elems b) div 2) (b_elems b))\<rparr>"

definition split_right :: "seqBlock \<Rightarrow> nat \<Rightarrow> seqBlock" where
  "split_right b pos = \<lparr>b_elems = drop (length (b_elems b) div 2) (b_elems b),
     b_visible = count_visible (drop (length (b_elems b) div 2) (b_elems b)), b_pos = pos\<rparr>"

lemma split_sel:
  "s_blocks (seq_split s bi) = take (Suc bi) (s_blocks s) @ length (s_store s) # drop (Suc bi) (s_blocks s)"
  "s_byID (seq_split s bi) = index_ids (s_byID s)
     (drop (length (b_elems (blk s bi)) div 2) (b_elems (blk s bi))) (length (s_store s))"
  "s_total (seq_split s bi) = s_total s" "s_vis (seq_split s bi) = s_vis s"
  "t_dirty (s_tree (seq_split s bi))"
  by (simp_all add: seq_split_def Let_def blk_def)

lemma Suc_minus_2: "Suc 0 < j \<Longrightarrow> Suc (j - 2) = j - Suc 0"
  by simp

lemma split_blk:
  assumes core: "seq_core s" and bi: "bi < length (s_blocks s)"
  shows "length (s_store (seq_split s bi)) = Suc (length (s_store s))"
    and "distinct (s_blocks (seq_split s bi))"
    and "\<forall>a \<in> set (s_blocks (seq_split s bi)). a < Suc (length (s_store s))"
    and "j < Suc (length (s_blocks s)) \<Longrightarrow> blk (seq_split s bi) j =
      (if j < bi then blk s j else if j = bi then split_left (blk s bi)
       else if j = Suc bi then split_right (blk s bi) j else (blk s (j - 1))\<lparr>b_pos := j\<rparr>)"
proof -
  let ?a' = "length (s_store s)"
  let ?bs = "take (Suc bi) (s_blocks s) @ ?a' # drop (Suc bi) (s_blocks s)"
  let ?st = "(s_store s)[s_blocks s ! bi := split_left (blk s bi)] @ [split_right (blk s bi) 0]"
  let ?st' = "foldl (\<lambda>st i. st[?bs ! i := (st ! (?bs ! i))\<lparr>b_pos := i\<rparr>]) ?st [Suc bi..<length ?bs]"
  have old: "\<forall>a \<in> set (s_blocks s). a < ?a'" using core by (simp add: seq_core_def)
  have sets: "set ?bs = insert ?a' (set (s_blocks s))"
    by (simp only: set_append list.simps(15) Un_insert_right)
      (simp only: set_append [symmetric] append_take_drop_id)
  have dist: "distinct ?bs"
    using core_blocks(2) [OF core] old by (auto simp: set_take_disj_set_drop_if_distinct
        dest: in_set_takeD in_set_dropD)
  have bound: "\<forall>a \<in> set ?bs. a < length ?st" using old unfolding sets by auto
  have len: "length ?bs = Suc (length (s_blocks s))" using bi by simp
  have bs: "s_blocks (seq_split s bi) = ?bs" by (rule split_sel(1))
  have st: "s_store (seq_split s bi) = ?st'"
    by (simp add: seq_split_def Let_def split_left_def split_right_def blk_def)
  from renumber_fold [OF dist bound, of "Suc bi" "length ?bs"] bi
  have ren: "length ?st' = length ?st" "\<And>j. j < length ?bs \<Longrightarrow> ?st' ! (?bs ! j) =
       (if Suc bi \<le> j \<and> j < length ?bs then (?st ! (?bs ! j))\<lparr>b_pos := j\<rparr> else ?st ! (?bs ! j))"
    unfolding Let_def len by simp_all
  show "length (s_store (seq_split s bi)) = Suc (length (s_store s))"
    unfolding st ren(1) by simp
  show "distinct (s_blocks (seq_split s bi))" unfolding bs by (rule dist)
  show "\<forall>a \<in> set (s_blocks (seq_split s bi)). a < Suc (length (s_store s))"
    unfolding bs using bound by simp
  assume j: "j < Suc (length (s_blocks s))"
  have bsj: "?bs ! j = (if j \<le> bi then s_blocks s ! j else if j = Suc bi then ?a' else s_blocks s ! (j - 1))"
    using bi j by (auto simp: nth_append nth_Cons' min_def Suc_minus_2)
  have at: "?st ! (s_blocks s ! i) = (if i = bi then split_left (blk s bi) else blk s i)"
    if "i < length (s_blocks s)" for i
    using that core_blocks [OF core] bi
    by (auto simp: blk_def nth_append nth_list_update nth_eq_iff_index_eq)
  have "blk (seq_split s bi) j = ?st' ! (?bs ! j)"
    by (simp only: blk_def [of "seq_split s bi"] bs st)
  also have "\<dots> = (if Suc bi \<le> j then (?st ! (?bs ! j))\<lparr>b_pos := j\<rparr> else ?st ! (?bs ! j))"
    using ren(2) [of j] j unfolding len by (simp only: simp_thms)
  finally have "blk (seq_split s bi) j =
      (if Suc bi \<le> j then (?st ! (?bs ! j))\<lparr>b_pos := j\<rparr> else ?st ! (?bs ! j))" .
  moreover have "?st ! ?a' = split_right (blk s bi) 0" by (simp add: nth_append)
  ultimately show "blk (seq_split s bi) j =
      (if j < bi then blk s j else if j = bi then split_left (blk s bi)
       else if j = Suc bi then split_right (blk s bi) j else (blk s (j - 1))\<lparr>b_pos := j\<rparr>)"
    using at [of j] at [of "j - 1"] bi j unfolding bsj by (auto simp: split_right_def)
qed

lemma blocks_of_split:
  assumes core: "seq_core s" and bi: "bi < length (s_blocks s)"
  shows "blocks_of (seq_split s bi) = take bi (blocks_of s) @
    b_elems (split_left (blk s bi)) # b_elems (split_right (blk s bi) 0) # drop (Suc bi) (blocks_of s)"
proof (rule nth_equalityI)
  have n: "length (s_blocks (seq_split s bi)) = Suc (length (s_blocks s))"
    using bi by (simp add: split_sel)
  then show "length (blocks_of (seq_split s bi)) = length (take bi (blocks_of s) @
    b_elems (split_left (blk s bi)) # b_elems (split_right (blk s bi) 0) # drop (Suc bi) (blocks_of s))"
    using bi by simp
  fix j assume "j < length (blocks_of (seq_split s bi))"
  then have j: "j < Suc (length (s_blocks s))" using n by simp
  then show "blocks_of (seq_split s bi) ! j = (take bi (blocks_of s) @
    b_elems (split_left (blk s bi)) # b_elems (split_right (blk s bi) 0) # drop (Suc bi) (blocks_of s)) ! j"
    using split_blk(4) [OF core bi j] n bi
    by (auto simp: nth_append nth_Cons' min_def split_right_def Suc_minus_2)
qed

lemma split_elems:
  assumes "seq_core s" "bi < length (s_blocks s)"
  shows "seq_elems (seq_split s bi) = seq_elems s"
proof -
  have "b_elems (split_left (blk s bi)) @ b_elems (split_right (blk s bi) 0) = b_elems (blk s bi)"
    by (simp add: split_left_def split_right_def)
  then show ?thesis
    using seq_elems_around [OF assms(2)]
    by (simp add: seq_elems_concat [of "seq_split s bi"] blocks_of_split [OF assms])
qed

lemma core_block_distinct:
  assumes "seq_core s" "i < length (s_blocks s)"
  shows "distinct (List.map e_id (b_elems (blk s i)))"
  using core_distinct [OF assms(1)] seq_elems_around [OF assms(2)] by simp

lemma split_core:
  assumes core: "seq_core s" and bi: "bi < length (s_blocks s)"
  shows "seq_core (seq_split s bi)"
proof (rule seq_coreI)
  let ?t = "seq_split s bi" and ?cut = "length (b_elems (blk s bi)) div 2"
  have n: "length (s_blocks ?t) = Suc (length (s_blocks s))" using bi by (simp add: split_sel)
  show "s_blocks ?t \<noteq> []" by (simp add: split_sel)
  show "distinct (s_blocks ?t)" by (rule split_blk(2) [OF core bi])
  show "distinct (List.map e_id (seq_elems ?t))"
    using core_distinct [OF core] by (simp add: split_elems [OF core bi])
  show "s_total ?t = int (length (seq_elems ?t))" "s_vis ?t = count_visible (seq_elems ?t)"
    using core_total [OF core] core_vis [OF core] by (simp_all add: split_elems [OF core bi] split_sel)
  show "t_dirty (s_tree ?t) \<or> tree_ok (s_tree ?t) (block_counts ?t)" by (simp add: split_sel)
  have cut: "count_visible (take ?cut (b_elems (blk s bi)))
      = count_visible (b_elems (blk s bi)) - count_visible (drop ?cut (b_elems (blk s bi)))"
    using count_visible_simps(2) [of "take ?cut (b_elems (blk s bi))" "drop ?cut (b_elems (blk s bi))"]
    by simp
  fix i assume i: "i < length (s_blocks ?t)"
  show "s_blocks ?t ! i < length (s_store ?t)"
    using split_blk(1,3) [OF core bi] i by simp
  show "b_pos (blk ?t i) = i" "b_visible (blk ?t i) = count_visible (b_elems (blk ?t i))"
    using split_blk(4) [OF core bi, of i] i n core_pos [OF core, of i] core_visible [OF core] bi cut
    by (auto simp: split_left_def split_right_def core_pos [OF core])
  fix e assume e: "e \<in> set (b_elems (blk ?t i))"
  let ?moved = "drop ?cut (b_elems (blk s bi))"
  have byID: "s_byID ?t (e_id e)
      = (if e_id e \<in> e_id ` set ?moved then Some (length (s_store s)) else s_byID s (e_id e))"
    by (simp add: split_sel index_ids_eq)
  have at: "s_blocks ?t ! i = (if i \<le> bi then s_blocks s ! i else if i = Suc bi then length (s_store s)
      else s_blocks s ! (i - 1))"
    using bi i n by (auto simp: split_sel nth_append nth_Cons' min_def Suc_minus_2)
  have keep: "s_byID ?t (e_id e) = Some (s_blocks s ! j)"
    if j: "j < length (s_blocks s)" "j \<noteq> bi" and ej: "e \<in> set (b_elems (blk s j))" for j
  proof -
    have "e_id e \<notin> e_id ` set ?moved"
      using blocks_disjoint [OF core j(1) bi j(2) ej] by (auto dest: in_set_dropD)
    then show ?thesis using core_byID_at [OF core j(1) ej] by (simp add: byID)
  qed
  consider (before) "i < bi" | (left) "i = bi" | (right) "i = Suc bi" | (after) "Suc bi < i" by linarith
  then show "s_byID ?t (e_id e) = Some (s_blocks ?t ! i)"
  proof cases
    case before
    then show ?thesis using keep [of i] split_blk(4) [OF core bi, of i] e bi by (simp add: at)
  next
    case left
    then have mem: "e \<in> set (take ?cut (b_elems (blk s bi)))"
      using split_blk(4) [OF core bi, of i] e bi by (simp add: split_left_def)
    have "distinct (List.map e_id (take ?cut (b_elems (blk s bi)) @ ?moved))"
      using core_block_distinct [OF core bi] by (simp only: append_take_drop_id)
    then have "e_id e \<notin> e_id ` set ?moved"
      using mem by (auto simp: distinct_append simp del: append_take_drop_id)
    then show ?thesis
      using core_byID_at [OF core bi in_set_takeD [OF mem]] at left by (simp add: byID)
  next
    case right
    then have "e \<in> set ?moved"
      using split_blk(4) [OF core bi, of i] e bi by (simp add: split_right_def)
    then show ?thesis using right at by (simp add: byID)
  next
    case after
    then show ?thesis
      using keep [of "i - 1"] split_blk(4) [OF core bi, of i] e bi i n by (auto simp: at)
  qed
next
  fix oid a assume "s_byID (seq_split s bi) oid = Some a"
  then have "oid \<in> e_id ` set (b_elems (blk s bi)) \<or> s_byID s oid = Some a"
    by (auto simp: split_sel index_ids_eq dest: in_set_dropD split: if_splits)
  then show "oid \<in> e_id ` set (seq_elems (seq_split s bi))"
    using core_byID_in [OF core] ids_in_block [of oid s] bi
    unfolding split_elems [OF core bi] by blast
qed

lemma insertAt_elems:
  assumes "seq_core s" "bi < length (s_blocks s)" "off \<le> length (b_elems (blk s bi))"
    and "e_id e \<notin> ids_of (seq_elems s)"
  shows "seq_core (insertAt s bi off e)"
    and "seq_elems (insertAt s bi off e)
         = take (offset s bi + off) (seq_elems s) @ e # drop (offset s bi + off) (seq_elems s)"
proof -
  have "bi < length (s_blocks (insert_raw s bi off e))" using assms(2) by (simp add: insert_raw_def)
  note raw = insert_raw_core [OF assms] split_core [OF insert_raw_core(1) [OF assms] this]
    split_elems [OF insert_raw_core(1) [OF assms] this]
  show "seq_core (insertAt s bi off e)" using raw by (simp add: insertAt_raw)
  show "seq_elems (insertAt s bi off e)
         = take (offset s bi + off) (seq_elems s) @ e # drop (offset s bi + off) (seq_elems s)"
    using raw(4) raw(2) by (simp only: insertAt_raw split: if_split) simp
qed

lemma insertAt_sizes:
  assumes "seq_core s" "block_sizes s" "bi < length (s_blocks s)" "off \<le> length (b_elems (blk s bi))"
    and "e_id e \<notin> ids_of (seq_elems s)"
  shows "block_sizes (insertAt s bi off e)"
proof -
  let ?r = "insert_raw s bi off e"
  have n: "s_blocks ?r = s_blocks s" by (simp add: insert_raw_def)
  have raw: "length (b_elems (blk ?r i)) = (if i = bi then Suc (length (b_elems (blk s bi)))
      else length (b_elems (blk s i)))" if "i < length (s_blocks s)" for i
    using assms(1,3,4) that by (simp add: insert_raw_def blk_set_block grown_block_def)
  have old: "length (b_elems (blk s i)) < seqBlockMax" if "i < length (s_blocks s)" for i
    using assms(2) that by (simp add: block_sizes_def)
  show ?thesis
  proof (cases "length (b_elems (blk s bi)) + 1 \<ge> seqBlockMax")
    case True
    have core: "seq_core ?r" using insert_raw_core(1) [OF assms(1,3,4,5)] .
    have half: "Suc m - Suc m div 2 < seqBlockMax" if "m < seqBlockMax" for m
      using that unfolding seqBlockMax_def by linarith
    have "length (b_elems (blk (seq_split ?r bi) i)) < seqBlockMax"
      if "i < Suc (length (s_blocks s))" for i
      using split_blk(4) [OF core, of bi i] that assms(3) raw [of i] raw [of bi] raw [of "i - 1"]
        old [of bi] old [of i] old [of "i - 1"]
      by (auto simp: n split_left_def split_right_def half)
    then show ?thesis
      using True assms(3) by (simp add: insertAt_raw block_sizes_def split_sel n)
  next
    case False
    have "length (b_elems (blk ?r i)) < seqBlockMax" if "i < length (s_blocks s)" for i
      using raw [OF that] old [OF that] False by auto
    then show ?thesis using False by (simp add: insertAt_raw block_sizes_def n)
  qed
qed

section \<open>insertAfter\<close>

lemma place_takeWhile:
  "place e xs = take (length (takeWhile (\<lambda>x. opid_Greater (e_id x) (e_id e)) xs)) xs @ e #
     drop (length (takeWhile (\<lambda>x. opid_Greater (e_id x) (e_id e)) xs)) xs"
  by (simp add: place_split takeWhile_eq_take [symmetric] dropWhile_eq_drop)

lemma skip_greater_ok:
  assumes "bi < length (s_blocks s)" "off \<le> length (b_elems (blk s bi))"
  shows "case skip_greater s bi off e of (bi', off') \<Rightarrow>
    bi' < length (s_blocks s) \<and> off' \<le> length (b_elems (blk s bi')) \<and>
    offset s bi' + off' = offset s bi + off
      + length (takeWhile (\<lambda>x. opid_Greater (e_id x) (e_id e)) (tail_from s bi off))"
  using assms
proof (induction s bi off e rule: skip_greater.induct)
  case (1 s bi off e)
  show ?case
  proof (cases "off \<ge> length (b_elems (blk s bi))")
    case past: True
    show ?thesis
    proof (cases "Suc bi \<ge> length (s_blocks s)")
      case True
      then show ?thesis
        using past "1.prems" by (subst skip_greater.simps) (simp add: tail_from_def)
    next
      case False
      then have "offset s (Suc bi) = offset s bi + off" "tail_from s (Suc bi) 0 = tail_from s bi off"
        using past "1.prems"
        by (simp_all add: offset_def take_Suc_conv_app_nth tail_from_0) (simp add: tail_from_def)
      then show ?thesis
        using "1.IH"(1) [OF past False] False past by (subst skip_greater.simps) simp
    qed
  next
    case inside: False
    then have tl: "tail_from s bi off = b_elems (blk s bi) ! off # tail_from s bi (Suc off)"
      by (simp add: tail_from_def Cons_nth_drop_Suc [symmetric])
    show ?thesis
    proof (cases "opid_Greater (e_id (b_elems (blk s bi) ! off)) (e_id e)")
      case True
      then show ?thesis
        using "1.IH"(2) [OF inside True] "1.prems" inside tl by (subst skip_greater.simps) auto
    next
      case False
      then show ?thesis
        using "1.prems" inside tl by (subst skip_greater.simps) simp
    qed
  qed
qed

lemma insert_from:
  assumes "seq_core s" "bi < length (s_blocks s)" "off \<le> length (b_elems (blk s bi))"
    and "e_id e \<notin> ids_of (seq_elems s)" "skip_greater s bi off e = (bi', off')"
  shows "seq_core (insertAt s bi' off' e)"
    and "seq_elems (insertAt s bi' off' e) = take (offset s bi + off) (seq_elems s)
           @ place e (drop (offset s bi + off) (seq_elems s))"
    and "block_sizes s \<Longrightarrow> block_sizes (insertAt s bi' off' e)"
proof -
  let ?p = "offset s bi + off"
  let ?k = "length (takeWhile (\<lambda>x. opid_Greater (e_id x) (e_id e)) (drop ?p (seq_elems s)))"
  have tl: "tail_from s bi off = drop ?p (seq_elems s)"
    using seq_elems_at(2) [OF assms(2,3)] by (simp add: tail_from_def)
  have at: "bi' < length (s_blocks s)" "off' \<le> length (b_elems (blk s bi'))"
    "offset s bi' + off' = ?p + ?k"
    using skip_greater_ok [OF assms(2,3), of e] assms(5) tl by simp_all
  show "seq_core (insertAt s bi' off' e)" by (rule insertAt_elems(1) [OF assms(1) at(1,2) assms(4)])
  have "drop (?p + ?k) (seq_elems s) = drop ?k (drop ?p (seq_elems s))"
    by (simp only: drop_drop add.commute)
  then show "seq_elems (insertAt s bi' off' e) = take ?p (seq_elems s) @ place e (drop ?p (seq_elems s))"
    using insertAt_elems(2) [OF assms(1) at(1,2) assms(4)]
    unfolding at(3) place_takeWhile [of e "drop ?p (seq_elems s)"] take_add
    by (simp only: append_assoc)
  show "block_sizes s \<Longrightarrow> block_sizes (insertAt s bi' off' e)"
    by (rule insertAt_sizes [OF assms(1) _ at(1,2) assms(4)])
qed

lemma insertAfter_start:
  assumes core: "seq_core s"
  obtains bi off where "bi < length (s_blocks s)" "off \<le> length (b_elems (blk s bi))"
    "insertAfter s r e = (let (bi', off') = skip_greater s bi off e in insertAt s bi' off' e)"
    "rga_insert r e (seq_elems s) = take (offset s bi + off) (seq_elems s)
       @ place e (drop (offset s bi + off) (seq_elems s))"
proof (cases r)
  case None
  show ?thesis
    by (rule that [of 0 0]) (use None core_blocks(1) [OF core] in \<open>simp_all add: insertAfter_def offset_def\<close>)
next
  case r: (Some q)
  let ?m = "length (s_blocks s) - 1"
  show ?thesis
  proof (cases "locate s q")
    case None
    have m: "?m < length (s_blocks s)" using core_blocks(1) [OF core] by simp
    have "offset s ?m + length (b_elems (blk s ?m)) = length (seq_elems s)"
      using seq_elems_around [OF m] m by (simp add: offset_def)
    then have "rga_insert r e (seq_elems s)
      = take (offset s ?m + length (b_elems (blk s ?m))) (seq_elems s)
       @ place e (drop (offset s ?m + length (b_elems (blk s ?m))) (seq_elems s))"
      using None locate_None [OF core, of q] insert_after_absent [of q "seq_elems s" e] r
      by (simp add: ids_of_def)
    then show ?thesis
      by (intro that [OF m order.refl]) (simp_all add: insertAfter_def r None)
  next
    case (Some x)
    then obtain a off where "locate s q = Some (a, off)" by (cases x) auto
    note loc = this
    from core this obtain i where i: "i < length (s_blocks s)" "a = s_blocks s ! i"
      "b_pos (s_store s ! a) = i" "off < length (b_elems (blk s i))"
      "e_id (b_elems (blk s i) ! off) = q" "s_store s ! a = blk s i" by (rule locate_Some)
    have "rga_insert r e (seq_elems s) = take (offset s i + Suc off) (seq_elems s)
       @ place e (drop (offset s i + Suc off) (seq_elems s))"
      using insert_after_at [OF core_distinct [OF core], of "offset s i + off" q e]
        seq_elems_nth [OF i(1,4)] i(5) r by simp
    then show ?thesis
      by (rule that [OF i(1) Suc_leI [OF i(4)], rotated]) (simp add: insertAfter_def r loc i(3))
  qed
qed

lemma insertAfter_ok:
  assumes "seq_core s" "e_id e \<notin> ids_of (seq_elems s)"
  shows "seq_core (insertAfter s r e)"
    and "seq_elems (insertAfter s r e) = rga_insert r e (seq_elems s)"
    and "block_sizes s \<Longrightarrow> block_sizes (insertAfter s r e)"
proof -
  obtain bi off where b: "bi < length (s_blocks s)" "off \<le> length (b_elems (blk s bi))"
    "insertAfter s r e = (let (bi', off') = skip_greater s bi off e in insertAt s bi' off' e)"
    "rga_insert r e (seq_elems s) = take (offset s bi + off) (seq_elems s)
       @ place e (drop (offset s bi + off) (seq_elems s))"
    by (rule insertAfter_start [OF assms(1)])
  obtain bi' off' where "skip_greater s bi off e = (bi', off')" by fastforce
  then have sk: "skip_greater s bi off e = (bi', off')" .
  note ins = insert_from [OF assms(1) b(1,2) assms(2) sk]
  show "seq_core (insertAfter s r e)"
    and "seq_elems (insertAfter s r e) = rga_insert r e (seq_elems s)"
    and "block_sizes s \<Longrightarrow> block_sizes (insertAfter s r e)"
    using ins by (simp_all add: b(3,4) sk)
qed

lemma insertAfter_inv:
  "seq_inv s \<Longrightarrow> e_id e \<notin> ids_of (seq_elems s) \<Longrightarrow> seq_inv (insertAfter s r e)"
  using insertAfter_ok [of s e r] by (simp add: seq_inv_def)

section \<open>Text\<close>

lemma visibleText_eq [seq_simps]:
  assumes "seq_core s"
  shows "visibleText s = concat (List.map (\<lambda>e. v_str (e_value e)) (shown (seq_elems s)))"
proof -
  let ?txt = "\<lambda>es. concat (List.map (\<lambda>e. v_str (e_value e)) (shown es))"
  have inner: "foldl (\<lambda>buf e. if e_deleted e then buf else buf @ v_str (e_value e)) buf es = buf @ ?txt es"
    for buf es by (induction es arbitrary: buf) auto
  have "foldl (\<lambda>buf a. let block = s_store s ! a in
       if b_visible block = 0 then buf
       else foldl (\<lambda>buf e. if e_deleted e then buf else buf @ v_str (e_value e)) buf (b_elems block))
     buf as = buf @ ?txt (concat (List.map (\<lambda>a. b_elems (s_store s ! a)) as))"
    if "\<forall>a \<in> set as. b_visible (s_store s ! a) = count_visible (b_elems (s_store s ! a))" for buf as
    using that
    by (induction as arbitrary: buf) (auto simp: inner Let_def count_visible_shown)
  moreover have "\<forall>a \<in> set (s_blocks s). b_visible (s_store s ! a) = count_visible (b_elems (s_store s ! a))"
    using core_visible [OF assms] by (auto simp: in_set_conv_nth blk_def)
  ultimately show ?thesis by (simp add: visibleText_def seq_elems_concat blocks_of_def)
qed

section \<open>Loading\<close>

definition seq_loading :: "elemSeq \<Rightarrow> bool" where
  "seq_loading s \<longleftrightarrow> s_blocks s = [0..<length (s_store s)] \<and>
     (\<forall>b \<in> set (s_store s). b_visible b = count_visible (b_elems b) \<and> length (b_elems b) < seqBlockMax) \<and>
     (\<forall>i < length (s_store s). b_pos (s_store s ! i) = i \<and>
        (\<forall>e \<in> set (b_elems (s_store s ! i)). s_byID s (e_id e) = Some i)) \<and>
     (\<forall>oid. s_byID s oid \<noteq> None \<longrightarrow> oid \<in> ids_of (seq_elems s)) \<and>
     s_total s = int (length (seq_elems s)) \<and> s_vis s = count_visible (seq_elems s)"

lemma loading_elems:
  "s_blocks s = [0..<length (s_store s)] \<Longrightarrow> seq_elems s = concat (List.map b_elems (s_store s))"
proof -
  assume "s_blocks s = [0..<length (s_store s)]"
  then have "blocks_of s = List.map b_elems (s_store s)"
    by (intro nth_equalityI) (simp_all add: blocks_of_def)
  then show ?thesis by (simp add: seq_elems_concat)
qed

lemma loading_step:
  assumes load: "seq_loading s" and dist: "distinct (List.map e_id (seq_elems s @ chunk))"
    and size: "length chunk < seqBlockMax"
    and b: "b = \<lparr>b_elems = chunk, b_visible = count_visible chunk, b_pos = length (s_blocks s)\<rparr>"
    and s': "s' = s\<lparr>s_store := s_store s @ [b], s_blocks := s_blocks s @ [length (s_store s)],
         s_byID := index_ids (s_byID s) chunk (length (s_store s)),
         s_total := s_total s + int (length chunk), s_vis := s_vis s + b_visible b\<rparr>"
  shows "seq_loading s' \<and> seq_elems s' = seq_elems s @ chunk"
proof -
  have bl: "s_blocks s = [0..<length (s_store s)]" using load by (simp add: seq_loading_def)
  then have bl': "s_blocks s' = [0..<length (s_store s')]" by (simp add: s')
  have el: "seq_elems s' = seq_elems s @ chunk"
    unfolding loading_elems [OF bl] loading_elems [OF bl'] by (simp add: s' b)
  have inblk: "set (b_elems (s_store s ! i)) \<subseteq> set (seq_elems s)" if "i < length (s_store s)" for i
    using nth_mem [OF that] unfolding loading_elems [OF bl] by auto
  have keep: "e_id e \<notin> e_id ` set chunk"
    if "i < length (s_store s)" "e \<in> set (b_elems (s_store s ! i))" for i e
    using inblk [OF that(1)] that(2) dist by auto
  have "s_byID s' (e_id e) = Some i"
    if "i < length (s_store s')" "e \<in> set (b_elems (s_store s' ! i))" for i e
    using that load keep [of i e]
    by (auto simp: s' b nth_append index_ids_eq seq_loading_def split: if_splits)
  moreover have "oid \<in> ids_of (seq_elems s')" if "s_byID s' oid \<noteq> None" for oid
  proof -
    have "s_byID s' = index_ids (s_byID s) chunk (length (s_store s))" by (simp add: s')
    then show ?thesis
      using that load unfolding el by (auto simp: index_ids_eq seq_loading_def ids_of_def split: if_splits)
  qed
  moreover have "b_pos (s_store s' ! i) = i" if "i < length (s_store s')" for i
    using that load bl by (auto simp: s' b nth_append seq_loading_def)
  moreover have "s_total s' = int (length (seq_elems s'))" "s_vis s' = count_visible (seq_elems s')"
    using load unfolding el by (simp_all add: s' b seq_loading_def)
  moreover have "\<forall>b \<in> set (s_store s'). b_visible b = count_visible (b_elems b) \<and> length (b_elems b) < seqBlockMax"
    using load size by (auto simp: s' b seq_loading_def)
  ultimately show ?thesis using bl' el unfolding seq_loading_def by blast
qed

lemma reset_loop_ok:
  assumes "seq_loading s" "distinct (List.map e_id (seq_elems s @ es))"
  shows "seq_loading (reset_loop s es) \<and> seq_elems (reset_loop s es) = seq_elems s @ es \<and>
    s_tree (reset_loop s es) = s_tree s \<and> (es \<noteq> [] \<longrightarrow> s_blocks (reset_loop s es) \<noteq> [])"
  using assms
proof (induction "length es" arbitrary: s es rule: less_induct)
  case less
  show ?case
  proof (cases "es = []")
    case True
    then show ?thesis using less.prems by (subst (1 2 3 4) reset_loop.simps) simp
  next
    case False
    define chunk where "chunk = take seqBlockTarget es"
    define b where "b = \<lparr>b_elems = chunk, b_visible = count_visible chunk, b_pos = length (s_blocks s)\<rparr>"
    define s' where "s' = s\<lparr>s_store := s_store s @ [b], s_blocks := s_blocks s @ [length (s_store s)],
         s_byID := index_ids (s_byID s) chunk (length (s_store s)),
         s_total := s_total s + int (length chunk), s_vis := s_vis s + b_visible b\<rparr>"
    have es: "es = chunk @ drop seqBlockTarget es" by (simp add: chunk_def)
    have d: "distinct (List.map e_id ((seq_elems s @ chunk) @ drop seqBlockTarget es))"
      using less.prems(2) es by simp
    then have dc: "distinct (List.map e_id (seq_elems s @ chunk))"
      unfolding map_append [of _ "seq_elems s @ chunk"] distinct_append [of "List.map _ _"] by blast
    have sz: "length chunk < seqBlockMax" by (simp add: chunk_def seqBlockTarget_def seqBlockMax_def)
    have st: "seq_loading s'" "seq_elems s' = seq_elems s @ chunk"
      using loading_step [OF less.prems(1) dc sz b_def s'_def] by simp_all
    have rl: "reset_loop s es = reset_loop s' (drop seqBlockTarget es)"
      using False by (subst reset_loop.simps) (simp add: Let_def s'_def b_def chunk_def)
    have "seq_loading (reset_loop s' (drop seqBlockTarget es))
      \<and> seq_elems (reset_loop s' (drop seqBlockTarget es)) = seq_elems s' @ drop seqBlockTarget es
      \<and> s_tree (reset_loop s' (drop seqBlockTarget es)) = s_tree s' \<and>
      (drop seqBlockTarget es \<noteq> [] \<longrightarrow> s_blocks (reset_loop s' (drop seqBlockTarget es)) \<noteq> [])"
      using less.hyps [of "drop seqBlockTarget es" s'] st d False
      by (simp add: seqBlockTarget_def)
    moreover have "s_tree s' = s_tree s" by (simp add: s'_def)
    moreover have "s_blocks (reset_loop s' []) \<noteq> []"
      by (subst reset_loop.simps) (simp add: s'_def)
    ultimately show ?thesis
      using st(2) es unfolding rl by (cases "drop seqBlockTarget es = []") auto
  qed
qed

lemma loading_core:
  assumes load: "seq_loading s" and dist: "distinct (List.map e_id (seq_elems s))"
    and ne: "s_blocks s \<noteq> []" and dirty: "t_dirty (s_tree s)"
  shows "seq_inv s"
proof -
  have bl: "s_blocks s = [0..<length (s_store s)]" using load by (simp add: seq_loading_def)
  then have blk: "blk s i = s_store s ! i" "s_blocks s ! i = i" if "i < length (s_store s)" for i
    using that by (simp_all add: blk_def)
  have n: "length (s_blocks s) = length (s_store s)" using bl by simp
  have "seq_core s"
    by (rule seq_coreI)
      (use load dist ne dirty bl in \<open>auto simp: seq_loading_def ids_of_def n blk\<close>)
  moreover have "block_sizes s"
    using load by (auto simp: block_sizes_def n blk seq_loading_def)
  ultimately show ?thesis by (simp add: seq_inv_def)
qed

lemma seq_reset_ok:
  assumes dist: "distinct (List.map e_id es)"
  shows "seq_inv (seq_reset s es)" and "seq_elems (seq_reset s es) = es"
    and "t_dirty (s_tree (seq_reset s es))"
proof -
  let ?s0 = "s\<lparr>s_store := [], s_blocks := [], s_byID := Map.empty, s_total := 0, s_vis := 0,
                 s_tree := (s_tree s)\<lparr>t_dirty := True\<rparr>\<rparr>"
  have e0: "seq_elems ?s0 = []" by (simp add: seq_elems_def)
  then have "seq_loading ?s0" by (simp add: seq_loading_def)
  with dist e0 have l: "seq_loading (reset_loop ?s0 es)" "seq_elems (reset_loop ?s0 es) = es"
    "t_dirty (s_tree (reset_loop ?s0 es))" "es \<noteq> [] \<Longrightarrow> s_blocks (reset_loop ?s0 es) \<noteq> []"
    using reset_loop_ok [of ?s0 es] by simp_all
  show "seq_inv (seq_reset s es)" "seq_elems (seq_reset s es) = es" "t_dirty (s_tree (seq_reset s es))"
  proof (atomize (full), cases "es = []")
    case False
    then have r: "seq_reset s es = reset_loop ?s0 es" using l(4) by (simp add: seq_reset_def Let_def)
    show "seq_inv (seq_reset s es) \<and> seq_elems (seq_reset s es) = es \<and> t_dirty (s_tree (seq_reset s es))"
      unfolding r using loading_core [OF l(1)] l dist False by simp
  next
    case True
    let ?b = "\<lparr>b_elems = [], b_visible = 0, b_pos = 0\<rparr>"
    have r: "seq_reset s es = ?s0\<lparr>s_store := [?b], s_blocks := [0]\<rparr>"
      using True by (simp add: seq_reset_def Let_def reset_loop.simps)
    have sel: "s_blocks (seq_reset s es) = [0]" "t_dirty (s_tree (seq_reset s es))"
      by (simp_all add: r)
    have e: "seq_elems (seq_reset s es) = []" by (simp add: r seq_elems_def)
    then have "seq_loading (seq_reset s es)" by (simp add: seq_loading_def r seqBlockMax_def)
    then show "seq_inv (seq_reset s es) \<and> seq_elems (seq_reset s es) = es \<and> t_dirty (s_tree (seq_reset s es))"
      using loading_core [of "seq_reset s es"] e sel True by simp
  qed
qed

lemma newSeq_ok: "seq_inv newSeq" "seq_elems newSeq = []"
proof -
  show e: "seq_elems newSeq = []" by (simp add: seq_elems_def newSeq_def)
  have v: "s_blocks newSeq = [0]" "s_store newSeq = [\<lparr>b_elems = [], b_visible = 0, b_pos = 0\<rparr>]"
    "s_byID newSeq = Map.empty" "s_total newSeq = 0" "s_vis newSeq = 0" "s_tree newSeq = tree_build [0]"
    by (simp_all add: newSeq_def)
  have c: "block_counts newSeq = [0]" by (simp add: block_counts_def v)
  have "seq_core newSeq"
    by (rule seq_coreI) (simp_all add: e v c tree_build_ok, simp_all add: blk_def v)
  then show "seq_inv newSeq"
    by (simp add: seq_inv_def block_sizes_def v blk_def seqBlockMax_def)
qed

lemma seq_clone_ok:
  assumes "seq_core s"
  shows "seq_inv (seq_clone s)" and "seq_elems (seq_clone s) = seq_elems s"
  using seq_reset_ok [OF core_distinct [OF assms]] by (simp_all add: seq_clone_def)

lemmas seq_update_ok = setVisibility_elems setVisibility_inv insertAfter_ok insertAfter_inv
  seq_reset_ok newSeq_ok seq_clone_ok

end
