(* ===== verification/Seq_Interface.thy ===== *)
theory Seq_Interface
  imports Crdt_Seq_Update
begin

text \<open>
  What the document relies on when it edits a list or text object, stated as a contract, and
  the block index as its provider. The lemmas a client needs (concurrent edits commute, the
  two directions of the visible-index lookup are inverse) are proved once from the contract.
\<close>

locale element_sequence =
  fixes elems :: "'s \<Rightarrow> listElem list"
    and ok :: "'s \<Rightarrow> bool"
    and ins :: "'s \<Rightarrow> opid option \<Rightarrow> listElem \<Rightarrow> 's"
    and flip :: "'s \<Rightarrow> opid \<Rightarrow> bool \<Rightarrow> opid \<Rightarrow> 's"
  assumes elems_distinct: "ok s \<Longrightarrow> distinct (List.map e_id (elems s))"
    and ins_elems: "ok s \<Longrightarrow> e_id e \<notin> ids_of (elems s) \<Longrightarrow> elems (ins s r e) = rga_insert r e (elems s)"
    and ins_ok: "ok s \<Longrightarrow> e_id e \<notin> ids_of (elems s) \<Longrightarrow> ok (ins s r e)"
    and flip_elems: "ok s \<Longrightarrow> elems (flip s oid d v) = set_visible oid d v (elems s)"
    and flip_ok: "ok s \<Longrightarrow> ok (flip s oid d v)"
begin

lemma ins_commute:
  assumes "ok s" "e_id e \<notin> ids_of (elems s)" "e_id f \<notin> ids_of (elems s)" "e_id e \<noteq> e_id f"
    and "ref_in r (elems s)" "ref_in q (elems s)"
  shows "elems (ins (ins s q f) r e) = elems (ins (ins s r e) q f)"
proof -
  have "elems (ins (ins s q f) r e) = rga_insert r e (rga_insert q f (elems s))"
    using assms(1-4) by (simp add: ins_elems ins_ok)
  also have "\<dots> = rga_insert q f (rga_insert r e (elems s))"
    using assms by (intro rga_insert_commute) (auto simp: ref_in_def)
  also have "\<dots> = elems (ins (ins s r e) q f)"
    using assms(1-4) by (simp add: ins_elems ins_ok)
  finally show ?thesis .
qed

lemma ins_flip_commute:
  assumes "ok s" "e_id e \<notin> ids_of (elems s)" "e_id e \<noteq> oid"
  shows "elems (flip (ins s r e) oid d v) = elems (ins (flip s oid d v) r e)"
  using assms by (simp add: ins_elems ins_ok flip_elems flip_ok set_visible_rga_insert)

lemma flip_commute:
  assumes "ok s" "op_actor v \<noteq> []" "op_actor w \<noteq> []" "v \<noteq> w"
  shows "elems (flip (flip s y d' w) x d v) = elems (flip (flip s x d v) y d' w)"
  using assms by (simp add: flip_elems flip_ok set_visible_commute)

lemma flip_ids: "ok s \<Longrightarrow> ids_of (elems (flip s oid d v)) = ids_of (elems s)"
  by (simp add: flip_elems)

lemma ins_ids:
  "ok s \<Longrightarrow> e_id e \<notin> ids_of (elems s) \<Longrightarrow> ids_of (elems (ins s r e)) = insert (e_id e) (ids_of (elems s))"
  by (simp add: ins_elems)

end

text \<open>The lookups by visible position; a lookup may rebuild the tree, so it returns a state.\<close>

locale indexed_sequence = element_sequence elems ok ins flip
  for elems :: "'s \<Rightarrow> listElem list" and ok ins flip +
  fixes len :: "'s \<Rightarrow> int"
    and id_at :: "'s \<Rightarrow> int \<Rightarrow> opid option \<times> 's"
    and index_of :: "'s \<Rightarrow> opid \<Rightarrow> int \<times> 's"
  assumes len_elems: "ok s \<Longrightarrow> len s = int (length (shown (elems s)))"
    and id_at_elems: "ok s \<Longrightarrow> fst (id_at s i) =
      (if 0 \<le> i \<and> i < len s then Some (e_id (shown (elems s) ! nat i)) else None)"
    and index_of_elems: "ok s \<Longrightarrow> fst (index_of s oid) = int (vindex oid (elems s))"
    and id_at_same: "ok s \<Longrightarrow> elems (snd (id_at s i)) = elems s \<and> ok (snd (id_at s i))"
    and index_of_same: "ok s \<Longrightarrow> elems (snd (index_of s oid)) = elems s \<and> ok (snd (index_of s oid))"
begin

lemma shown_distinct: "ok s \<Longrightarrow> distinct (List.map e_id (shown (elems s)))"
  using elems_distinct by (simp add: shown_def distinct_map_filter)

lemma index_of_id_at:
  assumes "ok s" "fst (id_at s i) = Some oid"
  shows "fst (index_of s oid) = i"
proof -
  from assms have i: "0 \<le> i" "i < len s" and oid: "oid = e_id (shown (elems s) ! nat i)"
    by (auto simp: id_at_elems split: if_splits)
  let ?es = "shown (elems s)"
  have n: "nat i < length ?es" using i len_elems [OF assms(1)] by simp
  have "takeWhile (\<lambda>e. e_id e \<noteq> oid) ?es = take (nat i) ?es"
  proof (rule takeWhile_eq_take_P_nth)
    fix k assume "k < nat i" "k < length ?es"
    then show "e_id (?es ! k) \<noteq> oid"
      using nth_eq_iff_index_eq [OF shown_distinct [OF assms(1)], of k "nat i"] n oid by simp
  qed (use oid in simp)
  then show ?thesis
    using n i index_of_elems [OF assms(1)] by (simp add: vindex_def)
qed

lemma id_at_index_of:
  assumes "ok s" "fst (index_of s oid) < len s"
  shows "fst (id_at s (fst (index_of s oid))) = Some oid"
proof -
  have idx: "fst (index_of s oid) = int (vindex oid (elems s))" by (rule index_of_elems [OF assms(1)])
  then have k: "vindex oid (elems s) < length (shown (elems s))"
    using assms len_elems by simp
  then have "e_id (shown (elems s) ! vindex oid (elems s)) = oid"
    using nth_length_takeWhile [of "\<lambda>e. e_id e \<noteq> oid" "shown (elems s)"] by (simp add: vindex_def)
  then show ?thesis using assms id_at_elems [OF assms(1)] idx by simp
qed

end

section \<open>The block index provides both\<close>

interpretation block_index: element_sequence seq_elems seq_inv insertAfter
  "\<lambda>s oid d v. snd (setVisibility s oid d v)"
proof
  show "seq_inv s \<Longrightarrow> distinct (List.map e_id (seq_elems s))" for s
    by (simp add: seq_inv_def core_distinct)
  show "seq_inv s \<Longrightarrow> e_id e \<notin> ids_of (seq_elems s) \<Longrightarrow>
      seq_elems (insertAfter s r e) = rga_insert r e (seq_elems s)" for s e r
    by (simp add: seq_inv_def insertAfter_ok)
  show "seq_inv s \<Longrightarrow> e_id e \<notin> ids_of (seq_elems s) \<Longrightarrow> seq_inv (insertAfter s r e)" for s e r
    by (rule insertAfter_inv)
  show "seq_inv s \<Longrightarrow> seq_elems (snd (setVisibility s oid d v)) = set_visible oid d v (seq_elems s)"
    for s oid d v by (simp add: seq_inv_def setVisibility_elems)
  show "seq_inv s \<Longrightarrow> seq_inv (snd (setVisibility s oid d v))" for s oid d v
    by (rule setVisibility_inv)
qed

interpretation block_index: indexed_sequence seq_elems seq_inv insertAfter
  "\<lambda>s oid d v. snd (setVisibility s oid d v)" visibleLength visibleIDAt visibleIndexOf
proof
  fix s assume inv: "seq_inv s"
  then have core: "seq_core s" by (simp add: seq_inv_def)
  show len: "visibleLength s = int (length (shown (seq_elems s)))"
    using core_vis [OF core] by (simp add: visibleLength_def count_visible_shown)
  show "fst (visibleIDAt s i) =
      (if 0 \<le> i \<and> i < visibleLength s then Some (e_id (shown (seq_elems s) ! nat i)) else None)" for i
    using visibleIDAt_eq [OF core] by (simp add: visibleLength_def)
  show "fst (visibleIndexOf s oid) = int (vindex oid (seq_elems s))" for oid
    by (rule visibleIndexOf_eq [OF core])
  show "seq_elems (snd (visibleIDAt s i)) = seq_elems s \<and> seq_inv (snd (visibleIDAt s i))" for i
    using visibleIDAt_state [of s i] inv ensure_tree_inv [OF inv] by auto
  show "seq_elems (snd (visibleIndexOf s oid)) = seq_elems s \<and> seq_inv (snd (visibleIndexOf s oid))" for oid
    using visibleIndexOf_state [of s oid] inv ensure_tree_inv [OF inv] by auto
qed

section \<open>Properties\<close>

definition plain_elem :: "opid \<Rightarrow> string \<Rightarrow> listElem" where
  "plain_elem oid str = \<lparr>e_id = oid, e_after = [], e_value = stringValue str, e_deleted = False, e_vis = oid\<rparr>"

lemma plain_elem_sel [simp]: "e_id (plain_elem oid str) = oid" "e_deleted (plain_elem oid str) = False"
  by (simp_all add: plain_elem_def)

text \<open>C7. The block-indexed insert of \<open>seq.insertAfter\<close> (block lookup, step over larger
  identities across blocks, block split) implements the list-level replicated-growable-array
  insert, and keeps the index invariant: positions, counters, hash map, Fenwick tree, block
  sizes below \<open>seqBlockMax\<close>.\<close>
theorem insertAfter_refines:
  assumes "seq_inv s" and "e_id e \<notin> ids_of (seq_elems s)"
  shows "seq_inv (insertAfter s r e) \<and> seq_elems (insertAfter s r e) = rga_insert r e (seq_elems s)"
  using assms block_index.ins_elems block_index.ins_ok by blast

theorem insertAfter_refines_witness:
  "seq_elems (insertAfter (insertAfter newSeq None (plain_elem (OpID 1 ''a'') ''x''))
     None (plain_elem (OpID 2 ''b'') ''y'')) =
   [plain_elem (OpID 2 ''b'') ''y'', plain_elem (OpID 1 ''a'') ''x'']"
  using insertAfter_refines [of newSeq "plain_elem (OpID 1 ''a'') ''x''" None]
    insertAfter_refines [of "insertAfter newSeq None (plain_elem (OpID 1 ''a'') ''x'')"
      "plain_elem (OpID 2 ''b'') ''y''" None]
  by (simp add: newSeq_ok)

text \<open>C9. \<open>seq.setVisibility\<close> implements the list-level tombstone flip (the identity with the
  larger visibility stamp wins) and keeps the index invariant.\<close>
theorem setVisibility_refines:
  assumes "seq_inv s"
  shows "seq_inv (snd (setVisibility s oid d v)) \<and>
    seq_elems (snd (setVisibility s oid d v)) = set_visible oid d v (seq_elems s) \<and>
    (fst (setVisibility s oid d v) = None \<longleftrightarrow> oid \<notin> ids_of (seq_elems s))"
proof -
  have core: "seq_core s" using assms by (simp add: seq_inv_def)
  have "fst (setVisibility s oid d v) = None \<longleftrightarrow> oid \<notin> ids_of (seq_elems s)"
    by (rule setVisibility_None [OF core])
  then show ?thesis using assms block_index.flip_elems block_index.flip_ok by blast
qed

theorem setVisibility_refines_witness:
  "fst (setVisibility newSeq (OpID 1 ''a'') True (OpID 2 ''a'')) = None"
  using setVisibility_refines [of newSeq "OpID 1 ''a''" True "OpID 2 ''a''"]
  by (simp add: newSeq_ok)

text \<open>The two positional lookups are inverse to each other: the element found at a visible
  index has that visible index, whatever the block layout and whether the Fenwick tree was
  stale or not.\<close>
theorem visible_lookup_inverse:
  assumes "seq_inv s" and "fst (visibleIDAt s i) = Some oid"
  shows "fst (visibleIndexOf s oid) = i \<and> fst (visibleIndexOf (snd (visibleIDAt s i)) oid) = i"
proof
  show "fst (visibleIndexOf s oid) = i" by (rule block_index.index_of_id_at [OF assms])
  have "seq_inv (snd (visibleIDAt s i))" "seq_elems (snd (visibleIDAt s i)) = seq_elems s"
    using block_index.id_at_same [OF assms(1)] by blast+
  then show "fst (visibleIndexOf (snd (visibleIDAt s i)) oid) = i"
    using block_index.index_of_id_at [OF assms] block_index.index_of_elems assms(1) by simp
qed

theorem visible_lookup_inverse_witness:
  "fst (visibleIndexOf (insertAfter newSeq None (plain_elem (OpID 1 ''a'') ''x'')) (OpID 1 ''a'')) = 0"
proof -
  have "seq_inv (insertAfter newSeq None (plain_elem (OpID 1 ''a'') ''x''))"
    by (intro insertAfter_inv) (simp_all add: newSeq_ok)
  moreover have "fst (visibleIDAt (insertAfter newSeq None (plain_elem (OpID 1 ''a'') ''x'')) 0)
      = Some (OpID 1 ''a'')"
    by code_simp
  ultimately show ?thesis using visible_lookup_inverse by blast
qed

text \<open>\<open>seq.collectVisibleRange\<close> returns exactly the identities of the visible elements in
  the range, and fails exactly when the range leaves the visible sequence.\<close>
theorem collectVisibleRange_exact:
  assumes "seq_inv s"
  shows "fst (collectVisibleRange s index count out) =
    (if count \<le> 0 then Inr out
     else if index < 0 \<or> index + count > int (length (shown (seq_elems s))) then Inl Err_visible_range
     else Inr (out @ List.map e_id (take (nat count) (drop (nat index) (shown (seq_elems s))))))"
  using assms collectVisibleRange_eq [of s index count out] core_vis [of s]
  by (simp add: seq_inv_def count_visible_shown)

theorem collectVisibleRange_exact_witness:
  "fst (collectVisibleRange newSeq 0 1 []) = Inl Err_visible_range"
  using collectVisibleRange_exact [of newSeq 0 1 "[]"] by (simp add: newSeq_ok)

text \<open>Two concurrent inserts reach the same document order whichever is applied first, also
  when one block has split on one path and not on the other: the order depends on the
  identities alone.\<close>
theorem concurrent_inserts_commute:
  assumes "seq_inv s" "e_id e \<notin> ids_of (seq_elems s)" "e_id f \<notin> ids_of (seq_elems s)"
    and "e_id e \<noteq> e_id f"
    and "ref_in r (seq_elems s)" "ref_in q (seq_elems s)"
  shows "seq_elems (insertAfter (insertAfter s q f) r e) = seq_elems (insertAfter (insertAfter s r e) q f)"
  by (rule block_index.ins_commute) (use assms in \<open>auto simp: ref_in_def\<close>)

theorem concurrent_inserts_commute_witness:
  "seq_elems (insertAfter (insertAfter newSeq None (plain_elem (OpID 1 ''b'') ''y'')) None (plain_elem (OpID 1 ''a'') ''x''))
   = seq_elems (insertAfter (insertAfter newSeq None (plain_elem (OpID 1 ''a'') ''x'')) None (plain_elem (OpID 1 ''b'') ''y''))"
  by (rule concurrent_inserts_commute) (simp_all add: newSeq_ok ref_in_def)

end
