(* ===== verification/Doc_View.thy ===== *)
theory Doc_View
  imports Crdt_Change Seq_Interface
begin

text \<open>
  What a replica of a document promises: the view (objects as a kind, a map of entries and a
  list of elements), the effect of an operation on the view, and the proof that
  \<open>applyOpLocked\<close> implements it. Operations that do not conflict commute on the view, so
  replicas that apply the same operations agree.
\<close>

section \<open>The view\<close>

record aobj =
  a_kind :: string
  a_map :: "(string, mapEntry) fmap"
  a_elems :: "listElem list"

type_synonym adoc = "(string, aobj) fmap"

definition abs_obj :: "crdtObject \<Rightarrow> aobj" where
  "abs_obj t = \<lparr>a_kind = obj_kind t, a_map = obj_map t, a_elems = seq_elems (obj_seq t)\<rparr>"

definition doc_view :: "gdoc \<Rightarrow> adoc" where
  "doc_view d = fmmap abs_obj (d_objects d)"

definition doc_ok :: "gdoc \<Rightarrow> bool" where
  "doc_ok d \<longleftrightarrow> (\<forall>obj t. fmlookup (d_objects d) obj = Some t \<longrightarrow> seq_inv (obj_seq t))"

lemma abs_obj_sel [simp]:
  "a_kind (abs_obj t) = obj_kind t" "a_map (abs_obj t) = obj_map t"
  "a_elems (abs_obj t) = seq_elems (obj_seq t)"
  by (simp_all add: abs_obj_def)

lemma doc_view_lookup: "fmlookup (doc_view d) obj = map_option abs_obj (fmlookup (d_objects d) obj)"
  by (simp add: doc_view_def)

lemma doc_view_put: "doc_view (put_object d obj t) = fmupd obj (abs_obj t) (doc_view d)"
  by (rule fmap_ext) (simp add: doc_view_lookup put_object_def)

lemma doc_ok_put: "doc_ok d \<Longrightarrow> seq_inv (obj_seq t) \<Longrightarrow> doc_ok (put_object d obj t)"
  by (simp add: doc_ok_def put_object_def)

lemma doc_ok_obj: "doc_ok d \<Longrightarrow> fmlookup (d_objects d) obj = Some t \<Longrightarrow> seq_inv (obj_seq t)"
  by (simp add: doc_ok_def)

section \<open>Operations on the view\<close>

text \<open>An entry is replaced by the entry with the larger identity.\<close>

definition lww :: "(string, mapEntry) fmap \<Rightarrow> string \<Rightarrow> mapEntry \<Rightarrow> (string, mapEntry) fmap" where
  "lww m prop e =
     (case fmlookup m prop of
        None \<Rightarrow> fmupd prop e m
      | Some cur \<Rightarrow> if op_actor (me_id cur) = [] \<or> opid_Greater (me_id e) (me_id cur)
                   then fmupd prop e m else m)"

definition a_new :: "string \<Rightarrow> aobj" where
  "a_new k = \<lparr>a_kind = k, a_map = fmempty, a_elems = []\<rparr>"

definition a_ensure :: "adoc \<Rightarrow> gvalue \<Rightarrow> adoc" where
  "a_ensure A v =
     (if isObject v \<and> fmlookup A (v_obj v) = None then fmupd (v_obj v) (a_new (v_kind v)) A else A)"

fun run_edits :: "opid \<Rightarrow> nat \<Rightarrow> rune list \<Rightarrow> opid option \<Rightarrow> edit list" where
  "run_edits oid i [] after = []"
| "run_edits oid i (r # rs) after =
     Ins after (run_elem (run_id oid i) after r) # run_edits oid (Suc i) rs (Some (run_id oid i))"

definition edits_of :: "gop \<Rightarrow> edit list" where
  "edits_of op =
     (if o_action op = ''delete'' then
        (case parseOpIDRef (o_prop op) of Inr (Some x) \<Rightarrow> [Flip x True (o_id op)] | _ \<Rightarrow> [])
      else if o_action op = ''revive'' then
        (case parseOpIDRef (o_prop op) of Inr (Some x) \<Rightarrow> [Flip x False (o_id op)] | _ \<Rightarrow> [])
      else if o_action op = ''insert'' then
        (case parseOpIDRef (o_after op) of
           Inr r \<Rightarrow> [Ins r \<lparr>e_id = o_id op, e_after = o_after op, e_value = o_value op,
                           e_deleted = False, e_vis = o_id op\<rparr>]
         | Inl _ \<Rightarrow> [])
      else if o_action op = ''splice'' then
        List.map (\<lambda>x. Flip x True (o_id op)) (expandOpIDRuns (o_delruns op)) @
        (case parseOpIDRef (o_after op) of
           Inr r \<Rightarrow> run_edits (o_id op) 0 (runes (o_run op)) r
         | Inl _ \<Rightarrow> [])
      else [])"

definition entry_of :: "gop \<Rightarrow> mapEntry" where
  "entry_of op =
     (if o_action op = ''put''
      then \<lparr>me_value = o_value op, me_id = o_id op, me_deleted = False\<rparr>
      else \<lparr>me_value = zeroValue, me_id = o_id op, me_deleted = True\<rparr>)"

definition a_obj_step :: "aobj \<Rightarrow> gop \<Rightarrow> aobj" where
  "a_obj_step t op =
     (if a_kind t = KMap then t\<lparr>a_map := lww (a_map t) (o_prop op) (entry_of op)\<rparr>
      else t\<lparr>a_elems := foldl edit_step (a_elems t) (edits_of op)\<rparr>)"

definition a_step :: "adoc \<Rightarrow> gop \<Rightarrow> adoc" where
  "a_step A op =
     (case fmlookup A (o_obj op) of
        None \<Rightarrow> A
      | Some t \<Rightarrow> fmupd (o_obj op) (a_obj_step t op) (a_ensure A (o_value op)))"

text \<open>
  An operation can be taken where the object exists and has the kind the action needs, and
  its references are present. Increments are not among them: they do not commute.
\<close>

definition list_op_ok :: "string \<Rightarrow> gop \<Rightarrow> bool" where
  "list_op_ok k op \<longleftrightarrow>
     (if o_action op = ''delete'' \<or> o_action op = ''revive''
      then (case parseOpIDRef (o_prop op) of Inr (Some x) \<Rightarrow> True | _ \<Rightarrow> False)
      else if o_action op = ''insert'' then (case parseOpIDRef (o_after op) of Inr r \<Rightarrow> True | _ \<Rightarrow> False)
      else o_action op = ''splice'' \<and> k = KText \<and>
           (case parseOpIDRef (o_after op) of Inr r \<Rightarrow> True | _ \<Rightarrow> False))"

definition obj_pre :: "aobj \<Rightarrow> gop \<Rightarrow> bool" where
  "obj_pre t op \<longleftrightarrow>
     (if a_kind t = KMap then o_action op = ''put'' \<or> o_action op = ''delete''
      else listLike (a_kind t) \<and> list_op_ok (a_kind t) op \<and>
           steps_valid edit_step edit_pre (a_elems t) (edits_of op))"

definition a_pre :: "adoc \<Rightarrow> gop \<Rightarrow> bool" where
  "a_pre A op \<longleftrightarrow> op_actor (o_id op) \<noteq> [] \<and>
     (case fmlookup A (o_obj op) of None \<Rightarrow> False | Some t \<Rightarrow> obj_pre t op)"

definition same_child :: "gvalue \<Rightarrow> gvalue \<Rightarrow> bool" where
  "same_child v w \<longleftrightarrow> (isObject v \<and> isObject w \<and> v_obj v = v_obj w \<longrightarrow> v_kind v = v_kind w)"

definition a_compat :: "gop \<Rightarrow> gop \<Rightarrow> bool" where
  "a_compat a b \<longleftrightarrow> o_id a \<noteq> o_id b \<and> op_actor (o_id a) \<noteq> [] \<and> op_actor (o_id b) \<noteq> [] \<and>
     same_child (o_value a) (o_value b) \<and>
     (o_obj a = o_obj b \<longrightarrow> (\<forall>x \<in> set (edits_of a). \<forall>y \<in> set (edits_of b). edit_compat x y))"

section \<open>Operations commute on the view\<close>

lemma lww_lookup:
  "fmlookup (lww m prop e) k =
     (if k = prop \<and> (case fmlookup m prop of None \<Rightarrow> True
         | Some cur \<Rightarrow> op_actor (me_id cur) = [] \<or> me_id cur < me_id e) then Some e
      else fmlookup m k)"
  by (auto simp: lww_def split: option.splits)

lemma lww_commute:
  assumes "me_id e \<noteq> me_id f" "op_actor (me_id e) \<noteq> []" "op_actor (me_id f) \<noteq> []"
  shows "lww (lww m p e) q f = lww (lww m q f) p e"
  by (rule fmap_ext) (use assms in \<open>auto simp: lww_lookup split: option.splits\<close>)

lemma entry_of_id [simp]: "me_id (entry_of op) = o_id op"
  by (simp add: entry_of_def)

lemma a_obj_step_kind [simp]: "a_kind (a_obj_step t op) = a_kind t"
  by (simp add: a_obj_step_def)

lemma a_step_lookup:
  assumes "fmlookup A (o_obj op) = Some t"
  shows "fmlookup (a_step A op) k =
    (if k = o_obj op then Some (a_obj_step t op)
     else if isObject (o_value op) \<and> v_obj (o_value op) = k \<and> fmlookup A k = None
     then Some (a_new (v_kind (o_value op))) else fmlookup A k)"
  using assms by (auto simp: a_step_def a_ensure_def)

lemma edit_compat_sym: "edit_compat a b \<Longrightarrow> edit_compat b a"
  by (rule list_edits.compat_sym)

lemma obj_steps_commute:
  assumes "obj_pre t a" "obj_pre t b" "a_compat a b" "o_obj a = o_obj b"
  shows "obj_pre (a_obj_step t b) a \<and>
    a_obj_step (a_obj_step t a) b = a_obj_step (a_obj_step t b) a"
proof (cases "a_kind t = KMap")
  case True
  then show ?thesis
    using assms lww_commute [of "entry_of a" "entry_of b" "a_map t" "o_prop a" "o_prop b"]
    by (simp add: a_obj_step_def obj_pre_def a_compat_def)
next
  case False
  then have v: "steps_valid edit_step edit_pre (a_elems t) (edits_of a)"
    "steps_valid edit_step edit_pre (a_elems t) (edits_of b)"
    using assms(1,2) by (simp_all add: obj_pre_def)
  have "\<forall>x \<in> set (edits_of b). \<forall>y \<in> set (edits_of a). edit_compat x y"
    using assms(3,4) by (auto simp: a_compat_def intro: edit_compat_sym)
  then show ?thesis
    using list_edits.blocks_commute [OF v(2,1)] False assms(1)
    by (simp add: a_obj_step_def obj_pre_def)
qed

interpretation doc_ops: commuting_steps a_step a_pre a_compat
proof
  show "a_compat a b \<Longrightarrow> a_compat b a" for a b
    unfolding a_compat_def same_child_def by (metis edit_compat_sym)
next
  fix A a b assume pre: "a_pre A a" "a_pre A b" and compat: "a_compat a b"
  then obtain t u where t: "fmlookup A (o_obj a) = Some t" "obj_pre t a"
    and u: "fmlookup A (o_obj b) = Some u" "obj_pre u b"
    and act: "op_actor (o_id a) \<noteq> []"
    by (auto simp: a_pre_def split: option.splits)
  have same: "o_obj a = o_obj b \<Longrightarrow> u = t" using t u by simp
  show "a_pre (a_step A b) a"
  proof (cases "o_obj a = o_obj b")
    case True
    then have "fmlookup (a_step A b) (o_obj a) = Some (a_obj_step t b)"
      using a_step_lookup [OF u(1)] same by simp
    then show ?thesis
      using obj_steps_commute [OF t(2) _ compat True] u(2) same [OF True] act by (simp add: a_pre_def)
  next
    case False
    then have "fmlookup (a_step A b) (o_obj a) = Some t"
      using a_step_lookup [OF u(1), of "o_obj a"] t(1) by simp
    then show ?thesis using t act by (simp add: a_pre_def)
  qed
  show "a_step (a_step A a) b = a_step (a_step A b) a"
  proof (rule fmap_ext)
    fix k
    have la: "fmlookup (a_step A b) (o_obj a) = Some (if o_obj a = o_obj b then a_obj_step t b else t)"
      using a_step_lookup [OF u(1), of "o_obj a"] t(1) same by auto
    have lb: "fmlookup (a_step A a) (o_obj b) = Some (if o_obj a = o_obj b then a_obj_step t a else u)"
      using a_step_lookup [OF t(1), of "o_obj b"] u(1) same by auto
    have "a_obj_step (a_obj_step t a) b = a_obj_step (a_obj_step t b) a" if "o_obj a = o_obj b"
      using obj_steps_commute [OF t(2) _ compat that] u(2) same [OF that] by simp
    moreover have "same_child (o_value a) (o_value b)" using compat by (simp add: a_compat_def)
    ultimately show "fmlookup (a_step (a_step A a) b) k = fmlookup (a_step (a_step A b) a) k"
      using t(1) u(1) same
      by (auto simp: a_step_lookup [OF la] a_step_lookup [OF lb] a_step_lookup [OF t(1)]
          a_step_lookup [OF u(1)] same_child_def)
  qed
qed

end
