(* ===== verification/Doc_Refine.thy ===== *)
theory Doc_Refine
  imports Doc_View
begin

text \<open>
  \<open>applyOpLocked\<close> keeps the document well formed on every input, errors included, and
  implements the operation on the view wherever the view can take it.
\<close>

section \<open>The loops of a splice\<close>

lemma splice_delete_ok:
  assumes "seq_inv s" "splice_delete s oids v = (r, s')"
  shows "seq_inv s' \<and> ids_of (seq_elems s') = ids_of (seq_elems s)"
  using assms
proof (induction s oids v rule: splice_delete.induct)
  case (2 s oid oids v)
  have st: "seq_inv (snd (setVisibility s oid True v))"
    "ids_of (seq_elems (snd (setVisibility s oid True v))) = ids_of (seq_elems s)"
    using block_index.flip_ok block_index.flip_ids 2(2) by blast+
  show ?case
    using 2 st by (auto split: prod.splits option.splits)
qed simp

lemma splice_delete_all:
  assumes "seq_inv s" "set oids \<subseteq> ids_of (seq_elems s)"
  shows "fst (splice_delete s oids v) = None \<and>
    seq_elems (snd (splice_delete s oids v)) = foldl edit_step (seq_elems s) (List.map (\<lambda>x. Flip x True v) oids)"
  using assms
proof (induction oids arbitrary: s)
  case (Cons oid oids)
  let ?s = "snd (setVisibility s oid True v)"
  have st: "seq_inv ?s" "seq_elems ?s = set_visible oid True v (seq_elems s)"
    using setVisibility_inv setVisibility_elems Cons.prems(1) by (auto simp: seq_inv_def)
  have "fst (setVisibility s oid True v) \<noteq> None"
    using setVisibility_None Cons.prems by (simp add: seq_inv_def)
  then obtain e s2 where sv: "setVisibility s oid True v = (Some e, s2)" by (metis option.exhaust prod.collapse)
  then show ?case using Cons.IH [OF st(1)] Cons.prems(2) st(2) by simp
qed simp

lemma splice_insert_ok:
  assumes "seq_inv s"
  shows "seq_inv (splice_insert s oid i rs after)"
  using assms
proof (induction s oid i rs after rule: splice_insert.induct)
  case (2 s oid i r rs after)
  have "e_id (run_elem (run_id oid i) after r) = run_id oid i" by (simp add: run_elem_def)
  then have "seq_inv (insertAfter s after (run_elem (run_id oid i) after r))"
    if "\<not> seq_contains s (run_id oid i)"
    using that 2(3) insertAfter_inv [of s "run_elem (run_id oid i) after r" after]
    by (simp add: seq_contains_iff seq_inv_def ids_of_def)
  then show ?case using 2 by (simp add: Let_def)
qed simp

lemma splice_insert_edits:
  assumes "seq_inv s" "steps_valid edit_step edit_pre (seq_elems s) (run_edits oid i rs after)"
  shows "seq_elems (splice_insert s oid i rs after) = foldl edit_step (seq_elems s) (run_edits oid i rs after)"
  using assms
proof (induction rs arbitrary: s i after)
  case (Cons r rs)
  let ?e = "run_elem (run_id oid i) after r"
  have id: "e_id ?e = run_id oid i" by (simp add: run_elem_def)
  have new: "e_id ?e \<notin> ids_of (seq_elems s)" using Cons.prems(2) by simp
  then have "\<not> seq_contains s (run_id oid i)"
    using Cons.prems(1) by (simp add: seq_contains_iff seq_inv_def ids_of_def id)
  moreover have "seq_inv (insertAfter s after ?e)" "seq_elems (insertAfter s after ?e) = rga_insert after ?e (seq_elems s)"
    using block_index.ins_ok block_index.ins_elems Cons.prems(1) new by blast+
  ultimately show ?case using Cons.IH [of "insertAfter s after ?e"] Cons.prems(2) by (simp add: Let_def)
qed simp

section \<open>Every operation keeps the document well formed\<close>

lemma lookup_states [simp]:
  "seq_inv s \<Longrightarrow> seq_inv (snd (visibleIndexOf s oid))"
  "seq_inv s \<Longrightarrow> seq_elems (snd (visibleIndexOf s oid)) = seq_elems s"
  "seq_inv s \<Longrightarrow> seq_inv (snd (visibleIDAt s i))"
  "seq_inv s \<Longrightarrow> seq_elems (snd (visibleIDAt s i)) = seq_elems s"
  "seq_inv s \<Longrightarrow> seq_inv (snd (setVisibility s oid d v))"
  using block_index.index_of_same block_index.id_at_same block_index.flip_ok by blast+

lemma seq_contains_ids: "seq_inv s \<Longrightarrow> seq_contains s oid \<longleftrightarrow> oid \<in> ids_of (seq_elems s)"
  by (simp add: seq_contains_iff seq_inv_def ids_of_def)

lemma splice_delete_inv [simp]: "seq_inv s \<Longrightarrow> seq_inv (snd (splice_delete s oids v))"
  using splice_delete_ok [of s oids v] by (metis prod.collapse)

lemma dispatch_inv:
  assumes inv: "seq_inv (obj_seq t)"
  shows "seq_inv (obj_seq (snd (dispatch t op)))"
proof -
  have "seq_inv (obj_seq (snd (applyPut t op)))" "seq_inv (obj_seq (snd (applyIncrement t op)))"
    using inv by (simp_all add: applyPut_def applyIncrement_def set_entry_def Let_def)
  moreover have "seq_inv (obj_seq (snd (applyDelete t op)))"
    using inv by (simp add: applyDelete_def set_entry_def Let_def split: sum.split option.split)
  moreover have "seq_inv (obj_seq (snd (applyRevive t op)))"
    using inv by (simp add: applyRevive_def Let_def case_prod_beta split: sum.split option.split)
  moreover have "seq_inv (obj_seq (snd (applyInsert t op)))"
    using inv
    by (simp add: applyInsert_def Let_def case_prod_beta insertAfter_inv seq_contains_ids split: sum.split)
  moreover have "seq_inv (obj_seq (snd (applySplice t op)))"
  proof (cases "splice_delete (obj_seq t) (expandOpIDRuns (o_delruns op)) (o_id op)")
    case (Pair r s1)
    then have "seq_inv s1" using splice_delete_ok [OF inv] by blast
    then show ?thesis
      using inv Pair by (simp add: applySplice_def Let_def case_prod_beta splice_insert_ok
          split: sum.split option.split)
  qed
  ultimately show ?thesis using inv by (simp add: dispatch_def)
qed

lemma ensure_ok: "doc_ok d \<Longrightarrow> doc_ok (ensureObjectForValue d v)"
  by (auto simp: ensureObjectForValue_def newMapObject_def newListObject_def newSeq_ok
      intro!: doc_ok_put split: option.splits)

lemma applyOp_ok: "doc_ok d \<Longrightarrow> doc_ok (snd (applyOp d op))"
proof (cases "fmlookup (d_objects d) (o_obj op)")
  case (Some t)
  assume "doc_ok d"
  then show ?thesis
    using doc_ok_obj [OF _ Some] dispatch_inv [of t op] Some
    by (auto simp: applyOp_def objectLocked_def Let_def split_beta intro!: doc_ok_put ensure_ok)
qed (simp add: applyOp_def objectLocked_def)

section \<open>Operations implement the view\<close>

lemma listLike_not_map: "listLike k \<Longrightarrow> k \<noteq> KMap"
  by (auto simp: listLike_def)

lemma text_listLike: "k = KText \<Longrightarrow> listLike k"
  by (simp add: listLike_def)

lemma current_lww:
  "obj_map (if op_actor (me_id (map_current t p)) = [] \<or> opid_Greater (me_id e) (me_id (map_current t p))
     then set_entry t p e else t) = lww (obj_map t) p e"
  by (auto simp: map_current_def set_entry_def lww_def zeroEntry_def zeroOpID_def split: option.splits)

lemma abs_set_entry: "abs_obj (if c then set_entry t p e else t)
    = (abs_obj t)\<lparr>a_map := obj_map (if c then set_entry t p e else t)\<rparr>"
  by (simp add: abs_obj_def set_entry_def)

lemma map_op_refines:
  assumes "obj_kind t = KMap" "o_action op = ''put'' \<or> o_action op = ''delete''"
  shows "(\<exists>p. fst (dispatch t op) = Inr p) \<and> abs_obj (snd (dispatch t op)) = a_obj_step (abs_obj t) op"
  using assms current_lww [of t "o_prop op" "entry_of op"]
  by (auto simp: dispatch_def applyPut_def applyDelete_def Let_def a_obj_step_def abs_set_entry
      entry_of_def)

lemma abs_seq: "abs_obj (t\<lparr>obj_seq := s\<rparr>) = (abs_obj t)\<lparr>a_elems := seq_elems s\<rparr>"
  by (simp add: abs_obj_def)

lemma insert_refines:
  assumes inv: "seq_inv (obj_seq t)" and k: "listLike (obj_kind t)" and act: "o_action op = ''insert''"
    and pre: "list_op_ok (obj_kind t) op" "steps_valid edit_step edit_pre (seq_elems (obj_seq t)) (edits_of op)"
  shows "(\<exists>p. fst (applyInsert t op) = Inr p) \<and> abs_obj (snd (applyInsert t op)) = a_obj_step (abs_obj t) op"
proof -
  let ?e = "\<lparr>e_id = o_id op, e_after = o_after op, e_value = o_value op, e_deleted = False, e_vis = o_id op\<rparr>"
  obtain r where r: "parseOpIDRef (o_after op) = Inr r"
    using pre(1) act by (auto simp: list_op_ok_def split: sum.splits)
  then have ed: "edits_of op = [Ins r ?e]" using act by (simp add: edits_of_def)
  then have new: "o_id op \<notin> ids_of (seq_elems (obj_seq t))" using pre(2) by simp
  then have ins: "seq_inv (insertAfter (obj_seq t) r ?e)"
    "seq_elems (insertAfter (obj_seq t) r ?e) = rga_insert r ?e (seq_elems (obj_seq t))"
    using block_index.ins_ok [OF inv] block_index.ins_elems [OF inv] by simp_all
  then show ?thesis
    using inv k r new listLike_not_map [OF k]
    by (simp add: applyInsert_def seq_contains_ids Let_def case_prod_beta abs_seq a_obj_step_def ed)
qed

lemma flip_refines:
  assumes inv: "seq_inv (obj_seq t)" and k: "listLike (obj_kind t)"
    and x: "parseOpIDRef (o_prop op) = Inr (Some x)" "x \<in> ids_of (seq_elems (obj_seq t))"
  shows "o_action op = ''delete'' \<Longrightarrow> (\<exists>p. fst (applyDelete t op) = Inr p) \<and>
      abs_obj (snd (applyDelete t op)) = a_obj_step (abs_obj t) op"
    and "o_action op = ''revive'' \<Longrightarrow> (\<exists>p. fst (applyRevive t op) = Inr p) \<and>
      abs_obj (snd (applyRevive t op)) = a_obj_step (abs_obj t) op"
proof -
  have core: "seq_core (obj_seq t)" using inv by (simp add: seq_inv_def)
  have el: "seq_elems (snd (setVisibility (obj_seq t) x d (o_id op)))
      = set_visible x d (o_id op) (seq_elems (obj_seq t))" for d
    by (rule setVisibility_elems [OF core])
  have found: "\<exists>e. fst (setVisibility (obj_seq t) x d (o_id op)) = Some e" for d
    using setVisibility_None [OF core] x(2) by (metis option.exhaust)
  show "o_action op = ''delete'' \<Longrightarrow> (\<exists>p. fst (applyDelete t op) = Inr p) \<and>
      abs_obj (snd (applyDelete t op)) = a_obj_step (abs_obj t) op"
    using k listLike_not_map [OF k] x(1)
    by (simp add: applyDelete_def parseOpIDProp_def abs_seq a_obj_step_def edits_of_def el)
  show "o_action op = ''revive'' \<Longrightarrow> (\<exists>p. fst (applyRevive t op) = Inr p) \<and>
      abs_obj (snd (applyRevive t op)) = a_obj_step (abs_obj t) op"
    using k listLike_not_map [OF k] x(1) found [of False]
    by (auto simp: applyRevive_def parseOpIDProp_def abs_seq a_obj_step_def edits_of_def el
        Let_def case_prod_beta)
qed

lemma flips_valid_ids:
  "steps_valid edit_step edit_pre es (List.map (\<lambda>x. Flip x d v) xs) \<longleftrightarrow> set xs \<subseteq> ids_of es"
  by (induction xs arbitrary: es) auto

lemma splice_refines:
  assumes inv: "seq_inv (obj_seq t)" and k: "obj_kind t = KText" and act: "o_action op = ''splice''"
    and pre: "list_op_ok (obj_kind t) op" "steps_valid edit_step edit_pre (seq_elems (obj_seq t)) (edits_of op)"
  shows "(\<exists>p. fst (applySplice t op) = Inr p) \<and> abs_obj (snd (applySplice t op)) = a_obj_step (abs_obj t) op"
proof -
  let ?dels = "expandOpIDRuns (o_delruns op)" and ?s1 = "snd (splice_delete (obj_seq t) (expandOpIDRuns (o_delruns op)) (o_id op))"
  obtain r where r: "parseOpIDRef (o_after op) = Inr r"
    using pre(1) act by (auto simp: list_op_ok_def split: sum.splits)
  then have ed: "edits_of op = List.map (\<lambda>x. Flip x True (o_id op)) ?dels @ run_edits (o_id op) 0 (runes (o_run op)) r"
    using act by (simp add: edits_of_def)
  have "set ?dels \<subseteq> ids_of (seq_elems (obj_seq t))"
    using pre(2) unfolding ed by (simp add: flips_valid_ids)
  from splice_delete_all [OF inv this]
  have del: "fst (splice_delete (obj_seq t) ?dels (o_id op)) = None"
    "seq_elems ?s1 = foldl edit_step (seq_elems (obj_seq t)) (List.map (\<lambda>x. Flip x True (o_id op)) ?dels)"
    by simp_all
  have inv1: "seq_inv ?s1" using inv by simp
  let ?s2 = "splice_insert ?s1 (o_id op) 0 (runes (o_run op)) r"
  have ins: "seq_elems ?s2 = foldl edit_step (seq_elems ?s1) (run_edits (o_id op) 0 (runes (o_run op)) r)"
    using pre(2) unfolding ed by (intro splice_insert_edits [OF inv1]) (simp add: del(2))
  have inv2: "seq_inv ?s2" by (rule splice_insert_ok [OF inv1])
  obtain s1 where s1: "splice_delete (obj_seq t) ?dels (o_id op) = (None, s1)" "?s1 = s1"
    using del(1) by (metis prod.collapse)
  show ?thesis
    using inv2 k r del(2) ins
    by (cases "o_run op = []")
      (simp_all add: applySplice_def Let_def case_prod_beta abs_seq a_obj_step_def ed s1)
qed

lemma dispatch_refines:
  assumes inv: "seq_inv (obj_seq t)" and pre: "obj_pre (abs_obj t) op"
  shows "(\<exists>p. fst (dispatch t op) = Inr p) \<and> abs_obj (snd (dispatch t op)) = a_obj_step (abs_obj t) op"
proof (cases "obj_kind t = KMap")
  case True
  then show ?thesis using pre map_op_refines [of t op] by (simp add: obj_pre_def)
next
  case False
  then have k: "listLike (obj_kind t)" "list_op_ok (obj_kind t) op"
    "steps_valid edit_step edit_pre (seq_elems (obj_seq t)) (edits_of op)"
    using pre by (simp_all add: obj_pre_def)
  consider (flip) "o_action op = ''delete'' \<or> o_action op = ''revive''" | (ins) "o_action op = ''insert''"
    | (spl) "o_action op = ''splice''" "obj_kind t = KText"
    using k(2) unfolding list_op_ok_def by meson
  then show ?thesis
  proof cases
    case flip
    then obtain x where x: "parseOpIDRef (o_prop op) = Inr (Some x)"
      using k(2) by (auto simp: list_op_ok_def split: sum.splits option.splits)
    then have "x \<in> ids_of (seq_elems (obj_seq t))" using k(3) flip by (auto simp: edits_of_def)
    then show ?thesis using flip_refines [OF inv k(1) x] flip by (auto simp: dispatch_def)
  next
    case ins
    then show ?thesis using insert_refines [OF inv k(1) ins k(2,3)] by (simp add: dispatch_def)
  next
    case spl
    then show ?thesis using splice_refines [OF inv spl(2,1) k(2,3)] by (simp add: dispatch_def)
  qed
qed

lemma ensure_view: "doc_view (ensureObjectForValue d v) = a_ensure (doc_view d) v"
proof -
  have "abs_obj newMapObject = a_new KMap" "abs_obj (newListObject k) = a_new k" for k
    by (simp_all add: abs_obj_def newMapObject_def newListObject_def a_new_def newSeq_ok)
  then show ?thesis
    by (auto simp: ensureObjectForValue_def a_ensure_def doc_view_put doc_view_lookup isObject_def
        split: option.splits)
qed

lemma applyOp_refines:
  assumes ok: "doc_ok d" and pre: "a_pre (doc_view d) op"
  shows "\<exists>p d'. applyOp d op = (Inr p, d') \<and> doc_ok d' \<and> doc_view d' = a_step (doc_view d) op"
proof -
  obtain t where t: "fmlookup (d_objects d) (o_obj op) = Some t" and op: "obj_pre (abs_obj t) op"
    using pre by (auto simp: a_pre_def doc_view_lookup split: option.splits)
  obtain p where "fst (dispatch t op) = Inr p" "abs_obj (snd (dispatch t op)) = a_obj_step (abs_obj t) op"
    using dispatch_refines [OF doc_ok_obj [OF ok t] op] by blast
  then have "fst (applyOp d op) = Inr p" "doc_view (snd (applyOp d op)) = a_step (doc_view d) op"
    using t by (simp_all add: applyOp_def objectLocked_def Let_def case_prod_beta doc_view_put
        ensure_view a_step_def doc_view_lookup)
  then show ?thesis using applyOp_ok [OF ok, of op] by (metis prod.collapse)
qed

end
