(* ===== verification/Rga_Local.thy ===== *)
theory Rga_Local
  imports Doc_Refine
begin

text \<open>
  Edits made at the newest point of the clock: an element whose identity is larger than every
  identity of the list lands directly at the cursor, and a tombstone stamp larger than every
  stamp always takes effect. These lemmas say what a local edit does to the visible list.
\<close>

section \<open>One insert\<close>

lemma place_greatest: "\<forall>x \<in> ids_of xs. x < e_id e \<Longrightarrow> place e xs = e # xs"
  by (cases xs) (auto dest: order.strict_trans)

lemma shown_ids_subset: "ids_of (shown es) \<subseteq> ids_of es"
  by (auto simp: shown_def ids_of_def)

lemma shown_nth_id: "k < length (shown es) \<Longrightarrow> e_id (shown es ! k) \<in> ids_of es"
  using shown_ids_subset nth_mem by (force simp: ids_of_def)

lemma insert_after_shown:
  assumes "distinct (List.map e_id es)" "k < length (shown es)" "e_id (shown es ! k) = r"
    and "\<forall>x \<in> ids_of es. x < e_id e" "\<not> e_deleted e"
  shows "shown (insert_after r e es) = take (Suc k) (shown es) @ e # drop (Suc k) (shown es)"
  using assms
proof (induction es arbitrary: k)
  case (Cons x xs)
  have place: "place e xs = e # xs" using Cons.prems(4) by (intro place_greatest) simp
  have notin: "e_id x \<notin> ids_of xs" using Cons.prems(1) by (simp add: ids_of_def)
  show ?case
  proof (cases "e_id x = r")
    case True
    have "e_id (shown xs ! j) \<noteq> e_id x" if "j < length (shown xs)" for j
      using shown_nth_id [OF that] notin by auto
    then have k: "\<not> e_deleted x \<and> k = 0"
      using Cons.prems(2,3) True by (cases k) (auto split: if_splits)
    then show ?thesis using True place Cons.prems(5) by simp
  next
    case False
    then have "e_deleted x \<or> 0 < k" using Cons.prems(3) by (cases "e_deleted x"; cases k) simp_all
    then show ?thesis
      using Cons.IH [of k] Cons.IH [of "k - 1"] Cons.prems False
      by (auto simp: nth_Cons' take_Cons' drop_Cons')
  qed
qed simp

text \<open>The reference of a cursor: none at the head, else the visible element before it.\<close>

definition cursor_ref :: "listElem list \<Rightarrow> nat \<Rightarrow> opid option" where
  "cursor_ref es i = (if i = 0 then None else Some (e_id (shown es ! (i - 1))))"

lemma rga_insert_cursor:
  assumes "distinct (List.map e_id es)" "i \<le> length (shown es)"
    and "\<forall>x \<in> ids_of es. x < e_id e" "\<not> e_deleted e"
  shows "shown (rga_insert (cursor_ref es i) e es) = take i (shown es) @ e # drop i (shown es)"
proof (cases i)
  case 0
  then show ?thesis using place_greatest [OF assms(3)] assms(4) by (simp add: cursor_ref_def)
next
  case (Suc k)
  then show ?thesis
    using insert_after_shown [OF assms(1) _ refl assms(3,4), of k] assms(2) by (simp add: cursor_ref_def)
qed

lemma cursor_ref_in: "i \<le> length (shown es) \<Longrightarrow> ref_in (cursor_ref es i) es"
  by (auto simp: ref_in_def cursor_ref_def shown_nth_id)

section \<open>A run of inserts\<close>

fun run_elems :: "opid \<Rightarrow> nat \<Rightarrow> rune list \<Rightarrow> opid option \<Rightarrow> listElem list" where
  "run_elems oid i [] after = []"
| "run_elems oid i (r # rs) after =
     run_elem (run_id oid i) after r # run_elems oid (Suc i) rs (Some (run_id oid i))"

lemma run_elem_sel [simp]:
  "e_id (run_elem oid after r) = oid" "\<not> e_deleted (run_elem oid after r)"
  "e_value (run_elem oid after r) = stringValue (encodeRune r)"
  by (simp_all add: run_elem_def)

lemma run_elems_values:
  "List.map e_value (run_elems oid i rs after) = List.map (\<lambda>r. stringValue (encodeRune r)) rs"
  by (induction oid i rs after rule: run_elems.induct) auto

lemma run_elems_ids: "List.map e_id (run_elems oid i rs after) = List.map (run_id oid) [i..<i + length rs]"
  by (induction oid i rs after rule: run_elems.induct) (simp_all add: upt_conv_Cons del: upt_Suc)

lemma run_id_counter:
  "unat (op_counter oid) + k < 2 ^ 64 \<Longrightarrow> unat (op_counter (run_id oid k)) = unat (op_counter oid) + k"
  by (simp add: run_id_def unat_word_ariths unsigned_of_nat take_bit_nat_eq_self)

lemma opid_less_counter: "op_counter a < op_counter b \<Longrightarrow> a < b"
  by (cases a; cases b) simp

lemma run_edits_cursor:
  assumes "distinct (List.map e_id es)" "i \<le> length (shown es)" "after = cursor_ref es i"
    and "\<forall>x \<in> ids_of es. unat (op_counter x) < unat (op_counter oid) + k"
    and "unat (op_counter oid) + k + length rs \<le> 2 ^ 64"
  shows "steps_valid edit_step edit_pre es (run_edits oid k rs after) \<and>
    shown (foldl edit_step es (run_edits oid k rs after)) =
      take i (shown es) @ run_elems oid k rs after @ drop i (shown es)"
  using assms
proof (induction rs arbitrary: es i k after)
  case (Cons r rs)
  let ?e = "run_elem (run_id oid k) after r" and ?es = "rga_insert after (run_elem (run_id oid k) after r) es"
  have cnt: "unat (op_counter (run_id oid k)) = unat (op_counter oid) + k"
    using Cons.prems(5) by (intro run_id_counter) simp
  have gt: "\<forall>x \<in> ids_of es. x < e_id ?e"
    using Cons.prems(4) cnt by (auto intro!: opid_less_counter simp: word_less_nat_alt)
  have sh: "shown ?es = take i (shown es) @ ?e # drop i (shown es)"
    using rga_insert_cursor [OF Cons.prems(1,2) gt] Cons.prems(3) by simp
  have new: "e_id ?e \<notin> ids_of es" using gt by auto
  have "steps_valid edit_step edit_pre ?es (run_edits oid (Suc k) rs (Some (run_id oid k))) \<and>
    shown (foldl edit_step ?es (run_edits oid (Suc k) rs (Some (run_id oid k)))) =
      take (Suc i) (shown ?es) @ run_elems oid (Suc k) rs (Some (run_id oid k)) @ drop (Suc i) (shown ?es)"
  proof (rule Cons.IH)
    show "distinct (List.map e_id ?es)" by (rule distinct_rga_insert [OF Cons.prems(1) new])
    show "Suc i \<le> length (shown ?es)" using Cons.prems(2) by (simp add: sh)
    show "Some (run_id oid k) = cursor_ref ?es (Suc i)"
      using Cons.prems(2) by (simp add: cursor_ref_def sh nth_append)
    show "\<forall>x \<in> ids_of ?es. unat (op_counter x) < unat (op_counter oid) + Suc k"
      using Cons.prems(4) cnt by auto
    show "unat (op_counter oid) + Suc k + length rs \<le> 2 ^ 64" using Cons.prems(5) by simp
  qed
  moreover have "edit_pre es (Ins after ?e)"
    using new cursor_ref_in [OF Cons.prems(2)] Cons.prems(3) by simp
  moreover have "take (Suc i) (shown ?es) = take i (shown es) @ [?e]" "drop (Suc i) (shown ?es) = drop i (shown es)"
    using Cons.prems(2) by (simp_all add: sh)
  ultimately show ?case by simp
qed simp

section \<open>A range of tombstones\<close>

definition stamps_below :: "opid \<Rightarrow> listElem list \<Rightarrow> bool" where
  "stamps_below v es \<longleftrightarrow> (\<forall>e \<in> set es. vis_current e < v)"

lemma set_visible_shown:
  assumes "stamps_below v es"
  shows "shown (set_visible x True v es) = filter (\<lambda>e. e_id e \<noteq> x) (shown es)"
  using assms unfolding stamps_below_def set_visible_def shown_def
  by (induction es) (auto simp: flip_elem_def)

text \<open>A stamp decides an element once; repeating it changes nothing.\<close>

lemma flips_eq:
  assumes "stamps_below v es" "op_actor v \<noteq> []"
  shows "foldl edit_step es (List.map (\<lambda>x. Flip x True v) xs) =
    List.map (\<lambda>e. if e_id e \<in> set xs then e\<lparr>e_deleted := True, e_vis := v\<rparr> else e) es"
proof (induction xs rule: rev_induct)
  case (snoc x xs)
  have "set_visible x True v (List.map (\<lambda>e. if e_id e \<in> set xs then e\<lparr>e_deleted := True, e_vis := v\<rparr> else e) es)
    = List.map (\<lambda>e. if e_id e \<in> set (xs @ [x]) then e\<lparr>e_deleted := True, e_vis := v\<rparr> else e) es"
    unfolding set_visible_def using assms
    by (auto simp: flip_elem_def vis_current_def stamps_below_def)
  then show ?case using snoc.IH by simp
qed simp

lemma flips_shown:
  assumes "stamps_below v es" "op_actor v \<noteq> []"
  shows "shown (foldl edit_step es (List.map (\<lambda>x. Flip x True v) xs)) = filter (\<lambda>e. e_id e \<notin> set xs) (shown es)"
  unfolding flips_eq [OF assms] shown_def by (induction es) auto

lemma filter_range:
  assumes "distinct (List.map f xs)"
  shows "filter (\<lambda>e. f e \<notin> f ` set (take n (drop i xs))) xs = take i xs @ drop (i + n) xs"
proof -
  have xs: "xs = take i xs @ take n (drop i xs) @ drop (i + n) xs"
    by (metis append_take_drop_id drop_drop add.commute)
  have d: "distinct (List.map f (take i xs @ take n (drop i xs) @ drop (i + n) xs))"
    using assms xs by simp
  have keep: "filter (\<lambda>e. f e \<notin> f ` set m) a = a" if "f ` set a \<inter> f ` set m = {}" for a m
    using that by (auto simp: filter_id_conv)
  have "f ` set (take i xs) \<inter> f ` set (take n (drop i xs)) = {}"
    "f ` set (drop (i + n) xs) \<inter> f ` set (take n (drop i xs)) = {}"
    using d by (simp_all only: map_append distinct_append set_append set_map) blast+
  note keep [OF this(1)] keep [OF this(2)]
  then have "filter (\<lambda>e. f e \<notin> f ` set (take n (drop i xs))) (take i xs @ take n (drop i xs) @ drop (i + n) xs)
      = take i xs @ drop (i + n) xs"
    by (simp add: filter_empty_conv)
  then show ?thesis using xs by simp
qed

end
