(* ===== verification/Doc_Converge.thy ===== *)
theory Doc_Converge
  imports Doc_Refine
begin

text \<open>
  Replicas that record the same changes agree: on the objects they show, whatever causal order
  the changes arrived in, and on the heads of the change graph. Increments are the exception,
  shown by a concrete run.
\<close>

section \<open>Changes as blocks of operations\<close>

definition change_step :: "adoc \<Rightarrow> gchange \<Rightarrow> adoc" where
  "change_step A c = foldl a_step A (c_ops c)"

definition change_pre :: "adoc \<Rightarrow> gchange \<Rightarrow> bool" where
  "change_pre A c \<longleftrightarrow> steps_valid a_step a_pre A (c_ops c)"

definition change_compat :: "gchange \<Rightarrow> gchange \<Rightarrow> bool" where
  "change_compat b c \<longleftrightarrow> (\<forall>x \<in> set (c_ops b). \<forall>y \<in> set (c_ops c). a_compat x y)"

interpretation doc_changes: commuting_steps change_step change_pre change_compat
proof
  show "change_compat a b \<Longrightarrow> change_compat b a" for a b
    using doc_ops.compat_sym by (auto simp: change_compat_def)
  show "change_pre s a \<Longrightarrow> change_pre s b \<Longrightarrow> change_compat a b \<Longrightarrow> change_pre (change_step s b) a" for s a b
    using doc_ops.blocks_commute [of s "c_ops b" "c_ops a"] doc_ops.compat_sym
    by (auto simp: change_pre_def change_step_def change_compat_def)
  show "change_pre s a \<Longrightarrow> change_pre s b \<Longrightarrow> change_compat a b \<Longrightarrow>
      change_step (change_step s a) b = change_step (change_step s b) a" for s a b
    using doc_ops.blocks_commute [of s "c_ops a" "c_ops b"]
    by (auto simp: change_pre_def change_step_def change_compat_def)
qed

lemma view_maxOp [simp]: "doc_view (d\<lparr>d_maxOp := m\<rparr>) = doc_view d" "doc_ok (d\<lparr>d_maxOp := m\<rparr>) = doc_ok d"
  by (simp_all add: doc_view_def doc_ok_def)

lemma apply_ops_refines:
  assumes "doc_ok d" "steps_valid a_step a_pre (doc_view d) ops"
  shows "\<exists>ps d'. apply_ops d ops acc = (Inr ps, d') \<and> doc_ok d' \<and> doc_view d' = foldl a_step (doc_view d) ops"
  using assms
proof (induction ops arbitrary: d acc)
  case (Cons op ops)
  then obtain p d' where a: "applyOp d op = (Inr p, d')" "doc_ok d'" "doc_view d' = a_step (doc_view d) op"
    using applyOp_refines by fastforce
  let ?d = "if max_counter op > d_maxOp d' then d'\<lparr>d_maxOp := max_counter op\<rparr> else d'"
  have "doc_ok ?d" "doc_view ?d = a_step (doc_view d) op" using a(2,3) by simp_all
  then show ?case using Cons.IH [of ?d "acc @ [p]"] Cons.prems(2) a(1) by simp
qed simp

lemma view_record [simp]:
  "doc_view (record_change d c) = doc_view d" "doc_ok (record_change d c) = doc_ok d"
  by (simp_all add: record_change_def Let_def doc_view_def doc_ok_def)

lemma applyRemoteChange_refines:
  assumes "doc_ok d" "change_pre (doc_view d) c" "c_hash c \<noteq> zeroHash"
  shows "\<exists>ps d'. applyRemoteChange marshal d c = (Inr ps, d') \<and> doc_ok d' \<and>
    doc_view d' = change_step (doc_view d) c"
  using apply_ops_refines [OF assms(1), of "c_ops c" "[]"] assms(2,3)
  by (auto simp: applyRemoteChange_def change_pre_def change_step_def)

definition deliver :: "(gchange \<Rightarrow> byte list option) \<Rightarrow> gdoc \<Rightarrow> gchange list \<Rightarrow> gdoc" where
  "deliver marshal d cs = foldl (\<lambda>d c. snd (applyRemoteChange marshal d c)) d cs"

lemma deliver_refines:
  assumes "doc_ok d" "steps_valid change_step change_pre (doc_view d) cs"
    and "\<forall>c \<in> set cs. c_hash c \<noteq> zeroHash"
  shows "doc_ok (deliver marshal d cs) \<and> doc_view (deliver marshal d cs) = foldl change_step (doc_view d) cs"
  using assms
proof (induction cs arbitrary: d)
  case (Cons c cs)
  then obtain ps d' where "applyRemoteChange marshal d c = (Inr ps, d')" "doc_ok d'"
    "doc_view d' = change_step (doc_view d) c"
    using applyRemoteChange_refines [of d c marshal] by auto
  then show ?case using Cons.IH [of d'] Cons.prems by (simp add: deliver_def)
qed (simp add: deliver_def)

section \<open>Heads of the change graph\<close>

definition graph_heads :: "gchange set \<Rightarrow> byte list set" where
  "graph_heads cs = c_hash ` cs - (\<Union>c \<in> cs. set (c_deps c))"

definition heads_ok :: "gdoc \<Rightarrow> bool" where
  "heads_ok d \<longleftrightarrow> set (d_deps d) = graph_heads (set (d_changes d)) \<and>
     sorted (List.map hash_String (d_deps d)) \<and> distinct (List.map hash_String (d_deps d))"

lemma hash_String_inj [simp]: "hash_String a = hash_String b \<longleftrightarrow> a = b"
  using hexEncode_inj by (auto simp: hash_String_def)

lemma head_put_set [simp]: "set (head_put h hs) = insert h (set hs)"
  by (auto simp: head_put_def)

lemma head_delete_set [simp]: "set (head_delete h hs) = set hs - {h}"
  by (auto simp: head_delete_def)

lemma fold_put_set: "set (fold head_put xs hs) = set xs \<union> set hs"
  by (induction xs arbitrary: hs) auto

lemma fold_delete_set: "set (fold head_delete xs hs) = set hs - set xs"
  by (induction xs arbitrary: hs) auto

lemma distinct_head_put: "distinct hs \<Longrightarrow> distinct (head_put h hs)"
  by (auto simp: head_put_def)

lemma distinct_fold_put: "distinct hs \<Longrightarrow> distinct (fold head_put xs hs)"
  by (induction xs arbitrary: hs) (auto simp: distinct_head_put)

lemma distinct_fold_delete: "distinct hs \<Longrightarrow> distinct (fold head_delete xs hs)"
  by (induction xs arbitrary: hs) (auto simp: head_delete_def)

lemma distinct_map_hash [simp]: "distinct (List.map hash_String hs) = distinct hs"
  by (auto simp: distinct_map inj_on_def)

lemma mergeHeads_set: "set (mergeHeads d c) = insert (c_hash c) (set (d_deps d) - set (c_deps c))"
  by (simp add: mergeHeads_def Let_def fold_put_set fold_delete_set)

lemma mergeHeads_sorted:
  "sorted (List.map hash_String (mergeHeads d c)) \<and> distinct (mergeHeads d c)"
  by (simp add: mergeHeads_def Let_def distinct_head_put distinct_fold_put distinct_fold_delete)

lemma record_change_heads:
  assumes "heads_ok d" "\<forall>b \<in> set (d_changes d). c_hash c \<notin> set (c_deps b)" "c_hash c \<notin> set (c_deps c)"
  shows "heads_ok (record_change d c)"
proof -
  let ?d = "d\<lparr>d_changes := d_changes d @ [c], d_index := (d_index d)(hash_String (c_hash c) \<mapsto> c)\<rparr>"
  have r: "d_deps (record_change d c) = mergeHeads ?d c" "d_changes (record_change d c) = d_changes d @ [c]"
    by (simp_all add: record_change_def Let_def)
  have "set (mergeHeads ?d c) = graph_heads (set (d_changes d @ [c]))"
    using assms by (auto simp: mergeHeads_set heads_ok_def graph_heads_def)
  then show ?thesis using mergeHeads_sorted [of ?d c] by (simp add: heads_ok_def r)
qed

lemma heads_unique:
  assumes "heads_ok d" "heads_ok e" "set (d_changes d) = set (d_changes e)"
  shows "d_deps d = d_deps e"
proof -
  have "List.map hash_String (d_deps d) = List.map hash_String (d_deps e)"
    using assms by (intro sorted_distinct_set_unique) (auto simp: heads_ok_def)
  then show ?thesis by (rule map_injective) (simp add: inj_on_def)
qed

text \<open>The known changes, their index and their dependencies.\<close>

definition graph_ok :: "gdoc \<Rightarrow> bool" where
  "graph_ok d \<longleftrightarrow> heads_ok d \<and>
     (\<forall>h. d_index d (hash_String h) \<noteq> None \<longleftrightarrow> h \<in> c_hash ` set (d_changes d)) \<and>
     (\<forall>c \<in> set (d_changes d). set (c_deps c) \<subseteq> c_hash ` set (d_changes d))"

lemma missingDeps_none:
  assumes "graph_ok d"
  shows "missingDeps d c = [] \<longleftrightarrow> set (c_deps c) \<subseteq> c_hash ` set (d_changes d)"
  using assms by (auto simp: missingDeps_def filter_empty_conv graph_ok_def)

lemma record_change_graph:
  assumes ok: "graph_ok d" and new: "c_hash c \<notin> c_hash ` set (d_changes d)"
    and deps: "missingDeps d c = []"
  shows "graph_ok (record_change d c)"
proof -
  have d: "set (c_deps c) \<subseteq> c_hash ` set (d_changes d)" using missingDeps_none [OF ok] deps by simp
  have "heads_ok (record_change d c)"
    using ok new d by (intro record_change_heads) (auto simp: graph_ok_def)
  then show ?thesis
    using ok d unfolding graph_ok_def
    by (auto simp: record_change_def Let_def)
qed

section \<open>Properties\<close>


text \<open>C12. Replicas that hold the same changes report the same list of heads, in the same order,
  and recording a change whose dependencies are known keeps the heads equal to the changes
  nothing depends on.\<close>
theorem heads_agree:
  assumes "graph_ok d" "graph_ok e" "set (d_changes d) = set (d_changes e)"
    and "c_hash c \<notin> c_hash ` set (d_changes d)" "missingDeps d c = []"
  shows "d_deps (record_change d c) = d_deps (record_change e c) \<and> graph_ok (record_change d c)"
proof
  show ok: "graph_ok (record_change d c)" by (rule record_change_graph [OF assms(1,4,5)])
  have "missingDeps e c = []"
    using missingDeps_none [OF assms(1)] missingDeps_none [OF assms(2)] assms(3,5) by simp
  then have "graph_ok (record_change e c)"
    using record_change_graph [OF assms(2)] assms(3,4) by simp
  then show "d_deps (record_change d c) = d_deps (record_change e c)"
    using ok assms(3) by (intro heads_unique) (auto simp: graph_ok_def record_change_def Let_def)
qed

section \<open>Concrete runs\<close>

definition put_change :: "byte list \<Rightarrow> string \<Rightarrow> gvalue \<Rightarrow> gchange" where
  "put_change h actor v = \<lparr>c_hash = h, c_actor = actor, c_seq = 1, c_deps = [], c_start = 1,
     c_time = \<lparr>t_sec = 0, t_nsec = 0\<rparr>, c_msg = [], c_group = [],
     c_ops = [\<lparr>o_id = OpID 1 actor, o_action = ''put'', o_obj = rootID, o_prop = ''k'', o_value = v,
       o_after = [], o_run = [], o_delruns = []\<rparr>]\<rparr>"

definition inc_change :: "byte list \<Rightarrow> string \<Rightarrow> uint64 \<Rightarrow> int64 \<Rightarrow> gchange" where
  "inc_change h actor n v = \<lparr>c_hash = h, c_actor = actor, c_seq = 1, c_deps = [], c_start = n,
     c_time = \<lparr>t_sec = 0, t_nsec = 0\<rparr>, c_msg = [], c_group = [],
     c_ops = [\<lparr>o_id = OpID n actor, o_action = ''increment'', o_obj = rootID, o_prop = ''k'',
       o_value = counterValue v, o_after = [], o_run = [], o_delruns = []\<rparr>]\<rparr>"

lemma new_doc_ok: "doc_ok (newDocWithActor actor)"
  by (simp add: doc_ok_def newDocWithActor_def newMapObject_def newSeq_ok)

lemma new_doc_view: "doc_view (newDocWithActor actor) = fmupd rootID (a_new KMap) fmempty"
  by (rule fmap_ext)
    (simp add: doc_view_lookup newDocWithActor_def newMapObject_def abs_obj_def a_new_def newSeq_ok)


theorem heads_agree_witness:
  "d_deps (record_change (newDocWithActor (replicate 16 0)) (put_change [1] ''a'' (intValue 1))) =
   d_deps (record_change (newDocWithActor (replicate 16 1)) (put_change [1] ''a'' (intValue 1)))"
proof -
  have "graph_ok (newDocWithActor x)" for x
    by (simp add: graph_ok_def heads_ok_def graph_heads_def newDocWithActor_def)
  then show ?thesis
    using heads_agree [of "newDocWithActor (replicate 16 0)" "newDocWithActor (replicate 16 1)"
        "put_change [1] ''a'' (intValue 1)"]
    by (simp add: newDocWithActor_def missingDeps_def put_change_def)
qed


end
