(* ===== verification/Doc_Local.thy ===== *)
theory Doc_Local
  imports Rga_Local Doc_Converge
begin

text \<open>
  Local edits of a document: with the operation counter ahead of every identity the document
  holds, each edit succeeds, does to the visible content what its arguments say, and keeps
  the counter ahead.
\<close>

section \<open>The clock\<close>

definition elem_clock :: "uint64 \<Rightarrow> listElem \<Rightarrow> bool" where
  "elem_clock m e \<longleftrightarrow> op_counter (e_id e) \<le> m \<and> op_counter (e_vis e) \<le> m \<and> op_actor (e_id e) \<noteq> []"

definition obj_clock :: "uint64 \<Rightarrow> aobj \<Rightarrow> bool" where
  "obj_clock m t \<longleftrightarrow> (\<forall>e \<in> set (a_elems t). elem_clock m e) \<and>
     (\<forall>p e. fmlookup (a_map t) p = Some e \<longrightarrow> op_counter (me_id e) \<le> m)"

definition a_clock :: "uint64 \<Rightarrow> adoc \<Rightarrow> bool" where
  "a_clock m A \<longleftrightarrow> (\<forall>obj t. fmlookup A obj = Some t \<longrightarrow> obj_clock m t)"

definition doc_good :: "gdoc \<Rightarrow> bool" where
  "doc_good d \<longleftrightarrow> doc_ok d \<and> a_clock (d_maxOp d) (doc_view d) \<and> length (d_actor d) = 16"

fun edit_clock :: "uint64 \<Rightarrow> edit \<Rightarrow> bool" where
  "edit_clock m (Ins r e) \<longleftrightarrow> elem_clock m e"
| "edit_clock m (Flip oid d v) \<longleftrightarrow> op_counter v \<le> m"

lemma elem_clock_mono: "elem_clock m e \<Longrightarrow> m \<le> m' \<Longrightarrow> elem_clock m' e"
  by (auto simp: elem_clock_def)

lemma edits_clock:
  "\<lbrakk>\<forall>e \<in> set es. elem_clock m e; \<forall>x \<in> set xs. edit_clock m x\<rbrakk> \<Longrightarrow>
     \<forall>e \<in> set (foldl edit_step es xs). elem_clock m e"
proof (induction xs arbitrary: es)
  case (Cons x xs)
  have "\<forall>e \<in> set (edit_step es x). elem_clock m e"
    using Cons.prems by (cases x) (auto simp: set_visible_def flip_elem_def elem_clock_def)
  then show ?case using Cons by simp
qed simp

lemma obj_clock_mono: "obj_clock m t \<Longrightarrow> m \<le> m' \<Longrightarrow> obj_clock m' t"
  using elem_clock_mono unfolding obj_clock_def by (meson order_trans)

lemma a_clock_mono: "a_clock m A \<Longrightarrow> m \<le> m' \<Longrightarrow> a_clock m' A"
  using obj_clock_mono unfolding a_clock_def by blast

lemma a_step_clock:
  assumes "a_clock m A" "m \<le> m'" "op_counter (o_id op) \<le> m'" "\<forall>x \<in> set (edits_of op). edit_clock m' x"
  shows "a_clock m' (a_step A op)"
proof (cases "fmlookup A (o_obj op)")
  case (Some t)
  have mono: "obj_clock m' u" if "fmlookup A k = Some u" for k u
    using a_clock_mono [OF assms(1,2)] that by (simp add: a_clock_def)
  have "obj_clock m' (a_obj_step t op)"
    using mono [OF Some] edits_clock [OF _ assms(4)] assms(3)
    by (auto simp: a_obj_step_def obj_clock_def lww_lookup split: if_splits)
  then show ?thesis
    using mono by (auto simp: a_clock_def a_step_lookup [OF Some] obj_clock_def a_new_def split: if_splits)
next
  case None
  then show ?thesis using a_clock_mono [OF assms(1,2)] by (simp add: a_step_def)
qed

lemma doc_good_obj:
  assumes "doc_good d" "fmlookup (d_objects d) obj = Some t"
  shows "seq_inv (obj_seq t)" "obj_clock (d_maxOp d) (abs_obj t)"
    "\<forall>e \<in> set (seq_elems (obj_seq t)). elem_clock (d_maxOp d) e"
proof -
  show "seq_inv (obj_seq t)" using assms by (auto simp: doc_good_def intro: doc_ok_obj)
  have "fmlookup (doc_view d) obj = Some (abs_obj t)" using assms(2) by (simp add: doc_view_lookup)
  then show c: "obj_clock (d_maxOp d) (abs_obj t)" using assms(1) by (simp add: doc_good_def a_clock_def)
  then show "\<forall>e \<in> set (seq_elems (obj_seq t)). elem_clock (d_maxOp d) e" by (simp add: obj_clock_def)
qed

lemma actor_nonempty: "doc_good d \<Longrightarrow> actor_String (d_actor d) \<noteq> []"
  by (simp add: doc_good_def actor_String_not_Nil)

section \<open>Applying a fresh operation\<close>

lemma view_journal [simp]:
  "doc_view (journal d op p) = doc_view d" "doc_ok (journal d op p) = doc_ok d"
  "d_maxOp (journal d op p) = d_maxOp d" "d_actor (journal d op p) = d_actor d"
  "d_objects (journal d op p) = d_objects d"
  by (simp_all add: journal_def doc_view_def doc_ok_def)

lemma put_object_sel [simp]:
  "d_maxOp (put_object d k t) = d_maxOp d" "d_actor (put_object d k t) = d_actor d"
  "d_pending (put_object d k t) = d_pending d"
  by (simp_all add: put_object_def)

lemma applyOp_frame:
  "applyOp d op = (r, d') \<Longrightarrow> d_maxOp d' = d_maxOp d \<and> d_actor d' = d_actor d \<and> d_pending d' = d_pending d"
  by (auto simp: applyOp_def ensureObjectForValue_def Let_def case_prod_beta split: sum.splits option.splits if_splits)

lemma localApply_ok:
  assumes "doc_ok d" "a_pre (doc_view d) op"
  shows "\<exists>d'. localApply d op r = (Inr r, d') \<and> doc_ok d' \<and> doc_view d' = a_step (doc_view d) op \<and>
    d_maxOp d' = d_maxOp d \<and> d_actor d' = d_actor d \<and> d_pending d' = d_pending d @ [op]"
proof -
  obtain p d1 where a: "applyOp d op = (Inr p, d1)" "doc_ok d1" "doc_view d1 = a_step (doc_view d) op"
    using applyOp_refines [OF assms] by blast
  then have "localApply d op r = (Inr r, journal d1 op p)" by (simp add: localApply_def)
  then show ?thesis using a applyOp_frame [OF a(1)] by (auto simp: journal_def [of d1 op p] doc_view_def doc_ok_def)
qed

text \<open>The counter has room for \<open>k\<close> more identities.\<close>

definition room :: "gdoc \<Rightarrow> nat \<Rightarrow> bool" where
  "room d k \<longleftrightarrow> unat (d_maxOp d) + k < 2 ^ 64"

lemma counter_add: "unat (m :: uint64) + k < 2 ^ 64 \<Longrightarrow> unat (m + word_of_nat k) = unat m + k"
  by (simp add: unat_word_ariths unsigned_of_nat take_bit_nat_eq_self)

lemma counter_next: "unat (m :: uint64) + 1 < 2 ^ 64 \<Longrightarrow> unat (m + 1) = unat m + 1"
  using counter_add [of m 1] by simp

lemma fresh_counter:
  assumes "unat (m :: uint64) + 1 < 2 ^ 64"
  shows "m < m + 1" and "x \<le> m \<Longrightarrow> x < m + 1"
proof -
  show "m < m + 1" using counter_next [OF assms] by (simp add: word_less_nat_alt)
  then show "x \<le> m \<Longrightarrow> x < m + 1" by (rule le_less_trans [rotated])
qed

lemma lww_fresh:
  assumes "\<forall>p e. fmlookup m p = Some e \<longrightarrow> op_counter (me_id e) \<le> c" "unat c + 1 < 2 ^ 64"
    and "op_counter (me_id e) = c + 1"
  shows "lww m prop e = fmupd prop e m"
proof -
  have "me_id cur < me_id e" if "fmlookup m prop = Some cur" for cur
    using that assms fresh_counter(2) by (intro opid_less_counter) auto
  then show ?thesis by (auto simp: lww_def split: option.splits)
qed

lemma view_obj:
  "fmlookup (doc_view d) obj = Some a \<Longrightarrow> \<exists>t. fmlookup (d_objects d) obj = Some t \<and> abs_obj t = a"
  by (auto simp: doc_view_lookup)

lemma view_elems:
  assumes "fmlookup (doc_view d) obj = Some (a\<lparr>a_elems := es\<rparr>)"
  shows "\<exists>t. fmlookup (d_objects d) obj = Some t \<and> seq_elems (obj_seq t) = es \<and> obj_kind t = a_kind a"
proof -
  obtain t where t: "fmlookup (d_objects d) obj = Some t" "abs_obj t = a\<lparr>a_elems := es\<rparr>"
    using view_obj [OF assms] by blast
  have "seq_elems (obj_seq t) = a_elems (abs_obj t)" "obj_kind t = a_kind (abs_obj t)" by simp_all
  then show ?thesis using t by simp
qed

lemma single_edit_clock:
  assumes "op_actor (o_id op) \<noteq> []" "o_action op \<noteq> ''splice''"
  shows "\<forall>x \<in> set (edits_of op). edit_clock (op_counter (o_id op)) x"
  using assms by (auto simp: edits_of_def elem_clock_def split: sum.splits option.splits if_splits)

text \<open>The operation a local edit builds, and the document with the counter moved.\<close>

definition local_op :: "gdoc \<Rightarrow> string \<Rightarrow> string \<Rightarrow> string \<Rightarrow> gvalue \<Rightarrow> string \<Rightarrow> gop" where
  "local_op d action obj prop v after =
     \<lparr>o_id = OpID (d_maxOp d + 1) (actor_String (d_actor d)), o_action = action, o_obj = obj,
      o_prop = prop, o_value = v, o_after = after, o_run = [], o_delruns = []\<rparr>"

lemma newLocalOp_eq:
  "newLocalOp d action obj prop v = (local_op d action obj prop v [], d\<lparr>d_maxOp := d_maxOp d + 1\<rparr>)"
  "(local_op d action obj prop v [])\<lparr>o_after := aft\<rparr> = local_op d action obj prop v aft"
  by (simp_all add: newLocalOp_def local_op_def Let_def)

lemma local_op_sel [simp]:
  "o_id (local_op d a obj p v aft) = OpID (d_maxOp d + 1) (actor_String (d_actor d))"
  "o_action (local_op d a obj p v aft) = a" "o_obj (local_op d a obj p v aft) = obj"
  "o_prop (local_op d a obj p v aft) = p" "o_value (local_op d a obj p v aft) = v"
  "o_after (local_op d a obj p v aft) = aft"
  by (simp_all add: local_op_def)

lemma local_edit:
  assumes good: "doc_good d" and room: "room d 1" and act: "a \<noteq> ''splice''"
    and pre: "a_pre (doc_view d) (local_op d a obj p v aft)"
  shows "\<exists>d'. localApply (d\<lparr>d_maxOp := d_maxOp d + 1\<rparr>) (local_op d a obj p v aft) r = (Inr r, d') \<and>
    doc_good d' \<and> doc_view d' = a_step (doc_view d) (local_op d a obj p v aft) \<and>
    d_maxOp d' = d_maxOp d + 1 \<and> d_pending d' = d_pending d @ [local_op d a obj p v aft] \<and>
    d_actor d' = d_actor d"
proof -
  let ?op = "local_op d a obj p v aft" and ?d = "d\<lparr>d_maxOp := d_maxOp d + 1\<rparr>"
  have "doc_ok ?d" "a_pre (doc_view ?d) ?op" using good pre by (simp_all add: doc_good_def)
  then obtain d' where d': "localApply ?d ?op r = (Inr r, d')" "doc_ok d'"
    "doc_view d' = a_step (doc_view d) ?op" "d_maxOp d' = d_maxOp d + 1" "d_actor d' = d_actor d"
    "d_pending d' = d_pending d @ [?op]"
    using localApply_ok [of ?d ?op r] by auto
  have "d_maxOp d \<le> d_maxOp d + 1"
    using room fresh_counter(1) [of "d_maxOp d"] by (simp add: room_def less_imp_le)
  then have "a_clock (d_maxOp d + 1) (a_step (doc_view d) ?op)"
    using good single_edit_clock [of ?op] act actor_nonempty [OF good]
    by (intro a_step_clock [of "d_maxOp d"]) (simp_all add: doc_good_def)
  then show ?thesis using d' good by (auto simp: doc_good_def)
qed

text \<open>
  The edit is in the journal and its effect is that of the journaled operation, or it was an
  empty splice.
\<close>

definition journaled :: "gdoc \<Rightarrow> gdoc \<Rightarrow> bool" where
  "journaled d d' \<longleftrightarrow> doc_good d' \<and> d_actor d' = d_actor d \<and>
     ((\<exists>op. d_pending d' = d_pending d @ [op] \<and> a_pre (doc_view d) op \<and> doc_view d' = a_step (doc_view d) op)
      \<or> d_pending d' = d_pending d \<and> doc_view d' = doc_view d)"

lemma journaledI:
  "\<lbrakk>doc_good d'; d_actor d' = d_actor d; d_pending d' = d_pending d @ [op]; a_pre (doc_view d) op;
     doc_view d' = a_step (doc_view d) op\<rbrakk> \<Longrightarrow> journaled d d'"
  by (auto simp: journaled_def)

section \<open>Map objects\<close>

lemma map_pre:
  assumes "doc_good d" "fmlookup (d_objects d) obj = Some t" "obj_kind t = KMap"
    and "a = ''put'' \<or> a = ''delete''"
  shows "a_pre (doc_view d) (local_op d a obj p v aft)"
  using assms actor_nonempty by (auto simp: a_pre_def doc_view_lookup obj_pre_def)

lemma local_map_step:
  assumes good: "doc_good d" and t: "fmlookup (d_objects d) obj = Some t" "obj_kind t = KMap"
    and room: "room d 1"
  shows "fmlookup (a_step (doc_view d) (local_op d a obj p v aft)) obj
    = Some ((abs_obj t)\<lparr>a_map := fmupd p (entry_of (local_op d a obj p v aft)) (obj_map t)\<rparr>)"
proof -
  have "lww (obj_map t) p (entry_of (local_op d a obj p v aft)) = fmupd p (entry_of (local_op d a obj p v aft)) (obj_map t)"
    using doc_good_obj(2) [OF good t(1)] room
    by (intro lww_fresh [of _ "d_maxOp d"]) (auto simp: obj_clock_def room_def)
  then show ?thesis
    using t by (subst a_step_lookup [of _ _ "abs_obj t"]) (simp_all add: doc_view_lookup a_obj_step_def)
qed

lemma Put_ok:
  assumes good: "doc_good d" and t: "fmlookup (d_objects d) obj = Some t" "obj_kind t = KMap"
    and room: "room d 1"
  shows "\<exists>d' t'. Put d obj prop v = (Inr (), d') \<and> journaled d d' \<and> fmlookup (d_objects d') obj = Some t' \<and>
    obj_kind t' = KMap \<and> obj_map t' = fmupd prop
      \<lparr>me_value = v, me_id = OpID (d_maxOp d + 1) (actor_String (d_actor d)), me_deleted = False\<rparr> (obj_map t)"
proof -
  let ?op = "local_op d ''put'' obj prop v []"
  have pre: "a_pre (doc_view d) ?op" by (rule map_pre [OF good t]) simp
  obtain d' where d': "localApply (d\<lparr>d_maxOp := d_maxOp d + 1\<rparr>) ?op () = (Inr (), d')" "doc_good d'"
    "doc_view d' = a_step (doc_view d) ?op" "d_pending d' = d_pending d @ [?op]" "d_actor d' = d_actor d"
    using local_edit [OF good room _ pre, of "()"] by auto
  have "journaled d d'" by (rule journaledI [OF d'(2,5,4) pre d'(3)])
  moreover obtain t' where "fmlookup (d_objects d') obj = Some t'"
    "abs_obj t' = (abs_obj t)\<lparr>a_map := fmupd prop (entry_of ?op) (obj_map t)\<rparr>"
    using view_obj [of d' obj] local_map_step [OF good t room] d'(3) by metis
  ultimately show ?thesis
    using d'(1) t(2) by (auto simp: Put_def newLocalOp_eq abs_obj_def entry_of_def)
qed

lemma Delete_ok:
  assumes good: "doc_good d" and t: "fmlookup (d_objects d) obj = Some t" "obj_kind t = KMap"
    and room: "room d 1"
  shows "\<exists>d' t'. Delete d obj prop = (Inr (), d') \<and> journaled d d' \<and> fmlookup (d_objects d') obj = Some t' \<and>
    obj_kind t' = KMap \<and> obj_map t' = fmupd prop
      \<lparr>me_value = zeroValue, me_id = OpID (d_maxOp d + 1) (actor_String (d_actor d)), me_deleted = True\<rparr> (obj_map t)"
proof -
  let ?op = "local_op d ''delete'' obj prop nullValue []"
  have pre: "a_pre (doc_view d) ?op" by (rule map_pre [OF good t]) simp
  obtain d' where d': "localApply (d\<lparr>d_maxOp := d_maxOp d + 1\<rparr>) ?op () = (Inr (), d')" "doc_good d'"
    "doc_view d' = a_step (doc_view d) ?op" "d_pending d' = d_pending d @ [?op]" "d_actor d' = d_actor d"
    using local_edit [OF good room _ pre, of "()"] by auto
  have "journaled d d'" by (rule journaledI [OF d'(2,5,4) pre d'(3)])
  moreover obtain t' where "fmlookup (d_objects d') obj = Some t'"
    "abs_obj t' = (abs_obj t)\<lparr>a_map := fmupd prop (entry_of ?op) (obj_map t)\<rparr>"
    using view_obj [of d' obj] local_map_step [OF good t room] d'(3) by metis
  ultimately show ?thesis
    using d'(1) t(2) by (auto simp: Delete_def newLocalOp_eq abs_obj_def entry_of_def)
qed

section \<open>Lists and texts\<close>

definition shown_of :: "crdtObject \<Rightarrow> listElem list" where
  "shown_of t = shown (seq_elems (obj_seq t))"

lemma visibleLength_shown: "seq_inv s \<Longrightarrow> visibleLength s = int (length (shown (seq_elems s)))"
  by (rule block_index.len_elems)

lemma visibleIDAt_at:
  "seq_inv s \<Longrightarrow> k < length (shown (seq_elems s)) \<Longrightarrow>
     fst (visibleIDAt s (int k)) = Some (e_id (shown (seq_elems s) ! k))"
  using block_index.id_at_elems [of s "int k"] visibleLength_shown [of s] by simp

lemma visibleIDAt_out:
  "seq_inv s \<Longrightarrow> int (length (shown (seq_elems s))) \<le> k \<Longrightarrow> fst (visibleIDAt s k) = None"
  using block_index.id_at_elems [of s k] visibleLength_shown [of s] by simp

lemma reindexed:
  assumes "doc_good d" "fmlookup (d_objects d) obj = Some t" "seq_inv s'" "seq_elems s' = seq_elems (obj_seq t)"
  shows "doc_good (put_object d obj (t\<lparr>obj_seq := s'\<rparr>))"
    and "doc_view (put_object d obj (t\<lparr>obj_seq := s'\<rparr>)) = doc_view d"
proof -
  show v: "doc_view (put_object d obj (t\<lparr>obj_seq := s'\<rparr>)) = doc_view d"
    by (rule fmap_ext) (use assms(2,4) in \<open>auto simp: doc_view_put doc_view_lookup abs_obj_def\<close>)
  show "doc_good (put_object d obj (t\<lparr>obj_seq := s'\<rparr>))"
    using assms doc_ok_put [of d "t\<lparr>obj_seq := s'\<rparr>" obj] by (simp add: doc_good_def v)
qed

lemma cursor_parse:
  assumes "\<forall>e \<in> set es. elem_clock m e" "i \<le> length (shown es)"
  shows "parseOpIDRef (formatOpIDRef (cursor_ref es i)) = Inr (cursor_ref es i)"
proof (rule parseOpIDRef_format)
  fix oid assume "cursor_ref es i = Some oid"
  then have "oid \<in> ids_of es" using assms(2) shown_nth_id [of "i - 1" es] by (auto simp: cursor_ref_def split: if_splits)
  then show "op_actor oid \<noteq> []" using assms(1) by (auto simp: ids_of_def elem_clock_def)
qed

lemma afterID_cursor:
  assumes "seq_inv s" "i \<le> length (shown (seq_elems s))"
  shows "\<exists>s'. afterID s (int i) = (Inr (formatOpIDRef (cursor_ref (seq_elems s) i)), s') \<and> seq_inv s' \<and>
    seq_elems s' = seq_elems s"
proof (cases i)
  case 0
  then show ?thesis using assms by (simp add: afterID_def cursor_ref_def formatOpIDRef_def)
next
  case (Suc k)
  then have "fst (visibleIDAt s (int k)) = Some (e_id (shown (seq_elems s) ! k))"
    using assms by (intro visibleIDAt_at) simp_all
  then obtain s' where "visibleIDAt s (int k) = (Some (e_id (shown (seq_elems s) ! k)), s')"
    by (metis prod.collapse)
  then show ?thesis
    using assms Suc visibleLength_shown [OF assms(1)] lookup_states(3,4) [OF assms(1), of "int k"]
    by (simp add: afterID_def cursor_ref_def formatOpIDRef_def)
qed

lemma ids_below_counter:
  assumes "doc_good d" "fmlookup (d_objects d) obj = Some t" "x \<in> ids_of (seq_elems (obj_seq t))"
  shows "op_counter x \<le> d_maxOp d"
  using doc_good_obj(3) [OF assms(1,2)] assms(3) by (auto simp: ids_of_def elem_clock_def)

lemma InsertAt_ok:
  assumes good: "doc_good d" and t: "fmlookup (d_objects d) lst = Some t" "listLike (obj_kind t)"
    and room: "room d 1" and i: "i \<le> length (shown_of t)" "length (shown_of t) < 2 ^ 63"
  shows "\<exists>d' t' e. InsertAt d lst (word_of_nat i) v = (Inr (), d') \<and> journaled d d' \<and>
    fmlookup (d_objects d') lst = Some t' \<and> e_value e = v \<and>
    obj_kind t' = obj_kind t \<and> d_maxOp d' = d_maxOp d + 1 \<and>
    shown_of t' = take i (shown_of t) @ e # drop i (shown_of t)"
proof -
  let ?es = "seq_elems (obj_seq t)"
  let ?ref = "cursor_ref ?es i"
  let ?op = "\<lambda>d. local_op d ''insert'' lst (formatUint (word_of_nat i)) v (formatOpIDRef ?ref)"
  have inv: "seq_inv (obj_seq t)" and clock: "\<forall>e \<in> set ?es. elem_clock (d_maxOp d) e"
    using doc_good_obj [OF good t(1)] by blast+
  have i': "i \<le> length (shown ?es)" using i by (simp add: shown_of_def)
  obtain s' where s': "afterID (obj_seq t) (int i) = (Inr (formatOpIDRef ?ref), s')" "seq_inv s'" "seq_elems s' = ?es"
    using afterID_cursor [OF inv i'] by blast
  define d0 where "d0 = put_object d lst (t\<lparr>obj_seq := s'\<rparr>)"
  have d0: "doc_good d0" "doc_view d0 = doc_view d" "d_maxOp d0 = d_maxOp d" "d_actor d0 = d_actor d"
    using reindexed [OF good t(1) s'(2,3)] by (simp_all add: d0_def)
  define e where "e = \<lparr>e_id = o_id (?op d), e_after = formatOpIDRef ?ref, e_value = v, e_deleted = False, e_vis = o_id (?op d)\<rparr>"
  have op: "?op d0 = ?op d" by (simp add: local_op_def d0)
  have ed: "edits_of (?op d) = [Ins ?ref e]"
    using cursor_parse [OF clock i'] by (simp add: edits_of_def e_def)
  have gt: "\<forall>x \<in> ids_of ?es. x < e_id e"
    using ids_below_counter [OF good t(1)] fresh_counter(2) room
    by (auto intro!: opid_less_counter simp: e_def room_def)
  then have new: "e_id e \<notin> ids_of ?es" by auto
  have pre: "a_pre (doc_view d0) (?op d0)"
    using t actor_nonempty [OF good] ed cursor_ref_in [OF i'] new listLike_not_map [OF t(2)]
      cursor_parse [OF clock i']
    by (simp add: d0 op a_pre_def doc_view_lookup obj_pre_def list_op_ok_def)
  obtain d' where d': "localApply (d0\<lparr>d_maxOp := d_maxOp d0 + 1\<rparr>) (?op d0) () = (Inr (), d')" "doc_good d'"
    "doc_view d' = a_step (doc_view d0) (?op d0)" "d_pending d' = d_pending d0 @ [?op d0]" "d_actor d' = d_actor d0"
    "d_maxOp d' = d_maxOp d0 + 1"
    using local_edit [OF d0(1) _ _ pre, of "()"] room by (auto simp: room_def d0)
  have j: "journaled d d'"
    using d' d0 pre by (intro journaledI [of _ _ "?op d0"]) (simp_all add: d0_def)
  have "fmlookup (doc_view d') lst = Some ((abs_obj t)\<lparr>a_elems := rga_insert ?ref e ?es\<rparr>)"
    unfolding d'(3) op d0 using t listLike_not_map [OF t(2)]
    by (subst a_step_lookup [of _ _ "abs_obj t"]) (simp_all add: doc_view_lookup a_obj_step_def ed)
  then obtain t' where t': "fmlookup (d_objects d') lst = Some t'" "seq_elems (obj_seq t') = rga_insert ?ref e ?es"
    "obj_kind t' = obj_kind t"
    using view_elems by fastforce
  have "shown (rga_insert ?ref e ?es) = take i (shown ?es) @ e # drop i (shown ?es)"
    using inv by (intro rga_insert_cursor [OF _ i' gt]) (simp_all add: e_def block_index.elems_distinct)
  moreover have "InsertAt d lst (word_of_nat i) v = (Inr (), d')"
    using t s' d'(1) i sint_word_of_size [of i]
    by (simp add: InsertAt_def objectLocked_def newLocalOp_eq d0(3) d0_def [symmetric])
  ultimately show ?thesis
    using j t' d'(6) d0(3) by (intro exI [of _ d'] exI [of _ t'] exI [of _ e]) (simp add: shown_of_def e_def)
qed

lemma stamps_fresh:
  assumes "\<forall>e \<in> set es. elem_clock m e" "unat m + 1 < 2 ^ 64" "op_counter v = m + 1"
  shows "stamps_below v es"
  using assms(1) fresh_counter(2) [OF assms(2)]
  by (auto simp: stamps_below_def vis_current_def elem_clock_def assms(3) intro!: opid_less_counter)

lemma DeleteAt_ok:
  assumes good: "doc_good d" and t: "fmlookup (d_objects d) lst = Some t" "listLike (obj_kind t)"
    and room: "room d 1" and i: "i < length (shown_of t)" "length (shown_of t) < 2 ^ 63"
  shows "\<exists>d' t'. DeleteAt d lst (word_of_nat i) = (Inr (), d') \<and> journaled d d' \<and>
    fmlookup (d_objects d') lst = Some t' \<and> shown_of t' = take i (shown_of t) @ drop (Suc i) (shown_of t)"
proof -
  let ?es = "seq_elems (obj_seq t)"
  let ?x = "e_id (shown ?es ! i)"
  let ?op = "\<lambda>d. local_op d ''delete'' lst (opid_String ?x) nullValue []"
  have inv: "seq_inv (obj_seq t)" and clock: "\<forall>e \<in> set ?es. elem_clock (d_maxOp d) e"
    using doc_good_obj [OF good t(1)] by blast+
  have i': "i < length (shown ?es)" using i by (simp add: shown_of_def)
  have xin: "?x \<in> ids_of ?es" by (rule shown_nth_id [OF i'])
  then have parse: "parseOpIDRef (opid_String ?x) = Inr (Some ?x)"
    using clock by (intro parseOpIDRef_String) (auto simp: ids_of_def elem_clock_def)
  obtain s' where s': "visibleIDAt (obj_seq t) (int i) = (Some ?x, s')"
    using visibleIDAt_at [OF inv i'] by (metis prod.collapse)
  then have s'_ok: "seq_inv s'" "seq_elems s' = ?es" using lookup_states(3,4) [OF inv, of "int i"] by simp_all
  define d0 where "d0 = put_object d lst (t\<lparr>obj_seq := s'\<rparr>)"
  have d0: "doc_good d0" "doc_view d0 = doc_view d" "d_maxOp d0 = d_maxOp d" "d_actor d0 = d_actor d"
    using reindexed [OF good t(1) s'_ok] by (simp_all add: d0_def)
  have op: "?op d0 = ?op d" by (simp add: local_op_def d0)
  have ed: "edits_of (?op d) = [Flip ?x True (o_id (?op d))]" using parse by (simp add: edits_of_def)
  have pre: "a_pre (doc_view d0) (?op d0)"
    using t actor_nonempty [OF good] ed xin listLike_not_map [OF t(2)] parse
    by (simp add: d0 op a_pre_def doc_view_lookup obj_pre_def list_op_ok_def)
  obtain d' where d': "localApply (d0\<lparr>d_maxOp := d_maxOp d0 + 1\<rparr>) (?op d0) () = (Inr (), d')" "doc_good d'"
    "doc_view d' = a_step (doc_view d0) (?op d0)" "d_pending d' = d_pending d0 @ [?op d0]" "d_actor d' = d_actor d0"
    using local_edit [OF d0(1) _ _ pre, of "()"] room by (auto simp: room_def d0)
  have j: "journaled d d'"
    using d' d0 pre by (intro journaledI [of _ _ "?op d0"]) (simp_all add: d0_def)
  let ?es' = "set_visible ?x True (o_id (?op d)) ?es"
  have "fmlookup (doc_view d') lst = Some ((abs_obj t)\<lparr>a_elems := ?es'\<rparr>)"
    unfolding d'(3) op d0 using t listLike_not_map [OF t(2)]
    by (subst a_step_lookup [of _ _ "abs_obj t"]) (simp_all add: doc_view_lookup a_obj_step_def ed)
  then obtain t' where t': "fmlookup (d_objects d') lst = Some t'" "seq_elems (obj_seq t') = ?es'"
    using view_elems by blast
  have "stamps_below (o_id (?op d)) ?es" using room by (intro stamps_fresh [OF clock]) (simp_all add: room_def)
  then have "shown ?es' = filter (\<lambda>e. e_id e \<noteq> ?x) (shown ?es)" by (rule set_visible_shown)
  moreover have one: "take 1 (drop i (shown ?es)) = [shown ?es ! i]"
    by (subst Cons_nth_drop_Suc [OF i', symmetric]) simp
  ultimately have "shown ?es' = filter (\<lambda>e. e_id e \<noteq> ?x) (shown ?es)" by blast
  also have "\<dots> = take i (shown ?es) @ drop (Suc i) (shown ?es)"
    using filter_range [OF block_index.shown_distinct [OF inv], where i = i and n = 1] unfolding one by simp
  finally show ?thesis
    using t s' d'(1) j t' i sint_word_of_size [of i]
    by (intro exI [of _ d'] exI [of _ t'])
      (simp add: DeleteAt_def objectLocked_def newLocalOp_eq d0(3) d0_def [symmetric] shown_of_def)
qed

section \<open>Splicing a text\<close>

lemma splice_cursor_ok:
  assumes "seq_inv s" "i \<le> length (shown (seq_elems s))" "length (shown (seq_elems s)) < 2 ^ 63"
  shows "\<exists>s'. splice_cursor s (word_of_nat i) = (Inr (formatOpIDRef (cursor_ref (seq_elems s) i)), s') \<and>
    seq_inv s' \<and> seq_elems s' = seq_elems s"
proof (cases i)
  case 0
  then show ?thesis using assms by (simp add: splice_cursor_def cursor_ref_def formatOpIDRef_def)
next
  case (Suc k)
  then have "fst (visibleIDAt s (int k)) = Some (e_id (shown (seq_elems s) ! k))"
    using assms by (intro visibleIDAt_at) simp_all
  then obtain s' where "visibleIDAt s (int k) = (Some (e_id (shown (seq_elems s) ! k)), s')"
    by (metis prod.collapse)
  moreover have "(0::uint64) < word_of_nat i"
    using Suc assms(2,3) by (simp add: word_less_nat_alt del: of_nat_Suc)
  moreover have "sint (word_of_nat i :: uint64) - 1 = int k"
    using Suc assms sint_word_of_size [of i] by simp
  ultimately show ?thesis
    using Suc lookup_states(3,4) [OF assms(1), of "int k"]
    by (simp add: splice_cursor_def cursor_ref_def formatOpIDRef_def del: of_nat_Suc)
qed

lemma splice_range_ok:
  assumes "seq_inv s" "i + n \<le> length (shown (seq_elems s))" "length (shown (seq_elems s)) < 2 ^ 63"
  shows "\<exists>s'. splice_range s (word_of_nat i) (word_of_nat n)
      = (Inr (List.map e_id (take n (drop i (shown (seq_elems s))))), s') \<and>
    seq_inv s' \<and> seq_elems s' = seq_elems s"
proof (cases "n = 0")
  case False
  have core: "seq_core s" using assms(1) by (simp add: seq_inv_def)
  have r: "fst (collectVisibleRange s (int i) (int n) []) = Inr (List.map e_id (take n (drop i (shown (seq_elems s)))))"
    using collectVisibleRange_eq [OF core, of "int i" "int n" "[]"] core_vis [OF core] assms(2) False
    by (simp add: count_visible_shown)
  obtain s' where s': "collectVisibleRange s (int i) (int n) [] = (Inr (List.map e_id (take n (drop i (shown (seq_elems s))))), s')"
    using r by (metis prod.collapse)
  have "seq_inv s' \<and> seq_elems s' = seq_elems s"
    using collectVisibleRange_state [of s "int i" "int n" "[]"] ensure_tree_inv [OF assms(1)] assms(1)
    by (auto simp: s')
  moreover have "(0::uint64) < word_of_nat n" using False assms by (simp add: word_less_nat_alt)
  moreover have "sint (word_of_nat i :: uint64) = int i" "sint (word_of_nat n :: uint64) = int n"
    using assms by (simp_all add: sint_word_of_size)
  ultimately show ?thesis using s' by (simp add: splice_range_def)
qed (use assms in \<open>simp add: splice_range_def\<close>)

lemma splice_bounds:
  assumes "i + n \<le> L" "L < 2 ^ 63"
  shows "\<not> (word_of_nat i :: uint64) > word_of_nat L"
    and "\<not> (word_of_nat n :: uint64) > word_of_nat L - word_of_nat i"
proof -
  have eq: "(word_of_nat L :: uint64) - word_of_nat i = word_of_nat (L - i)"
    using assms(1) by (simp add: of_nat_diff)
  have "unat ((word_of_nat L :: uint64) - word_of_nat i) = L - i"
    unfolding eq by (rule unat_word_of_size) (use assms in simp)
  then show "\<not> (word_of_nat n :: uint64) > word_of_nat L - word_of_nat i"
    unfolding word_less_nat_alt using assms by simp
  show "\<not> (word_of_nat i :: uint64) > word_of_nat L"
    using assms by (simp add: word_less_nat_alt)
qed

definition splice_op :: "gdoc \<Rightarrow> string \<Rightarrow> string \<Rightarrow> string \<Rightarrow> opid list \<Rightarrow> gop" where
  "splice_op d txt aft ins deleted =
     \<lparr>o_id = OpID (d_maxOp d + 1) (actor_String (d_actor d)), o_action = ''splice'', o_obj = txt,
      o_prop = [], o_value = zeroValue, o_after = aft, o_run = ins, o_delruns = compressOpIDRuns deleted\<rparr>"

lemma splice_op_sel [simp]:
  "o_id (splice_op d txt aft ins del) = OpID (d_maxOp d + 1) (actor_String (d_actor d))"
  "o_action (splice_op d txt aft ins del) = ''splice''" "o_obj (splice_op d txt aft ins del) = txt"
  "o_after (splice_op d txt aft ins del) = aft" "o_run (splice_op d txt aft ins del) = ins"
  "o_delruns (splice_op d txt aft ins del) = compressOpIDRuns del"
  by (simp_all add: splice_op_def)

definition run_width :: "string \<Rightarrow> nat" where
  "run_width ins = max 1 (length (runes ins))"

lemma run_edits_clock:
  assumes "op_actor oid \<noteq> []" "\<forall>j < i + length rs. op_counter (run_id oid j) \<le> m"
  shows "\<forall>x \<in> set (run_edits oid i rs after). edit_clock m x"
  using assms
proof (induction oid i rs after rule: run_edits.induct)
  case (2 oid i r rs after)
  have "elem_clock m (run_elem (run_id oid i) after r)"
    using 2(2,3) by (simp add: elem_clock_def run_elem_def run_id_def)
  then show ?case using 2 by simp
qed simp

text \<open>What a splice operation at the cursor does to the elements of a text.\<close>

lemma splice_effect:
  assumes dist: "distinct (List.map e_id es)" and clock: "\<forall>e \<in> set es. elem_clock m e"
    and i: "i + n \<le> length (shown es)" "length (shown es) < 2 ^ 63"
    and oid: "oid = OpID (m + 1) actor" "actor \<noteq> []" and room: "unat m + max 1 (length rs) < 2 ^ 64"
  shows "let flips = List.map (\<lambda>x. Flip x True oid) (List.map e_id (take n (drop i (shown es))));
             run = run_edits oid 0 rs (cursor_ref es i)
    in steps_valid edit_step edit_pre es (flips @ run) \<and>
       shown (foldl edit_step es (flips @ run))
         = take i (shown es) @ run_elems oid 0 rs (cursor_ref es i) @ drop (i + n) (shown es) \<and>
       (\<forall>x \<in> set (flips @ run). edit_clock (m + word_of_nat (max 1 (length rs))) x)"
proof -
  let ?del = "List.map e_id (take n (drop i (shown es)))"
  let ?flips = "List.map (\<lambda>x. Flip x True oid) ?del" and ?run = "run_edits oid 0 rs (cursor_ref es i)"
  let ?es1 = "foldl edit_step es ?flips"
  let ?m = "m + word_of_nat (max 1 (length rs))"
  have cnt: "unat (op_counter oid) = unat m + 1"
    using room oid by (simp add: counter_next)
  have stamps: "stamps_below oid es" using room oid by (intro stamps_fresh [OF clock]) simp_all
  have es1: "?es1 = List.map (\<lambda>e. if e_id e \<in> set ?del then e\<lparr>e_deleted := True, e_vis := oid\<rparr> else e) es"
    using oid by (intro flips_eq [OF stamps]) simp
  have ids: "List.map e_id ?es1 = List.map e_id es" unfolding es1 by simp
  have ids': "ids_of ?es1 = ids_of es" using ids by (metis ids_of_def list.set_map)
  have "shown ?es1 = filter (\<lambda>e. e_id e \<notin> e_id ` set (take n (drop i (shown es)))) (shown es)"
    using oid flips_shown [OF stamps, of ?del] by simp
  moreover have "distinct (List.map e_id (shown es))" using dist by (simp add: shown_def distinct_map_filter)
  ultimately have sh: "shown ?es1 = take i (shown es) @ drop (i + n) (shown es)"
    by (simp only: filter_range)
  have cur: "cursor_ref ?es1 i = cursor_ref es i" unfolding cursor_ref_def sh using i by (simp add: nth_append)
  have low: "\<forall>x \<in> ids_of ?es1. unat (op_counter x) < unat (op_counter oid) + 0"
    using clock unfolding ids' by (auto simp: ids_of_def elem_clock_def cnt word_le_nat_alt le_imp_less_Suc)
  have "steps_valid edit_step edit_pre ?es1 (run_edits oid 0 rs (cursor_ref ?es1 i)) \<and>
    shown (foldl edit_step ?es1 (run_edits oid 0 rs (cursor_ref ?es1 i))) =
      take i (shown ?es1) @ run_elems oid 0 rs (cursor_ref ?es1 i) @ drop i (shown ?es1)"
    by (rule run_edits_cursor [OF _ _ refl low]) (use dist ids i room sh cnt in simp_all)
  then have run: "steps_valid edit_step edit_pre ?es1 ?run"
    "shown (foldl edit_step ?es1 ?run) = take i (shown es) @ run_elems oid 0 rs (cursor_ref es i) @ drop (i + n) (shown es)"
    using i unfolding cur sh by simp_all
  have "set ?del \<subseteq> ids_of es" using shown_ids_subset [of es]
    by (auto simp: ids_of_def dest!: in_set_takeD in_set_dropD)
  then have "steps_valid edit_step edit_pre es ?flips" by (simp only: flips_valid_ids)
  moreover have top: "unat ?m = unat m + max 1 (length rs)" by (rule counter_add [OF room])
  have "op_counter (run_id oid j) \<le> ?m" if "j < 0 + length rs" for j
    using run_id_counter [of oid j] that room unfolding word_le_nat_alt top cnt by simp
  then have "\<forall>x \<in> set ?run. edit_clock ?m x" using oid by (intro run_edits_clock) simp_all
  moreover have "op_counter oid \<le> ?m" unfolding word_le_nat_alt top cnt by simp
  ultimately show ?thesis using run by (auto simp: Let_def)
qed

lemma run_width_eq: "(if length rs < 1 then 1 else length rs) = max 1 (length rs)"
  by (cases rs) (simp_all add: max_def)

lemma splice_apply:
  assumes good: "doc_good d" and t: "fmlookup (d_objects d) txt = Some t" "obj_kind t = KText"
    and i: "i + n \<le> length (shown_of t)" "length (shown_of t) < 2 ^ 63" and room: "room d (run_width ins)"
    and op: "op = splice_op d txt (formatOpIDRef (cursor_ref (seq_elems (obj_seq t)) i)) ins
               (List.map e_id (take n (drop i (shown_of t))))"
  shows "\<exists>d' t'. localApply (d\<lparr>d_maxOp := d_maxOp d + word_of_nat (run_width ins)\<rparr>) op r = (Inr r, d') \<and>
    journaled d d' \<and> fmlookup (d_objects d') txt = Some t' \<and> obj_kind t' = KText \<and>
    shown_of t' = take i (shown_of t) @
      run_elems (o_id op) 0 (runes ins) (cursor_ref (seq_elems (obj_seq t)) i) @ drop (i + n) (shown_of t)"
proof -
  let ?es = "seq_elems (obj_seq t)" and ?d = "d\<lparr>d_maxOp := d_maxOp d + word_of_nat (run_width ins)\<rparr>"
  let ?flips = "List.map (\<lambda>x. Flip x True (o_id op)) (List.map e_id (take n (drop i (shown ?es))))"
  let ?run = "run_edits (o_id op) 0 (runes ins) (cursor_ref ?es i)"
  have inv: "seq_inv (obj_seq t)" and clock: "\<forall>e \<in> set ?es. elem_clock (d_maxOp d) e"
    using doc_good_obj [OF good t(1)] by blast+
  have i': "i \<le> length (shown ?es)" using i by (simp add: shown_of_def)
  have parse: "parseOpIDRef (o_after op) = Inr (cursor_ref ?es i)"
    using cursor_parse [OF clock i'] by (simp add: op)
  have sel: "o_action op = ''splice''" "o_obj op = txt" "op_actor (o_id op) \<noteq> []" "o_run op = ins"
    using actor_nonempty [OF good] by (simp_all add: op)
  have "expandOpIDRuns (o_delruns op) = List.map e_id (take n (drop i (shown ?es)))"
    using i by (simp add: op expand_compress shown_of_def)
  then have ed: "edits_of op = ?flips @ ?run"
    using parse by (simp add: edits_of_def sel)
  have eff: "steps_valid edit_step edit_pre ?es (edits_of op)"
    "shown (foldl edit_step ?es (edits_of op)) = take i (shown ?es)
       @ run_elems (o_id op) 0 (runes ins) (cursor_ref ?es i) @ drop (i + n) (shown ?es)"
    "\<forall>x \<in> set (edits_of op). edit_clock (d_maxOp d + word_of_nat (run_width ins)) x"
    using splice_effect [OF block_index.elems_distinct [OF inv] clock, of i n "o_id op"
        "actor_String (d_actor d)" "runes ins"] i room actor_nonempty [OF good]
    unfolding ed by (simp_all add: Let_def shown_of_def room_def run_width_def op)
  have pre: "a_pre (doc_view ?d) op"
    using t eff(1) parse
    by (simp add: a_pre_def doc_view_lookup obj_pre_def list_op_ok_def listLike_def sel)
  moreover have "doc_ok ?d" using good by (simp add: doc_good_def)
  ultimately obtain d' where d': "localApply ?d op r = (Inr r, d')" "doc_ok d'"
    "doc_view d' = a_step (doc_view d) op" "d_maxOp d' = d_maxOp ?d" "d_actor d' = d_actor d"
    "d_pending d' = d_pending d @ [op]"
    using localApply_ok [of ?d op r] by auto
  have le: "d_maxOp d \<le> d_maxOp ?d" "op_counter (o_id op) \<le> d_maxOp ?d"
    using room counter_add [of "d_maxOp d" "run_width ins"] counter_next [of "d_maxOp d"]
    by (simp_all add: word_le_nat_alt room_def op run_width_def)
  have "a_clock (d_maxOp ?d) (a_step (doc_view d) op)"
    using good eff(3) le by (intro a_step_clock) (simp_all add: doc_good_def)
  then have "doc_good d'" using d' good by (simp add: doc_good_def)
  then have "journaled d d'" using d' pre by (intro journaledI) simp_all
  moreover have "fmlookup (doc_view d') txt = Some ((abs_obj t)\<lparr>a_elems := foldl edit_step ?es (edits_of op)\<rparr>)"
    unfolding d'(3) using t
    by (subst a_step_lookup [of _ _ "abs_obj t"])
      (simp_all add: doc_view_lookup a_obj_step_def sel)
  then obtain t' where "fmlookup (d_objects d') txt = Some t'" "obj_kind t' = KText"
    "seq_elems (obj_seq t') = foldl edit_step ?es (edits_of op)"
    using view_elems t(2) by (metis abs_obj_sel(1))
  ultimately show ?thesis using d'(1) eff(2) by (auto simp: shown_of_def)
qed

lemma SpliceText_ok:
  assumes good: "doc_good d" and t: "fmlookup (d_objects d) txt = Some t" "obj_kind t = KText"
    and i: "i + n \<le> length (shown_of t)" "length (shown_of t) < 2 ^ 63" and room: "room d (run_width ins)"
  shows "\<exists>d' t' new deleted. SpliceText d txt (word_of_nat i) (word_of_nat n) ins = (Inr (List.map e_id new, deleted), d') \<and>
    journaled d d' \<and> fmlookup (d_objects d') txt = Some t' \<and> obj_kind t' = KText \<and>
    deleted = List.map e_id (take n (drop i (shown_of t))) \<and>
    List.map e_value new = List.map (\<lambda>r. stringValue (encodeRune r)) (runes ins) \<and>
    shown_of t' = take i (shown_of t) @ new @ drop (i + n) (shown_of t)"
proof -
  let ?es = "seq_elems (obj_seq t)" and ?del = "List.map e_id (take n (drop i (shown_of t)))"
  have inv: "seq_inv (obj_seq t)" using doc_good_obj [OF good t(1)] by blast
  have L: "visibleLength (obj_seq t) = int (length (shown_of t))"
    using visibleLength_shown [OF inv] by (simp add: shown_of_def)
  obtain s1 where s1: "splice_cursor (obj_seq t) (word_of_nat i) = (Inr (formatOpIDRef (cursor_ref ?es i)), s1)"
    "seq_inv s1" "seq_elems s1 = ?es"
    using splice_cursor_ok [OF inv, of i] i by (auto simp: shown_of_def)
  obtain s2 where s2: "splice_range s1 (word_of_nat i) (word_of_nat n) = (Inr ?del, s2)"
    "seq_inv s2" "seq_elems s2 = ?es"
    using splice_range_ok [OF s1(2), of i n] i s1(3) by (auto simp: shown_of_def)
  define t0 where "t0 = t\<lparr>obj_seq := s2\<rparr>"
  define d0 where "d0 = put_object d txt t0"
  have d0: "doc_good d0" "d_maxOp d0 = d_maxOp d" "d_actor d0 = d_actor d"
    "fmlookup (d_objects d0) txt = Some t0" "doc_view d0 = doc_view d" "d_pending d0 = d_pending d"
    using reindexed [OF good t(1) s2(2,3)] by (simp_all add: d0_def t0_def put_object_def)
  have j0: "journaled d0 d' \<Longrightarrow> journaled d d'" for d' using d0 by (simp add: journaled_def)
  have "journaled d d0" using d0 by (simp add: journaled_def)
  have t0: "obj_kind t0 = KText" "shown_of t0 = shown_of t" "seq_elems (obj_seq t0) = ?es"
    using t s2 by (simp_all add: t0_def shown_of_def)
  note unf = SpliceText_def objectLocked_def t Let_def L splice_bounds [OF i] s1(1) s2(1)
    d0_def [unfolded t0_def, symmetric]
  show ?thesis
  proof (cases "?del = [] \<and> runes ins = []")
    case True
    then have n: "take n (drop i (shown_of t)) = []" by simp
    then have "shown_of t = take i (shown_of t) @ drop (i + n) (shown_of t)"
      by (metis append_Nil append_take_drop_id drop_drop add.commute)
    moreover have "SpliceText d txt (word_of_nat i) (word_of_nat n) ins = (Inr ([], []), d0)"
      using True by (simp add: unf)
    ultimately show ?thesis
      using d0 t0 n True \<open>journaled d d0\<close> by (intro exI [of _ d0] exI [of _ t0] exI [of _ "[]"]) simp
  next
    case False
    let ?op = "splice_op d0 txt (formatOpIDRef (cursor_ref ?es i)) ins ?del"
    let ?new = "run_elems (o_id ?op) 0 (runes ins) (cursor_ref ?es i)"
    have inserted: "List.map (run_id (o_id ?op)) [0..<length (runes ins)] = List.map e_id ?new"
      by (simp add: run_elems_ids)
    obtain d' t' where d': "localApply (d0\<lparr>d_maxOp := d_maxOp d0 + word_of_nat (run_width ins)\<rparr>) ?op
        (List.map e_id ?new, ?del) = (Inr (List.map e_id ?new, ?del), d')" "journaled d0 d'"
      "fmlookup (d_objects d') txt = Some t'" "obj_kind t' = KText"
      "shown_of t' = take i (shown_of t) @ ?new @ drop (i + n) (shown_of t)"
      using splice_apply [OF d0(1,4) t0(1), of i n ins ?op "(List.map e_id ?new, ?del)"] i room
      by (auto simp: t0 room_def d0(2))
    have "SpliceText d txt (word_of_nat i) (word_of_nat n) ins = (Inr (List.map e_id ?new, ?del), d')"
      using False d'(1) unfolding inserted [symmetric] run_width_def run_width_eq [symmetric]
      by (simp add: unf newLocalRunOp_def splice_op_def) linarith
    then show ?thesis
      using d' j0 run_elems_values by (intro exI [of _ d'] exI [of _ t'] exI [of _ ?new]) simp
  qed
qed

end
