(* ===== verification/Doc_History.thy ===== *)
theory Doc_History
  imports Doc_Local
begin

text \<open>
  Sequences of local edits, commits and their replication: the journal of a document replays
  its edits, so a replica that receives the committed change shows what the author shows.
\<close>

section \<open>The remaining local edits\<close>

lemma more_room:
  assumes "doc_good d" "room d (Suc k)"
  shows "doc_good (d\<lparr>d_maxOp := d_maxOp d + 1\<rparr>)" and "room (d\<lparr>d_maxOp := d_maxOp d + 1\<rparr>) k"
proof -
  have n: "unat (d_maxOp d + 1) = unat (d_maxOp d) + 1"
    using assms(2) by (intro counter_next) (simp add: room_def)
  then have "d_maxOp d \<le> d_maxOp d + 1" by (simp add: word_le_nat_alt)
  then show "doc_good (d\<lparr>d_maxOp := d_maxOp d + 1\<rparr>)"
    using assms(1) a_clock_mono by (auto simp: doc_good_def)
  show "room (d\<lparr>d_maxOp := d_maxOp d + 1\<rparr>) k" using assms(2) n by (simp add: room_def)
qed

lemma make_object_ok:
  assumes good: "doc_good d" and t: "fmlookup (d_objects d) obj = Some t" "obj_kind t = KMap"
    and room: "room d 2" and mk: "mk = mapValue \<or> mk = listValue \<or> mk = textValue"
    and child: "child = fst (newObjectID d)" "fmlookup (d_objects d) child = None"
  shows "\<exists>d' t' c. make_object mk d obj prop = (Inr child, d') \<and> journaled d d' \<and>
    fmlookup (d_objects d') obj = Some t' \<and> obj_kind t' = KMap \<and>
    map_option me_value (fmlookup (obj_map t') prop) = Some (mk child) \<and>
    fmlookup (d_objects d') child = Some c \<and> obj_kind c = v_kind (mk child) \<and>
    seq_elems (obj_seq c) = [] \<and> obj_map c = fmempty"
proof -
  let ?d = "d\<lparr>d_maxOp := d_maxOp d + 1\<rparr>"
  let ?op = "local_op ?d ''put'' obj prop (mk child) []"
  have d1: "doc_good ?d" "room ?d 1" using more_room [OF good, of 1] room by (simp_all add: numeral_2_eq_2)
  have t': "fmlookup (d_objects ?d) obj = Some t" using t by simp
  have pre: "a_pre (doc_view ?d) ?op" by (rule map_pre [OF d1(1) t' t(2)]) simp
  obtain d' where d': "localApply (?d\<lparr>d_maxOp := d_maxOp ?d + 1\<rparr>) ?op child = (Inr child, d')" "doc_good d'"
    "doc_view d' = a_step (doc_view ?d) ?op" "d_pending d' = d_pending d @ [?op]" "d_actor d' = d_actor d"
    using local_edit [OF d1 _ pre, of child] by auto
  have j: "journaled d d'" using d' pre by (intro journaledI [of _ _ ?op]) simp_all
  obtain u where u: "fmlookup (d_objects d') obj = Some u"
    "abs_obj u = (abs_obj t)\<lparr>a_map := fmupd prop (entry_of ?op) (obj_map t)\<rparr>"
    using view_obj [of d' obj] local_map_step [OF d1(1) t' t(2) d1(2)] d'(3) by metis
  have "child \<noteq> obj" using child t by auto
  moreover have mk': "isObject (mk child)" "v_obj (mk child) = child"
    using mk by (auto simp: isObject_def value_defs)
  moreover have "fmlookup (doc_view ?d) obj = Some (abs_obj t)" "fmlookup (doc_view ?d) child = None"
    using t child by (simp_all add: doc_view_lookup)
  ultimately have "fmlookup (doc_view d') child = Some (a_new (v_kind (mk child)))"
    unfolding d'(3) by (subst a_step_lookup) simp_all
  then obtain c where c: "fmlookup (d_objects d') child = Some c" "abs_obj c = a_new (v_kind (mk child))"
    using view_obj by blast
  have "obj_kind c = v_kind (mk child)" "obj_map c = fmempty" "seq_elems (obj_seq c) = []"
    using arg_cong [OF c(2), of a_kind] arg_cong [OF c(2), of a_map] arg_cong [OF c(2), of a_elems]
    by (simp_all add: a_new_def)
  moreover have "obj_kind u = KMap" "obj_map u = fmupd prop (entry_of ?op) (obj_map t)"
    using arg_cong [OF u(2), of a_kind] arg_cong [OF u(2), of a_map] t(2) by simp_all
  moreover have "make_object mk d obj prop = (Inr child, d')"
    using d'(1) child(1) by (simp add: make_object_def newObjectID_def newLocalOp_eq Let_def)
  ultimately show ?thesis using j u(1) c(1) by (auto simp: entry_of_def)
qed

lemma setElementVisibility_ok:
  assumes good: "doc_good d" and t: "fmlookup (d_objects d) lst = Some t" "listLike (obj_kind t)"
    and room: "room d 1" and x: "x \<in> ids_of (seq_elems (obj_seq t))"
  shows "\<exists>d' t'. setElementVisibility d lst x del = (Inr (), d') \<and> journaled d d' \<and>
    fmlookup (d_objects d') lst = Some t' \<and> obj_kind t' = obj_kind t \<and> d_maxOp d' = d_maxOp d + 1 \<and>
    seq_elems (obj_seq t') = List.map (\<lambda>e. if e_id e = x
      then e\<lparr>e_deleted := del, e_vis := OpID (d_maxOp d + 1) (actor_String (d_actor d))\<rparr> else e)
      (seq_elems (obj_seq t))"
proof -
  let ?es = "seq_elems (obj_seq t)" and ?a = "if del then ''delete'' else ''revive''"
  let ?op = "local_op d ?a lst (opid_String x) nullValue []"
  have inv: "seq_inv (obj_seq t)" and clock: "\<forall>e \<in> set ?es. elem_clock (d_maxOp d) e"
    using doc_good_obj [OF good t(1)] by blast+
  have parse: "parseOpIDRef (opid_String x) = Inr (Some x)"
    using x clock by (intro parseOpIDRef_String) (auto simp: ids_of_def elem_clock_def)
  have ed: "edits_of ?op = [Flip x del (o_id ?op)]" using parse by (simp add: edits_of_def)
  have act: "?a \<noteq> ''splice''" by simp
  have pre: "a_pre (doc_view d) ?op"
    using t actor_nonempty [OF good] ed x listLike_not_map [OF t(2)] parse
    by (simp add: a_pre_def doc_view_lookup obj_pre_def list_op_ok_def)
  obtain d' where d': "localApply (d\<lparr>d_maxOp := d_maxOp d + 1\<rparr>) ?op () = (Inr (), d')" "doc_good d'"
    "doc_view d' = a_step (doc_view d) ?op" "d_pending d' = d_pending d @ [?op]" "d_actor d' = d_actor d"
    "d_maxOp d' = d_maxOp d + 1"
    using local_edit [OF good room act pre, of "()"] by blast
  have j: "journaled d d'" by (rule journaledI [OF d'(2,5,4) pre d'(3)])
  let ?es' = "set_visible x del (o_id ?op) ?es"
  have "fmlookup (doc_view d') lst = Some ((abs_obj t)\<lparr>a_elems := ?es'\<rparr>)"
    unfolding d'(3) using t listLike_not_map [OF t(2)]
    by (subst a_step_lookup [of _ _ "abs_obj t"]) (simp_all add: doc_view_lookup a_obj_step_def ed)
  then obtain t' where t': "fmlookup (d_objects d') lst = Some t'" "seq_elems (obj_seq t') = ?es'"
    "obj_kind t' = obj_kind t"
    using view_elems by fastforce
  have "stamps_below (o_id ?op) ?es" using room by (intro stamps_fresh [OF clock]) (simp_all add: room_def)
  then have "?es' = List.map (\<lambda>e. if e_id e = x
      then e\<lparr>e_deleted := del, e_vis := OpID (d_maxOp d + 1) (actor_String (d_actor d))\<rparr> else e) ?es"
    by (auto simp: set_visible_def flip_elem_def stamps_below_def)
  moreover have "setElementVisibility d lst x del = (Inr (), d')"
    using t d'(1) x inv
    by (simp add: setElementVisibility_def objectLocked_def seq_contains_ids newLocalOp_eq)
  ultimately show ?thesis using j t' d'(6) by auto
qed

section \<open>Sequences of local edits\<close>

text \<open>
  One local edit by the owner of the document. The guards are the conditions under which a
  call succeeds: the object exists with the right kind, positions are in range, and the
  operation counter has room.
\<close>

inductive local_step :: "gdoc \<Rightarrow> gdoc \<Rightarrow> bool" where
  put: "\<lbrakk>fmlookup (d_objects d) obj = Some t; obj_kind t = KMap; room d 1;
     Put d obj prop v = (r, d')\<rbrakk> \<Longrightarrow> local_step d d'"
| del: "\<lbrakk>fmlookup (d_objects d) obj = Some t; obj_kind t = KMap; room d 1;
     Delete d obj prop = (r, d')\<rbrakk> \<Longrightarrow> local_step d d'"
| make: "\<lbrakk>fmlookup (d_objects d) obj = Some t; obj_kind t = KMap; room d 2;
     mk = mapValue \<or> mk = listValue \<or> mk = textValue;
     fmlookup (d_objects d) (fst (newObjectID d)) = None;
     make_object mk d obj prop = (r2, d')\<rbrakk> \<Longrightarrow> local_step d d'"
| ins: "\<lbrakk>fmlookup (d_objects d) lst = Some t; listLike (obj_kind t); room d 1;
     i \<le> length (shown_of t); length (shown_of t) < 2 ^ 63;
     InsertAt d lst (word_of_nat i) v = (r, d')\<rbrakk> \<Longrightarrow> local_step d d'"
| del_at: "\<lbrakk>fmlookup (d_objects d) lst = Some t; listLike (obj_kind t); room d 1;
     i < length (shown_of t); length (shown_of t) < 2 ^ 63;
     DeleteAt d lst (word_of_nat i) = (r, d')\<rbrakk> \<Longrightarrow> local_step d d'"
| vis: "\<lbrakk>fmlookup (d_objects d) lst = Some t; listLike (obj_kind t); room d 1;
     x \<in> ids_of (seq_elems (obj_seq t)); setElementVisibility d lst x b = (r, d')\<rbrakk> \<Longrightarrow> local_step d d'"
| splice: "\<lbrakk>fmlookup (d_objects d) txt = Some t; obj_kind t = KText; room d (run_width str);
     i + n \<le> length (shown_of t); length (shown_of t) < 2 ^ 63;
     SpliceText d txt (word_of_nat i) (word_of_nat n) str = (r3, d')\<rbrakk> \<Longrightarrow> local_step d d'"

inductive_cases local_stepE: "local_step d d'"

lemma local_step_journaled:
  assumes "local_step d d'" "doc_good d"
  shows "journaled d d'"
  using assms
proof (induction rule: local_step.induct)
  case (put d obj t p v r d')
  then show ?case using Put_ok [of d obj t p v] by auto
next
  case (del d obj t p r d')
  then show ?case using Delete_ok [of d obj t p] by auto
next
  case (make d obj t mk p r2 d')
  then show ?case using make_object_ok [of d obj t mk _ p] by force
next
  case (ins d lst t i v r d')
  then show ?case using InsertAt_ok [of d lst t i v] by auto
next
  case (del_at d lst t i r d')
  then show ?case using DeleteAt_ok [of d lst t i] by auto
next
  case (vis d lst t x b r d')
  then show ?case using setElementVisibility_ok [of d lst t x b] by auto
next
  case (splice d tx t str i n r3 d')
  then show ?case using SpliceText_ok [of d tx t i n str] by fastforce
qed

text \<open>The journal replays: the view is what the pending operations make of the base view.\<close>

definition replays :: "adoc \<Rightarrow> gdoc \<Rightarrow> bool" where
  "replays base d \<longleftrightarrow> doc_good d \<and> steps_valid a_step a_pre base (d_pending d) \<and>
     doc_view d = foldl a_step base (d_pending d)"

lemma journaled_replays: "replays base d \<Longrightarrow> journaled d d' \<Longrightarrow> replays base d'"
  by (auto simp: replays_def journaled_def)

lemma local_steps_replay:
  assumes "local_step\<^sup>*\<^sup>* d d'" "replays base d"
  shows "replays base d'"
  using assms
proof (induction rule: rtranclp_induct)
  case (step y z)
  then have "doc_good y" by (simp add: replays_def)
  then show ?case using step local_step_journaled journaled_replays by blast
qed simp

section \<open>Commit\<close>

lemma commitPending_ok:
  assumes "d_pending d \<noteq> []" "commitPending marshal now d msg grp = (Inr (hs, ps, hash), d')"
  shows "\<exists>c. d_changes d' = d_changes d @ [c] \<and> c_ops c = d_pending d \<and> c_deps c = d_deps d \<and>
    c_hash c = hash \<and> d_deps d' = [hash] \<and> d_pending d' = [] \<and> d_objects d' = d_objects d \<and>
    d_index d' = (d_index d)(hash_String hash \<mapsto> c) \<and> hs = d_hooks d \<and> ps = d_patches d \<and> length hash = 32 \<and>
    d_maxOp d' = d_maxOp d \<and> d_actor d' = d_actor d"
  using assms by (auto simp: commitPending_def encodeChangeChunk_def Let_def split: option.splits)

text \<open>Committing after edits: what the change carries replays the edits on the base.\<close>

lemma commit_replays:
  assumes "replays base d" "d_pending d \<noteq> []"
    and "commitPending marshal now d msg grp = (Inr (hs, ps, hash), d')"
  shows "\<exists>c. d_changes d' = d_changes d @ [c] \<and> c_hash c = hash \<and> c_deps c = d_deps d \<and>
    change_pre base c \<and> change_step base c = doc_view d' \<and> replays (doc_view d') d'"
proof -
  obtain c where c: "d_changes d' = d_changes d @ [c]" "c_ops c = d_pending d" "c_deps c = d_deps d"
    "c_hash c = hash" "d_pending d' = []" "d_objects d' = d_objects d" "d_maxOp d' = d_maxOp d"
    "d_actor d' = d_actor d"
    using commitPending_ok [OF assms(2,3)] by blast
  have v: "doc_view d' = doc_view d" "doc_ok d' = doc_ok d" using c(6) by (simp_all add: doc_view_def doc_ok_def)
  have "doc_good d" "steps_valid a_step a_pre base (c_ops c)" "doc_view d = foldl a_step base (c_ops c)"
    using assms(1) c(2) by (simp_all add: replays_def)
  moreover from this(1) have "doc_good d'" using c(7,8) by (simp add: doc_good_def v)
  ultimately show ?thesis
    using c v by (intro exI [of _ c]) (simp add: replays_def change_pre_def change_step_def)
qed

end
