(* ===== verification/Doc_Properties.thy ===== *)
theory Doc_Properties
  imports Doc_History
begin

text \<open>
  The properties of the document: what an edit does to what a reader sees, that a committed
  change reproduces the author's document at every replica, and that no operation, whoever
  sent it, breaks the element index.
\<close>

section \<open>Remote changes keep the clock ahead\<close>

definition no_wrap :: "gop \<Rightarrow> bool" where
  "no_wrap op \<longleftrightarrow> unat (op_counter (o_id op)) + length (runes (o_run op)) < 2 ^ 64"

lemma max_counter_bounds:
  assumes "no_wrap op"
  shows "op_counter (o_id op) \<le> max_counter op"
    and "o_action op = ''splice'' \<Longrightarrow> j < length (runes (o_run op)) \<Longrightarrow> op_counter (run_id (o_id op) j) \<le> max_counter op"
proof -
  let ?n = "length (runes (o_run op))" and ?c = "op_counter (o_id op)"
  have n: "unat (word_of_nat ?n :: uint64) = ?n" using assms by (intro unat_word_of_size) (simp add: no_wrap_def)
  have m: "unat (max_counter op) = unat ?c + (?n - 1)" if "o_action op = ''splice''"
  proof (cases "?n > 1")
    case True
    then have "(1::uint64) < word_of_nat ?n" by (simp add: word_less_nat_alt n)
    moreover have "(word_of_nat ?n - 1 :: uint64) = word_of_nat (?n - 1)"
      using True by (simp add: of_nat_diff)
    ultimately have "max_counter op = ?c + word_of_nat (?n - 1)"
      using that by (simp add: max_counter_def Let_def)
    moreover have "unat ?c + (?n - 1) < 2 ^ 64" using assms True by (simp add: no_wrap_def)
    ultimately show ?thesis using counter_add by simp
  next
    case False
    then have "\<not> (1::uint64) < word_of_nat ?n" by (simp add: word_less_nat_alt n)
    then show ?thesis using False that by (simp add: max_counter_def Let_def)
  qed
  show "op_counter (o_id op) \<le> max_counter op"
    using m by (cases "o_action op = ''splice''") (simp_all add: word_le_nat_alt max_counter_def)
  assume "o_action op = ''splice''" "j < ?n"
  then show "op_counter (run_id (o_id op) j) \<le> max_counter op"
    using m run_id_counter [of "o_id op" j] assms by (simp add: word_le_nat_alt no_wrap_def)
qed

lemma op_edits_clock:
  assumes "no_wrap op" "op_actor (o_id op) \<noteq> []"
  shows "\<forall>x \<in> set (edits_of op). edit_clock (max_counter op) x"
proof (cases "o_action op = ''splice''")
  case True
  then show ?thesis
    using max_counter_bounds [OF assms(1)] assms(2) run_edits_clock [of "o_id op" 0 "runes (o_run op)" "max_counter op"]
    by (auto simp: edits_of_def split: sum.splits)
next
  case False
  then have "max_counter op = op_counter (o_id op)" by (simp add: max_counter_def)
  then show ?thesis using single_edit_clock [OF assms(2) False] by simp
qed

lemma apply_ops_good:
  assumes "doc_good d" "steps_valid a_step a_pre (doc_view d) ops" "\<forall>op \<in> set ops. no_wrap op"
  shows "\<exists>ps d'. apply_ops d ops acc = (Inr ps, d') \<and> doc_good d' \<and> doc_view d' = foldl a_step (doc_view d) ops"
  using assms
proof (induction ops arbitrary: d acc)
  case (Cons op ops)
  have pre: "a_pre (doc_view d) op" "op_actor (o_id op) \<noteq> []" using Cons.prems(2) by (simp_all add: a_pre_def)
  obtain p d' where a: "applyOp d op = (Inr p, d')" "doc_ok d'" "doc_view d' = a_step (doc_view d) op"
    using applyOp_refines [of d op] Cons.prems(1) pre(1) by (auto simp: doc_good_def)
  have fr: "d_maxOp d' = d_maxOp d" "d_actor d' = d_actor d" using applyOp_frame [OF a(1)] by simp_all
  let ?d = "if max_counter op > d_maxOp d' then d'\<lparr>d_maxOp := max_counter op\<rparr> else d'"
  let ?m = "max (d_maxOp d) (max_counter op)"
  have "a_clock ?m (a_step (doc_view d) op)"
  proof (rule a_step_clock)
    show "a_clock (d_maxOp d) (doc_view d)" using Cons.prems(1) by (simp add: doc_good_def)
    show "op_counter (o_id op) \<le> ?m"
      using max_counter_bounds(1) [of op] Cons.prems(3) by (simp add: max.coboundedI2)
    have "edit_clock ?m x" if "edit_clock (max_counter op) x" for x
      using that by (cases x) (auto simp: elem_clock_def intro: order_trans max.cobounded2 max.coboundedI2)
    then show "\<forall>x \<in> set (edits_of op). edit_clock ?m x"
      using op_edits_clock [OF _ pre(2)] Cons.prems(3) by simp
  qed simp
  moreover have m: "d_maxOp ?d = ?m" using fr by (auto simp: max_def)
  moreover have v: "doc_view ?d = a_step (doc_view d) op" and "doc_ok ?d" "d_actor ?d = d_actor d"
    using a fr by simp_all
  ultimately have "doc_good ?d"
    using Cons.prems(1) unfolding doc_good_def m v by simp
  then show ?case using Cons.IH [of ?d "acc @ [p]"] Cons.prems(2,3) a(1) v by simp
qed simp


section \<open>What a reader sees\<close>

definition texts_of :: "listElem list \<Rightarrow> string" where
  "texts_of es = concat (List.map (\<lambda>e. v_str (e_value e)) es)"

lemma texts_of_append: "texts_of (xs @ ys) = texts_of xs @ texts_of ys"
  by (simp add: texts_of_def)

lemma shown_TextToString:
  assumes "doc_good d" "fmlookup (d_objects d) obj = Some t" "listLike (obj_kind t)"
  shows "TextToString d obj = Inr (texts_of (shown_of t))"
  using assms doc_good_obj [OF assms(1,2)]
  by (simp add: TextToString_def objectLocked_def visibleText_eq seq_inv_def shown_of_def texts_of_def)

lemma texts_of_run:
  assumes "List.map e_value new = List.map (\<lambda>r. stringValue (encodeRune r)) (runes str)" "utf8_valid str"
  shows "texts_of new = str"
proof -
  have "List.map (\<lambda>e. v_str (e_value e)) new = List.map v_str (List.map e_value new)" by simp
  also have "\<dots> = List.map encodeRune (runes str)" unfolding assms(1) by simp
  finally show ?thesis using concat_encode_runes [OF assms(2)] by (simp add: texts_of_def)
qed

lemma journaled_good: "journaled d d' \<Longrightarrow> doc_good d'"
  by (simp add: journaled_def)

text \<open>The values a list shows.\<close>

definition visible_values :: "gdoc \<Rightarrow> string \<Rightarrow> gvalue list" where
  "visible_values d obj =
     (case fmlookup (d_objects d) obj of
        None \<Rightarrow> [] | Some t \<Rightarrow> List.map e_value (shown (seq_elems (obj_seq t))))"

lemma visible_values_shown:
  "fmlookup (d_objects d) obj = Some t \<Longrightarrow> visible_values d obj = List.map e_value (shown_of t)"
  by (simp add: visible_values_def shown_of_def)

section \<open>Properties of local edits\<close>

text \<open>Writing a key of a map and reading it back: \<open>Put\<close> succeeds, a lookup of the key
  yields the value with its object, and every other key reads as before.\<close>
theorem put_then_lookup:
  assumes "doc_good d" "fmlookup (d_objects d) obj = Some t" "obj_kind t = KMap" "room d 1"
  shows "\<exists>d'. Put d obj key v = (Inr (), d') \<and> LookupKey d' obj key = Some (v, v_obj v) \<and>
    (\<forall>k. k \<noteq> key \<longrightarrow> LookupKey d' obj k = LookupKey d obj k)"
  using Put_ok [OF assms, of key v] assms(2,3) by (auto simp: LookupKey_def mapEntryValue_def)

text \<open>Deleting a key of a map: \<open>Delete\<close> succeeds, \<open>Get\<close> reports the property missing,
  and every other key reads as before.\<close>
theorem delete_then_get:
  assumes "doc_good d" "fmlookup (d_objects d) obj = Some t" "obj_kind t = KMap" "room d 1"
  shows "\<exists>d'. Delete d obj key = (Inr (), d') \<and> Get d' obj key = (Inl (Prop_not_found key obj), d') \<and>
    (\<forall>k. k \<noteq> key \<longrightarrow> LookupKey d' obj k = LookupKey d obj k)"
  using Delete_ok [OF assms, of key] assms(2,3)
  by (auto simp: LookupKey_def mapEntryValue_def Get_def objectLocked_def)

text \<open>C6. Splicing a text: replacing \<open>n\<close> characters from position \<open>i\<close> by a well-formed
  string succeeds, and the text read back is the text with exactly that replacement.\<close>
theorem splice_edits_text:
  assumes "doc_good d" "fmlookup (d_objects d) txt = Some t" "obj_kind t = KText"
    and "i + n \<le> length (visible_values d txt)" "length (visible_values d txt) < 2 ^ 63"
    and "room d (run_width ins)" "utf8_valid ins"
  shows "\<exists>r d'. SpliceText d txt (word_of_nat i) (word_of_nat n) ins = (Inr r, d') \<and>
    TextToString d' txt = Inr (concat (List.map v_str (take i (visible_values d txt))) @ ins @
      concat (List.map v_str (drop (i + n) (visible_values d txt))))"
proof -
  have "i + n \<le> length (shown_of t)" "length (shown_of t) < 2 ^ 63"
    using assms(4,5) visible_values_shown [OF assms(2)] by simp_all
  from SpliceText_ok [OF assms(1-3) this assms(6)] obtain d' t' new del where
    d': "SpliceText d txt (word_of_nat i) (word_of_nat n) ins = (Inr (List.map e_id new, del), d')"
    "journaled d d'" "fmlookup (d_objects d') txt = Some t'" "obj_kind t' = KText"
    "List.map e_value new = List.map (\<lambda>r. stringValue (encodeRune r)) (runes ins)"
    "shown_of t' = take i (shown_of t) @ new @ drop (i + n) (shown_of t)"
    by blast
  have "TextToString d' txt = Inr (texts_of (shown_of t'))"
    using d' journaled_good by (intro shown_TextToString) (simp_all add: listLike_def)
  then show ?thesis
    using d'(1) texts_of_run [OF d'(5) assms(7)]
    by (simp add: d'(6) texts_of_append visible_values_shown [OF assms(2)] take_map drop_map)
      (simp add: texts_of_def comp_def)
qed

text \<open>Inserting into a list or a text and deleting again by position: \<open>InsertAt\<close> puts the
  value at the position and shifts the rest, and \<open>DeleteAt\<close> at that position restores the
  values shown before.\<close>
theorem insert_then_delete:
  assumes "doc_good d" "fmlookup (d_objects d) lst = Some t" "listLike (obj_kind t)" "room d 2"
    and "i \<le> length (visible_values d lst)" "length (visible_values d lst) + 1 < 2 ^ 63"
  shows "\<exists>d' d''. InsertAt d lst (word_of_nat i) v = (Inr (), d') \<and>
    visible_values d' lst = take i (visible_values d lst) @ v # drop i (visible_values d lst) \<and>
    DeleteAt d' lst (word_of_nat i) = (Inr (), d'') \<and> visible_values d'' lst = visible_values d lst"
proof -
  note vis = visible_values_shown [OF assms(2)]
  have "room d 1" "i \<le> length (shown_of t)" "length (shown_of t) < 2 ^ 63"
    using assms(4-6) by (simp_all add: room_def vis)
  from InsertAt_ok [OF assms(1-3) this, of v] obtain d' t' e where
    d': "InsertAt d lst (word_of_nat i) v = (Inr (), d')" "journaled d d'"
      "fmlookup (d_objects d') lst = Some t'" "e_value e = v" "obj_kind t' = obj_kind t"
      "d_maxOp d' = d_maxOp d + 1" "shown_of t' = take i (shown_of t) @ e # drop i (shown_of t)"
    by blast
  have i: "i \<le> length (shown_of t)" using assms(5) by (simp add: vis)
  have "room d' 1"
    using assms(4) d'(6) counter_next [of "d_maxOp d"] by (simp add: room_def)
  moreover have "i < length (shown_of t')" "length (shown_of t') < 2 ^ 63"
    using i assms(6) by (simp_all add: d'(7) vis)
  moreover have "listLike (obj_kind t')" using d'(5) assms(3) by simp
  ultimately obtain d'' t'' where
    "DeleteAt d' lst (word_of_nat i) = (Inr (), d'')" "fmlookup (d_objects d'') lst = Some t''"
    "shown_of t'' = take i (shown_of t') @ drop (Suc i) (shown_of t')"
    using DeleteAt_ok [OF journaled_good [OF d'(2)] d'(3)] by blast
  moreover from this(3) have "shown_of t'' = shown_of t" using i by (simp add: d'(7))
  ultimately show ?thesis
    using d'(1,4,7) visible_values_shown [OF d'(3)] by (auto simp: vis take_map drop_map visible_values_shown)
qed

lemma shown_hidden:
  "shown (List.map (\<lambda>e. if e_id e = x then e\<lparr>e_deleted := True, e_vis := v\<rparr> else e) es) =
   filter (\<lambda>e. e_id e \<noteq> x) (shown es)"
  by (induction es) (auto simp: shown_def)

lemma shown_revived:
  "\<forall>e \<in> set es. e_id e = x \<longrightarrow> \<not> e_deleted e \<Longrightarrow>
   List.map e_value (shown (List.map (\<lambda>e. if e_id e = x then e\<lparr>e_deleted := False, e_vis := w\<rparr> else e)
     (List.map (\<lambda>e. if e_id e = x then e\<lparr>e_deleted := True, e_vis := v\<rparr> else e) es))) =
   List.map e_value (shown es)"
  by (induction es) (auto simp: shown_def)

text \<open>C10. Deleting an element by identity and reviving it: the tombstone hides the element
  and the revival, whose stamp is newer, brings it back at its old place, so the values shown
  are those before the deletion.\<close>
theorem delete_then_revive:
  assumes "doc_good d" "fmlookup (d_objects d) lst = Some t" "listLike (obj_kind t)" "room d 2"
    and "x \<in> e_id ` set (shown (seq_elems (obj_seq t)))"
  shows "\<exists>d' d''. DeleteByElemID d lst x = (Inr (), d') \<and>
    visible_values d' lst =
      List.map e_value (filter (\<lambda>e. e_id e \<noteq> x) (shown (seq_elems (obj_seq t)))) \<and>
    ReviveElem d' lst x = (Inr (), d'') \<and> visible_values d'' lst = visible_values d lst"
proof -
  let ?es = "seq_elems (obj_seq t)"
  have x: "x \<in> ids_of ?es" using assms(5) by (auto simp: ids_of_def shown_def)
  have dist: "distinct (List.map e_id ?es)"
    using doc_good_obj [OF assms(1,2)] block_index.elems_distinct by blast
  have live: "e \<in> set ?es \<Longrightarrow> e_id e = x \<Longrightarrow> \<not> e_deleted e" for e
    using assms(5) dist by (auto simp: shown_def distinct_map dest: inj_onD)
  obtain d' t' where d': "DeleteByElemID d lst x = (Inr (), d')" "journaled d d'"
    "fmlookup (d_objects d') lst = Some t'" "obj_kind t' = obj_kind t" "d_maxOp d' = d_maxOp d + 1"
    "seq_elems (obj_seq t') = List.map (\<lambda>e. if e_id e = x
      then e\<lparr>e_deleted := True, e_vis := OpID (d_maxOp d + 1) (actor_String (d_actor d))\<rparr> else e) ?es"
    using setElementVisibility_ok [OF assms(1-3) _ x, of True] assms(4)
    by (auto simp: room_def DeleteByElemID_def)
  have "room d' 1" using assms(4) d'(5) counter_next [of "d_maxOp d"] by (simp add: room_def)
  moreover have "List.map e_id (seq_elems (obj_seq t')) = List.map e_id ?es" by (simp add: d'(6))
  then have "x \<in> ids_of (seq_elems (obj_seq t'))" using x by (metis ids_of_def list.set_map)
  moreover have "listLike (obj_kind t')" using d'(4) assms(3) by simp
  ultimately obtain d'' t'' where d'': "ReviveElem d' lst x = (Inr (), d'')"
    "fmlookup (d_objects d'') lst = Some t''"
    "seq_elems (obj_seq t'') = List.map (\<lambda>e. if e_id e = x
      then e\<lparr>e_deleted := False, e_vis := OpID (d_maxOp d' + 1) (actor_String (d_actor d'))\<rparr> else e)
      (seq_elems (obj_seq t'))"
    using setElementVisibility_ok [OF journaled_good [OF d'(2)] d'(3), of x False]
    by (auto simp: ReviveElem_def)
  have "shown (seq_elems (obj_seq t')) = filter (\<lambda>e. e_id e \<noteq> x) (shown ?es)"
    unfolding d'(6) by (rule shown_hidden)
  moreover have "List.map e_value (shown (seq_elems (obj_seq t''))) = List.map e_value (shown ?es)"
    unfolding d''(3) d'(6) using live by (intro shown_revived) blast
  ultimately show ?thesis
    using d'(1,3) d''(1,2) assms(2) by (simp add: visible_values_def)
qed

section \<open>Properties of histories\<close>

text \<open>C13. Every operation leaves every element index well formed, also an operation with a
  malformed reference, an unknown action or the wrong kind of object, and also when it fails.\<close>
theorem any_operation_keeps_indexes:
  assumes "doc_ok d"
  shows "doc_ok (snd (applyOp d op))"
  by (rule applyOp_ok [OF assms])


lemma applyRemote_ok:
  assumes "doc_ok d" "change_pre (doc_view d) c" "c_hash c = zeroHash \<longrightarrow> encodeChangeChunk marshal c \<noteq> None"
  shows "\<exists>ps d'. applyRemoteChange marshal d c = (Inr ps, d') \<and> doc_ok d' \<and>
    doc_view d' = change_step (doc_view d) c"
  using apply_ops_refines [OF assms(1), of "c_ops c" "[]"] assms(2,3)
  by (auto simp: applyRemoteChange_def change_pre_def change_step_def)

lemma commitPending_encodes:
  assumes "d_pending d \<noteq> []" "commitPending marshal now d msg grp = (Inr (hs, ps, hash), d')"
    and "d_changes d' = d_changes d @ [c]" "c_hash c = zeroHash"
  shows "encodeChangeChunk marshal c \<noteq> None"
  using assms by (auto simp: commitPending_def Let_def split: option.splits)


text \<open>Receiving a change whose operations are applicable leaves the document ready for
  local edits: the operation counter is again ahead of every identity, including those of the
  characters of a spliced run.\<close>
theorem remote_change_keeps_clock:
  assumes "doc_good d" "change_pre (doc_view d) c" "\<forall>op \<in> set (c_ops c). no_wrap op"
    and "c_hash c \<noteq> zeroHash"
  shows "\<exists>ps d'. applyRemoteChange marshal d c = (Inr ps, d') \<and> doc_good d' \<and>
    doc_view d' = change_step (doc_view d) c"
proof -
  obtain ps d' where d': "apply_ops d (c_ops c) [] = (Inr ps, d')" "doc_good d'"
    "doc_view d' = change_step (doc_view d) c"
    using apply_ops_good [OF assms(1), of "c_ops c" "[]"] assms(2,3)
    by (auto simp: change_pre_def change_step_def)
  moreover have "doc_good (record_change d' c)" "doc_view (record_change d' c) = doc_view d'"
    using d'(2) by (simp_all add: record_change_def Let_def doc_good_def doc_ok_def doc_view_def)
  ultimately show ?thesis using assms(4) by (simp add: applyRemoteChange_def)
qed

section \<open>Merge\<close>

lemma apply_ops_index: "apply_ops d ops acc = (r, d') \<Longrightarrow> d_index d' = d_index d \<and> d_changes d' = d_changes d \<and> d_deps d' = d_deps d"
proof (induction ops arbitrary: d acc)
  case (Cons op ops)
  have "d_index (snd (applyOp d op)) = d_index d \<and> d_changes (snd (applyOp d op)) = d_changes d \<and>
      d_deps (snd (applyOp d op)) = d_deps d"
    by (auto simp: applyOp_def ensureObjectForValue_def put_object_def Let_def case_prod_beta
        split: sum.splits option.splits)
  then show ?case using Cons by (auto split: prod.splits sum.splits if_splits dest!: Cons.IH)
qed simp

lemma applyRemoteChange_index:
  assumes "applyRemoteChange marshal d c = (r, d')"
  shows "d_index d x \<noteq> None \<Longrightarrow> d_index d' x \<noteq> None"
    and "r = Inr ps \<Longrightarrow> c_hash c \<noteq> zeroHash \<Longrightarrow> d_index d' (hash_String (c_hash c)) \<noteq> None"
  using assms
  by (auto simp: applyRemoteChange_def record_change_def Let_def dest!: apply_ops_index
      split: option.splits prod.splits sum.splits if_splits)

lemma merge_changes_index:
  assumes "merge_changes marshal d cs acc = (Inr ps, d')" "\<forall>c \<in> set cs. c_hash c \<noteq> zeroHash"
  shows "(\<forall>x. d_index d x \<noteq> None \<longrightarrow> d_index d' x \<noteq> None) \<and>
    (\<forall>c \<in> set cs. d_index d' (hash_String (c_hash c)) \<noteq> None)"
  using assms
proof (induction cs arbitrary: d acc)
  case (Cons c cs)
  show ?case
  proof (cases "d_index d (hash_String (c_hash c)) = None")
    case False
    then show ?thesis using Cons by simp
  next
    case True
    obtain qs d1 where "applyRemoteChange marshal d c = (Inr qs, d1)"
      "merge_changes marshal d1 cs (acc @ qs) = (Inr ps, d')"
      using Cons.prems(1) True by (auto split: prod.splits sum.splits)
    then show ?thesis
      using Cons.IH [of d1 "acc @ qs"] Cons.prems(2) applyRemoteChange_index by (metis list.set_intros set_ConsD)
  qed
qed simp

lemma merge_changes_known:
  "\<forall>c \<in> set cs. d_index d (hash_String (c_hash c)) \<noteq> None \<Longrightarrow> merge_changes marshal d cs acc = (Inr acc, d)"
  by (induction cs) auto

lemma merge_order_set [simp]: "set (merge_order cs) = set cs"
  by (simp add: merge_order_def)

text \<open>C11. After a successful merge the receiver knows every change of the other document and
  every change it knew before, and merging the same document again changes nothing and fires
  no hook.\<close>
theorem merge_complete_idempotent:
  assumes "Merge marshal d other = (Inr fired, d')" "\<forall>c \<in> set (d_changes other). c_hash c \<noteq> zeroHash"
  shows "(\<forall>c \<in> set (d_changes other). d_index d' (hash_String (c_hash c)) \<noteq> None) \<and>
    (\<forall>x. d_index d x \<noteq> None \<longrightarrow> d_index d' x \<noteq> None) \<and> Merge marshal d' other = (Inr [], d')"
proof -
  obtain ps where "merge_changes marshal d (merge_order (d_changes other)) [] = (Inr ps, d')"
    using assms(1) by (auto simp: Merge_def split: prod.splits sum.splits)
  from merge_changes_index [OF this] assms(2) have
    idx: "\<forall>x. d_index d x \<noteq> None \<longrightarrow> d_index d' x \<noteq> None"
      "\<forall>c \<in> set (d_changes other). d_index d' (hash_String (c_hash c)) \<noteq> None"
    by simp_all
  then have "Merge marshal d' other = (Inr [], d')"
    using merge_changes_known [of "merge_order (d_changes other)" d' marshal "[]"]
    by (simp add: Merge_def fireHooks_def)
  with idx show ?thesis by blast
qed

section \<open>Concrete runs\<close>

definition demoElem :: listElem where
  "demoElem = \<lparr>e_id = OpID 1 ''x'', e_after = [], e_value = stringValue ''a'', e_deleted = False,
     e_vis = OpID 1 ''x''\<rparr>"

definition demoText :: crdtObject where
  "demoText = (newListObject KText)\<lparr>obj_seq := insertAfter newSeq None demoElem\<rparr>"

definition demoDoc :: gdoc where
  "demoDoc = (put_object (newDocWithActor (replicate 16 0)) ''t'' demoText)\<lparr>d_maxOp := 1\<rparr>"

lemma demo_text: "seq_inv (obj_seq demoText)" "seq_elems (obj_seq demoText) = [demoElem]"
    "obj_kind demoText = KText" "obj_map demoText = fmempty"
  using block_index.ins_ok [OF newSeq_ok(1), of demoElem None] block_index.ins_elems [OF newSeq_ok(1), of demoElem None]
  by (simp_all add: demoText_def newListObject_def newSeq_ok ids_of_def ref_in_def)

lemma demo_objects [simp]:
  "fmlookup (d_objects demoDoc) ''t'' = Some demoText"
  "fmlookup (d_objects demoDoc) rootID = Some newMapObject" "obj_kind newMapObject = KMap"
  "d_pending demoDoc = []" "listLike (obj_kind demoText)"
  by (simp_all add: demoDoc_def put_object_def newDocWithActor_def rootID_def newMapObject_def
      demo_text listLike_def)

lemma demo_values [simp]: "visible_values demoDoc ''t'' = [stringValue ''a'']"
  by (simp add: visible_values_def demo_text shown_def demoElem_def)

lemma demo_room [simp]: "k < 1000 \<Longrightarrow> room demoDoc k"
  by (simp add: room_def demoDoc_def)

lemma demo_good [simp]: "doc_good demoDoc"
proof -
  have "doc_ok demoDoc"
    unfolding demoDoc_def using doc_ok_put [OF new_doc_ok demo_text(1)] by (simp add: doc_ok_def)
  moreover have "doc_view demoDoc = fmupd ''t'' (abs_obj demoText) (doc_view (newDocWithActor (replicate 16 0)))"
    using doc_view_put [of "newDocWithActor (replicate 16 0)" "''t''" demoText]
    by (simp add: demoDoc_def doc_view_def)
  then have "a_clock 1 (doc_view demoDoc)"
    by (auto simp: new_doc_view a_clock_def obj_clock_def a_new_def demo_text elem_clock_def demoElem_def
        split: if_splits)
  ultimately show ?thesis by (simp add: doc_good_def demoDoc_def newDocWithActor_def put_object_def)
qed

theorem put_then_lookup_witness:
  "\<exists>d'. Put demoDoc rootID ''k'' (intValue 5) = (Inr (), d') \<and>
     LookupKey d' rootID ''k'' = Some (intValue 5, v_obj (intValue 5)) \<and>
     (\<forall>k. k \<noteq> ''k'' \<longrightarrow> LookupKey d' rootID k = LookupKey demoDoc rootID k)"
  by (rule put_then_lookup [of _ _ newMapObject]) simp_all

theorem delete_then_get_witness:
  "\<exists>d'. Delete demoDoc rootID ''k'' = (Inr (), d') \<and>
     Get d' rootID ''k'' = (Inl (Prop_not_found ''k'' rootID), d')"
  using delete_then_get [of demoDoc rootID newMapObject "''k''"] by auto

lemma utf8_ascii: "utf8_valid ''bc''"
  by (simp add: utf8_valid.simps decodeRune.simps runeError_def)

theorem splice_edits_text_witness:
  "\<exists>r d'. SpliceText demoDoc ''t'' (word_of_nat 1) (word_of_nat 0) ''bc'' = (Inr r, d') \<and>
     TextToString d' ''t'' = Inr ''abc''"
  using splice_edits_text [of demoDoc "''t''" demoText 1 0 "''bc''"] utf8_ascii
  by (simp add: demo_text run_width_def runes.simps decodeRune.simps)

theorem insert_then_delete_witness:
  "\<exists>d' d''. InsertAt demoDoc ''t'' (word_of_nat 1) (intValue 7) = (Inr (), d') \<and>
     visible_values d' ''t'' = [stringValue ''a'', intValue 7] \<and>
     DeleteAt d' ''t'' (word_of_nat 1) = (Inr (), d'') \<and> visible_values d'' ''t'' = [stringValue ''a'']"
  using insert_then_delete [of demoDoc "''t''" demoText 1 "intValue 7"] by simp

theorem delete_then_revive_witness:
  "\<exists>d' d''. DeleteByElemID demoDoc ''t'' (OpID 1 ''x'') = (Inr (), d') \<and> visible_values d' ''t'' = [] \<and>
     ReviveElem d' ''t'' (OpID 1 ''x'') = (Inr (), d'') \<and> visible_values d'' ''t'' = [stringValue ''a'']"
  using delete_then_revive [of demoDoc "''t''" demoText "OpID 1 ''x''"]
  by (simp add: demo_text shown_def demoElem_def listLike_def)

theorem any_operation_keeps_indexes_witness:
  "doc_ok (snd (applyOp demoDoc (local_op demoDoc ''delete'' ''t'' ''nonsense'' nullValue [])))"
  using any_operation_keeps_indexes [of demoDoc] demo_good by (simp add: doc_good_def)

lemma demo_step:
  obtains d' where "Put demoDoc rootID ''k'' (intValue 5) = (Inr (), d')" "local_step demoDoc d'"
    "d_pending d' \<noteq> []"
proof -
  obtain d' where d': "Put demoDoc rootID ''k'' (intValue 5) = (Inr (), d')"
    using Put_ok [OF demo_good demo_objects(2,3), of "''k''" "intValue 5"] by auto
  have "d_pending d' \<noteq> []"
    using d' by (auto simp: Put_def newLocalOp_def localApply_def journal_def split: prod.splits sum.splits)
  with d' show ?thesis
    using that local_step.put [OF demo_objects(2,3) demo_room d'] by simp
qed



lemma demo_change:
  "change_pre (doc_view (newDocWithActor actor)) (put_change [1] ''a'' (intValue 1))"
  "c_hash (put_change [1] ''a'' (intValue 1)) = [1]" "[1] \<noteq> zeroHash"
  by (simp_all add: new_doc_view change_pre_def put_change_def a_pre_def obj_pre_def a_new_def
      zeroHash_def numeral_eq_Suc)

theorem remote_change_keeps_clock_witness:
  "\<exists>ps d'. applyRemoteChange (\<lambda>_. None) (newDocWithActor (replicate 16 0))
     (put_change [1] ''a'' (intValue 1)) = (Inr ps, d') \<and> doc_good d'"
proof -
  have "doc_good (newDocWithActor (replicate 16 0))"
    using new_doc_ok
    by (simp add: doc_good_def new_doc_view a_clock_def obj_clock_def a_new_def)
      (simp add: newDocWithActor_def)
  moreover have "\<forall>op \<in> set (c_ops (put_change [1] ''a'' (intValue 1))). no_wrap op"
    by (simp add: put_change_def no_wrap_def runes.simps)
  ultimately show ?thesis using remote_change_keeps_clock [OF _ demo_change(1)] demo_change(2,3) by metis
qed

definition demoOther :: gdoc where
  "demoOther = (newDocWithActor (replicate 16 1))\<lparr>d_changes := [put_change [1] ''a'' (intValue 1)]\<rparr>"

lemma demo_merge:
  obtains fired d' where "Merge (\<lambda>_. None) (newDocWithActor (replicate 16 0)) demoOther = (Inr fired, d')"
proof -
  obtain ps d' where "applyRemoteChange (\<lambda>_. None) (newDocWithActor (replicate 16 0))
      (put_change [1] ''a'' (intValue 1)) = (Inr ps, d')"
    using applyRemoteChange_refines [OF new_doc_ok demo_change(1)] demo_change(2,3) by metis
  then show ?thesis using that
    by (simp add: Merge_def demoOther_def merge_order_def newDocWithActor_def split: prod.splits)
qed

theorem merge_complete_idempotent_witness:
  "\<exists>fired d'. Merge (\<lambda>_. None) (newDocWithActor (replicate 16 0)) demoOther = (Inr fired, d') \<and>
     d_index d' (hash_String [1]) \<noteq> None \<and> Merge (\<lambda>_. None) d' demoOther = (Inr [], d')"
proof -
  obtain fired d' where m: "Merge (\<lambda>_. None) (newDocWithActor (replicate 16 0)) demoOther = (Inr fired, d')"
    by (rule demo_merge)
  moreover have "\<forall>c \<in> set (d_changes demoOther). c_hash c \<noteq> zeroHash"
    by (simp add: demoOther_def demo_change)
  ultimately show ?thesis
    using merge_complete_idempotent [OF m] by (fastforce simp: demoOther_def put_change_def)
qed

end
