(* ===== verification/Crdt_Sync.thy ===== *)
theory Crdt_Sync
  imports Crdt_Ids
begin

unbundle bit_operations_syntax

text \<open>
  The sync protocol's own state: the Bloom filter of \<^verbatim>\<open>crdt/sync/bloom.go\<close>, the per-peer progress
  of \<^verbatim>\<open>crdt/sync/state.go\<close> and the message envelope of \<^verbatim>\<open>crdt/sync/message.go\<close>. A pointer to a
  filter is an option; a \<open>map[string]struct{}\<close> is a finite set of strings. The methods of a nil
  \<open>State\<close> are left out: both callers refuse a nil state first. \<open>encoding/json\<close> on the envelope is
  a pair of parameters.
\<close>

section \<open>Bloom filter\<close>

record bloom =
  bf_bits :: "byte list"
  bf_size :: uint32

text \<open>\<open>int((size + 7) / 8)\<close> is computed on \<open>uint32\<close>.\<close>

definition newBloomFilter :: "int \<Rightarrow> bloom" where
  "newBloomFilter entries0 =
     (let entries = (if entries0 \<le> 0 then 1 else entries0);
          nbits = word_of_int (entries * 10) :: uint32;
          bytes = unat ((nbits + 7) div 8)
      in \<lparr>bf_bits = replicate bytes 0, bf_size = nbits\<rparr>)"

definition newBloomFilterFromBytes :: "byte list \<Rightarrow> uint32 \<Rightarrow> bloom option" where
  "newBloomFilterFromBytes bits nbits =
     (if length bits = 0 \<or> nbits = 0 then None
      else
        let maxSize = word_of_nat (length bits * 8) :: uint32
        in Some \<lparr>bf_bits = bits, bf_size = (if nbits > maxSize then maxSize else nbits)\<rparr>)"

definition le_uint32 :: "byte list \<Rightarrow> uint32" where
  "le_uint32 bs = foldr (\<lambda>b w. push_bit 8 w OR ucast b) bs 0"

fun probe_loop :: "nat \<Rightarrow> uint32 \<Rightarrow> uint32 \<Rightarrow> uint32 \<Rightarrow> uint32 \<Rightarrow> uint32 list" where
  "probe_loop 0 x y z md = []"
| "probe_loop (Suc n) x y z md =
     (let x' = (x + y) mod md; y' = (y + z) mod md in x' # probe_loop n x' y' z md)"

definition probes :: "bloom \<Rightarrow> byte list \<Rightarrow> uint32 list" where
  "probes f hash =
     (let md = bf_size f;
          x = le_uint32 (take 4 hash) mod md;
          y = le_uint32 (take 4 (drop 4 hash)) mod md;
          z = le_uint32 (take 4 (drop 8 hash)) mod md
      in x # probe_loop 6 x y z md)"

definition set_probe :: "uint32 \<Rightarrow> byte list \<Rightarrow> byte list" where
  "set_probe probe bits =
     (let i = unat (probe div 8) in bits[i := bits ! i OR push_bit (unat (probe mod 8)) 1])"

definition bloom_add :: "bloom \<Rightarrow> byte list \<Rightarrow> bloom" where
  "bloom_add f hash = (if bf_size f = 0 then f else f\<lparr>bf_bits := fold set_probe (probes f hash) (bf_bits f)\<rparr>)"

definition test_probe :: "byte list \<Rightarrow> uint32 \<Rightarrow> bool" where
  "test_probe bits probe \<longleftrightarrow> (bits ! unat (probe div 8)) AND push_bit (unat (probe mod 8)) 1 \<noteq> 0"

definition maybeContains :: "bloom option \<Rightarrow> byte list \<Rightarrow> bool" where
  "maybeContains f hash =
     (case f of
        None \<Rightarrow> False
      | Some f \<Rightarrow> if bf_size f = 0 then False else list_all (test_probe (bf_bits f)) (probes f hash))"

definition newBloomFilterForHashes :: "byte list list \<Rightarrow> bloom" where
  "newBloomFilterForHashes hashes = foldl bloom_add (newBloomFilter (int (length hashes))) hashes"

definition bloom_bytes :: "bloom option \<Rightarrow> byte list" where
  "bloom_bytes f = (case f of None \<Rightarrow> [] | Some f \<Rightarrow> bf_bits f)"

definition bloom_size :: "bloom option \<Rightarrow> uint32" where
  "bloom_size f = (case f of None \<Rightarrow> 0 | Some f \<Rightarrow> bf_size f)"

section \<open>Progress of a peer\<close>

record sync_state =
  initialized :: bool
  lastSentHeads :: "byte list list"
  knownHashes :: "string fset"
  sentHashes :: "string fset"
  needHashes :: "string fset"
  peerNeedHashes :: "string fset"
  peerBloom :: "bloom option"

definition newState :: sync_state where
  "newState = \<lparr>initialized = False, lastSentHeads = [], knownHashes = {||}, sentHashes = {||},
     needHashes = {||}, peerNeedHashes = {||}, peerBloom = None\<rparr>"

definition hasKnown :: "sync_state \<Rightarrow> byte list \<Rightarrow> bool" where
  "hasKnown s hash \<longleftrightarrow> hexEncode hash |\<in>| knownHashes s"

definition hasSent :: "sync_state \<Rightarrow> byte list \<Rightarrow> bool" where
  "hasSent s hash \<longleftrightarrow> hexEncode hash |\<in>| sentHashes s"

definition markSent :: "sync_state \<Rightarrow> byte list \<Rightarrow> sync_state" where
  "markSent s hash =
     s\<lparr>sentHashes := finsert (hexEncode hash) (sentHashes s),
       peerNeedHashes := peerNeedHashes s |-| {|hexEncode hash|}\<rparr>"

definition markKnown :: "sync_state \<Rightarrow> byte list \<Rightarrow> sync_state" where
  "markKnown s hash =
     s\<lparr>knownHashes := finsert (hexEncode hash) (knownHashes s),
       sentHashes := sentHashes s |-| {|hexEncode hash|},
       needHashes := needHashes s |-| {|hexEncode hash|},
       peerNeedHashes := peerNeedHashes s |-| {|hexEncode hash|}\<rparr>"

definition markNeed :: "sync_state \<Rightarrow> byte list \<Rightarrow> sync_state" where
  "markNeed s hash = s\<lparr>needHashes := finsert (hexEncode hash) (needHashes s)\<rparr>"

definition markPeerNeed :: "sync_state \<Rightarrow> byte list \<Rightarrow> sync_state" where
  "markPeerNeed s hash =
     s\<lparr>knownHashes := knownHashes s |-| {|hexEncode hash|},
       sentHashes := sentHashes s |-| {|hexEncode hash|},
       peerNeedHashes := finsert (hexEncode hash) (peerNeedHashes s)\<rparr>"

definition hasPeerNeed :: "sync_state \<Rightarrow> byte list \<Rightarrow> bool" where
  "hasPeerNeed s hash \<longleftrightarrow> hexEncode hash |\<in>| peerNeedHashes s"

definition markPeerBloom :: "sync_state \<Rightarrow> bloom option \<Rightarrow> sync_state" where
  "markPeerBloom s f0 =
     (case f0 of
        None \<Rightarrow> s\<lparr>peerBloom := None\<rparr>
      | Some f \<Rightarrow> s\<lparr>peerBloom := newBloomFilterFromBytes (bloom_bytes f0) (bloom_size f0)\<rparr>)"

definition peerMayHave :: "sync_state \<Rightarrow> byte list \<Rightarrow> bool" where
  "peerMayHave s hash \<longleftrightarrow> peerBloom s \<noteq> None \<and> maybeContains (peerBloom s) hash"

text \<open>\<open>bytes.Compare\<close> orders byte strings lexicographically.\<close>

definition normalizeHeads :: "byte list list \<Rightarrow> byte list list" where
  "normalizeHeads heads = sort heads"

text \<open>The range over the map visits its keys in some order; sorting the result makes it unique.\<close>

definition decode_key :: "string \<Rightarrow> byte list list" where
  "decode_key value =
     (case hexDecode value of None \<Rightarrow> [] | Some raw \<Rightarrow> if length raw \<noteq> 32 then [] else [raw])"

definition hashMapValues :: "string fset \<Rightarrow> byte list list" where
  "hashMapValues values = normalizeHeads (concat (List.map decode_key (sorted_list_of_fset values)))"

definition needed :: "sync_state \<Rightarrow> byte list list" where
  "needed s = (if needHashes s = {||} then [] else hashMapValues (needHashes s))"

definition peerNeeded :: "sync_state \<Rightarrow> byte list list" where
  "peerNeeded s = (if peerNeedHashes s = {||} then [] else hashMapValues (peerNeedHashes s))"

definition noteHeads :: "sync_state \<Rightarrow> byte list list \<Rightarrow> sync_state" where
  "noteHeads s heads = s\<lparr>initialized := True, lastSentHeads := normalizeHeads heads\<rparr>"

definition shouldSend :: "sync_state \<Rightarrow> byte list list \<Rightarrow> bool \<Rightarrow> bool" where
  "shouldSend s heads hasChanges =
     (if \<not> initialized s \<or> hasChanges \<or> fcard (needHashes s) > 0 then True
      else
        let current = normalizeHeads heads in
        if length (lastSentHeads s) \<noteq> length current then True
        else list_ex (\<lambda>i. lastSentHeads s ! i \<noteq> current ! i) [0..<length current])"

section \<open>Messages\<close>

record message =
  m_version :: byte
  m_heads :: "byte list list"
  m_need :: "byte list list"
  m_bloom :: "bloom option"
  m_changes :: "byte list list"

record envelope =
  env_version :: byte
  env_heads :: "string list"
  env_need :: "string list"
  env_bloom :: "byte list"
  env_bloomSize :: uint32
  env_changes :: "byte list list"

definition messageTypeV1 :: byte where "messageTypeV1 = 0x42"

datatype message_error = Empty_message | Bad_envelope | Bad_hash string | Bad_hash_length string

definition encodeHashes :: "byte list list \<Rightarrow> string list" where
  "encodeHashes values = List.map hexEncode values"

fun decodeHashes :: "string list \<Rightarrow> message_error + byte list list" where
  "decodeHashes [] = Inr []"
| "decodeHashes (v # vs) =
     (case hexDecode v of
        None \<Rightarrow> Inl (Bad_hash v)
      | Some raw \<Rightarrow>
          if length raw \<noteq> 32 then Inl (Bad_hash_length v)
          else (case decodeHashes vs of Inl e \<Rightarrow> Inl e | Inr out \<Rightarrow> Inr (raw # out)))"

definition envelope_of :: "message \<Rightarrow> envelope" where
  "envelope_of m = \<lparr>env_version = m_version m, env_heads = encodeHashes (m_heads m),
     env_need = encodeHashes (m_need m), env_bloom = bloom_bytes (m_bloom m),
     env_bloomSize = bloom_size (m_bloom m), env_changes = m_changes m\<rparr>"

definition encodeMessage :: "(envelope \<Rightarrow> byte list option) \<Rightarrow> message \<Rightarrow> byte list option" where
  "encodeMessage marshal m =
     (case marshal (envelope_of m) of None \<Rightarrow> None | Some body \<Rightarrow> Some (m_version m # body))"

definition decodeMessage :: "(byte list \<Rightarrow> envelope option) \<Rightarrow> byte list \<Rightarrow> message_error + message" where
  "decodeMessage unmarshal data =
     (if data = [] then Inl Empty_message
      else case unmarshal (drop 1 data) of
        None \<Rightarrow> Inl Bad_envelope
      | Some env \<Rightarrow>
          (case decodeHashes (env_heads env) of
             Inl e \<Rightarrow> Inl e
           | Inr heads \<Rightarrow>
               (case decodeHashes (env_need env) of
                  Inl e \<Rightarrow> Inl e
                | Inr need \<Rightarrow>
                    Inr \<lparr>m_version = (if env_version env = 0 then hd data else env_version env),
                         m_heads = heads, m_need = need,
                         m_bloom = newBloomFilterFromBytes (env_bloom env) (env_bloomSize env),
                         m_changes = env_changes env\<rparr>)))"

end
