(* ===== verification/Sync_Properties.thy ===== *)
theory Sync_Properties
  imports Crdt_Sync
begin

text \<open>
  The sync package: the filter never denies a hash it was given, also after it travelled in a
  message, and a message is recovered from its encoding.
\<close>

section \<open>The filter\<close>

definition bloom_ok :: "bloom \<Rightarrow> bool" where
  "bloom_ok f \<longleftrightarrow> bf_size f \<noteq> 0 \<and> unat (bf_size f) \<le> 8 * length (bf_bits f)"

lemma mod_less_word: "(m :: uint32) \<noteq> 0 \<Longrightarrow> x mod m < m"
  by (simp add: word_less_nat_alt unat_mod unat_gt_0)

lemma probes_less: "bf_size f \<noteq> 0 \<Longrightarrow> q \<in> set (probes f h) \<Longrightarrow> q < bf_size f"
proof -
  have loop: "m \<noteq> 0 \<Longrightarrow> q \<in> set (probe_loop n x y z m) \<Longrightarrow> q < m" for n x y z m
    by (induction n x y z m rule: probe_loop.induct) (auto simp: mod_less_word Let_def)
  assume "bf_size f \<noteq> 0" "q \<in> set (probes f h)"
  then show ?thesis using loop mod_less_word by (auto simp: probes_def Let_def)
qed

lemma probe_index: "bloom_ok f \<Longrightarrow> q \<in> set (probes f h) \<Longrightarrow> unat (q div 8) < length (bf_bits f)"
  using probes_less [of f q h] by (auto simp: bloom_ok_def word_less_nat_alt unat_div)

lemma length_set_probe [simp]: "length (set_probe q bits) = length bits"
  by (simp add: set_probe_def Let_def)

lemma length_fold_probe [simp]: "length (fold set_probe qs bits) = length bits"
  by (induction qs arbitrary: bits) auto

lemma byte_test: "(b AND 2 ^ n \<noteq> 0) = bit (b :: byte) n" "(b AND 2 ^ n = 0) = (\<not> bit b n)"
  using and_exp_eq_0_iff_not_bit [of b n] by simp_all

lemma bit_two_pow: "bit (2 ^ m :: byte) n \<longleftrightarrow> m = n \<and> n < 8"
  by (auto simp: bit_exp_iff)

lemma test_set_probe:
  assumes "unat (q div 8) < length bits"
  shows "test_probe (set_probe q bits) q"
proof -
  have "unat (q mod 8) < 8" by (simp add: unat_mod)
  then show ?thesis
    using assms by (simp add: test_probe_def set_probe_def Let_def byte_test bit_or_iff bit_two_pow)
qed

lemma test_probe_mono: "test_probe bits q \<Longrightarrow> test_probe (set_probe p bits) q"
  by (cases "unat (p div 8) < length bits")
    (auto simp: test_probe_def set_probe_def Let_def byte_test bit_or_iff nth_list_update list_update_beyond)

lemma test_fold_mono: "test_probe bits q \<Longrightarrow> test_probe (fold set_probe qs bits) q"
  by (induction qs arbitrary: bits) (auto simp: test_probe_mono)

lemma test_fold_probe:
  "\<forall>q \<in> set qs. unat (q div 8) < length bits \<Longrightarrow> q \<in> set qs \<Longrightarrow> test_probe (fold set_probe qs bits) q"
proof (induction qs arbitrary: bits)
  case (Cons p qs)
  then show ?case by (cases "q = p") (auto simp: test_set_probe test_fold_mono)
qed simp

lemma bloom_add_size [simp]:
  "bf_size (bloom_add f h) = bf_size f" "length (bf_bits (bloom_add f h)) = length (bf_bits f)"
  by (simp_all add: bloom_add_def)

lemma bloom_add_probes [simp]: "probes (bloom_add f h) = probes f"
  by (rule ext) (simp add: probes_def)

lemma bloom_add_ok [simp]: "bloom_ok (bloom_add f h) = bloom_ok f"
  by (simp add: bloom_ok_def)

lemma bloom_add_contains: "bloom_ok f \<Longrightarrow> maybeContains (Some (bloom_add f h)) h"
  using probe_index [of f _ h]
  by (auto simp: maybeContains_def list_all_iff bloom_ok_def bloom_add_def probes_def
      intro!: test_fold_probe)

lemma bloom_add_mono: "maybeContains (Some f) k \<Longrightarrow> maybeContains (Some (bloom_add f h)) k"
  by (auto simp: maybeContains_def list_all_iff split: if_splits)
    (auto simp: bloom_add_def test_fold_mono split: if_splits)

lemma bloom_fold_mono:
  "maybeContains (Some f) k \<Longrightarrow> maybeContains (Some (foldl bloom_add f hs)) k"
  by (induction hs arbitrary: f) (auto simp: bloom_add_mono)

lemma bloom_fold_ok [simp]: "bloom_ok (foldl bloom_add f hs) = bloom_ok f"
  by (induction hs arbitrary: f) auto

lemma bloom_fold_size [simp]:
  "bf_size (foldl bloom_add f hs) = bf_size f" "length (bf_bits (foldl bloom_add f hs)) = length (bf_bits f)"
  by (induction hs arbitrary: f) auto

lemma bloom_fold_contains:
  "bloom_ok f \<Longrightarrow> h \<in> set hs \<Longrightarrow> maybeContains (Some (foldl bloom_add f hs)) h"
  by (induction hs arbitrary: f) (auto simp: bloom_add_contains intro: bloom_fold_mono)

lemma unat_word32 [simp]: "m < 2 ^ 32 \<Longrightarrow> unat (word_of_nat m :: uint32) = m"
  by (simp add: unsigned_of_nat take_bit_nat_eq_self)

lemma newBloomFilter_ok:
  assumes "10 * max 1 n + 7 < 2 ^ 32"
  shows "bloom_ok (newBloomFilter (int n))" and "unat (bf_size (newBloomFilter (int n))) = 10 * max 1 n"
    and "length (bf_bits (newBloomFilter (int n))) = (10 * max 1 n + 7) div 8"
proof -
  let ?m = "10 * max 1 n"
  have e: "(if int n \<le> 0 then 1 else int n) * 10 = int ?m" by (simp add: max_def)
  have w: "(word_of_int (int ?m) :: uint32) = word_of_nat ?m" by simp
  have p: "(word_of_nat ?m :: uint32) + 7 = word_of_nat (?m + 7)" by simp
  have u: "unat (word_of_nat ?m :: uint32) = ?m" "unat (word_of_nat (?m + 7) :: uint32) = ?m + 7"
    using assms by (intro unat_word32; simp)+
  have f: "newBloomFilter (int n) = \<lparr>bf_bits = replicate ((?m + 7) div 8) 0, bf_size = word_of_nat ?m\<rparr>"
    unfolding newBloomFilter_def Let_def e w p unat_div u by simp
  then show "unat (bf_size (newBloomFilter (int n))) = ?m"
    "length (bf_bits (newBloomFilter (int n))) = (?m + 7) div 8" using u(1) by simp_all
  moreover from this(1) have "bf_size (newBloomFilter (int n)) \<noteq> 0" by (metis unat_0 max.cobounded1 mult_eq_0_iff not_one_le_zero zero_neq_numeral)
  ultimately show "bloom_ok (newBloomFilter (int n))" by (simp add: bloom_ok_def)
qed

text \<open>What the receiver rebuilds from the bytes and the size is the filter that was sent.\<close>

lemma transported:
  assumes "bloom_ok f" "8 * length (bf_bits f) < 2 ^ 32"
  shows "newBloomFilterFromBytes (bloom_bytes (Some f)) (bloom_size (Some f)) = Some f"
proof -
  have "unat (word_of_nat (length (bf_bits f) * 8) :: uint32) = length (bf_bits f) * 8"
    using assms(2) by (intro unat_word32) (simp add: mult.commute)
  then have "\<not> bf_size f > word_of_nat (length (bf_bits f) * 8)"
    using assms(1) by (simp add: bloom_ok_def word_less_nat_alt)
  moreover have "bf_bits f \<noteq> []" using assms(1) unat_gt_0 [of "bf_size f"] by (auto simp: bloom_ok_def)
  ultimately show ?thesis
    using assms(1) by (simp add: newBloomFilterFromBytes_def bloom_bytes_def bloom_size_def bloom_ok_def Let_def)
qed

text \<open>The filter of a list of hashes is well formed and contains each of them.\<close>

lemma bloom_for_hashes:
  assumes "10 * length hs + 14 < 2 ^ 32"
  shows "bloom_ok (newBloomFilterForHashes hs)" "8 * length (bf_bits (newBloomFilterForHashes hs)) < 2 ^ 32"
    and "h \<in> set hs \<Longrightarrow> maybeContains (Some (newBloomFilterForHashes hs)) h"
proof -
  have n: "10 * max 1 (length hs) + 7 < 2 ^ 32" using assms by (simp add: max_def)
  have "8 * length (bf_bits (newBloomFilterForHashes hs)) \<le> 10 * max 1 (length hs) + 7"
    unfolding newBloomFilterForHashes_def bloom_fold_size newBloomFilter_ok(3) [OF n]
    by (rule times_div_less_eq_dividend)
  then show "bloom_ok (newBloomFilterForHashes hs)" "8 * length (bf_bits (newBloomFilterForHashes hs)) < 2 ^ 32"
    using newBloomFilter_ok(1) [OF n] n by (simp_all add: newBloomFilterForHashes_def)
  show "h \<in> set hs \<Longrightarrow> maybeContains (Some (newBloomFilterForHashes hs)) h"
    using bloom_fold_contains newBloomFilter_ok(1) [OF n] by (simp add: newBloomFilterForHashes_def)
qed

lemma decodeHashes_encode:
  "\<forall>h \<in> set hs. length h = 32 \<Longrightarrow> decodeHashes (encodeHashes hs) = Inr hs"
  by (induction hs) (auto simp: encodeHashes_def)

lemma message_recovered:
  assumes "unmarshal body = Some (envelope_of m)"
    and "\<forall>h \<in> set (m_heads m) \<union> set (m_need m). length h = 32" "m_version m \<noteq> 0"
    and "\<forall>f. m_bloom m = Some f \<longrightarrow> bloom_ok f \<and> 8 * length (bf_bits f) < 2 ^ 32"
  shows "decodeMessage unmarshal (m_version m # body) = Inr m"
proof -
  have "newBloomFilterFromBytes (bloom_bytes (m_bloom m)) (bloom_size (m_bloom m)) = m_bloom m"
    using assms(4) transported
    by (cases "m_bloom m") (simp_all add: newBloomFilterFromBytes_def bloom_bytes_def bloom_size_def)
  moreover have "decodeHashes (encodeHashes (m_heads m)) = Inr (m_heads m)"
    "decodeHashes (encodeHashes (m_need m)) = Inr (m_need m)"
    using assms(2) by (simp_all add: decodeHashes_encode)
  ultimately show ?thesis
    using assms(1,3) by (simp add: decodeMessage_def envelope_of_def)
qed

section \<open>Properties\<close>

text \<open>C17. The filter a replica sends for its hashes answers yes for each of them at the
  receiver, which rebuilds it from the transported bits and size. The bound on the number of
  hashes keeps the size in 32 bits.\<close>
theorem bloom_no_false_negative:
  assumes "h \<in> set hs" "10 * length hs + 14 < 2 ^ 32"
  shows "peerMayHave (markPeerBloom s (newBloomFilterFromBytes
      (bloom_bytes (Some (newBloomFilterForHashes hs))) (bloom_size (Some (newBloomFilterForHashes hs))))) h"
  using bloom_for_hashes [OF assms(2)] assms(1)
  by (simp add: transported markPeerBloom_def peerMayHave_def)

theorem bloom_no_false_negative_witness:
  "peerMayHave (markPeerBloom newState (newBloomFilterFromBytes
     (bloom_bytes (Some (newBloomFilterForHashes [replicate 32 7, replicate 32 9])))
     (bloom_size (Some (newBloomFilterForHashes [replicate 32 7, replicate 32 9]))))) (replicate 32 9)"
  by (rule bloom_no_false_negative) simp_all

text \<open>With a number of hashes whose tenfold is a multiple of two to the 32, the size wraps to
  zero and the filter denies every hash it was given.\<close>
theorem bloom_size_wraps:
  "bf_size (newBloomFilter (2 ^ 31)) = 0 \<and> bf_bits (newBloomFilter (2 ^ 31)) = []"
  by (simp add: newBloomFilter_def Let_def)

text \<open>C18. A message with 32-byte hashes is recovered from its encoding, where the JSON reader
  inverts the writer on its envelope.\<close>
theorem message_roundtrip:
  assumes "marshal (envelope_of m) = Some body" "unmarshal body = Some (envelope_of m)"
    and "\<forall>h \<in> set (m_heads m) \<union> set (m_need m). length h = 32" "m_version m \<noteq> 0"
    and "\<forall>f. m_bloom m = Some f \<longrightarrow> bloom_ok f \<and> 8 * length (bf_bits f) < 2 ^ 32"
  shows "\<exists>data. encodeMessage marshal m = Some data \<and> decodeMessage unmarshal data = Inr m"
  using message_recovered [of unmarshal body m, OF assms(2-5)] assms(1) by (simp add: encodeMessage_def)

theorem message_roundtrip_witness:
  "let m = \<lparr>m_version = messageTypeV1, m_heads = [replicate 32 1], m_need = [],
       m_bloom = Some (newBloomFilterForHashes [replicate 32 1]), m_changes = [[1, 2]]\<rparr>
   in \<exists>data. encodeMessage (\<lambda>e. Some [0x7b]) m = Some data \<and>
        decodeMessage (\<lambda>b. if b = [0x7b] then Some (envelope_of m) else None) data = Inr m"
proof -
  have "bloom_ok (newBloomFilterForHashes [replicate 32 1])"
    "8 * length (bf_bits (newBloomFilterForHashes [replicate 32 1])) < 2 ^ 32"
    by (rule bloom_for_hashes; simp)+
  then show ?thesis
    unfolding Let_def by (intro message_roundtrip) (auto simp: messageTypeV1_def)
qed

end
