(* ===== verification/Doc_Sync.thy ===== *)
theory Doc_Sync
  imports Doc_Properties Sync_Properties
begin

text \<open>
  \<open>GenerateSyncMessage\<close> and \<open>ReceiveSyncMessage\<close> of \<^verbatim>\<open>crdt/doc.go\<close>: what a replica sends a peer, how
  it takes what the peer sent, and the requests that make up for a change the Bloom filter
  withheld. \<open>emarshal\<close> and \<open>eunmarshal\<close> stand for \<open>encoding/json\<close> on the message envelope,
  \<open>marshal\<close> and \<open>unmarshal\<close> for it on a change. The state is a pointer the methods update, an
  option here that is returned.
\<close>

section \<open>Sending\<close>

definition withheld :: "sync_state \<Rightarrow> byte list \<Rightarrow> bool" where
  "withheld st hash \<longleftrightarrow> \<not> hasPeerNeed st hash \<and> (hasKnown st hash \<or> hasSent st hash \<or> peerMayHave st hash)"

text \<open>The loop over the changes; a change that cannot be encoded is skipped.\<close>

fun outgoing :: "(gchange \<Rightarrow> byte list option) \<Rightarrow> sync_state \<Rightarrow> gchange list \<Rightarrow> (byte list \<times> byte list) list" where
  "outgoing marshal st [] = []"
| "outgoing marshal st (c # cs) =
     (if withheld st (c_hash c) then outgoing marshal st cs
      else case encodeChangeChunk marshal c of
        None \<Rightarrow> outgoing marshal st cs
      | Some (chunk, _) \<Rightarrow> (chunk, c_hash c) # outgoing marshal st cs)"

definition sync_message ::
  "(gchange \<Rightarrow> byte list option) \<Rightarrow> gdoc \<Rightarrow> sync_state \<Rightarrow> message" where
  "sync_message marshal d st =
     \<lparr>m_version = messageTypeV1, m_heads = d_deps d, m_need = needed st,
      m_bloom = Some (newBloomFilterForHashes (List.map c_hash (d_changes d))),
      m_changes = List.map fst (outgoing marshal st (d_changes d))\<rparr>"

definition GenerateSyncMessage ::
  "(gchange \<Rightarrow> byte list option) \<Rightarrow> (envelope \<Rightarrow> byte list option) \<Rightarrow> gdoc \<Rightarrow> sync_state option \<Rightarrow>
   byte list option \<times> sync_state option" where
  "GenerateSyncMessage marshal emarshal d state =
     (case state of
        None \<Rightarrow> (None, None)
      | Some st \<Rightarrow>
          let out = outgoing marshal st (d_changes d) in
          if \<not> shouldSend st (d_deps d) (length out > 0) then (None, Some st)
          else case encodeMessage emarshal (sync_message marshal d st) of
            None \<Rightarrow> (None, Some st)
          | Some data \<Rightarrow> (Some data, Some (noteHeads (foldl markSent st (List.map snd out)) (d_deps d))))"

section \<open>Receiving\<close>

datatype sync_error =
    No_sync_state | Bad_message message_error | Bad_change change_error | Apply_failed doc_error

fun decode_changes :: "(byte list \<Rightarrow> gchange option) \<Rightarrow> byte list list \<Rightarrow> change_error + gchange list" where
  "decode_changes unmarshal [] = Inr []"
| "decode_changes unmarshal (chunk # chunks) =
     (case decodeChangeChunk unmarshal chunk of
        Inl e \<Rightarrow> Inl e
      | Inr c \<Rightarrow> (case decode_changes unmarshal chunks of Inl e \<Rightarrow> Inl e | Inr cs \<Rightarrow> Inr (c # cs)))"

definition known :: "gdoc \<Rightarrow> byte list \<Rightarrow> bool" where
  "known d hash \<longleftrightarrow> d_index d (hash_String hash) \<noteq> None"

fun receive_changes ::
  "(gchange \<Rightarrow> byte list option) \<Rightarrow> gdoc \<Rightarrow> sync_state \<Rightarrow> gchange list \<Rightarrow> gpatch list \<Rightarrow>
   (doc_error + gpatch list) \<times> gdoc \<times> sync_state" where
  "receive_changes marshal d st [] patches = (Inr patches, d, st)"
| "receive_changes marshal d st (c # cs) patches =
     (if known d (c_hash c) then receive_changes marshal d (markKnown st (c_hash c)) cs patches
      else if missingDeps d c \<noteq> [] then
        receive_changes marshal d (markNeed (foldl markNeed st (missingDeps d c)) (c_hash c)) cs patches
      else case applyRemoteChange marshal d c of
        (Inl e, d') \<Rightarrow> (Inl e, d', st)
      | (Inr applied, d') \<Rightarrow>
          receive_changes marshal d' (markKnown st (c_hash c)) cs (patches @ applied))"

definition receive_head :: "gdoc \<Rightarrow> sync_state \<Rightarrow> byte list \<Rightarrow> sync_state" where
  "receive_head d st head = (if known d head then markKnown st head else markNeed st head)"

definition receive_need :: "gdoc \<Rightarrow> sync_state \<Rightarrow> byte list \<Rightarrow> sync_state" where
  "receive_need d st need = (if known d need then markPeerNeed st need else st)"

definition receive_message ::
  "(gchange \<Rightarrow> byte list option) \<Rightarrow> gdoc \<Rightarrow> sync_state \<Rightarrow> message \<Rightarrow> gchange list \<Rightarrow>
   (sync_error + fired) \<times> gdoc \<times> sync_state option" where
  "receive_message marshal d st m cs =
     (case receive_changes marshal d st cs [] of
        (Inl e, d', st') \<Rightarrow> (Inl (Apply_failed e), d', Some st')
      | (Inr patches, d', st') \<Rightarrow>
          let st1 = foldl (receive_head d') st' (m_heads m);
              st2 = foldl (receive_need d') st1 (m_need m);
              st3 = markPeerBloom st2 (m_bloom m)
          in (Inr (fireHooks (d_hooks d') patches), d', Some st3))"

definition ReceiveSyncMessage ::
  "(gchange \<Rightarrow> byte list option) \<Rightarrow> (byte list \<Rightarrow> gchange option) \<Rightarrow> (byte list \<Rightarrow> envelope option) \<Rightarrow>
   gdoc \<Rightarrow> sync_state option \<Rightarrow> byte list \<Rightarrow> (sync_error + fired) \<times> gdoc \<times> sync_state option" where
  "ReceiveSyncMessage marshal unmarshal eunmarshal d state msg =
     (case state of
        None \<Rightarrow> (Inl No_sync_state, d, None)
      | Some st \<Rightarrow>
          (case decodeMessage eunmarshal msg of
             Inl e \<Rightarrow> (Inl (Bad_message e), d, Some st)
           | Inr m \<Rightarrow>
               (case decode_changes unmarshal (m_changes m) of
                  Inl e \<Rightarrow> (Inl (Bad_change e), d, Some st)
                | Inr cs \<Rightarrow> receive_message marshal d st m cs)))"

section \<open>Every hash of a message is accounted for\<close>

definition asked :: "sync_state \<Rightarrow> byte list \<Rightarrow> bool" where
  "asked st hash \<longleftrightarrow> hexEncode hash |\<in>| needHashes st"

definition settled :: "gdoc \<Rightarrow> sync_state \<Rightarrow> byte list \<Rightarrow> bool" where
  "settled d st h \<longleftrightarrow> known d h \<or> asked st h"

lemma asked_mark [simp]:
  "asked (markNeed st h) k \<longleftrightarrow> k = h \<or> asked st k"
  "asked (markKnown st h) k \<longleftrightarrow> k \<noteq> h \<and> asked st k"
  "asked (markPeerNeed st h) k \<longleftrightarrow> asked st k" "asked (markPeerBloom st f) k \<longleftrightarrow> asked st k"
  by (auto simp: asked_def markNeed_def markKnown_def markPeerNeed_def markPeerBloom_def
      dest: hexEncode_inj split: option.splits)

lemma asked_needs [simp]: "asked (foldl markNeed st hs) k \<longleftrightarrow> k \<in> set hs \<or> asked st k"
  by (induction hs arbitrary: st) auto

text \<open>
  The hash a change is recorded under is its own: it is not zero, or the hash of its encoding
  is zero too.
\<close>

definition hash_fixed :: "(gchange \<Rightarrow> byte list option) \<Rightarrow> gchange \<Rightarrow> bool" where
  "hash_fixed marshal c \<longleftrightarrow>
     (c_hash c = zeroHash \<longrightarrow> map_option snd (encodeChangeChunk marshal c) = Some zeroHash)"

lemma applyRemote_fixed:
  assumes "hash_fixed marshal c"
  shows "applyRemoteChange marshal d c =
    (case apply_ops d (c_ops c) [] of
       (Inl e, d') \<Rightarrow> (Inl e, d') | (Inr patches, d') \<Rightarrow> (Inr patches, record_change d' c))"
proof -
  have e: "c\<lparr>c_hash := c_hash c\<rparr> = c" by simp
  have "(if c_hash c = zeroHash then map_option snd (encodeChangeChunk marshal c) else Some (c_hash c)) = Some (c_hash c)"
    using assms by (simp add: hash_fixed_def)
  then show ?thesis unfolding applyRemoteChange_def by (simp only: option.case Let_def e)
qed

lemma known_new:
  assumes "applyRemoteChange marshal d c = (Inr ps, d')" "hash_fixed marshal c"
  shows "known d' h \<longleftrightarrow> h = c_hash c \<or> known d h"
proof -
  obtain d1 where d1: "apply_ops d (c_ops c) [] = (Inr ps, d1)" "d' = record_change d1 c"
    using assms(1) unfolding applyRemote_fixed [OF assms(2)] by (auto split: prod.splits sum.splits)
  have "d_index d1 = d_index d" using apply_ops_index [OF d1(1)] by simp
  then show ?thesis
    by (simp add: known_def d1(2) record_change_def Let_def)
qed

lemma receive_changes_settled:
  assumes "receive_changes marshal d st cs ps = (Inr ps', d', st')" "\<forall>c \<in> set cs. hash_fixed marshal c"
  shows "(\<forall>h. known d h \<longrightarrow> known d' h) \<and> (\<forall>h. settled d st h \<longrightarrow> settled d' st' h) \<and>
    (\<forall>c \<in> set cs. settled d' st' (c_hash c))"
  using assms
proof (induction cs arbitrary: d st ps)
  case (Cons c cs)
  consider (old) "known d (c_hash c)"
    | (waiting) "\<not> known d (c_hash c)" "missingDeps d c \<noteq> []"
    | (new) "\<not> known d (c_hash c)" "missingDeps d c = []" by blast
  then show ?case
  proof cases
    case old
    then have "settled d st h \<Longrightarrow> settled d (markKnown st (c_hash c)) h" for h
      by (auto simp: settled_def)
    moreover have "receive_changes marshal d (markKnown st (c_hash c)) cs ps = (Inr ps', d', st')"
      using Cons.prems(1) old by simp
    moreover have "settled d (markKnown st (c_hash c)) (c_hash c)" using old by (simp add: settled_def)
    ultimately show ?thesis using Cons.IH Cons.prems(2) by (metis list.set_intros(2) set_ConsD)
  next
    case waiting
    then show ?thesis using Cons by (auto simp: settled_def)
  next
    case new
    then obtain as d1 where a: "applyRemoteChange marshal d c = (Inr as, d1)"
      "receive_changes marshal d1 (markKnown st (c_hash c)) cs (ps @ as) = (Inr ps', d', st')"
      using Cons.prems(1) by (auto split: prod.splits sum.splits)
    have "known d h \<Longrightarrow> known d1 h" "known d1 (c_hash c)" for h
      using known_new [OF a(1)] Cons.prems(2) by auto
    then have "settled d st h \<Longrightarrow> settled d1 (markKnown st (c_hash c)) h"
      "settled d1 (markKnown st (c_hash c)) (c_hash c)" for h by (auto simp: settled_def)
    then show ?thesis
      using Cons.IH [OF a(2)] Cons.prems(2) \<open>\<And>h. known d h \<Longrightarrow> known d1 h\<close>
      by (metis list.set_intros(2) set_ConsD)
  qed
qed simp

lemma receive_heads_settled:
  "(settled d st h \<longrightarrow> settled d (foldl (receive_head d) st hs) h) \<and>
   (h \<in> set hs \<longrightarrow> settled d (foldl (receive_head d) st hs) h)"
proof (induction hs arbitrary: st)
  case (Cons x hs)
  have "settled d st h \<longrightarrow> settled d (receive_head d st x) h" "settled d (receive_head d st x) x"
    by (auto simp: receive_head_def settled_def)
  then show ?case using Cons by auto
qed simp

lemma receive_needs_settled: "settled d (foldl (receive_need d) st hs) h = settled d st h"
  by (induction hs arbitrary: st) (auto simp: receive_need_def settled_def)

text \<open>C15. Receiving a message loses nothing: every change of the message and every head of the
  peer is afterwards either in the document or among the hashes the replica asks for, and
  what was known stays known.\<close>
theorem receive_settles_every_hash:
  assumes "ReceiveSyncMessage marshal unmarshal eunmarshal d (Some st) msg = (Inr fired, d', Some st')"
    and "decodeMessage eunmarshal msg = Inr m" "decode_changes unmarshal (m_changes m) = Inr cs"
    and "\<forall>c \<in> set cs. hash_fixed marshal c"
  shows "(\<forall>h \<in> c_hash ` set cs \<union> set (m_heads m). known d' h \<or> hexEncode h |\<in>| needHashes st') \<and>
    (\<forall>h. known d h \<longrightarrow> known d' h)"
proof -
  obtain ps st1 where r: "receive_changes marshal d st cs [] = (Inr ps, d', st1)"
    "st' = markPeerBloom (foldl (receive_need d') (foldl (receive_head d') st1 (m_heads m)) (m_need m)) (m_bloom m)"
    using assms(1-3) by (auto simp: ReceiveSyncMessage_def receive_message_def Let_def
        split: prod.splits sum.splits)
  have "settled d' st' h = settled d' (foldl (receive_head d') st1 (m_heads m)) h" for h
    using receive_needs_settled [of d' _ "m_need m" h] by (simp add: r(2) settled_def)
  then have "\<forall>h \<in> c_hash ` set cs \<union> set (m_heads m). settled d' st' h"
    using receive_heads_settled receive_changes_settled [OF r(1) assms(4)] by blast
  then show ?thesis using receive_changes_settled [OF r(1) assms(4)] by (simp add: settled_def asked_def)
qed

section \<open>Requests override the filter\<close>

lemma outgoing_mem:
  "c \<in> set cs \<Longrightarrow> \<not> withheld st (c_hash c) \<Longrightarrow> encodeChangeChunk marshal c = Some (chunk, h) \<Longrightarrow>
     (chunk, c_hash c) \<in> set (outgoing marshal st cs)"
  by (induction cs) (auto split: option.splits)

text \<open>C16. A change the peer asked for is sent in the next message, whatever the Bloom filter
  and the records of sent and known changes say: a false positive of the filter delays a
  change, it does not withhold it.\<close>
theorem requested_change_is_sent:
  assumes "c \<in> set (d_changes d)" "encodeChangeChunk marshal c = Some (chunk, h)"
    and "emarshal (envelope_of (sync_message marshal d (receive_need d st (c_hash c)))) = Some body"
    and "known d (c_hash c)"
  shows "\<exists>st'. GenerateSyncMessage marshal emarshal d (Some (receive_need d st (c_hash c))) =
      (Some (messageTypeV1 # body), Some st') \<and>
    chunk \<in> set (m_changes (sync_message marshal d (receive_need d st (c_hash c))))"
proof -
  let ?st = "receive_need d st (c_hash c)"
  have "\<not> withheld ?st (c_hash c)"
    using assms(4) by (simp add: withheld_def receive_need_def hasPeerNeed_def markPeerNeed_def)
  from outgoing_mem [OF assms(1) this assms(2)] have m: "(chunk, c_hash c) \<in> set (outgoing marshal ?st (d_changes d))" .
  then have "shouldSend ?st (d_deps d) (length (outgoing marshal ?st (d_changes d)) > 0)"
    by (auto simp: shouldSend_def)
  moreover have "m_version (sync_message marshal d ?st) = messageTypeV1" by (simp add: sync_message_def)
  ultimately show ?thesis
    using m assms(3) by (force simp: GenerateSyncMessage_def encodeMessage_def sync_message_def Let_def)
qed

section \<open>One message brings a fresh peer up to date\<close>

text \<open>The change was hashed over its encoding, and JSON recovers all but the hash.\<close>

definition sealed :: "(gchange \<Rightarrow> byte list option) \<Rightarrow> (byte list \<Rightarrow> gchange option) \<Rightarrow> gchange \<Rightarrow> bool" where
  "sealed marshal unmarshal c \<longleftrightarrow> (\<exists>body. marshal c = Some body \<and> length body < 2 ^ 63 \<and>
     unmarshal body = Some (c\<lparr>c_hash := zeroHash\<rparr>) \<and> c_hash c = changeHash body)"

lemma sealed_chunk:
  assumes "sealed marshal unmarshal c"
  obtains chunk where "encodeChangeChunk marshal c = Some (chunk, c_hash c)"
    "decodeChangeChunk unmarshal chunk = Inr c"
proof -
  obtain body where b: "marshal c = Some body" "length body < 2 ^ 63"
    "unmarshal body = Some (c\<lparr>c_hash := zeroHash\<rparr>)" "c_hash c = changeHash body"
    using assms by (auto simp: sealed_def)
  have "c\<lparr>c_hash := c_hash c\<rparr> = c" by simp
  then show ?thesis
    using that [of "encodeChange body"] b
    by (simp add: encodeChangeChunk_def decodeChangeChunk_def decodeChange_encodeChange Let_def)
qed

lemma sealed_fixed: "sealed marshal unmarshal c \<Longrightarrow> hash_fixed marshal c"
  by (erule sealed_chunk) (simp add: hash_fixed_def)

lemma outgoing_decodes:
  assumes "\<forall>c \<in> set cs. sealed marshal unmarshal c" "\<forall>c \<in> set cs. \<not> withheld st (c_hash c)"
  shows "decode_changes unmarshal (List.map fst (outgoing marshal st cs)) = Inr cs"
  using assms
proof (induction cs)
  case (Cons c cs)
  obtain chunk where "encodeChangeChunk marshal c = Some (chunk, c_hash c)"
    "decodeChangeChunk unmarshal chunk = Inr c"
    using sealed_chunk Cons.prems(1) by (metis list.set_intros(1))
  then show ?case using Cons by simp
qed simp

text \<open>The changes come in causal order: each dependency precedes the change or is known.\<close>

fun causal :: "byte list set \<Rightarrow> gchange list \<Rightarrow> bool" where
  "causal K [] \<longleftrightarrow> True"
| "causal K (c # cs) \<longleftrightarrow> set (c_deps c) \<subseteq> K \<and> causal (insert (c_hash c) K) cs"

lemma missing_known: "missingDeps d c = [] \<longleftrightarrow> (\<forall>x \<in> set (c_deps c). known d x)"
  by (auto simp: missingDeps_def known_def filter_empty_conv)

lemma receive_changes_delivers:
  assumes "doc_ok d" "causal {h. known d h} cs" "\<forall>c \<in> set cs. hash_fixed marshal c" "distinct (List.map c_hash cs)"
    and "steps_valid change_step change_pre (doc_view d) (filter (\<lambda>c. \<not> known d (c_hash c)) cs)"
  shows "\<exists>ps d' st'. receive_changes marshal d st cs acc = (Inr ps, d', st') \<and> doc_ok d' \<and>
    (\<forall>c \<in> set cs. known d' (c_hash c)) \<and> (\<forall>h. known d h \<longrightarrow> known d' h) \<and>
    doc_view d' = foldl change_step (doc_view d) (filter (\<lambda>c. \<not> known d (c_hash c)) cs)"
  using assms
proof (induction cs arbitrary: d st acc)
  case (Cons c cs)
  show ?case
  proof (cases "known d (c_hash c)")
    case True
    then have "insert (c_hash c) {h. known d h} = {h. known d h}" by auto
    then have "causal {h. known d h} cs" using Cons.prems(2) by simp
    then show ?thesis using Cons.IH [of d "markKnown st (c_hash c)" acc] Cons.prems True by auto
  next
    case False
    have pre: "change_pre (doc_view d) c" "steps_valid change_step change_pre (change_step (doc_view d) c)
        (filter (\<lambda>c. \<not> known d (c_hash c)) cs)"
      using Cons.prems(5) False by simp_all
    obtain as d1 where a: "applyRemoteChange marshal d c = (Inr as, d1)" "doc_ok d1"
      "doc_view d1 = change_step (doc_view d) c"
      using applyRemote_ok [OF Cons.prems(1) pre(1), of marshal] Cons.prems(3) by (auto simp: hash_fixed_def)
    have k: "known d1 h \<longleftrightarrow> h = c_hash c \<or> known d h" for h
      using known_new [OF a(1)] Cons.prems(3) by auto
    have K: "{h. known d1 h} = insert (c_hash c) {h. known d h}" by (auto simp: k)
    have f: "filter (\<lambda>x. \<not> known d1 (c_hash x)) cs = filter (\<lambda>x. \<not> known d (c_hash x)) cs"
      using Cons.prems(4) by (intro filter_cong) (auto simp: k image_iff)
    have "missingDeps d c = []" using Cons.prems(2) by (auto simp: missing_known)
    moreover have "\<exists>ps d' st'. receive_changes marshal d1 (markKnown st (c_hash c)) cs (acc @ as) = (Inr ps, d', st') \<and>
        doc_ok d' \<and> (\<forall>c \<in> set cs. known d' (c_hash c)) \<and> (\<forall>h. known d1 h \<longrightarrow> known d' h) \<and>
        doc_view d' = foldl change_step (doc_view d1) (filter (\<lambda>c. \<not> known d1 (c_hash c)) cs)"
      by (rule Cons.IH [OF a(2)]) (use Cons.prems(2-4) pre(2) in \<open>simp_all add: f a(3) K\<close>)
    ultimately show ?thesis using False a(1,3) f by (auto simp: k)
  qed
qed simp


section \<open>Concrete runs\<close>

text \<open>A sender with one change, and JSON functions that know this change and this message.\<close>

definition demoBody :: "byte list" where "demoBody = [1, 2, 3]"

definition demoChange :: gchange where
  "demoChange = put_change (changeHash demoBody) ''a'' (intValue 1)"

definition demoSender :: gdoc where
  "demoSender = (newDocWithActor (replicate 16 1))\<lparr>d_changes := [demoChange], d_deps := [c_hash demoChange]\<rparr>"

definition demoUnmarshal :: "byte list \<Rightarrow> gchange option" where
  "demoUnmarshal b = (if b = demoBody then Some (demoChange\<lparr>c_hash := zeroHash\<rparr>) else None)"

lemma demo_change_ok:
  "change_pre (doc_view (newDocWithActor actor)) demoChange" "length (c_hash demoChange) = 32"
  "c_deps demoChange = []" "sealed (\<lambda>_. Some demoBody) demoUnmarshal demoChange"
  by (simp_all add: new_doc_view change_pre_def demoChange_def put_change_def a_pre_def obj_pre_def
      a_new_def sealed_def demoUnmarshal_def demoBody_def)

lemma new_known [simp]: "\<not> known (newDocWithActor actor) h"
  by (simp add: known_def newDocWithActor_def)


theorem receive_settles_every_hash_witness:
  "let m = \<lparr>m_version = messageTypeV1, m_heads = [replicate 32 5], m_need = [], m_bloom = None, m_changes = []\<rparr>;
       r = ReceiveSyncMessage (\<lambda>_. None) (\<lambda>_. None) (\<lambda>_. Some (envelope_of m)) (newDocWithActor (replicate 16 0))
             (Some newState) [messageTypeV1, 9]
   in \<exists>st'. snd (snd r) = Some st' \<and> hexEncode (replicate 32 5) |\<in>| needHashes st'"
proof -
  let ?m = "\<lparr>m_version = messageTypeV1, m_heads = [replicate 32 5], m_need = [], m_bloom = None, m_changes = []\<rparr>"
  let ?d = "newDocWithActor (replicate 16 0)"
  have dec: "decodeMessage (\<lambda>_. Some (envelope_of ?m)) (messageTypeV1 # [9]) = Inr ?m"
    using message_recovered [of "\<lambda>_. Some (envelope_of ?m)" "[9]" ?m] by (simp add: messageTypeV1_def)
  then obtain fired st' where
    r: "ReceiveSyncMessage (\<lambda>_. None) (\<lambda>_. None) (\<lambda>_. Some (envelope_of ?m)) ?d (Some newState) [messageTypeV1, 9]
        = (Inr fired, ?d, Some st')"
    by (simp add: ReceiveSyncMessage_def receive_message_def Let_def)
  show ?thesis
    unfolding Let_def r using receive_settles_every_hash [OF r dec, of "[]"] by simp
qed

theorem requested_change_is_sent_witness:
  "\<exists>st'. GenerateSyncMessage (\<lambda>_. Some demoBody) (\<lambda>_. Some [9])
       (demoSender\<lparr>d_index := [hash_String (c_hash demoChange) \<mapsto> demoChange]\<rparr>)
       (Some (receive_need (demoSender\<lparr>d_index := [hash_String (c_hash demoChange) \<mapsto> demoChange]\<rparr>)
          (markSent newState (c_hash demoChange)) (c_hash demoChange))) =
     (Some [messageTypeV1, 9], Some st')"
  using requested_change_is_sent [of demoChange "demoSender\<lparr>d_index := [hash_String (c_hash demoChange) \<mapsto> demoChange]\<rparr>"
      "\<lambda>_. Some demoBody" "encodeChange demoBody" "changeHash demoBody" "\<lambda>_. Some [9]"
      "markSent newState (c_hash demoChange)" "[9]"]
  by (simp add: known_def demoSender_def encodeChangeChunk_def Let_def)

end
