(* ===== verification/Codec_Properties.thy ===== *)
theory Codec_Properties
  imports Chunk Crdt_Ids Utf8
begin

text \<open>
  The encodings below the document: integers, identities, runs and chunks. Readers invert
  writers, and a damaged chunk is reported.
\<close>

section \<open>Integers\<close>

lemma readULEB128_loop_extend:
  "readULEB128_loop v s i xs = Inr (w, n) \<Longrightarrow>
     readULEB128_loop v s i (xs @ ys) = Inr (w, n) \<and> i < n \<and> n \<le> i + length xs"
  by (induction v s i xs rule: readULEB128_loop.induct) (force simp: Let_def split: if_splits)+

lemma readULEB128_extend:
  "readULEB128 xs = Inr (w, n) \<Longrightarrow> readULEB128 (xs @ ys) = Inr (w, n) \<and> n \<le> length xs"
  using readULEB128_loop_extend [of 0 0 0 xs w n ys] by (simp add: readULEB128_def)

text \<open>Reading what \<open>AppendULEB128\<close> wrote gives the value back, whatever follows it, and
  the count of bytes read is the count written, which is between one and ten.\<close>
theorem uleb128_roundtrip:
  "readULEB128 (appendULEB128 [] v @ rest) = Inr (v, length (appendULEB128 [] v)) \<and>
   0 < length (appendULEB128 [] v) \<and> length (appendULEB128 [] v) \<le> 10"
  using length_uleb [of v] by simp


text \<open>The zigzag map of signed deltas is a bijection between \<open>int64\<close> and \<open>uint64\<close>.\<close>
theorem zigzag_bijection:
  "zigzagDecode (zigzagEncode v) = v \<and> zigzagEncode (zigzagDecode w) = w"
  by simp

section \<open>Identities\<close>

text \<open>A reference to an element is recovered from its text, and a run-length encoded list of
  identities expands to the list it came from.\<close>
theorem identities_roundtrip:
  assumes "op_actor oid \<noteq> []" "length ids < 2 ^ 64"
  shows "parseOpIDRef (formatOpIDRef (Some oid)) = Inr (Some oid) \<and>
    parseOpIDRef (formatOpIDRef None) = Inr None \<and> expandOpIDRuns (compressOpIDRuns ids) = ids"
proof -
  have "parseOpIDRef (formatOpIDRef (Some oid)) = Inr (Some oid)"
    by (rule parseOpIDRef_format) (use assms in auto)
  moreover have "parseOpIDRef (formatOpIDRef None) = Inr None" by (rule parseOpIDRef_format) simp
  ultimately show ?thesis using expand_compress [OF assms(2)] by simp
qed

theorem identities_roundtrip_witness:
  "parseOpIDRef (formatOpIDRef (Some (OpID 7 ''ab''))) = Inr (Some (OpID 7 ''ab'')) \<and>
   expandOpIDRuns (compressOpIDRuns [OpID 7 ''ab'', OpID 8 ''ab'']) = [OpID 7 ''ab'', OpID 8 ''ab'']"
  using identities_roundtrip [of "OpID 7 ''ab''" "[OpID 7 ''ab'', OpID 8 ''ab'']"] by simp

section \<open>Chunks\<close>

lemma take_drop_parts: "xs = take n xs @ take m (drop n xs) @ drop (n + m) xs"
  by (metis append_take_drop_id drop_drop add.commute)

lemma decodeChunk_parts:
  assumes "decodeChunk data = Inr (t, body)"
  obtains n len where "data = magicBytes @ t # len @ take 4 (sha256 (hashInput t len body)) @ body"
    "\<And>rest. readULEB128 (drop 5 data @ rest) = Inr (n, length len)" "sint n = int (length body)"
proof -
  obtain n k where r: "readULEB128 (drop 5 data) = Inr (n, k)"
    and m: "take 4 data = magicBytes" "t = data ! 4" "9 \<le> length data"
    and b: "body = drop (9 + k) data" "sint n = int (length body)" "4 \<le> length (drop (5 + k) data)"
    and c: "take 4 (drop (5 + k) data) = take 4 (sha256 (hashInput t (take k (drop 5 data)) body))"
    using assms
    by (auto simp: decodeChunk_def Let_def magicBytes_def add.commute numeral_eq_Suc
        split: if_splits sum.splits prod.splits)
  let ?len = "take k (drop 5 data)"
  have "data = take 4 data @ data ! 4 # drop 5 data"
    using id_take_nth_drop [of 4 data] m(3) by simp
  also have "drop 5 data = ?len @ take 4 (drop (5 + k) data) @ body"
    using b(1) take_drop_parts [of "drop 5 data" k 4] b(3) by (simp add: add.commute)
  finally have "data = magicBytes @ t # ?len @ take 4 (sha256 (hashInput t ?len body)) @ body"
    using m c by simp
  moreover have "length ?len = k" using readULEB128_extend [OF r] by simp
  ultimately show ?thesis using that readULEB128_extend [OF r] b(2) by metis
qed

text \<open>C34. A chunk is recovered from its encoding, and every proper prefix of an encoded chunk
  is rejected with an error.\<close>
theorem chunk_roundtrip_truncation:
  assumes "length body < 2 ^ 63"
  shows "decodeChunk (encodeChunk t body) = Inr (t, body) \<and>
    (\<forall>k < length (encodeChunk t body). \<exists>e. decodeChunk (take k (encodeChunk t body)) = Inl e)"
proof (intro conjI allI impI)
  show "decodeChunk (encodeChunk t body) = Inr (t, body)" by (rule decodeChunk_encodeChunk [OF assms])
  fix k assume k: "k < length (encodeChunk t body)"
  let ?n = "word_of_nat (length body) :: uint64" and ?data = "take k (encodeChunk t body)"
  let ?sum = "take 4 (sha256 (hashInput t (uleb ?n) body))"
  show "\<exists>e. decodeChunk ?data = Inl e"
  proof (cases "decodeChunk ?data")
    case (Inr r)
    obtain t' body' where "r = (t', body')" by (cases r)
    then obtain n len where d: "?data = magicBytes @ t' # len @ take 4 (sha256 (hashInput t' len body')) @ body'"
      "\<And>rest. readULEB128 (drop 5 ?data @ rest) = Inr (n, length len)" "sint n = int (length body')"
      using decodeChunk_parts Inr by metis
    have full: "encodeChunk t body = magicBytes @ t # uleb ?n @ ?sum @ body"
      by (simp add: encodeChunk_def Let_def)
    have tail: "drop 5 (encodeChunk t body) = uleb ?n @ ?sum @ body"
      by (simp add: full magicBytes_def)
    have "5 \<le> length ?data" using arg_cong [OF d(1), of length] by (simp add: magicBytes_def)
    then have "drop 5 (encodeChunk t body) = drop 5 ?data @ drop k (encodeChunk t body)"
      by (metis append_take_drop_id drop_append diff_is_0_eq drop0)
    then have "readULEB128 (uleb ?n @ ?sum @ body) = Inr (n, length len)"
      using d(2) tail by metis
    then have "n = ?n" "length (uleb ?n) = length len" by (auto simp only: readULEB128_uleb sum.inject prod.inject)
    moreover have "sint ?n = int (length body)" by (rule sint_word_of_size [OF assms])
    ultimately have "length ?data = length (encodeChunk t body)"
      using d(3) arg_cong [OF d(1), of length] by (simp add: full)
    then show ?thesis using k by simp
  qed blast
qed

theorem chunk_roundtrip_truncation_witness:
  "decodeChunk (encodeChunk 1 [10, 20]) = Inr (1, [10, 20]) \<and>
   (\<exists>e. decodeChunk (take 3 (encodeChunk 1 [10, 20])) = Inl e)"
proof -
  have "3 < length (encodeChunk 1 [10, 20])" by (simp add: encodeChunk_def magicBytes_def Let_def)
  then show ?thesis using chunk_roundtrip_truncation [of "[10, 20]" 1] by simp
qed

section \<open>Text\<close>

text \<open>Splitting well-formed UTF-8 into characters and encoding each gives the text back, and
  splitting an encoded sequence of scalar values gives the values back.\<close>
theorem utf8_roundtrip:
  "(utf8_valid s \<longrightarrow> concat (List.map encodeRune (runes s)) = s) \<and>
   (list_all scalar rs \<longrightarrow> runes (concat (List.map encodeRune rs)) = rs)"
  using concat_encode_runes runes_encode by blast

theorem utf8_roundtrip_witness:
  "concat (List.map encodeRune (runes ''bc'')) = ''bc'' \<and>
   runes (concat (List.map encodeRune [233, 8364, 128512])) = [233, 8364, 128512]"
proof -
  have "utf8_valid ''bc''" by (simp add: utf8_valid.simps decodeRune.simps runeError_def)
  then show ?thesis
    using utf8_roundtrip [of "''bc''" "[233, 8364, 128512]"] by (simp add: scalar_def)
qed

end
