(* ===== verification/Go_Binary.thy ===== *)
theory Go_Binary
  imports Gosx_Prelude
begin

unbundle bit_operations_syntax

text \<open>
  What the code uses of \<^verbatim>\<open>encoding/binary\<close>: little-endian words of a fixed number of bytes, and
  reading a field at an offset of a packet.
\<close>

section \<open>Little-endian words\<close>

definition le_bytes :: "nat \<Rightarrow> 'a::len word \<Rightarrow> byte list" where
  "le_bytes n v = List.map (\<lambda>i. ucast (drop_bit (8 * i) v)) [0..<n]"

fun le_word :: "byte list \<Rightarrow> 'a::len word" where
  "le_word [] = 0"
| "le_word (b # bs) = ucast b OR push_bit 8 (le_word bs)"

lemma length_le_bytes [simp]: "length (le_bytes n v) = n"
  by (simp add: le_bytes_def)

lemma byte_step: "ucast (ucast x :: byte) OR push_bit 8 (take_bit n (drop_bit 8 x)) = take_bit (n + 8) (x :: 'a::len word)"
  by (rule bit_word_eqI)
    (auto simp: bit_or_iff bit_push_bit_iff bit_take_bit_iff bit_drop_bit_eq bit_ucast_iff)

lemma le_word_bytes: "le_word (List.map (\<lambda>i. ucast (drop_bit (8 * i) v)) [i..<i + n]) = take_bit (8 * n) (drop_bit (8 * i) v)"
proof (induction n arbitrary: i)
  case (Suc n)
  have "[i..<i + Suc n] = i # [Suc i..<Suc i + n]" by (simp add: upt_conv_Cons del: upt_Suc)
  then show ?case
    using Suc [of "Suc i"] byte_step [of "drop_bit (8 * i) v" "8 * n"]
    by (simp add: drop_bit_drop_bit add.commute del: upt_Suc)
qed simp

lemma le_word_inverse: "LENGTH('a) \<le> 8 * n \<Longrightarrow> le_word (le_bytes n v) = (v :: 'a::len word)"
  using le_word_bytes [of v 0 n] by (simp add: le_bytes_def take_bit_word_eq_self del: upt_Suc)

lemma le_word_bytes8 [simp]: "le_word (le_bytes 8 v) = (v :: uint64)"
  by (rule le_word_inverse) simp

lemma le_word_bytes4 [simp]: "le_word (le_bytes 4 v) = (v :: uint32)"
  by (rule le_word_inverse) simp

lemma le_word_bytes2 [simp]: "le_word (le_bytes 2 v) = (v :: 16 word)"
  by (rule le_word_inverse) simp

section \<open>Fields\<close>

text \<open>\<open>b[o : o+n]\<close> of a slice that is long enough.\<close>

definition field :: "nat \<Rightarrow> nat \<Rightarrow> byte list \<Rightarrow> byte list" where
  "field ofs n b = take n (drop ofs b)"

lemma field_here [simp]: "length x = n \<Longrightarrow> field 0 n (x @ y) = x"
  by (simp add: field_def)

lemma field_skip [simp]: "length x \<le> ofs \<Longrightarrow> field ofs n (x @ y) = field (ofs - length x) n y"
  by (simp add: field_def)

lemma field_cons [simp]: "0 < ofs \<Longrightarrow> field ofs n (b # bs) = field (ofs - 1) n bs"
  by (simp add: field_def drop_Cons')

lemma field_all [simp]: "length x = n \<Longrightarrow> field 0 n x = x"
  by (simp add: field_def)

end
