(* ===== verification/Snapshot_Writer.thy ===== *)
theory Snapshot_Writer
  imports Crdt_Change Go_Binary
begin

unbundle bit_operations_syntax

text \<open>
  The writer half of \<^verbatim>\<open>crdt/snapshot.go\<close>. A \<open>snapWriter\<close> is a buffer and three tables that
  intern strings (actors, object identities and other strings); a method takes the writer and
  gives the writer after it. A table is the Go map together with the list it indexes.

  The loop variables \<open>previousCounter\<close>, \<open>previousActor\<close>, \<open>previousID\<close> and \<open>havePrevious\<close> all come
  from the previous element and are one optional identity here.
\<close>

section \<open>Tables and the buffer\<close>

record itab =
  it_map :: "string \<rightharpoonup> uint64"
  it_list :: "string list"

record writer =
  w_buf :: "byte list"
  w_actors :: itab
  w_objects :: itab
  w_strings :: itab

definition emptyTab :: itab where "emptyTab = \<lparr>it_map = Map.empty, it_list = []\<rparr>"

definition newSnapWriter :: writer where
  "newSnapWriter = \<lparr>w_buf = [], w_actors = emptyTab, w_objects = emptyTab, w_strings = emptyTab\<rparr>"

definition intern :: "string \<Rightarrow> itab \<Rightarrow> uint64 \<times> itab" where
  "intern s t =
     (case it_map t s of
        Some index \<Rightarrow> (index, t)
      | None \<Rightarrow>
          let index = word_of_nat (length (it_list t))
          in (index, \<lparr>it_map = (it_map t)(s \<mapsto> index), it_list = it_list t @ [s]\<rparr>))"

definition actorRef :: "string \<Rightarrow> writer \<Rightarrow> uint64 \<times> writer" where
  "actorRef s w = (let (i, t) = intern s (w_actors w) in (i, w\<lparr>w_actors := t\<rparr>))"

definition objectRef :: "string \<Rightarrow> writer \<Rightarrow> uint64 \<times> writer" where
  "objectRef s w = (let (i, t) = intern s (w_objects w) in (i, w\<lparr>w_objects := t\<rparr>))"

definition stringRef :: "string \<Rightarrow> writer \<Rightarrow> uint64 \<times> writer" where
  "stringRef s w = (let (i, t) = intern s (w_strings w) in (i, w\<lparr>w_strings := t\<rparr>))"

definition wUint :: "uint64 \<Rightarrow> writer \<Rightarrow> writer" where
  "wUint v w = w\<lparr>w_buf := appendULEB128 (w_buf w) v\<rparr>"

definition wInt :: "int64 \<Rightarrow> writer \<Rightarrow> writer" where
  "wInt v w = wUint (zigzagEncode v) w"

definition wRaw :: "byte list \<Rightarrow> writer \<Rightarrow> writer" where
  "wRaw b w = w\<lparr>w_buf := w_buf w @ b\<rparr>"

definition wByte :: "byte \<Rightarrow> writer \<Rightarrow> writer" where
  "wByte b w = wRaw [b] w"

definition wCount :: "'a list \<Rightarrow> writer \<Rightarrow> writer" where
  "wCount xs w = wUint (word_of_nat (length xs)) w"

definition wBytes :: "byte list \<Rightarrow> writer \<Rightarrow> writer" where
  "wBytes b w = wRaw b (wCount b w)"

definition wStr :: "string \<Rightarrow> writer \<Rightarrow> writer" where
  "wStr s w = wRaw (bytes_of_string s) (wCount s w)"

text \<open>\<open>w.uint(w.actorRef(s))\<close> and its like.\<close>

definition wActor :: "string \<Rightarrow> writer \<Rightarrow> writer" where
  "wActor s w = (let (i, w) = actorRef s w in wUint i w)"

definition wObject :: "string \<Rightarrow> writer \<Rightarrow> writer" where
  "wObject s w = (let (i, w) = objectRef s w in wUint i w)"

definition wString :: "string \<Rightarrow> writer \<Rightarrow> writer" where
  "wString s w = (let (i, w) = stringRef s w in wUint i w)"

text \<open>A flag bit; the flag bytes of the source are built with \<open>|=\<close>.\<close>

definition flag :: "nat \<Rightarrow> bool \<Rightarrow> byte" where
  "flag n p = (if p then push_bit n 1 else 0)"

text \<open>\<open>if p { ... }\<close> around a piece of writing.\<close>

definition wWhen :: "bool \<Rightarrow> (writer \<Rightarrow> writer) \<Rightarrow> writer \<Rightarrow> writer" where
  "wWhen p f w = (if p then f w else w)"

section \<open>Values\<close>

definition writeFloat64 :: "uint64 \<Rightarrow> writer \<Rightarrow> writer" where
  "writeFloat64 f w = wRaw (le_bytes 8 f) w"

definition writeFloat32 :: "uint32 \<Rightarrow> writer \<Rightarrow> writer" where
  "writeFloat32 f w = wRaw (le_bytes 4 f) w"

definition writeTime :: "gtime option \<Rightarrow> writer \<Rightarrow> writer" where
  "writeTime t w =
     (case t of
        None \<Rightarrow> wByte 0 w
      | Some t \<Rightarrow> wUint (word_of_nat (t_nsec t)) (wInt (t_sec t) (wByte 1 w)))"

definition writeValue :: "gvalue \<Rightarrow> writer \<Rightarrow> writer" where
  "writeValue v w =
     (if v_kind v = KNull \<or> v_kind v = [] then wByte 0 w
      else if v_kind v = KBool then wByte (if v_bool v then 1 else 0) (wByte 1 w)
      else if v_kind v = KInt then wInt (v_int v) (wByte 2 w)
      else if v_kind v = KUint then wUint (v_uint v) (wByte 3 w)
      else if v_kind v = KFloat then writeFloat64 (v_float v) (wByte 4 w)
      else if v_kind v = KString then wStr (v_str v) (wByte 5 w)
      else if v_kind v = KBytes then wBytes (v_bytes v) (wByte 6 w)
      else if v_kind v = KCounter then wInt (v_counter v) (wByte 7 w)
      else if v_kind v = KTimestamp then writeTime (v_time v) (wByte 8 w)
      else if v_kind v = KMap then wObject (v_obj v) (wByte 9 w)
      else if v_kind v = KList then wObject (v_obj v) (wByte 10 w)
      else if v_kind v = KText then wObject (v_obj v) (wByte 11 w)
      else if v_kind v = KVector then
        wInt (v_bits v) (wInt (v_dim v) (writeFloat32 (v_norm v) (wBytes (v_packed v) (wByte 12 w))))
      else wStr (v_str v) (wStr (v_kind v) (wByte 0xff w)))"

section \<open>Objects\<close>

definition writeEntry :: "string \<Rightarrow> mapEntry \<Rightarrow> writer \<Rightarrow> writer" where
  "writeEntry key entry w =
     writeValue (me_value entry) (wByte (if me_deleted entry then 1 else 0)
       (wUint (op_counter (me_id entry)) (wActor (op_actor (me_id entry)) (wStr key w))))"

text \<open>A reference stored as an actor and a counter difference.\<close>

definition wRef :: "opid \<Rightarrow> uint64 \<Rightarrow> writer \<Rightarrow> writer" where
  "wRef x base w = wInt (op_counter x - base) (wActor (op_actor x) w)"

definition after_id :: "listElem \<Rightarrow> opid option" where
  "after_id e = (case parseOpIDRef (e_after e) of Inr (Some x) \<Rightarrow> Some x | _ \<Rightarrow> None)"

definition writeElem :: "opid option \<Rightarrow> listElem \<Rightarrow> writer \<Rightarrow> writer" where
  "writeElem prev e w =
     (let noAfter = (after_id e = None);
          afterPrev = (\<not> noAfter \<and> prev \<noteq> None \<and> after_id e = prev);
          visIsID = (op_actor (e_vis e) = [] \<or> e_vis e = e_id e);
          sameActor = (prev \<noteq> None \<and> op_actor (e_id e) = op_actor (the prev));
          plain = (v_kind (e_value e) = KString);
          flags = flag 0 noAfter OR flag 1 afterPrev OR flag 2 visIsID OR flag 3 sameActor OR flag 4 plain;
          w = wByte flags w;
          w = wInt (op_counter (e_id e) - (case prev of None \<Rightarrow> 0 | Some p \<Rightarrow> op_counter p)) w;
          w = wWhen (\<not> sameActor) (wActor (op_actor (e_id e))) w;
          w = wWhen (\<not> noAfter \<and> \<not> afterPrev) (wRef (the (after_id e)) (op_counter (e_id e))) w;
          w = wWhen (\<not> visIsID) (wRef (e_vis e) (op_counter (e_id e))) w
      in (if plain then wStr (v_str (e_value e)) else writeValue (e_value e)) w)"

fun write_elems_loop :: "opid option \<Rightarrow> listElem list \<Rightarrow> writer \<Rightarrow> writer" where
  "write_elems_loop prev [] w = w"
| "write_elems_loop prev (e # es) w = write_elems_loop (Some (e_id e)) es (writeElem prev e w)"

fun tomb_runs :: "bool \<Rightarrow> uint64 \<Rightarrow> listElem list \<Rightarrow> uint64 list" where
  "tomb_runs current count [] = (if count > 0 then [count] else [])"
| "tomb_runs current count (e # es) =
     (if e_deleted e = current then tomb_runs current (count + 1) es
      else count # tomb_runs (\<not> current) 1 es)"

definition writeElems :: "listElem list \<Rightarrow> writer \<Rightarrow> writer" where
  "writeElems elems w =
     (let w = write_elems_loop None elems (wCount elems w);
          runs = tomb_runs False 0 elems
      in fold wUint runs (wCount runs w))"

definition writeObject :: "crdtObject \<Rightarrow> writer \<Rightarrow> writer" where
  "writeObject t w =
     (if obj_kind t = KMap then
        let keys = sorted_list_of_fset (fmdom (obj_map t))
        in fold (\<lambda>key w. writeEntry key (the (fmlookup (obj_map t) key)) w) keys (wCount keys (wByte 0 w))
      else if obj_kind t = KList \<or> obj_kind t = KText then
        writeElems (seq_elems (obj_seq t)) (wByte (if obj_kind t = KText then 2 else 1) w)
      else wStr (obj_kind t) (wByte 0xff w))"

section \<open>Changes\<close>

definition prop_ref :: "string \<Rightarrow> opid option" where
  "prop_ref s =
     (case parseOpIDRef s of
        Inr (Some x) \<Rightarrow> if formatOpIDRef (Some x) = s then Some x else None
      | _ \<Rightarrow> None)"

definition wPropRef :: "string \<Rightarrow> uint64 \<Rightarrow> writer \<Rightarrow> writer" where
  "wPropRef s base w = (case prop_ref s of Some x \<Rightarrow> wRef x base w | None \<Rightarrow> wString s w)"

definition wRun :: "opid_run \<Rightarrow> writer \<Rightarrow> writer" where
  "wRun r w = wUint (run_count r) (wUint (run_start r) (wActor (run_actor r) w))"

definition writeOp :: "gop \<Rightarrow> writer \<Rightarrow> writer" where
  "writeOp op w =
     (let hasProp = (o_prop op \<noteq> []); propIsRef = (hasProp \<and> prop_ref (o_prop op) \<noteq> None);
          hasAfter = (o_after op \<noteq> []); afterIsRef = (hasAfter \<and> prop_ref (o_after op) \<noteq> None);
          hasRun = (o_run op \<noteq> []); hasDeletes = (o_delruns op \<noteq> []);
          hasValue = (v_kind (o_value op) \<noteq> []);
          flags = flag 0 hasProp OR flag 1 hasAfter OR flag 2 hasRun OR flag 3 hasDeletes
                  OR flag 4 hasValue OR flag 5 propIsRef OR flag 6 afterIsRef;
          w = wByte flags w;
          w = wActor (op_actor (o_id op)) w;
          w = wUint (op_counter (o_id op)) w;
          w = wString (o_action op) w;
          w = wObject (o_obj op) w;
          w = wWhen hasProp (wPropRef (o_prop op) (op_counter (o_id op))) w;
          w = wWhen hasValue (writeValue (o_value op)) w;
          w = wWhen hasAfter (wPropRef (o_after op) (op_counter (o_id op))) w;
          w = wWhen hasRun (wStr (o_run op)) w
      in wWhen hasDeletes (\<lambda>w. fold wRun (o_delruns op) (wCount (o_delruns op) w)) w)"

definition default_group :: "string \<Rightarrow> uint64 \<Rightarrow> string" where
  "default_group actor n = actor @ '':'' @ formatUint n"

definition writeDep :: "(byte list \<rightharpoonup> nat) \<Rightarrow> nat \<Rightarrow> byte list \<Rightarrow> writer \<Rightarrow> writer" where
  "writeDep index position dep w =
     (case index dep of
        Some at \<Rightarrow> if at < position then wUint (word_of_nat at + 1) w else wRaw dep (wUint 0 w)
      | None \<Rightarrow> wRaw dep (wUint 0 w))"

definition writeChange :: "(byte list \<rightharpoonup> nat) \<Rightarrow> nat \<Rightarrow> gchange \<Rightarrow> int64 \<Rightarrow> writer \<Rightarrow> writer" where
  "writeChange index position c previousTime w =
     (let isDefault = (c_group c = default_group (c_actor c) (c_seq c));
          hasMessage = (c_msg c \<noteq> []);
          w = wByte (flag 0 isDefault OR flag 1 hasMessage) w;
          w = wActor (c_actor c) w;
          w = wUint (c_seq c) w;
          w = wUint (c_start c) w;
          w = wInt (t_sec (c_time c) - previousTime) w;
          w = wUint (word_of_nat (t_nsec (c_time c))) w;
          w = wWhen hasMessage (wString (c_msg c)) w;
          w = wWhen (\<not> isDefault) (wString (c_group c)) w;
          w = fold (writeDep index position) (c_deps c) (wCount (c_deps c) w)
      in fold writeOp (c_ops c) (wCount (c_ops c) w))"

text \<open>\<open>writeChange\<close> returns the seconds of the change, the next change's \<open>previousTime\<close>.\<close>

fun write_changes :: "(byte list \<rightharpoonup> nat) \<Rightarrow> nat \<Rightarrow> gchange list \<Rightarrow> int64 \<Rightarrow> writer \<Rightarrow> writer" where
  "write_changes index i [] previousTime w = w"
| "write_changes index i (c # cs) previousTime w =
     write_changes index (Suc i) cs (t_sec (c_time c)) (writeChange index i c previousTime w)"

definition change_index :: "gchange list \<Rightarrow> byte list \<rightharpoonup> nat" where
  "change_index cs = foldl (\<lambda>m (i, c). m(c_hash c \<mapsto> i)) Map.empty (enumerate 0 cs)"

definition snapshot_body :: "gdoc \<Rightarrow> writer" where
  "snapshot_body d =
     (let w = wActor (actor_String (d_actor d)) newSnapWriter;
          w = wUint (d_maxOp d) (wUint (d_seq d) w);
          w = fold wRaw (d_deps d) (wCount (d_deps d) w);
          ids = sorted_list_of_fset (fmdom (d_objects d));
          w = fold (\<lambda>oid w. writeObject (the (fmlookup (d_objects d) oid)) (wObject oid w)) ids (wCount ids w)
      in write_changes (change_index (d_changes d)) 0 (d_changes d) 0 (wCount (d_changes d) w))"

definition snapshotVersion2 :: byte where "snapshotVersion2 = 2"

definition wTable :: "string list \<Rightarrow> writer \<Rightarrow> writer" where
  "wTable xs w = fold wStr xs (wCount xs w)"

definition encodeSnapshotV2 :: "gdoc \<Rightarrow> byte list" where
  "encodeSnapshotV2 d =
     (let body = snapshot_body d;
          w = wByte snapshotVersion2 newSnapWriter;
          w = wTable (it_list (w_strings body)) (wTable (it_list (w_objects body))
                (wTable (it_list (w_actors body)) w))
      in w_buf w @ w_buf body)"

end
