(* ===== verification/Snapshot_Reader.thy ===== *)
theory Snapshot_Reader
  imports Snapshot_Writer
begin

unbundle bit_operations_syntax

text \<open>
  The reader half of \<^verbatim>\<open>crdt/snapshot.go\<close>. A method takes the reader and gives an error, or the
  value read and the reader after it. An error message is a constructor; \<open>Panic\<close> is a slice
  access out of range, which ends the Go process instead of returning an error.
\<close>

section \<open>The reader\<close>

datatype snap_error =
    Leb leb_error | Snapshot_truncated | Length_exceeds uint64 | Table_exceeds uint64
  | Actor_range uint64 | Object_range uint64 | String_range uint64
  | Unknown_value byte | Unknown_object byte | First_previous_actor | First_previous_ref
  | Run_exceeds uint64 | Dep_range int | Bad_actor id_error | Encode_failed | Panic

record reader =
  r_buf :: "byte list"
  r_pos :: nat
  r_actors :: "string list"
  r_objects :: "string list"
  r_strings :: "string list"

type_synonym 'a read = "snap_error + 'a \<times> reader"

definition rbind :: "'a read \<Rightarrow> ('a \<Rightarrow> reader \<Rightarrow> 'b read) \<Rightarrow> 'b read" where
  "rbind m k = (case m of Inl e \<Rightarrow> Inl e | Inr (x, r) \<Rightarrow> k x r)"

definition rret :: "'a \<Rightarrow> reader \<Rightarrow> 'a read" where
  "rret x r = Inr (x, r)"

definition rUint :: "reader \<Rightarrow> uint64 read" where
  "rUint r =
     (case readULEB128 (drop (r_pos r) (r_buf r)) of
        Inl e \<Rightarrow> Inl (Leb e)
      | Inr (v, n) \<Rightarrow> Inr (v, r\<lparr>r_pos := r_pos r + n\<rparr>))"

definition rInt :: "reader \<Rightarrow> int64 read" where
  "rInt r = rbind (rUint r) (\<lambda>v. rret (zigzagDecode v))"

definition rByte :: "reader \<Rightarrow> byte read" where
  "rByte r =
     (if r_pos r \<ge> length (r_buf r) then Inl Snapshot_truncated
      else Inr (r_buf r ! r_pos r, r\<lparr>r_pos := r_pos r + 1\<rparr>))"

definition rRaw :: "int \<Rightarrow> reader \<Rightarrow> byte list read" where
  "rRaw n r =
     (if n < 0 \<or> int (r_pos r) + n > int (length (r_buf r)) then Inl Snapshot_truncated
      else Inr (take (nat n) (drop (r_pos r) (r_buf r)), r\<lparr>r_pos := r_pos r + nat n\<rparr>))"

definition rBytes :: "reader \<Rightarrow> byte list read" where
  "rBytes r = rbind (rUint r) (\<lambda>len r.
     if len > word_of_nat (length (r_buf r) - r_pos r) then Inl (Length_exceeds len)
     else rRaw (sint len) r)"

definition rStr :: "reader \<Rightarrow> string read" where
  "rStr r = rbind (rBytes r) (\<lambda>b. rret (string_of_bytes b))"

definition rActor :: "uint64 \<Rightarrow> reader \<Rightarrow> string read" where
  "rActor i r = (if i \<ge> word_of_nat (length (r_actors r)) then Inl (Actor_range i) else rret (r_actors r ! unat i) r)"

definition rObject :: "uint64 \<Rightarrow> reader \<Rightarrow> string read" where
  "rObject i r = (if i \<ge> word_of_nat (length (r_objects r)) then Inl (Object_range i) else rret (r_objects r ! unat i) r)"

definition rInterned :: "uint64 \<Rightarrow> reader \<Rightarrow> string read" where
  "rInterned i r = (if i \<ge> word_of_nat (length (r_strings r)) then Inl (String_range i) else rret (r_strings r ! unat i) r)"

text \<open>An index and its lookup, a pair of calls that recurs.\<close>

definition readActor :: "reader \<Rightarrow> string read" where "readActor r = rbind (rUint r) rActor"
definition readObjRef :: "reader \<Rightarrow> string read" where "readObjRef r = rbind (rUint r) rObject"
definition readString :: "reader \<Rightarrow> string read" where "readString r = rbind (rUint r) rInterned"

text \<open>\<open>for i := uint64(0); i < count; i++\<close>, collecting what the body reads.\<close>

fun rRepeat :: "nat \<Rightarrow> (reader \<Rightarrow> 'a read) \<Rightarrow> reader \<Rightarrow> 'a list read" where
  "rRepeat 0 m r = rret [] r"
| "rRepeat (Suc n) m r = rbind (m r) (\<lambda>x r. rbind (rRepeat n m r) (\<lambda>xs. rret (x # xs)))"

text \<open>A count, its plausibility check against the body, and the loop.\<close>

definition rCounted :: "(reader \<Rightarrow> 'a read) \<Rightarrow> reader \<Rightarrow> 'a list read" where
  "rCounted m r = rbind (rUint r) (\<lambda>count r.
     if count > word_of_nat (length (r_buf r)) then Inl (Table_exceeds count)
     else rRepeat (unat count) m r)"

section \<open>Values\<close>

definition readFloat64 :: "reader \<Rightarrow> uint64 read" where
  "readFloat64 r = rbind (rRaw 8 r) (\<lambda>raw. rret (le_word raw))"

definition readFloat32 :: "reader \<Rightarrow> uint32 read" where
  "readFloat32 r = rbind (rRaw 4 r) (\<lambda>raw. rret (le_word raw))"

text \<open>\<open>time.Unix(sec, int64(nsec))\<close> carries whole seconds out of the nanoseconds.\<close>

definition unixTime :: "int64 \<Rightarrow> uint64 \<Rightarrow> gtime" where
  "unixTime sec nsec =
     \<lparr>t_sec = sec + word_of_int (sint nsec div 1000000000), t_nsec = nat (sint nsec mod 1000000000)\<rparr>"

definition readTime :: "reader \<Rightarrow> gtime option read" where
  "readTime r = rbind (rByte r) (\<lambda>present r.
     if present = 0 then rret None r
     else rbind (rInt r) (\<lambda>sec r. rbind (rUint r) (\<lambda>nsec. rret (Some (unixTime sec nsec)))))"

definition readValue :: "reader \<Rightarrow> gvalue read" where
  "readValue r = rbind (rByte r) (\<lambda>kind r.
     if kind = 0 then rret nullValue r
     else if kind = 1 then rbind (rByte r) (\<lambda>b. rret (boolValue (b \<noteq> 0)))
     else if kind = 2 then rbind (rInt r) (\<lambda>n. rret (intValue n))
     else if kind = 3 then rbind (rUint r) (\<lambda>n. rret (uintValue n))
     else if kind = 4 then rbind (readFloat64 r) (\<lambda>f. rret (floatValue f))
     else if kind = 5 then rbind (rStr r) (\<lambda>s. rret (stringValue s))
     else if kind = 6 then rbind (rBytes r) (\<lambda>b. rret (zeroValue\<lparr>v_kind := KBytes, v_bytes := b\<rparr>))
     else if kind = 7 then rbind (rInt r) (\<lambda>n. rret (counterValue n))
     else if kind = 8 then rbind (readTime r) (\<lambda>t. rret (zeroValue\<lparr>v_kind := KTimestamp, v_time := t\<rparr>))
     else if kind = 9 then rbind (readObjRef r) (\<lambda>s. rret (mapValue s))
     else if kind = 10 then rbind (readObjRef r) (\<lambda>s. rret (listValue s))
     else if kind = 11 then rbind (readObjRef r) (\<lambda>s. rret (textValue s))
     else if kind = 12 then
       rbind (rBytes r) (\<lambda>packed r. rbind (readFloat32 r) (\<lambda>norm r. rbind (rInt r) (\<lambda>dim r. rbind (rInt r) (\<lambda>nbits.
         rret (zeroValue\<lparr>v_kind := KVector, v_packed := packed, v_norm := norm, v_dim := dim, v_bits := nbits\<rparr>)))))
     else if kind = 0xff then
       rbind (rStr r) (\<lambda>name r. rbind (rStr r) (\<lambda>txt. rret (zeroValue\<lparr>v_kind := name, v_str := txt\<rparr>)))
     else Inl (Unknown_value kind))"

section \<open>Objects\<close>

definition readEntry :: "reader \<Rightarrow> (string \<times> mapEntry) read" where
  "readEntry r = rbind (rStr r) (\<lambda>key r. rbind (readActor r) (\<lambda>actor r. rbind (rUint r) (\<lambda>counter r.
     rbind (rByte r) (\<lambda>deleted r. rbind (readValue r) (\<lambda>v.
       rret (key, \<lparr>me_value = v, me_id = OpID counter actor, me_deleted = (deleted \<noteq> 0)\<rparr>))))))"

definition readOpIDRef :: "uint64 \<Rightarrow> reader \<Rightarrow> opid read" where
  "readOpIDRef base r = rbind (readActor r) (\<lambda>actor r. rbind (rInt r) (\<lambda>delta.
     rret (OpID (base + delta) actor)))"

definition readElem :: "opid option \<Rightarrow> reader \<Rightarrow> listElem read" where
  "readElem prev r = rbind (rByte r) (\<lambda>flags r. rbind (rInt r) (\<lambda>delta r.
     let counter = (case prev of None \<Rightarrow> 0 | Some p \<Rightarrow> op_counter p) + delta in
     rbind (if flags AND 8 = 0 then readActor r
            else case prev of None \<Rightarrow> Inl First_previous_actor | Some p \<Rightarrow> rret (op_actor p) r) (\<lambda>actor r.
     rbind (if flags AND 1 \<noteq> 0 then rret [] r
            else if flags AND 2 \<noteq> 0 then
              (case prev of None \<Rightarrow> Inl First_previous_ref | Some p \<Rightarrow> rret (opid_String p) r)
            else rbind (readOpIDRef counter r) (\<lambda>x. rret (opid_String x))) (\<lambda>after r.
     rbind (if flags AND 4 = 0 then readOpIDRef counter r else rret (OpID counter actor) r) (\<lambda>vis r.
     rbind (if flags AND 16 \<noteq> 0 then rbind (rStr r) (\<lambda>s. rret (stringValue s)) else readValue r) (\<lambda>v.
       rret \<lparr>e_id = OpID counter actor, e_after = after, e_value = v, e_deleted = False, e_vis = vis\<rparr>))))))"

fun read_elems_loop :: "nat \<Rightarrow> opid option \<Rightarrow> reader \<Rightarrow> listElem list read" where
  "read_elems_loop 0 prev r = rret [] r"
| "read_elems_loop (Suc n) prev r = rbind (readElem prev r) (\<lambda>e r.
     rbind (read_elems_loop n (Some (e_id e)) r) (\<lambda>es. rret (e # es)))"

text \<open>
  The tombstone runs, read one at a time: the elements passed so far and the ones left. A run
  of deleted elements marks them.
\<close>

fun read_tombs :: "nat \<Rightarrow> bool \<Rightarrow> listElem list \<Rightarrow> listElem list \<Rightarrow> reader \<Rightarrow> listElem list read" where
  "read_tombs 0 deleted sofar rest r = rret (sofar @ rest) r"
| "read_tombs (Suc n) deleted sofar rest r = rbind (rUint r) (\<lambda>run r.
     if run > word_of_nat (length rest) then Inl (Run_exceeds run)
     else
       let k = unat run; here = take k rest;
           here = (if deleted then List.map (\<lambda>e. e\<lparr>e_deleted := True\<rparr>) here else here)
       in read_tombs n (\<not> deleted) (sofar @ here) (drop k rest) r)"

definition readElems :: "reader \<Rightarrow> listElem list read" where
  "readElems r = rbind (rUint r) (\<lambda>count r.
     if count > word_of_nat (length (r_buf r)) then Inl (Table_exceeds count)
     else rbind (read_elems_loop (unat count) None r) (\<lambda>elems r. rbind (rUint r) (\<lambda>runCount r.
       if runCount > word_of_nat (length (r_buf r)) then Inl (Table_exceeds runCount)
       else read_tombs (unat runCount) False [] elems r)))"

definition readObject :: "reader \<Rightarrow> crdtObject read" where
  "readObject r = rbind (rByte r) (\<lambda>kind r.
     if kind = 0 then rbind (rCounted readEntry r) (\<lambda>entries.
       rret (newMapObject\<lparr>obj_map := foldl (\<lambda>m (k, e). fmupd k e m) fmempty entries\<rparr>))
     else if kind = 1 \<or> kind = 2 then rbind (readElems r) (\<lambda>elems.
       let t = newListObject (if kind = 2 then KText else KList)
       in rret (t\<lparr>obj_seq := seq_reset (obj_seq t) elems\<rparr>))
     else if kind = 0xff then rbind (rStr r) (\<lambda>name. rret \<lparr>obj_kind = name, obj_map = fmempty, obj_seq = newSeq\<rparr>)
     else Inl (Unknown_object kind))"

section \<open>Changes\<close>

definition readRun :: "reader \<Rightarrow> opid_run read" where
  "readRun r = rbind (readActor r) (\<lambda>actor r. rbind (rUint r) (\<lambda>start r. rbind (rUint r) (\<lambda>count.
     rret \<lparr>run_actor = actor, run_start = start, run_count = count\<rparr>)))"

definition readPropRef :: "bool \<Rightarrow> uint64 \<Rightarrow> reader \<Rightarrow> string read" where
  "readPropRef isRef base r =
     (if isRef then rbind (readOpIDRef base r) (\<lambda>x. rret (opid_String x)) else readString r)"

definition readOp :: "reader \<Rightarrow> gop read" where
  "readOp r = rbind (rByte r) (\<lambda>flags r. rbind (readActor r) (\<lambda>actor r. rbind (rUint r) (\<lambda>counter r.
     rbind (readString r) (\<lambda>action r. rbind (readObjRef r) (\<lambda>obj r.
     rbind (if flags AND 1 \<noteq> 0 then readPropRef (flags AND 32 \<noteq> 0) counter r else rret [] r) (\<lambda>p r.
     rbind (if flags AND 16 \<noteq> 0 then readValue r else rret zeroValue r) (\<lambda>v r.
     rbind (if flags AND 2 \<noteq> 0 then readPropRef (flags AND 64 \<noteq> 0) counter r else rret [] r) (\<lambda>after r.
     rbind (if flags AND 4 \<noteq> 0 then rStr r else rret [] r) (\<lambda>run r.
     rbind (if flags AND 8 \<noteq> 0 then rCounted readRun r else rret [] r) (\<lambda>deletes.
       rret \<lparr>o_id = OpID counter actor, o_action = action, o_obj = obj, o_prop = p, o_value = v,
         o_after = after, o_run = run, o_delruns = deletes\<rparr>))))))))))"

text \<open>
  A dependency: zero and the raw hash, or an index plus one. \<open>int(ref - 1)\<close> is negative for an
  index from \<open>2 ^ 63\<close> on; it passes the range check and the slice access panics.
\<close>

definition readDep :: "gchange list \<Rightarrow> reader \<Rightarrow> byte list read" where
  "readDep existing r = rbind (rUint r) (\<lambda>ref r.
     if ref = 0 then rRaw 32 r
     else
       let at = sint (ref - 1) in
       if at \<ge> int (length existing) then Inl (Dep_range at)
       else if at < 0 then Inl Panic
       else rret (c_hash (existing ! nat at)) r)"

definition readChange :: "gchange list \<Rightarrow> int64 \<Rightarrow> reader \<Rightarrow> (gchange \<times> int64) read" where
  "readChange existing previousTime r =
     rbind (rByte r) (\<lambda>flags r. rbind (readActor r) (\<lambda>actor r. rbind (rUint r) (\<lambda>sq r. rbind (rUint r) (\<lambda>startOp r.
     rbind (rInt r) (\<lambda>delta r. rbind (rUint r) (\<lambda>nanos r.
     rbind (if flags AND 2 \<noteq> 0 then readString r else rret [] r) (\<lambda>msg r.
     rbind (if flags AND 1 \<noteq> 0 then rret (default_group actor sq) r else readString r) (\<lambda>grp r.
     rbind (rCounted (readDep existing) r) (\<lambda>deps r.
     rbind (rCounted readOp r) (\<lambda>ops.
       let seconds = previousTime + delta in
       rret (\<lparr>c_hash = zeroHash, c_actor = actor, c_seq = sq, c_deps = deps, c_start = startOp,
         c_time = unixTime seconds nanos, c_msg = msg, c_group = grp, c_ops = ops\<rparr>, seconds)))))))))))"

text \<open>The loop over the changes recomputes each hash; the changes so far are \<open>sofar\<close>.\<close>

fun read_changes ::
  "(gchange \<Rightarrow> byte list option) \<Rightarrow> nat \<Rightarrow> gchange list \<Rightarrow> int64 \<Rightarrow> reader \<Rightarrow> gchange list read" where
  "read_changes marshal 0 sofar previousTime r = rret sofar r"
| "read_changes marshal (Suc n) sofar previousTime r =
     rbind (readChange sofar previousTime r) (\<lambda>(c, seconds) r.
       case encodeChangeChunk marshal c of
         None \<Rightarrow> Inl Encode_failed
       | Some (_, hash) \<Rightarrow> read_changes marshal n (sofar @ [c\<lparr>c_hash := hash\<rparr>]) seconds r)"

definition readBody ::
  "(gchange \<Rightarrow> byte list option) \<Rightarrow> reader \<Rightarrow> gdoc read" where
  "readBody marshal r =
     rbind (readActor r) (\<lambda>actorHex r.
     case parseActorID actorHex of
       Inl e \<Rightarrow> Inl (Bad_actor e)
     | Inr actor \<Rightarrow>
     rbind (rUint r) (\<lambda>sq r. rbind (rUint r) (\<lambda>maxOp r.
     rbind (rCounted (rRaw 32) r) (\<lambda>deps r.
     rbind (rCounted (\<lambda>r. rbind (readObjRef r) (\<lambda>oid r. rbind (readObject r) (\<lambda>t. rret (oid, t)))) r) (\<lambda>objs r.
     let objects = foldl (\<lambda>m (k, t). fmupd k t m) fmempty objs;
         objects = (if fmlookup objects rootID = None then fmupd rootID newMapObject objects else objects) in
     rbind (rUint r) (\<lambda>count r.
     if count > word_of_nat (length (r_buf r)) then Inl (Table_exceeds count)
     else rbind (read_changes marshal (unat count) [] 0 r) (\<lambda>changes.
       rret ((newDocWithActor actor)\<lparr>d_seq := sq, d_maxOp := maxOp, d_deps := deps, d_objects := objects,
         d_changes := changes,
         d_index := foldl (\<lambda>m c. m(hash_String (c_hash c) \<mapsto> c)) Map.empty changes\<rparr>))))))))"

definition decodeSnapshotV2 :: "(gchange \<Rightarrow> byte list option) \<Rightarrow> byte list \<Rightarrow> snap_error + gdoc" where
  "decodeSnapshotV2 marshal body =
     (let r = \<lparr>r_buf = body, r_pos = 1, r_actors = [], r_objects = [], r_strings = []\<rparr> in
      map_sum id fst
        (rbind (rCounted rStr r) (\<lambda>actors r. let r = r\<lparr>r_actors := actors\<rparr> in
         rbind (rCounted rStr r) (\<lambda>objects r. let r = r\<lparr>r_objects := objects\<rparr> in
         rbind (rCounted rStr r) (\<lambda>strs r. let r = r\<lparr>r_strings := strs\<rparr> in
         readBody marshal r)))))"

end
