(* ===== verification/Snapshot_Codec.thy ===== *)
theory Snapshot_Codec
  imports Snapshot_Reader
begin

unbundle bit_operations_syntax

text \<open>
  The calculus in which the snapshot round trip is proved. \<open>codec T n w w' m x\<close> says that a
  piece of the writer takes the writer from \<open>w\<close> to \<open>w'\<close>, adding at least \<open>n\<close> bytes, and that the
  reader \<open>m\<close>, run on those bytes with the tables of \<open>T\<close>, reads \<open>x\<close> and stops where they end. The
  tables only grow, so an index written early means the same string in the final tables.
\<close>

section \<open>Tables\<close>

definition tab_sub :: "itab \<Rightarrow> itab \<Rightarrow> bool" where
  "tab_sub t t' \<longleftrightarrow> (\<forall>s i. it_map t s = Some i \<longrightarrow> it_map t' s = Some i)"

definition wsub :: "writer \<Rightarrow> writer \<Rightarrow> bool" where
  "wsub w w' \<longleftrightarrow> tab_sub (w_actors w) (w_actors w') \<and> tab_sub (w_objects w) (w_objects w') \<and>
     tab_sub (w_strings w) (w_strings w')"

definition itab_ok :: "itab \<Rightarrow> bool" where
  "itab_ok t \<longleftrightarrow> length (it_list t) < 2 ^ 63 \<and>
     (\<forall>s i. it_map t s = Some i \<longrightarrow> unat i < length (it_list t) \<and> it_list t ! unat i = s)"

definition tabs_ok :: "writer \<Rightarrow> bool" where
  "tabs_ok T \<longleftrightarrow> itab_ok (w_actors T) \<and> itab_ok (w_objects T) \<and> itab_ok (w_strings T)"

text \<open>What interning keeps: each index is the position of its string.\<close>

definition itab_inv :: "itab \<Rightarrow> bool" where
  "itab_inv t \<longleftrightarrow> (\<forall>s i. it_map t s = Some i \<longrightarrow>
     (\<exists>n < length (it_list t). i = word_of_nat n \<and> it_list t ! n = s))"

definition winv :: "writer \<Rightarrow> bool" where
  "winv w \<longleftrightarrow> itab_inv (w_actors w) \<and> itab_inv (w_objects w) \<and> itab_inv (w_strings w)"

lemma itab_inv_ok: "itab_inv t \<Longrightarrow> length (it_list t) < 2 ^ 63 \<Longrightarrow> itab_ok t"
  by (fastforce simp: itab_inv_def itab_ok_def)

lemma intern_inv:
  assumes "itab_inv t"
  shows "itab_inv (snd (intern s t))"
proof (cases "it_map t s")
  case None
  have "\<exists>n < Suc (length (it_list t)). i = word_of_nat n \<and> (it_list t @ [s]) ! n = x"
    if "it_map t x = Some i" for x i
    using assms that unfolding itab_inv_def by (metis less_SucI nth_append)
  then show ?thesis using None by (auto simp: intern_def itab_inv_def Let_def nth_append)
qed (use assms in \<open>simp add: intern_def\<close>)

lemma tab_sub_trans: "tab_sub a b \<Longrightarrow> tab_sub b c \<Longrightarrow> tab_sub a c"
  by (simp add: tab_sub_def)

lemma tab_sub_refl [simp]: "tab_sub t t"
  by (simp add: tab_sub_def)

lemma wsub_refl [simp]: "wsub w w"
  by (simp add: wsub_def)

lemma wsub_trans: "wsub a b \<Longrightarrow> wsub b c \<Longrightarrow> wsub a c"
  unfolding wsub_def using tab_sub_trans by blast

lemma intern_sub: "tab_sub t (snd (intern s t))" "it_map (snd (intern s t)) s = Some (fst (intern s t))"
  by (auto simp: intern_def tab_sub_def Let_def split: option.splits)

section \<open>The codec relation\<close>

definition rd_at :: "writer \<Rightarrow> byte list \<Rightarrow> byte list \<Rightarrow> reader" where
  "rd_at T pre post = \<lparr>r_buf = pre @ post, r_pos = length pre, r_actors = it_list (w_actors T),
     r_objects = it_list (w_objects T), r_strings = it_list (w_strings T)\<rparr>"

definition codec :: "writer \<Rightarrow> nat \<Rightarrow> writer \<Rightarrow> writer \<Rightarrow> (reader \<Rightarrow> 'a read) \<Rightarrow> 'a \<Rightarrow> bool" where
  "codec T n w w' m x \<longleftrightarrow> wsub w w' \<and> (winv w \<longrightarrow> winv w') \<and>
     (tabs_ok T \<and> wsub w' T \<longrightarrow>
       (\<exists>bs. w_buf w' = w_buf w @ bs \<and> n \<le> length bs \<and>
         (\<forall>pre post. length pre + length bs + length post < 2 ^ 63 \<longrightarrow>
            m (rd_at T pre (bs @ post)) = Inr (x, rd_at T (pre @ bs) post))))"

lemma rd_at_sel [simp]:
  "r_buf (rd_at T pre post) = pre @ post" "r_pos (rd_at T pre post) = length pre"
  "r_actors (rd_at T pre post) = it_list (w_actors T)"
  "r_objects (rd_at T pre post) = it_list (w_objects T)"
  "r_strings (rd_at T pre post) = it_list (w_strings T)"
  by (simp_all add: rd_at_def)

lemma rd_at_advance: "length bs = n \<Longrightarrow> (rd_at T pre (bs @ post))\<lparr>r_pos := length pre + n\<rparr> = rd_at T (pre @ bs) post"
  by (simp add: rd_at_def)

lemma rbind_simps [simp]: "rbind (Inr (x, r)) k = k x r" "rbind (Inl e) k = Inl e"
  by (simp_all add: rbind_def)

lemma rret_eq [simp]: "rret x r = Inr (x, r)"
  by (simp add: rret_def)

lemma codecI:
  assumes "wsub w w'" "winv w \<Longrightarrow> winv w'"
    and "tabs_ok T \<Longrightarrow> wsub w' T \<Longrightarrow> w_buf w' = w_buf w @ bs"
    and "tabs_ok T \<Longrightarrow> wsub w' T \<Longrightarrow> n \<le> length bs"
    and "\<And>pre post. tabs_ok T \<Longrightarrow> wsub w' T \<Longrightarrow> length pre + length bs + length post < 2 ^ 63 \<Longrightarrow>
      m (rd_at T pre (bs @ post)) = Inr (x, rd_at T (pre @ bs) post)"
  shows "codec T n w w' m x"
  using assms unfolding codec_def by blast

lemma codecE:
  assumes "codec T n w w' m x" "tabs_ok T" "wsub w' T"
  obtains bs where "w_buf w' = w_buf w @ bs" "n \<le> length bs"
    "\<And>pre post. length pre + length bs + length post < 2 ^ 63 \<Longrightarrow>
      m (rd_at T pre (bs @ post)) = Inr (x, rd_at T (pre @ bs) post)"
  using assms unfolding codec_def by blast

lemma codec_sub: "codec T n w w' m x \<Longrightarrow> wsub w w'"
  by (simp add: codec_def)

lemma codec_inv: "codec T n w w' m x \<Longrightarrow> winv w \<Longrightarrow> winv w'"
  by (simp add: codec_def)

lemma codec_ret: "codec T 0 w w (rret x) x"
  by (rule codecI [where bs = "[]"]) simp_all

lemma codec_bind:
  assumes "codec T n w w1 m x" "codec T n' w1 w2 (k x) y"
  shows "codec T (n + n') w w2 (\<lambda>r. rbind (m r) k) y"
proof -
  have sub: "wsub w w1" "wsub w1 w2" by (rule codec_sub [OF assms(1)], rule codec_sub [OF assms(2)])
  have inv: "winv w \<Longrightarrow> winv w2" using codec_inv [OF assms(1)] codec_inv [OF assms(2)] by blast
  show ?thesis
  proof (cases "tabs_ok T \<and> wsub w2 T")
    case True
    then have T: "tabs_ok T" "wsub w1 T" "wsub w2 T" using sub wsub_trans by blast+
    obtain b1 where b1: "w_buf w1 = w_buf w @ b1" "n \<le> length b1"
      "\<And>pre post. length pre + length b1 + length post < 2 ^ 63 \<Longrightarrow>
        m (rd_at T pre (b1 @ post)) = Inr (x, rd_at T (pre @ b1) post)"
      using codecE [OF assms(1) T(1,2)] by blast
    obtain b2 where b2: "w_buf w2 = w_buf w1 @ b2" "n' \<le> length b2"
      "\<And>pre post. length pre + length b2 + length post < 2 ^ 63 \<Longrightarrow>
        k x (rd_at T pre (b2 @ post)) = Inr (y, rd_at T (pre @ b2) post)"
      using codecE [OF assms(2) T(1,3)] by blast
    show ?thesis
    proof (rule codecI [where bs = "b1 @ b2"])
      fix pre post :: "byte list" assume "length pre + length (b1 @ b2) + length post < 2 ^ 63"
      then show "rbind (m (rd_at T pre ((b1 @ b2) @ post))) k = Inr (y, rd_at T (pre @ b1 @ b2) post)"
        using b1(3) [of pre "b2 @ post"] b2(3) [of "pre @ b1" post] by simp
    qed (use b1 b2 sub wsub_trans inv in auto)
  next
    case False
    then show ?thesis using sub wsub_trans inv by (auto simp: codec_def)
  qed
qed

lemma codec_map:
  assumes "codec T n w w' m x"
  shows "codec T n w w' (\<lambda>r. rbind (m r) (\<lambda>v. rret (f v))) (f x)"
proof -
  have "codec T (n + 0) w w' (\<lambda>r. rbind (m r) (\<lambda>v. rret (f v))) (f x)"
    by (rule codec_bind [OF assms]) (rule codec_ret)
  then show ?thesis by simp
qed

lemma codec_weaken: "codec T n w w' m x \<Longrightarrow> n' \<le> n \<Longrightarrow> codec T n' w w' m x"
  unfolding codec_def by (meson order_trans)

lemma codec_if:
  assumes "p \<Longrightarrow> codec T n w w1 m1 x" "\<not> p \<Longrightarrow> codec T n w w2 m2 x"
  shows "codec T n w (if p then w1 else w2) (\<lambda>r. if p then m1 r else m2 r) x"
  using assms by (cases p) simp_all

text \<open>A count, its check against the length of the body, and what follows.\<close>

lemma codec_count:
  assumes "codec T n (wCount xs w) w' (k (length xs)) y" "length xs \<le> n"
  shows "codec T (Suc n) w w' (\<lambda>r. rbind (rUint r) (\<lambda>c r.
    if c > word_of_nat (length (r_buf r)) then Inl (e c) else k (unat c) r)) y"
proof (cases "tabs_ok T \<and> wsub w' T")
  case True
  let ?c = "word_of_nat (length xs) :: uint64"
  obtain bs where bs: "w_buf w' = w_buf (wCount xs w) @ bs" "n \<le> length bs"
    "\<And>pre post. length pre + length bs + length post < 2 ^ 63 \<Longrightarrow>
      k (length xs) (rd_at T pre (bs @ post)) = Inr (y, rd_at T (pre @ bs) post)"
    using codecE [OF assms(1)] True by blast
  show ?thesis
  proof (rule codecI [where bs = "uleb ?c @ bs"])
    show "wsub w w'" "winv w \<Longrightarrow> winv w'"
      using assms(1) by (simp_all add: codec_def wCount_def wUint_def wsub_def winv_def)
    show "w_buf w' = w_buf w @ uleb ?c @ bs"
      using bs(1) by (simp add: wCount_def wUint_def appendULEB128_append [of "w_buf w"])
    show "Suc n \<le> length (uleb ?c @ bs)" using bs(2) uleb_not_Nil [of ?c] by (cases "uleb ?c") auto
    fix pre post :: "byte list" assume len: "length pre + length (uleb ?c @ bs) + length post < 2 ^ 63"
    then have "length xs < 2 ^ 63" using assms(2) bs(2) by simp
    then have c: "unat ?c = length xs" by (intro unat_word_of_size) simp
    let ?L = "length (pre @ (uleb ?c @ bs) @ post)"
    have "\<not> ?c > word_of_nat ?L"
      using len assms(2) bs(2) c unat_word_of_size [of ?L] by (simp add: word_less_nat_alt)
    then show "rbind (rUint (rd_at T pre ((uleb ?c @ bs) @ post))) (\<lambda>c r.
        if c > word_of_nat (length (r_buf r)) then Inl (e c) else k (unat c) r) = Inr (y, rd_at T (pre @ uleb ?c @ bs) post)"
      using bs(3) [of "pre @ uleb ?c" post] len c by (simp add: rUint_def rd_at_advance)
  qed
next
  case False
  then show ?thesis using assms(1) by (auto simp: codec_def wCount_def wUint_def wsub_def winv_def)
qed

section \<open>Leaves\<close>

lemma codec_uint: "codec T 1 w (wUint v w) rUint v"
proof (rule codecI [where bs = "uleb v"])
  show "1 \<le> length (uleb v)" using uleb_not_Nil [of v] by (cases "uleb v") auto
qed (simp_all add: wUint_def wsub_def winv_def rUint_def rd_at_advance appendULEB128_append [of "w_buf w"])

lemma codec_int: "codec T 1 w (wInt v w) rInt v"
  using codec_map [OF codec_uint, of T w "zigzagEncode v" zigzagDecode] unfolding rInt_def wInt_def by simp

lemma codec_byte: "codec T 1 w (wByte b w) rByte b"
  by (rule codecI [where bs = "[b]"]) (simp_all add: wByte_def wRaw_def wsub_def winv_def rByte_def rd_at_def nth_append)

lemma codec_raw: "length b = n \<Longrightarrow> codec T n w (wRaw b w) (rRaw (int n)) b"
  by (rule codecI [where bs = b]) (simp_all add: wRaw_def wsub_def winv_def rRaw_def rd_at_advance)

lemma codec_bytes: "codec T (Suc (length b)) w (wBytes b w) rBytes b"
proof (rule codecI [where bs = "uleb (word_of_nat (length b)) @ b"])
  let ?c = "word_of_nat (length b) :: uint64"
  show "Suc (length b) \<le> length (uleb ?c @ b)" using uleb_not_Nil [of ?c] by (cases "uleb ?c") auto
  fix pre post :: "byte list" assume len: "length pre + length (uleb ?c @ b) + length post < 2 ^ 63"
  have c: "sint ?c = int (length b)" using len by (intro sint_word_of_size) simp
  have "\<not> ?c > word_of_nat (length (b @ post))"
    using len unat_word_of_size [of "length b"] unat_word_of_size [of "length (b @ post)"]
    by (simp add: word_less_nat_alt)
  then show "rBytes (rd_at T pre ((uleb ?c @ b) @ post)) = Inr (b, rd_at T (pre @ uleb ?c @ b) post)"
    using c rd_at_advance [of "uleb ?c" _ pre T "b @ post"] rd_at_advance [of b _ "pre @ uleb ?c" T post]
    by (simp add: rBytes_def rUint_def rRaw_def)
qed (simp_all add: wBytes_def wCount_def wUint_def wRaw_def wsub_def winv_def appendULEB128_append [of "w_buf w"])

lemma codec_str: "codec T (Suc (length s)) w (wStr s w) rStr s"
proof -
  have l: "length (bytes_of_string s) = length s" by (simp add: bytes_of_string_def)
  then have "wStr s w = wBytes (bytes_of_string s) w" by (simp add: wStr_def wBytes_def wCount_def)
  then show ?thesis
    using codec_map [OF codec_bytes, of T "bytes_of_string s" w string_of_bytes]
    unfolding rStr_def by (simp only: l string_of_bytes_of_string)
qed

declare rret_eq [simp del]

end
