(* ===== verification/Snapshot_Values.thy ===== *)
theory Snapshot_Values
  imports Snapshot_Codec
begin

unbundle bit_operations_syntax

text \<open>
  Reading inverts writing for the leaves of a snapshot: interned strings, references, values,
  map entries and list elements with their tombstones.
\<close>

section \<open>Interned strings and references\<close>

lemma index_lookup:
  assumes "itab_ok t" "it_map t s = Some i"
  shows "\<not> i \<ge> word_of_nat (length (it_list t))" "it_list t ! unat i = s"
proof -
  have "length (it_list t) < 2 ^ 63" "unat i < length (it_list t)" "it_list t ! unat i = s"
    using assms unfolding itab_ok_def by blast+
  then show "\<not> i \<ge> word_of_nat (length (it_list t))" "it_list t ! unat i = s"
    using unat_word_of_size [of "length (it_list t)"] by (simp_all add: word_le_nat_alt)
qed

lemma codec_index:
  assumes "w' = wUint i w1" "w_buf w1 = w_buf w" "wsub w w1" "winv w \<Longrightarrow> winv w1"
    and "\<And>pre post. tabs_ok T \<Longrightarrow> wsub w1 T \<Longrightarrow> look i (rd_at T pre post) = Inr (s, rd_at T pre post)"
  shows "codec T 1 w w' (\<lambda>r. rbind (rUint r) look) s"
proof (rule codecI [where bs = "uleb i"])
  show "1 \<le> length (uleb i)" using uleb_not_Nil [of i] by (cases "uleb i") auto
  fix pre post :: "byte list" assume "tabs_ok T" "wsub w' T"
  then have "look i (rd_at T (pre @ uleb i) post) = Inr (s, rd_at T (pre @ uleb i) post)"
    using assms(1,5) by (simp add: wUint_def wsub_def)
  then show "rbind (rUint (rd_at T pre (uleb i @ post))) look = Inr (s, rd_at T (pre @ uleb i) post)"
    by (simp add: rUint_def rd_at_advance)
qed (use assms(1-4) in \<open>simp_all add: wUint_def wsub_def winv_def appendULEB128_append [of "w_buf w"]\<close>)

lemma codec_actor: "codec T 1 w (wActor s w) readActor s"
proof -
  obtain i t where i: "intern s (w_actors w) = (i, t)" by (cases "intern s (w_actors w)")
  then have t: "tab_sub (w_actors w) t" "it_map t s = Some i"
    using intern_sub [where s = s and t = "w_actors w"] by simp_all
  have inv: "winv w \<Longrightarrow> winv (w\<lparr>w_actors := t\<rparr>)"
    using intern_inv [of "w_actors w" s] i by (simp add: winv_def)
  show ?thesis
    unfolding readActor_def
  proof (rule codec_index)
    show "wActor s w = wUint i (w\<lparr>w_actors := t\<rparr>)" by (simp add: wActor_def actorRef_def i)
    fix pre post assume "tabs_ok T" "wsub (w\<lparr>w_actors := t\<rparr>) T"
    then have "itab_ok (w_actors T)" "it_map (w_actors T) s = Some i"
      using t(2) by (auto simp: tabs_ok_def wsub_def tab_sub_def)
    from index_lookup [OF this] show "rActor i (rd_at T pre post) = Inr (s, rd_at T pre post)"
      by (simp add: rActor_def rret_eq)
  qed (use t(1) inv in \<open>simp_all add: wsub_def\<close>)
qed

lemma codec_object: "codec T 1 w (wObject s w) readObjRef s"
proof -
  obtain i t where i: "intern s (w_objects w) = (i, t)" by (cases "intern s (w_objects w)")
  then have t: "tab_sub (w_objects w) t" "it_map t s = Some i"
    using intern_sub [where s = s and t = "w_objects w"] by simp_all
  have inv: "winv w \<Longrightarrow> winv (w\<lparr>w_objects := t\<rparr>)"
    using intern_inv [of "w_objects w" s] i by (simp add: winv_def)
  show ?thesis
    unfolding readObjRef_def
  proof (rule codec_index)
    show "wObject s w = wUint i (w\<lparr>w_objects := t\<rparr>)" by (simp add: wObject_def objectRef_def i)
    fix pre post assume "tabs_ok T" "wsub (w\<lparr>w_objects := t\<rparr>) T"
    then have "itab_ok (w_objects T)" "it_map (w_objects T) s = Some i"
      using t(2) by (auto simp: tabs_ok_def wsub_def tab_sub_def)
    from index_lookup [OF this] show "rObject i (rd_at T pre post) = Inr (s, rd_at T pre post)"
      by (simp add: rObject_def rret_eq)
  qed (use t(1) inv in \<open>simp_all add: wsub_def\<close>)
qed

lemma codec_string: "codec T 1 w (wString s w) readString s"
proof -
  obtain i t where i: "intern s (w_strings w) = (i, t)" by (cases "intern s (w_strings w)")
  then have t: "tab_sub (w_strings w) t" "it_map t s = Some i"
    using intern_sub [where s = s and t = "w_strings w"] by simp_all
  have inv: "winv w \<Longrightarrow> winv (w\<lparr>w_strings := t\<rparr>)"
    using intern_inv [of "w_strings w" s] i by (simp add: winv_def)
  show ?thesis
    unfolding readString_def
  proof (rule codec_index)
    show "wString s w = wUint i (w\<lparr>w_strings := t\<rparr>)" by (simp add: wString_def stringRef_def i)
    fix pre post assume "tabs_ok T" "wsub (w\<lparr>w_strings := t\<rparr>) T"
    then have "itab_ok (w_strings T)" "it_map (w_strings T) s = Some i"
      using t(2) by (auto simp: tabs_ok_def wsub_def tab_sub_def)
    from index_lookup [OF this] show "rInterned i (rd_at T pre post) = Inr (s, rd_at T pre post)"
      by (simp add: rInterned_def rret_eq)
  qed (use t(1) inv in \<open>simp_all add: wsub_def\<close>)
qed

lemma codec_ref: "codec T 2 w (wRef x base w) (readOpIDRef base) x"
proof -
  have "codec T (1 + 1) w (wRef x base w) (readOpIDRef base) (OpID (base + (op_counter x - base)) (op_actor x))"
    unfolding wRef_def readOpIDRef_def
    by (rule codec_bind [OF codec_actor], rule codec_map [OF codec_int])
  then show ?thesis by (simp add: numeral_2_eq_2)
qed

text \<open>A tag byte selects the branch of the reader; \<open>tagged b m\<close> is what is left to show.\<close>

lemma codec_tagged:
  assumes "codec T n (wByte b w) w' m x" "\<And>r. k b r = m r"
  shows "codec T 1 w w' (\<lambda>r. rbind (rByte r) k) x"
proof -
  have "k b = m" using assms(2) by (rule ext)
  then have "codec T (1 + n) w w' (\<lambda>r. rbind (rByte r) k) x"
    using codec_bind [OF codec_byte [where b = b], of T n w w' k x] assms(1) by simp
  then show ?thesis by (rule codec_weaken) simp
qed

section \<open>Floats and times\<close>

lemma codec_float64: "codec T 8 w (writeFloat64 f w) readFloat64 f"
  using codec_map [OF codec_raw [of "le_bytes 8 f" 8 T w], of "le_word :: byte list \<Rightarrow> uint64"]
  unfolding readFloat64_def writeFloat64_def by simp

lemma codec_float32: "codec T 4 w (writeFloat32 f w) readFloat32 f"
  using codec_map [OF codec_raw [of "le_bytes 4 f" 4 T w], of "le_word :: byte list \<Rightarrow> uint32"]
  unfolding readFloat32_def writeFloat32_def by simp

lemma unixTime_small: "n < 1000000000 \<Longrightarrow> unixTime s (word_of_nat n) = \<lparr>t_sec = s, t_nsec = n\<rparr>"
  using sint_word_of_size [of n] by (simp add: unixTime_def)

definition canon_time :: "gtime option \<Rightarrow> gtime option" where
  "canon_time t = map_option (\<lambda>t. unixTime (t_sec t) (word_of_nat (t_nsec t))) t"

lemma codec_time: "codec T 1 w (writeTime t w) readTime (canon_time t)"
proof (cases t)
  case None
  then show ?thesis unfolding readTime_def writeTime_def canon_time_def
    by (simp only: option.case option.map, intro codec_tagged [where b = 0]) (rule codec_ret, simp)
next
  case (Some g)
  then show ?thesis unfolding readTime_def writeTime_def canon_time_def
    by (simp only: option.case option.map, intro codec_tagged [where b = 1])
      (rule codec_bind [OF codec_int], rule codec_map [OF codec_uint], simp)
qed

section \<open>Values\<close>

text \<open>What a value reads back as: the field of its kind; the empty kind becomes null.\<close>

definition canon_value :: "gvalue \<Rightarrow> gvalue" where
  "canon_value v =
     (if v_kind v = KNull \<or> v_kind v = [] then nullValue
      else if v_kind v = KBool then boolValue (v_bool v)
      else if v_kind v = KInt then intValue (v_int v)
      else if v_kind v = KUint then uintValue (v_uint v)
      else if v_kind v = KFloat then floatValue (v_float v)
      else if v_kind v = KString then stringValue (v_str v)
      else if v_kind v = KBytes then bytesValue (v_bytes v)
      else if v_kind v = KCounter then counterValue (v_counter v)
      else if v_kind v = KTimestamp then zeroValue\<lparr>v_kind := KTimestamp, v_time := canon_time (v_time v)\<rparr>
      else if v_kind v = KMap then mapValue (v_obj v)
      else if v_kind v = KList then listValue (v_obj v)
      else if v_kind v = KText then textValue (v_obj v)
      else if v_kind v = KVector then zeroValue\<lparr>v_kind := KVector, v_packed := v_packed v, v_norm := v_norm v,
        v_dim := v_dim v, v_bits := v_bits v\<rparr>
      else zeroValue\<lparr>v_kind := v_kind v, v_str := v_str v\<rparr>)"

lemma codec_bool: "codec T 1 w (wByte (if b then 1 else 0) w) (\<lambda>r. rbind (rByte r) (\<lambda>c. rret (f (c \<noteq> 0)))) (f b)"
  using codec_map [OF codec_byte, of T w "if b then 1 else 0" "\<lambda>c. f (c \<noteq> 0)"] by (cases b) simp_all

lemma codec_vector:
  "codec T 1 w (wInt a (wInt d (writeFloat32 nm (wBytes p w))))
     (\<lambda>r. rbind (rBytes r) (\<lambda>p r. rbind (readFloat32 r) (\<lambda>nm r. rbind (rInt r) (\<lambda>d r. rbind (rInt r) (\<lambda>a. rret (f p nm d a))))))
     (f p nm d a)"
  by (rule codec_weaken, rule codec_bind [OF codec_bytes], rule codec_bind [OF codec_float32],
      rule codec_bind [OF codec_int], rule codec_map [OF codec_int]) simp

lemma codec_unknown:
  "codec T 1 w (wStr b (wStr a w)) (\<lambda>r. rbind (rStr r) (\<lambda>a r. rbind (rStr r) (\<lambda>b. rret (f a b)))) (f a b)"
  by (rule codec_weaken, rule codec_bind [OF codec_str], rule codec_map [OF codec_str]) simp

lemma codec_value: "codec T 1 w (writeValue v w) readValue (canon_value v)"
proof -
  note defs = readValue_def writeValue_def canon_value_def
  consider (t0) "v_kind v = KNull \<or> v_kind v = []" | (t1) "v_kind v = KBool" | (t2) "v_kind v = KInt" | (t3) "v_kind v = KUint" | (t4) "v_kind v = KFloat" | (t5) "v_kind v = KString" | (t6) "v_kind v = KBytes" | (t7) "v_kind v = KCounter" | (t8) "v_kind v = KTimestamp" | (t9) "v_kind v = KMap" | (t10) "v_kind v = KList" | (t11) "v_kind v = KText" | (t12) "v_kind v = KVector"
    | (other) "v_kind v \<noteq> KNull" "v_kind v \<noteq> KBool" "v_kind v \<noteq> KInt" "v_kind v \<noteq> KUint" "v_kind v \<noteq> KFloat" "v_kind v \<noteq> KString" "v_kind v \<noteq> KBytes" "v_kind v \<noteq> KCounter" "v_kind v \<noteq> KTimestamp" "v_kind v \<noteq> KMap" "v_kind v \<noteq> KList" "v_kind v \<noteq> KText" "v_kind v \<noteq> []" "v_kind v \<noteq> KVector"
    by blast
  then show ?thesis
  proof cases
    case t0
    then show ?thesis unfolding defs
      by (simp only: simp_thms if_True if_False list.simps char.inject, intro codec_tagged [where b = 0]) (rule codec_ret, simp)
  next
    case t1
    then show ?thesis unfolding defs
      by (simp only: simp_thms if_True if_False list.simps char.inject, intro codec_tagged [where b = 1]) (rule codec_bool, simp)
  next
    case t2
    then show ?thesis unfolding defs
      by (simp only: simp_thms if_True if_False list.simps char.inject, intro codec_tagged [where b = 2]) (rule codec_map [OF codec_int], simp)
  next
    case t3
    then show ?thesis unfolding defs
      by (simp only: simp_thms if_True if_False list.simps char.inject, intro codec_tagged [where b = 3]) (rule codec_map [OF codec_uint], simp)
  next
    case t4
    then show ?thesis unfolding defs
      by (simp only: simp_thms if_True if_False list.simps char.inject, intro codec_tagged [where b = 4]) (rule codec_map [OF codec_float64], simp)
  next
    case t5
    then show ?thesis unfolding defs
      by (simp only: simp_thms if_True if_False list.simps char.inject, intro codec_tagged [where b = 5]) (rule codec_map [OF codec_str], simp)
  next
    case t6
    then show ?thesis unfolding defs
      by (simp only: simp_thms if_True if_False list.simps char.inject, intro codec_tagged [where b = 6]) (rule codec_map [OF codec_bytes], simp add: bytesValue_def)
  next
    case t7
    then show ?thesis unfolding defs
      by (simp only: simp_thms if_True if_False list.simps char.inject, intro codec_tagged [where b = 7]) (rule codec_map [OF codec_int], simp)
  next
    case t8
    then show ?thesis unfolding defs
      by (simp only: simp_thms if_True if_False list.simps char.inject, intro codec_tagged [where b = 8]) (rule codec_map [OF codec_time], simp)
  next
    case t9
    then show ?thesis unfolding defs
      by (simp only: simp_thms if_True if_False list.simps char.inject, intro codec_tagged [where b = 9]) (rule codec_map [OF codec_object], simp)
  next
    case t10
    then show ?thesis unfolding defs
      by (simp only: simp_thms if_True if_False list.simps char.inject, intro codec_tagged [where b = 10]) (rule codec_map [OF codec_object], simp)
  next
    case t11
    then show ?thesis unfolding defs
      by (simp only: simp_thms if_True if_False list.simps char.inject, intro codec_tagged [where b = 11]) (rule codec_map [OF codec_object], simp)
  next
    case t12
    then show ?thesis unfolding defs
      by (simp only: simp_thms if_True if_False list.simps char.inject, intro codec_tagged [where b = 12]) (rule codec_vector, simp)
  next
    case other
    then show ?thesis unfolding defs
      by (simp only: simp_thms if_True if_False, intro codec_tagged [where b = 255]) (rule codec_unknown, simp)
  qed
qed

end
