(* ===== verification/Snapshot_Objects.thy ===== *)
theory Snapshot_Objects
  imports Snapshot_Values
begin

unbundle bit_operations_syntax

text \<open>
  Reading inverts writing for map entries, list elements with their tombstone runs, and
  objects.
\<close>

section \<open>Flags\<close>

lemma bit_flag [simp]: "bit (flag n p) k \<longleftrightarrow> p \<and> k = n \<and> n < 8"
  by (auto simp: flag_def bit_exp_iff)

lemma test_bits:
  "((x :: byte) AND 1 = 0) = (\<not> bit x 0)" "(x AND 2 = 0) = (\<not> bit x 1)" "(x AND 4 = 0) = (\<not> bit x 2)"
  "(x AND 8 = 0) = (\<not> bit x 3)" "(x AND 16 = 0) = (\<not> bit x 4)" "(x AND 32 = 0) = (\<not> bit x 5)"
  "(x AND 64 = 0) = (\<not> bit x 6)"
  using and_exp_eq_0_iff_not_bit [of x 0] and_exp_eq_0_iff_not_bit [of x 1] and_exp_eq_0_iff_not_bit [of x 2]
    and_exp_eq_0_iff_not_bit [of x 3] and_exp_eq_0_iff_not_bit [of x 4] and_exp_eq_0_iff_not_bit [of x 5]
    and_exp_eq_0_iff_not_bit [of x 6] by simp_all

lemmas flag_simps = test_bits bit_or_iff bit_flag

lemma codec_when:
  assumes "c \<longleftrightarrow> p" "p \<Longrightarrow> codec T n w (f w) m x" "\<not> p \<Longrightarrow> y = x"
  shows "codec T 0 w (wWhen p f w) (\<lambda>r. if c then m r else rret y r) x"
  using assms codec_weaken [OF assms(2)] by (cases p) (auto simp: wWhen_def codec_ret)

section \<open>Loops\<close>

lemma rRepeat_0: "rRepeat 0 m = rret []"
  by (rule ext) simp

lemma rRepeat_Suc: "rRepeat (Suc n) m = (\<lambda>r. rbind (m r) (\<lambda>x r. rbind (rRepeat n m r) (\<lambda>xs. rret (x # xs))))"
  by (rule ext) simp

lemma codec_fold:
  assumes "\<And>x w. x \<in> set xs \<Longrightarrow> codec T 1 w (f x w) m (g x)"
  shows "codec T (length xs) w (fold f xs w) (rRepeat (length xs) m) (List.map g xs)"
  using assms
proof (induction xs arbitrary: w)
  case Nil
  then show ?case by (simp add: rRepeat_0 codec_ret)
next
  case (Cons x xs)
  have "codec T (length xs) (f x w) (fold f xs (f x w)) (rRepeat (length xs) m) (List.map g xs)"
    by (rule Cons.IH, rule Cons.prems) simp
  then have "codec T (1 + length xs) w (fold f xs (f x w)) (rRepeat (Suc (length xs)) m) (g x # List.map g xs)"
    unfolding rRepeat_Suc by (intro codec_bind [OF Cons.prems [of x]] codec_map) simp_all
  then show ?case by (simp del: rRepeat.simps)
qed

lemma codec_counted:
  assumes "\<And>x w. x \<in> set xs \<Longrightarrow> codec T 1 w (f x w) m (g x)"
  shows "codec T 1 w (fold f xs (wCount xs w)) (rCounted m) (List.map g xs)"
proof -
  have "codec T (length xs) (wCount xs w) (fold f xs (wCount xs w)) (rRepeat (length xs) m) (List.map g xs)"
    by (rule codec_fold, rule assms)
  from codec_count [where k = "\<lambda>n. rRepeat n m", OF this order_refl] show ?thesis
    unfolding rCounted_def by (rule codec_weaken) simp
qed

section \<open>Map entries\<close>

definition canon_entry :: "mapEntry \<Rightarrow> mapEntry" where
  "canon_entry e = e\<lparr>me_value := canon_value (me_value e)\<rparr>"

lemma codec_entry: "codec T 1 w (writeEntry key e w) readEntry (key, canon_entry e)"
proof -
  have e: "canon_entry e = \<lparr>me_value = canon_value (me_value e), me_id = OpID (op_counter (me_id e)) (op_actor (me_id e)),
      me_deleted = ((if me_deleted e then 1 else 0 :: byte) \<noteq> 0)\<rparr>"
    by (simp add: canon_entry_def)
  show ?thesis
    unfolding writeEntry_def readEntry_def e
    by (rule codec_weaken, rule codec_bind [OF codec_str], rule codec_bind [OF codec_actor],
        rule codec_bind [OF codec_uint], rule codec_bind [OF codec_byte], rule codec_map [OF codec_value]) simp
qed

section \<open>Elements\<close>

text \<open>
  What an element reads back as before its tombstone: a malformed reference becomes the head,
  a stamp without actor becomes the element's identity.
\<close>

definition canon_elem :: "listElem \<Rightarrow> listElem" where
  "canon_elem e = \<lparr>e_id = e_id e, e_after = formatOpIDRef (after_id e), e_value = canon_value (e_value e),
     e_deleted = False, e_vis = (if op_actor (e_vis e) = [] then e_id e else e_vis e)\<rparr>"

lemma codec_elem_actor:
  assumes "c \<longleftrightarrow> \<not> (prev \<noteq> None \<and> a = op_actor (the prev))"
  shows "codec T 0 w (wWhen (\<not> (prev \<noteq> None \<and> a = op_actor (the prev))) (wActor a) w)
    (\<lambda>r. if c then readActor r else case prev of None \<Rightarrow> Inl e | Some p \<Rightarrow> rret (op_actor p) r) a"
  using assms codec_weaken [OF codec_actor, of 0] by (cases prev) (auto simp: wWhen_def codec_ret)

lemma codec_elem_after:
  assumes "c \<longleftrightarrow> after = None" "c' \<longleftrightarrow> after \<noteq> None \<and> prev \<noteq> None \<and> after = prev"
  shows "codec T 0 w (wWhen (after \<noteq> None \<and> \<not> (after \<noteq> None \<and> prev \<noteq> None \<and> after = prev)) (wRef (the after) base) w)
    (\<lambda>r. if c then rret [] r else if c' then (case prev of None \<Rightarrow> Inl e | Some p \<Rightarrow> rret (opid_String p) r)
      else rbind (readOpIDRef base r) (\<lambda>x. rret (opid_String x))) (formatOpIDRef after)"
proof (cases after)
  case None
  then show ?thesis using assms by (simp add: wWhen_def formatOpIDRef_def codec_ret)
next
  case (Some x)
  then show ?thesis
    using assms codec_weaken [OF codec_map [OF codec_ref, of T w x base opid_String], of 0]
    by (cases "prev = Some x") (auto simp: wWhen_def formatOpIDRef_def codec_ret)
qed

lemma codec_elem_vis:
  assumes "c \<longleftrightarrow> \<not> (op_actor v = [] \<or> v = i)" "i = OpID counter actor" "base = counter"
  shows "codec T 0 w (wWhen (\<not> (op_actor v = [] \<or> v = i)) (wRef v base) w)
    (\<lambda>r. if c then readOpIDRef counter r else rret (OpID counter actor) r) (if op_actor v = [] then i else v)"
  unfolding assms(3)
  by (rule codec_when [where n = 2]) (use assms codec_ref in auto)

lemma codec_elem_value:
  assumes "c \<longleftrightarrow> v_kind v = KString"
  shows "codec T 1 w ((if v_kind v = KString then wStr (v_str v) else writeValue v) w)
    (\<lambda>r. if c then rbind (rStr r) (\<lambda>s. rret (stringValue s)) else readValue r) (canon_value v)"
  using assms codec_value codec_weaken [OF codec_map [OF codec_str, of T "v_str v" w stringValue], of 1]
  by (cases "v_kind v = KString") (simp_all add: canon_value_def)

lemma codec_elem: "codec T 1 w (writeElem prev e w) (readElem prev) (canon_elem e)"
proof -
  define base where "base = (case prev of None \<Rightarrow> 0 | Some p \<Rightarrow> op_counter p)"
  let ?flags = "flag 0 (after_id e = None) OR flag 1 (after_id e \<noteq> None \<and> prev \<noteq> None \<and> after_id e = prev)
    OR flag 2 (op_actor (e_vis e) = [] \<or> e_vis e = e_id e)
    OR flag 3 (prev \<noteq> None \<and> op_actor (e_id e) = op_actor (the prev)) OR flag 4 (v_kind (e_value e) = KString)"
  have b: "base + (op_counter (e_id e) - base) = op_counter (e_id e)" by simp
  have i: "OpID (op_counter (e_id e)) (op_actor (e_id e)) = e_id e" by simp
  show ?thesis
    unfolding writeElem_def readElem_def Let_def canon_elem_def
    apply (fold base_def)
    apply (rule codec_weaken [where n = "1 + (1 + (0 + (0 + (0 + 1))))"])
     apply (rule codec_bind [OF codec_byte [where b = ?flags]])
     apply (rule codec_bind [OF codec_int [where v = "op_counter (e_id e) - base"]])
     apply (unfold b)
     apply (rule codec_bind [OF codec_elem_actor [where a = "op_actor (e_id e)" and prev = prev]])
      apply (simp add: flag_simps)
     apply (unfold i)
     apply (rule codec_bind [OF codec_elem_after [where after = "after_id e" and prev = prev and base = "op_counter (e_id e)"]])
       apply (simp add: flag_simps)
      apply (simp add: flag_simps)
     apply (rule codec_bind [OF codec_elem_vis [where v = "e_vis e" and i = "e_id e" and base = "op_counter (e_id e)"
          and actor = "op_actor (e_id e)" and counter = "op_counter (e_id e)", unfolded i]])
        apply (simp add: flag_simps)
       apply (rule refl)
      apply (rule refl)
     apply (rule codec_map [OF codec_elem_value])
     apply (simp add: flag_simps)
    apply simp
    done
qed

section \<open>Tombstones\<close>

definition mark :: "bool \<Rightarrow> listElem \<Rightarrow> listElem" where
  "mark b e = (if b then e\<lparr>e_deleted := True\<rparr> else e)"

lemma mark_map: "(if b then List.map (\<lambda>e. e\<lparr>e_deleted := True\<rparr>) es else es) = List.map (mark b) es"
  by (induction es) (auto simp: mark_def)

lemma read_tombs_step:
  assumes "length pend < 2 ^ 63" "length rest < 2 ^ 63"
    and "codec T n (wUint (word_of_nat (length pend)) w) w'
      (read_tombs k (\<not> b) (sofar @ List.map (mark b) pend) rest) x"
  shows "codec T (1 + n) w w' (read_tombs (Suc k) b sofar (pend @ rest)) x"
proof -
  have l: "length (pend @ rest) < 2 ^ 64" using assms(1,2) by simp
  then have c: "\<not> (word_of_nat (length pend) :: uint64) > word_of_nat (length (pend @ rest))"
    "unat (word_of_nat (length pend) :: uint64) = length pend"
    using unat_word_of_size [OF l] unat_word_of_size [of "length pend"] by (simp_all add: word_less_nat_alt)
  have s: "read_tombs (Suc k) b sofar (pend @ rest) = (\<lambda>r. rbind (rUint r) (\<lambda>run r.
     if run > word_of_nat (length (pend @ rest)) then Inl (Run_exceeds run)
     else read_tombs k (\<not> b) (sofar @ List.map (mark b) (take (unat run) (pend @ rest))) (drop (unat run) (pend @ rest)) r))"
    by (rule ext) (simp only: read_tombs.simps Let_def mark_map)
  show ?thesis
    unfolding s
    by (rule codec_bind [OF codec_uint [where v = "word_of_nat (length pend)"]])
      (use assms(3) c in \<open>simp del: length_append\<close>)
qed

lemma codec_tombs:
  assumes "length pend + length es < 2 ^ 63" "length rest = length es"
  shows "codec T (length (tomb_runs b (word_of_nat (length pend)) es)) w
    (fold wUint (tomb_runs b (word_of_nat (length pend)) es) w)
    (read_tombs (length (tomb_runs b (word_of_nat (length pend)) es)) b sofar (pend @ rest))
    (sofar @ List.map (mark b) pend @ map2 (\<lambda>e. mark (e_deleted e)) es rest)"
  using assms
proof (induction es arbitrary: b pend rest sofar w)
  case Nil
  have u: "unat (word_of_nat (length pend) :: uint64) = length pend" using Nil by simp
  show ?case
  proof (cases "pend = []")
    case True
    then have "read_tombs 0 b sofar (pend @ rest) = rret (sofar @ List.map (mark b) pend @ map2 (\<lambda>e. mark (e_deleted e)) [] rest)"
      using Nil by (intro ext) simp
    then show ?thesis using True by (simp add: codec_ret)
  next
    case False
    then have p: "(word_of_nat (length pend) :: uint64) > 0" by (simp add: word_less_nat_alt u)
    have "read_tombs 0 (\<not> b) (sofar @ List.map (mark b) pend) rest = rret (sofar @ List.map (mark b) pend)"
      using Nil by (intro ext) simp
    then have "codec T (1 + 0) w (wUint (word_of_nat (length pend)) w) (read_tombs (Suc 0) b sofar (pend @ rest))
        (sofar @ List.map (mark b) pend)"
      using Nil by (intro read_tombs_step) (simp_all add: codec_ret)
    then show ?thesis using p Nil by (simp del: read_tombs.simps)
  qed
next
  case (Cons e es)
  obtain r rest' where r: "rest = r # rest'" "length rest' = length es" using Cons.prems(2) by (cases rest) auto
  show ?case
  proof (cases "e_deleted e = b")
    case True
    have "length (pend @ [r]) + length es < 2 ^ 63" using Cons.prems(1) by simp
    from Cons.IH [OF this r(2), of b w sofar] show ?thesis
      using True by (simp add: r(1) add.commute)
  next
    case False
    let ?runs = "tomb_runs (\<not> b) (word_of_nat (length [r])) es"
    have "length [r] + length es < 2 ^ 63" using Cons.prems(1) by simp
    from Cons.IH [OF this r(2), of "\<not> b" "wUint (word_of_nat (length pend)) w" "sofar @ List.map (mark b) pend"]
    have "codec T (1 + length ?runs) w (fold wUint ?runs (wUint (word_of_nat (length pend)) w))
        (read_tombs (Suc (length ?runs)) b sofar (pend @ rest))
        ((sofar @ List.map (mark b) pend) @ List.map (mark (\<not> b)) [r] @ map2 (\<lambda>e. mark (e_deleted e)) es rest')"
      using Cons.prems r by (intro read_tombs_step) simp_all
    then show ?thesis using False by (simp add: r(1) del: read_tombs.simps)
  qed
qed

section \<open>Lists and objects\<close>

lemma codec_elems_loop:
  "codec T (length es) w (write_elems_loop prev es w) (read_elems_loop (length es) prev) (List.map canon_elem es)"
proof (induction es arbitrary: prev w)
  case Nil
  have "read_elems_loop 0 prev = rret []" by (rule ext) simp
  then show ?case by (simp add: codec_ret)
next
  case (Cons e es)
  have s: "read_elems_loop (Suc (length es)) prev = (\<lambda>r. rbind (readElem prev r) (\<lambda>e r.
     rbind (read_elems_loop (length es) (Some (e_id e)) r) (\<lambda>es. rret (e # es))))" by (rule ext) simp
  have i: "e_id (canon_elem e) = e_id e" by (simp add: canon_elem_def)
  have "codec T (1 + length es) w (write_elems_loop (Some (e_id e)) es (writeElem prev e w))
      (read_elems_loop (Suc (length es)) prev) (canon_elem e # List.map canon_elem es)"
    unfolding s by (rule codec_bind [OF codec_elem [where e = e]], unfold i, rule codec_map [OF Cons.IH])
  then show ?case by (simp del: read_elems_loop.simps)
qed

text \<open>The elements as they read back, tombstones included.\<close>

definition canon_elems :: "listElem list \<Rightarrow> listElem list" where
  "canon_elems es = List.map (\<lambda>e. (canon_elem e)\<lparr>e_deleted := e_deleted e\<rparr>) es"

lemma canon_elems_marks: "map2 (\<lambda>e. mark (e_deleted e)) es (List.map canon_elem es) = canon_elems es"
  by (induction es) (auto simp: canon_elems_def mark_def canon_elem_def)

lemma codec_elems:
  assumes "length es < 2 ^ 63"
  shows "codec T 1 w (writeElems es w) readElems (canon_elems es)"
proof -
  let ?runs = "tomb_runs False 0 es" and ?w = "write_elems_loop None es (wCount es w)"
  have t: "codec T (length ?runs) (wCount ?runs ?w) (fold wUint ?runs (wCount ?runs ?w))
      (read_tombs (length ?runs) False [] (List.map canon_elem es)) (canon_elems es)"
    using codec_tombs [of "[]" es "List.map canon_elem es" T False "wCount ?runs ?w" "[]"] assms
    by (simp add: canon_elems_marks)
  note tail = codec_count [where k = "\<lambda>n. read_tombs n False [] (List.map canon_elem es)", OF t order_refl]
  have "codec T (length es + Suc (length ?runs)) (wCount es w) (fold wUint ?runs (wCount ?runs ?w))
     (\<lambda>r. rbind (read_elems_loop (length es) None r) (\<lambda>elems r. rbind (rUint r) (\<lambda>runCount r.
       if runCount > word_of_nat (length (r_buf r)) then Inl (Table_exceeds runCount)
       else read_tombs (unat runCount) False [] elems r))) (canon_elems es)"
    by (rule codec_bind [OF codec_elems_loop], rule tail)
  from codec_count [where k = "\<lambda>n r. rbind (read_elems_loop n None r) (\<lambda>elems r. rbind (rUint r) (\<lambda>runCount r.
       if runCount > word_of_nat (length (r_buf r)) then Inl (Table_exceeds runCount)
       else read_tombs (unat runCount) False [] elems r))", OF this]
  show ?thesis
    unfolding readElems_def writeElems_def Let_def by (rule codec_weaken) simp_all
qed

text \<open>What an object reads back as: the index is rebuilt from the elements.\<close>

definition canon_object :: "crdtObject \<Rightarrow> crdtObject" where
  "canon_object t =
     (if obj_kind t = KMap then newMapObject\<lparr>obj_map := fmmap canon_entry (obj_map t)\<rparr>
      else if listLike (obj_kind t) then
        (newListObject (obj_kind t))\<lparr>obj_seq := seq_reset newSeq (canon_elems (seq_elems (obj_seq t)))\<rparr>
      else \<lparr>obj_kind = obj_kind t, obj_map = fmempty, obj_seq = newSeq\<rparr>)"

lemma foldl_fmupd:
  "distinct ks \<Longrightarrow> fmlookup (foldl (\<lambda>m (k, e). fmupd k e m) m0 (List.map (\<lambda>k. (k, f k)) ks)) k =
     (if k \<in> set ks then Some (f k) else fmlookup m0 k)"
  by (induction ks arbitrary: m0) auto

lemma distinct_keys: "distinct (sorted_list_of_fset S)"
  by (simp add: sorted_list_of_fset.rep_eq)

lemma set_keys: "set (sorted_list_of_fset S) = fset S"
  by (simp add: sorted_list_of_fset.rep_eq)

lemma rebuilt_fmap:
  "foldl (\<lambda>m (k, e). fmupd k e m) fmempty
     (List.map (\<lambda>k. (k, g (the (fmlookup m k)))) (sorted_list_of_fset (fmdom m))) = fmmap g m" (is "?l = _")
proof (rule fmap_ext)
  fix k
  have "fmlookup ?l k = (if k |\<in>| fmdom m then Some (g (the (fmlookup m k))) else None)"
    by (simp add: foldl_fmupd [OF distinct_keys] set_keys)
  then show "fmlookup ?l k = fmlookup (fmmap g m) k"
    by (cases "fmlookup m k") (auto simp: fmdomI fmdom_notI)
qed

lemma codec_object_body:
  assumes "listLike (obj_kind t) \<Longrightarrow> length (seq_elems (obj_seq t)) < 2 ^ 63"
  shows "codec T 1 w (writeObject t w) readObject (canon_object t)"
proof -
  note defs = writeObject_def readObject_def canon_object_def Let_def
  consider (km) "obj_kind t = KMap" | (kl) "obj_kind t = KList" | (kt) "obj_kind t = KText"
    | (other) "obj_kind t \<noteq> KMap" "obj_kind t \<noteq> KList" "obj_kind t \<noteq> KText" by blast
  then show ?thesis
  proof cases
    case km
    let ?keys = "sorted_list_of_fset (fmdom (obj_map t))"
    have c: "codec T 1 v (fold (\<lambda>key w. writeEntry key (the (fmlookup (obj_map t) key)) w) ?keys (wCount ?keys v))
        (rCounted readEntry) (List.map (\<lambda>key. (key, canon_entry (the (fmlookup (obj_map t) key)))) ?keys)" for v
      by (rule codec_counted, rule codec_entry)
    have r: "newMapObject\<lparr>obj_map := fmmap canon_entry (obj_map t)\<rparr> =
        newMapObject\<lparr>obj_map := foldl (\<lambda>m (k, e). fmupd k e m) fmempty
          (List.map (\<lambda>key. (key, canon_entry (the (fmlookup (obj_map t) key)))) ?keys)\<rparr>"
      by (simp only: rebuilt_fmap)
    show ?thesis
      unfolding defs km r
      by (simp only: simp_thms if_True, intro codec_tagged [where b = 0]) (rule codec_map [OF c], simp)
  next
    case kl
    have "length (seq_elems (obj_seq t)) < 2 ^ 63" using assms kl by (simp add: listLike_def)
    note c = codec_map [OF codec_elems [OF this]]
    show ?thesis
      unfolding defs kl
      by (simp add: listLike_def del: One_nat_def, intro codec_tagged [where b = 1]) (rule c, simp add: newListObject_def)
  next
    case kt
    have "length (seq_elems (obj_seq t)) < 2 ^ 63" using assms kt by (simp add: listLike_def)
    note c = codec_map [OF codec_elems [OF this]]
    show ?thesis
      unfolding defs kt
      by (simp add: listLike_def del: One_nat_def, intro codec_tagged [where b = 2]) (rule c, simp add: newListObject_def)
  next
    case other
    then show ?thesis
      unfolding defs
      by (simp add: listLike_def del: One_nat_def, intro codec_tagged [where b = 255]) (rule codec_map [OF codec_str], simp)
  qed
qed

end
