(* ===== verification/Snapshot_Changes.thy ===== *)
theory Snapshot_Changes
  imports Snapshot_Objects
begin

unbundle bit_operations_syntax

text \<open>
  Reading inverts writing for operations and changes. A change's hash is not in the snapshot:
  the reader computes it again, so what is needed is that the encoding of the change that was
  read gives the hash of the change that was written.
\<close>

section \<open>Operations\<close>

lemma prop_ref_Some: "prop_ref s = Some x \<Longrightarrow> opid_String x = s"
  by (auto simp: prop_ref_def formatOpIDRef_def split: sum.splits option.splits if_splits)

lemma codec_prop:
  assumes "c \<longleftrightarrow> prop_ref s \<noteq> None"
  shows "codec T 1 w (wPropRef s base w) (readPropRef c base) s"
proof (cases "prop_ref s")
  case None
  have "readPropRef False base = readString" by (rule ext) (simp add: readPropRef_def)
  then show ?thesis using None assms codec_string by (simp add: wPropRef_def)
next
  case (Some x)
  have r: "readPropRef True base = (\<lambda>r. rbind (readOpIDRef base r) (\<lambda>x. rret (opid_String x)))"
    by (rule ext) (simp add: readPropRef_def)
  have "codec T 1 w (wRef x base w) (readPropRef True base) (opid_String x)"
    unfolding r by (rule codec_weaken [OF codec_map [OF codec_ref]]) simp
  then show ?thesis using Some assms prop_ref_Some [OF Some] by (simp add: wPropRef_def)
qed

lemma codec_run: "codec T 1 w (wRun x w) readRun x"
proof -
  have x: "x = \<lparr>run_actor = run_actor x, run_start = run_start x, run_count = run_count x\<rparr>" by simp
  show ?thesis
    unfolding wRun_def readRun_def
    by (subst (4) x, rule codec_weaken, rule codec_bind [OF codec_actor], rule codec_bind [OF codec_uint],
        rule codec_map [OF codec_uint]) simp
qed

text \<open>An operation keeps everything but what its value loses; no value stays no value.\<close>

definition canon_op :: "gop \<Rightarrow> gop" where
  "canon_op op = op\<lparr>o_value := (if v_kind (o_value op) = [] then zeroValue else canon_value (o_value op))\<rparr>"

text \<open>The optional fields, each under its flag.\<close>

lemma codec_op_prop:
  assumes "c \<longleftrightarrow> s \<noteq> []" "isRef \<longleftrightarrow> s \<noteq> [] \<and> prop_ref s \<noteq> None"
  shows "codec T 0 w (wWhen (s \<noteq> []) (wPropRef s base) w) (\<lambda>r. if c then readPropRef isRef base r else rret [] r) s"
  by (rule codec_when [where n = 1]) (use assms codec_prop in auto)

lemma codec_op_value:
  assumes "c \<longleftrightarrow> v_kind v \<noteq> []"
  shows "codec T 0 w (wWhen (v_kind v \<noteq> []) (writeValue v) w) (\<lambda>r. if c then readValue r else rret zeroValue r)
    (if v_kind v \<noteq> [] then canon_value v else zeroValue)"
  by (rule codec_when [where n = 1]) (use assms codec_value in auto)

lemma codec_op_run:
  assumes "c \<longleftrightarrow> s \<noteq> []"
  shows "codec T 0 w (wWhen (s \<noteq> []) (wStr s) w) (\<lambda>r. if c then rStr r else rret [] r) s"
  by (rule codec_when [where n = "Suc (length s)"]) (use assms codec_str in auto)

lemma codec_op_deletes:
  assumes "c \<longleftrightarrow> xs \<noteq> []"
  shows "codec T 0 w (wWhen (xs \<noteq> []) (\<lambda>w. fold wRun xs (wCount xs w)) w)
    (\<lambda>r. if c then rCounted readRun r else rret [] r) xs"
  using codec_counted [where xs = xs and g = "\<lambda>x. x", OF codec_run]
  by (intro codec_when [where n = 1]) (use assms in auto)

lemma codec_op: "codec T 1 w (writeOp op w) readOp (canon_op op)"
proof -
  define p where "p = o_prop op"
  define a where "a = o_after op"
  define v where "v = o_value op"
  let ?flags = "flag 0 (p \<noteq> []) OR flag 1 (a \<noteq> []) OR flag 2 (o_run op \<noteq> []) OR flag 3 (o_delruns op \<noteq> [])
    OR flag 4 (v_kind v \<noteq> []) OR flag 5 (p \<noteq> [] \<and> prop_ref p \<noteq> None) OR flag 6 (a \<noteq> [] \<and> prop_ref a \<noteq> None)"
  have op: "canon_op op = \<lparr>o_id = OpID (op_counter (o_id op)) (op_actor (o_id op)), o_action = o_action op,
      o_obj = o_obj op, o_prop = p, o_value = (if v_kind v \<noteq> [] then canon_value v else zeroValue),
      o_after = a, o_run = o_run op, o_delruns = o_delruns op\<rparr>"
    by (simp add: canon_op_def p_def a_def v_def)
  show ?thesis
    unfolding op unfolding writeOp_def readOp_def Let_def
    apply (fold p_def a_def v_def)
    apply (rule codec_weaken [where n = "1 + (1 + (1 + (1 + (1 + (0 + (0 + (0 + (0 + 0))))))))"])
     apply (rule codec_bind [OF codec_byte [where b = ?flags]])
     apply (rule codec_bind [OF codec_actor [where s = "op_actor (o_id op)"]])
     apply (rule codec_bind [OF codec_uint [where v = "op_counter (o_id op)"]])
     apply (rule codec_bind [OF codec_string [where s = "o_action op"]])
     apply (rule codec_bind [OF codec_object [where s = "o_obj op"]])
     apply (rule codec_bind [OF codec_op_prop [where s = p]], simp add: flag_simps, simp add: flag_simps)
     apply (rule codec_bind [OF codec_op_value [where v = v]], simp add: flag_simps)
     apply (rule codec_bind [OF codec_op_prop [where s = a]], simp add: flag_simps, simp add: flag_simps)
     apply (rule codec_bind [OF codec_op_run [where s = "o_run op"]], simp add: flag_simps)
     apply (rule codec_map [OF codec_op_deletes], simp add: flag_simps)
    apply simp
    done
qed

section \<open>Dependencies\<close>

lemma codec_dep:
  assumes "length existing < 2 ^ 63" "length dep = 32"
    and "\<And>at. index dep = Some at \<Longrightarrow> at < length existing \<Longrightarrow> c_hash (existing ! at) = dep"
  shows "codec T 1 w (writeDep index (length existing) dep w) (readDep existing) dep"
proof -
  have raw: "codec T 1 w (wRaw dep (wUint 0 w)) (readDep existing) dep"
  proof -
    have "codec T (1 + 32) w (wRaw dep (wUint 0 w)) (readDep existing) dep"
      unfolding readDep_def
      by (rule codec_bind [OF codec_uint [where v = 0]]) (use codec_raw [OF assms(2), of T "wUint 0 w"] in simp)
    then show ?thesis by (rule codec_weaken) simp
  qed
  show ?thesis
  proof (cases "\<exists>at. index dep = Some at \<and> at < length existing")
    case True
    then obtain at where at: "index dep = Some at" "at < length existing" by blast
    let ?v = "word_of_nat at + 1 :: uint64"
    have s: "sint (word_of_nat at :: uint64) = int at" using at(2) assms(1) by (intro sint_word_of_size) simp
    have n: "unat (word_of_nat at :: uint64) = at" using at(2) assms(1) by (intro unat_word_of_size) simp
    have "unat ?v = at + 1" using n at(2) assms(1) by (simp add: unat_word_ariths)
    then have nz: "?v \<noteq> 0" by (metis add_is_0 one_neq_zero unat_0)
    have "codec T (1 + 0) w (wUint ?v w) (readDep existing) dep"
      unfolding readDep_def
    proof (rule codec_bind [OF codec_uint [where v = ?v]])
      show "codec T 0 (wUint ?v w) (wUint ?v w) (\<lambda>r. if ?v = 0 then rRaw 32 r
          else let at = sint (?v - 1) in if int (length existing) \<le> at then Inl (Dep_range at)
            else if at < 0 then Inl Panic else rret (c_hash (existing ! nat at)) r) dep"
        using codec_ret [of T "wUint ?v w" dep] assms(3) [OF at] at(2) nz s by (simp add: Let_def)
    qed
    then show ?thesis using at by (simp add: writeDep_def)
  next
    case False
    then have "writeDep index (length existing) dep w = wRaw dep (wUint 0 w)"
      by (auto simp: writeDep_def split: option.splits)
    then show ?thesis using raw by simp
  qed
qed

section \<open>Changes\<close>

definition canon_change :: "gchange \<Rightarrow> gchange" where
  "canon_change c = c\<lparr>c_hash := zeroHash, c_ops := List.map canon_op (c_ops c)\<rparr>"

lemma codec_change_text:
  assumes "c \<longleftrightarrow> p"
  shows "codec T 0 w (wWhen p (wString s) w) (\<lambda>r. if c then readString r else rret [] r) (if p then s else [])"
  by (rule codec_when [where n = 1]) (use assms codec_string in auto)

lemma codec_change_group:
  assumes "c \<longleftrightarrow> p" "p \<Longrightarrow> g = d"
  shows "codec T 0 w (wWhen (\<not> p) (wString g) w) (\<lambda>r. if c then rret d r else readString r) g"
  using assms codec_weaken [OF codec_string, of 0] by (cases p) (auto simp: wWhen_def codec_ret)

lemma codec_change:
  assumes "length existing < 2 ^ 63" "t_nsec (c_time c) < 1000000000"
    and "\<And>dep. dep \<in> set (c_deps c) \<Longrightarrow> length dep = 32"
    and "\<And>dep at. index dep = Some at \<Longrightarrow> at < length existing \<Longrightarrow> c_hash (existing ! at) = dep"
  shows "codec T 1 w (writeChange index (length existing) c previous w) (readChange existing previous)
    (canon_change c, t_sec (c_time c))"
proof -
  let ?default = "c_group c = default_group (c_actor c) (c_seq c)"
  let ?flags = "flag 0 ?default OR flag 1 (c_msg c \<noteq> [])"
  have deps: "codec T 1 w (fold (writeDep index (length existing)) (c_deps c) (wCount (c_deps c) w))
      (rCounted (readDep existing)) (c_deps c)" for w
    using codec_counted [where xs = "c_deps c" and g = "\<lambda>x. x", OF codec_dep] assms by simp
  have time: "unixTime (t_sec (c_time c)) (word_of_nat (t_nsec (c_time c))) = c_time c"
    using assms(2) by (simp add: unixTime_small)
  have sec: "previous + (t_sec (c_time c) - previous) = t_sec (c_time c)" by simp
  have c: "canon_change c = \<lparr>c_hash = zeroHash, c_actor = c_actor c, c_seq = c_seq c, c_deps = c_deps c,
      c_start = c_start c, c_time = unixTime (t_sec (c_time c)) (word_of_nat (t_nsec (c_time c))),
      c_msg = (if c_msg c \<noteq> [] then c_msg c else []), c_group = c_group c, c_ops = List.map canon_op (c_ops c)\<rparr>"
    by (simp add: canon_change_def time)
  show ?thesis
    unfolding c unfolding writeChange_def readChange_def Let_def
    apply (rule codec_weaken [where n = "1 + (1 + (1 + (1 + (1 + (1 + (0 + (0 + (1 + 1))))))))"])
     apply (rule codec_bind [OF codec_byte [where b = ?flags]])
     apply (rule codec_bind [OF codec_actor [where s = "c_actor c"]])
     apply (rule codec_bind [OF codec_uint [where v = "c_seq c"]])
     apply (rule codec_bind [OF codec_uint [where v = "c_start c"]])
     apply (rule codec_bind [OF codec_int [where v = "t_sec (c_time c) - previous"]])
     apply (rule codec_bind [OF codec_uint [where v = "word_of_nat (t_nsec (c_time c))"]])
     apply (unfold sec)
     apply (rule codec_bind [OF codec_change_text [where s = "c_msg c"]], simp add: flag_simps)
     apply (rule codec_bind [OF codec_change_group [where g = "c_group c" and p = ?default]], simp add: flag_simps, simp)
     apply (rule codec_bind [OF deps])
     apply (rule codec_map [OF codec_counted [OF codec_op]])
    apply simp
    done
qed

section \<open>The change log\<close>

text \<open>
  A change the snapshot can carry: whole nanoseconds within a second, 32-byte dependencies,
  and a hash that the encoding of what is read back gives again.
\<close>

definition change_stored :: "(gchange \<Rightarrow> byte list option) \<Rightarrow> gchange \<Rightarrow> bool" where
  "change_stored marshal c \<longleftrightarrow> t_nsec (c_time c) < 1000000000 \<and> (\<forall>dep \<in> set (c_deps c). length dep = 32) \<and>
     map_option snd (encodeChangeChunk marshal (canon_change c)) = Some (c_hash c)"

definition canon_stored :: "gchange \<Rightarrow> gchange" where
  "canon_stored c = c\<lparr>c_ops := List.map canon_op (c_ops c)\<rparr>"

lemma canon_stored_hash [simp]: "c_hash (canon_stored c) = c_hash c"
  by (simp add: canon_stored_def)

lemma canon_change_hash: "(canon_change c)\<lparr>c_hash := c_hash c\<rparr> = canon_stored c"
  by (simp add: canon_change_def canon_stored_def)

lemma codec_changes:
  assumes "\<And>c. c \<in> set cs \<Longrightarrow> change_stored marshal c" "length sofar + length cs < 2 ^ 63"
    and "\<And>dep at. index dep = Some at \<Longrightarrow> at < length sofar + length cs \<Longrightarrow> c_hash ((sofar @ cs) ! at) = dep"
  shows "codec T (length cs) w (write_changes index (length sofar) cs prev w)
    (read_changes marshal (length cs) sofar prev) (sofar @ List.map canon_stored cs)"
  using assms
proof (induction cs arbitrary: sofar prev w)
  case Nil
  have "read_changes marshal 0 sofar prev = rret sofar" by (rule ext) simp
  then show ?case by (simp add: codec_ret)
next
  case (Cons c cs)
  let ?w = "writeChange index (length sofar) c prev w"
  have st: "change_stored marshal c" using Cons.prems(1) by simp
  have one: "codec T 1 w ?w (readChange sofar prev) (canon_change c, t_sec (c_time c))"
  proof (rule codec_change)
    fix dep at assume "index dep = Some at" "at < length sofar"
    then show "c_hash (sofar ! at) = dep" using Cons.prems(3) [of dep at] by (simp add: nth_append)
  qed (use st Cons.prems(2) in \<open>simp_all add: change_stored_def\<close>)
  obtain chunk where enc: "encodeChangeChunk marshal (canon_change c) = Some (chunk, c_hash c)"
    using st by (auto simp: change_stored_def)
  have "codec T (length cs) ?w (write_changes index (length (sofar @ [canon_stored c])) cs (t_sec (c_time c)) ?w)
      (read_changes marshal (length cs) (sofar @ [canon_stored c]) (t_sec (c_time c)))
      ((sofar @ [canon_stored c]) @ List.map canon_stored cs)"
  proof (rule Cons.IH)
    fix dep at
    assume at: "index dep = Some at" "at < length (sofar @ [canon_stored c]) + length cs"
    have "c_hash (((sofar @ [canon_stored c]) @ cs) ! at) = c_hash ((sofar @ c # cs) ! at)"
      by (simp add: nth_append nth_Cons split: nat.split)
    then show "c_hash (((sofar @ [canon_stored c]) @ cs) ! at) = dep"
      using Cons.prems(3) [OF at(1)] at(2) by simp
  qed (use Cons.prems in simp_all)
  then have rest: "codec T (length cs) ?w (write_changes index (length sofar) (c # cs) prev w)
      (\<lambda>r. case encodeChangeChunk marshal (canon_change c) of None \<Rightarrow> Inl Encode_failed
        | Some (_, hash) \<Rightarrow> read_changes marshal (length cs) (sofar @ [(canon_change c)\<lparr>c_hash := hash\<rparr>]) (t_sec (c_time c)) r)
      (sofar @ List.map canon_stored (c # cs))"
    by (simp add: enc canon_change_hash)
  have "read_changes marshal (Suc (length cs)) sofar prev = (\<lambda>r. rbind (readChange sofar prev r) (\<lambda>(c, seconds) r.
       case encodeChangeChunk marshal c of None \<Rightarrow> Inl Encode_failed
       | Some (_, hash) \<Rightarrow> read_changes marshal (length cs) (sofar @ [c\<lparr>c_hash := hash\<rparr>]) seconds r))"
    by (rule ext) simp
  then have "codec T (1 + length cs) w (write_changes index (length sofar) (c # cs) prev w)
      (read_changes marshal (Suc (length cs)) sofar prev) (sofar @ List.map canon_stored (c # cs))"
    using codec_bind [OF one, where k = "\<lambda>(c, seconds) r. case encodeChangeChunk marshal c of None \<Rightarrow> Inl Encode_failed
       | Some (_, hash) \<Rightarrow> read_changes marshal (length cs) (sofar @ [c\<lparr>c_hash := hash\<rparr>]) seconds r"] rest
    by (simp del: read_changes.simps write_changes.simps)
  then show ?case by (simp del: read_changes.simps)
qed

text \<open>The index of the writer gives for a hash the last change that has it.\<close>

lemma change_index_snoc: "change_index (cs @ [c]) = (change_index cs)(c_hash c \<mapsto> length cs)"
  by (simp add: change_index_def enumerate_append_eq)

lemma change_index_at:
  "change_index cs dep = Some at \<Longrightarrow> at < length cs \<and> c_hash (cs ! at) = dep"
proof (induction cs arbitrary: dep at rule: rev_induct)
  case Nil
  then show ?case by (simp add: change_index_def)
next
  case (snoc c cs)
  then show ?case by (auto simp: change_index_snoc nth_append less_SucI split: if_splits)
qed

end
