(* ===== verification/Snapshot_Roundtrip.thy ===== *)
theory Snapshot_Roundtrip
  imports Snapshot_Changes
begin

unbundle bit_operations_syntax

text \<open>
  The whole snapshot: the body, the three string tables in front of it, and the theorem that
  \<open>decodeSnapshotV2\<close> gives back the document that \<open>encodeSnapshotV2\<close> wrote.
\<close>

section \<open>The body\<close>

text \<open>What a document must be for a snapshot to carry it.\<close>

definition doc_stored :: "(gchange \<Rightarrow> byte list option) \<Rightarrow> gdoc \<Rightarrow> bool" where
  "doc_stored marshal d \<longleftrightarrow> length (d_actor d) = 16 \<and> (\<forall>dep \<in> set (d_deps d). length dep = 32) \<and>
     rootID |\<in>| fmdom (d_objects d) \<and>
     (\<forall>oid t. fmlookup (d_objects d) oid = Some t \<longrightarrow> listLike (obj_kind t) \<longrightarrow> length (seq_elems (obj_seq t)) < 2 ^ 63) \<and>
     length (d_changes d) < 2 ^ 63 \<and> (\<forall>c \<in> set (d_changes d). change_stored marshal c)"

definition index_changes :: "gchange list \<Rightarrow> string \<rightharpoonup> gchange" where
  "index_changes cs = foldl (\<lambda>m c. m(hash_String (c_hash c) \<mapsto> c)) Map.empty cs"

text \<open>The document as it loads: no pending operations, no hooks, the indexes rebuilt.\<close>

definition canon_doc :: "gdoc \<Rightarrow> gdoc" where
  "canon_doc d = (newDocWithActor (d_actor d))\<lparr>d_seq := d_seq d, d_maxOp := d_maxOp d, d_deps := d_deps d,
     d_objects := fmmap canon_object (d_objects d), d_changes := List.map canon_stored (d_changes d),
     d_index := index_changes (List.map canon_stored (d_changes d))\<rparr>"

lemma codec_deps:
  assumes "\<And>dep. dep \<in> set deps \<Longrightarrow> length dep = 32"
  shows "codec T 1 w (fold wRaw deps (wCount deps w)) (rCounted (rRaw 32)) deps"
proof -
  have "codec T 1 w (wRaw dep w) (rRaw 32) dep" if "dep \<in> set deps" for dep w
    using codec_weaken [OF codec_raw [OF assms [OF that]], of 1] by simp
  from codec_counted [where g = "\<lambda>x. x", OF this] show ?thesis by simp
qed

lemma codec_objects:
  assumes "\<And>oid t. fmlookup m oid = Some t \<Longrightarrow> listLike (obj_kind t) \<Longrightarrow> length (seq_elems (obj_seq t)) < 2 ^ 63"
  defines "ids \<equiv> sorted_list_of_fset (fmdom m)"
  shows "codec T 1 w (fold (\<lambda>oid w. writeObject (the (fmlookup m oid)) (wObject oid w)) ids (wCount ids w))
    (rCounted (\<lambda>r. rbind (readObjRef r) (\<lambda>oid r. rbind (readObject r) (\<lambda>t. rret (oid, t)))))
    (List.map (\<lambda>oid. (oid, canon_object (the (fmlookup m oid)))) ids)"
proof (rule codec_counted)
  fix oid w assume "oid \<in> set ids"
  then obtain t where t: "fmlookup m oid = Some t" by (auto simp: ids_def set_keys fmlookup_dom_iff)
  have "codec T (1 + 1) w (writeObject t (wObject oid w))
      (\<lambda>r. rbind (readObjRef r) (\<lambda>oid r. rbind (readObject r) (\<lambda>t. rret (oid, t)))) (oid, canon_object t)"
    by (rule codec_bind [OF codec_object], rule codec_map [OF codec_object_body]) (use assms(1) t in blast)
  then have "codec T 1 w (writeObject t (wObject oid w))
      (\<lambda>r. rbind (readObjRef r) (\<lambda>oid r. rbind (readObject r) (\<lambda>t. rret (oid, t)))) (oid, canon_object t)"
    by (rule codec_weaken) simp
  then show "codec T 1 w (writeObject (the (fmlookup m oid)) (wObject oid w))
      (\<lambda>r. rbind (readObjRef r) (\<lambda>oid r. rbind (readObject r) (\<lambda>t. rret (oid, t))))
      (oid, canon_object (the (fmlookup m oid)))"
    by (simp add: t)
qed

lemma codec_body:
  assumes "doc_stored marshal d"
  shows "codec T 0 newSnapWriter (snapshot_body d) (readBody marshal) (canon_doc d)"
proof -
  let ?cs = "d_changes d"
  have st: "length (d_actor d) = 16" "\<And>dep. dep \<in> set (d_deps d) \<Longrightarrow> length dep = 32"
    "rootID |\<in>| fmdom (d_objects d)" "length ?cs < 2 ^ 63" "\<And>c. c \<in> set ?cs \<Longrightarrow> change_stored marshal c"
    "\<And>oid t. fmlookup (d_objects d) oid = Some t \<Longrightarrow> listLike (obj_kind t) \<Longrightarrow> length (seq_elems (obj_seq t)) < 2 ^ 63"
    using assms unfolding doc_stored_def by blast+
  have root: "(if fmlookup (fmmap canon_object (d_objects d)) rootID = None
      then fmupd rootID newMapObject (fmmap canon_object (d_objects d)) else fmmap canon_object (d_objects d)) =
      fmmap canon_object (d_objects d)"
    using st(3) by (auto simp: fmlookup_dom_iff)
  have "codec T (length ?cs) w (write_changes (change_index ?cs) (length ([] :: gchange list)) ?cs 0 w)
      (read_changes marshal (length ?cs) [] 0) ([] @ List.map canon_stored ?cs)" for w
    by (rule codec_changes) (use st change_index_at in auto)
  then have changes: "codec T (length ?cs) w (write_changes (change_index ?cs) 0 ?cs 0 w)
      (read_changes marshal (length ?cs) [] 0) (List.map canon_stored ?cs)" for w
    by simp
  have "codec T (length ?cs) (wCount ?cs w) (write_changes (change_index ?cs) 0 ?cs 0 (wCount ?cs w))
      (\<lambda>r. rbind (read_changes marshal (length ?cs) [] 0 r) (\<lambda>changes. rret (f changes))) (f (List.map canon_stored ?cs))"
    for w and f :: "gchange list \<Rightarrow> gdoc"
    by (rule codec_map [OF changes])
  note tail = codec_count [where k = "\<lambda>n r. rbind (read_changes marshal n [] 0 r) (\<lambda>changes. rret (f changes))"
      for f :: "gchange list \<Rightarrow> gdoc", OF this order_refl]
  show ?thesis
    unfolding snapshot_body_def readBody_def canon_doc_def index_changes_def Let_def
    apply (rule codec_weaken)
     apply (rule codec_bind [OF codec_actor [where s = "actor_String (d_actor d)"]])
     apply (simp only: parseActorID_String [OF st(1)] sum.case)
     apply (rule codec_bind [OF codec_uint [where v = "d_seq d"]])
     apply (rule codec_bind [OF codec_uint [where v = "d_maxOp d"]])
     apply (rule codec_bind [OF codec_deps [OF st(2)]], assumption)
     apply (rule codec_bind [OF codec_objects [OF st(6)]], assumption, assumption)
     apply (simp only: rebuilt_fmap root)
     apply (rule tail)
    apply simp
    done
qed

section \<open>The tables\<close>

lemma wTable_tabs [simp]:
  "w_actors (wTable xs w) = w_actors w" "w_objects (wTable xs w) = w_objects w" "w_strings (wTable xs w) = w_strings w"
proof -
  have "w_actors (fold wStr xs v) = w_actors v \<and> w_objects (fold wStr xs v) = w_objects v \<and>
      w_strings (fold wStr xs v) = w_strings v" for v
    by (induction xs arbitrary: v) (simp_all add: wStr_def wRaw_def wCount_def wUint_def)
  then show "w_actors (wTable xs w) = w_actors w" "w_objects (wTable xs w) = w_objects w"
    "w_strings (wTable xs w) = w_strings w"
    by (simp_all add: wTable_def wCount_def wUint_def)
qed

lemma codec_table: "codec T (Suc (length xs)) w (wTable xs w) (rCounted rStr) xs"
proof -
  have "codec T 1 w (wStr x w) rStr x" for x w
    by (rule codec_weaken [OF codec_str]) simp
  then have "codec T (length xs) (wCount xs w) (fold wStr xs (wCount xs w)) (rRepeat (length xs) rStr) (List.map (\<lambda>x. x) xs)"
    by (intro codec_fold)
  from codec_count [where k = "\<lambda>n. rRepeat n rStr", OF this order_refl] show ?thesis
    unfolding rCounted_def wTable_def by simp
qed

lemma winv_new: "winv newSnapWriter"
  by (simp add: winv_def newSnapWriter_def itab_inv_def emptyTab_def)

lemma empty_sub: "tab_sub emptyTab t"
  by (simp add: tab_sub_def emptyTab_def)

lemma empty_ok: "itab_ok emptyTab"
  by (simp add: itab_ok_def emptyTab_def)

lemma codec_reads:
  "codec T n w w' m x \<Longrightarrow> tabs_ok T \<Longrightarrow> wsub w' T \<Longrightarrow> \<exists>bs. w_buf w' = w_buf w @ bs \<and> n \<le> length bs \<and>
     (\<forall>pre post. length pre + length bs + length post < 2 ^ 63 \<longrightarrow>
        m (rd_at T pre (bs @ post)) = Inr (x, rd_at T (pre @ bs) post))"
  by (simp add: codec_def)

text \<open>A table is read back whatever the reader's own tables hold, as it uses none of them.\<close>

definition table_bytes :: "string list \<Rightarrow> byte list \<Rightarrow> bool" where
  "table_bytes xs bs \<longleftrightarrow> length xs \<le> length bs \<and>
     (\<forall>T pre post. tabs_ok T \<longrightarrow> length pre + length bs + length post < 2 ^ 63 \<longrightarrow>
        rCounted rStr (rd_at T pre (bs @ post)) = Inr (xs, rd_at T (pre @ bs) post))"

lemma read_table:
  assumes "w_actors w = emptyTab" "w_objects w = emptyTab" "w_strings w = emptyTab"
  shows "\<exists>bs. w_buf (wTable xs w) = w_buf w @ bs \<and> table_bytes xs bs"
proof -
  have sub: "wsub (wTable xs w) T" for T using assms by (simp add: wsub_def empty_sub)
  have "tabs_ok newSnapWriter" by (simp add: tabs_ok_def newSnapWriter_def empty_ok)
  from codec_reads [OF codec_table [of _ xs w] this sub] obtain bs
    where bs: "w_buf (wTable xs w) = w_buf w @ bs" "Suc (length xs) \<le> length bs" by blast
  have "rCounted rStr (rd_at T pre (bs @ post)) = Inr (xs, rd_at T (pre @ bs) post)"
    if T: "tabs_ok T" and len: "length pre + length bs + length post < 2 ^ 63" for T pre post
  proof -
    from codec_reads [OF codec_table [of T xs w] T sub]
    obtain bs' where bs': "w_buf (wTable xs w) = w_buf w @ bs'"
      "\<forall>pre post. length pre + length bs' + length post < 2 ^ 63 \<longrightarrow>
        rCounted rStr (rd_at T pre (bs' @ post)) = Inr (xs, rd_at T (pre @ bs') post)"
      by (elim exE conjE)
    then have "bs' = bs" using bs(1) by simp
    then show ?thesis using bs'(2) len by simp
  qed
  then show ?thesis using bs by (auto simp: table_bytes_def)
qed

lemma table_bytesD:
  assumes "table_bytes xs bs"
  shows "length xs \<le> length bs"
    and "tabs_ok T \<Longrightarrow> length pre + length bs + length post < 2 ^ 63 \<Longrightarrow>
      rCounted rStr (rd_at T pre (bs @ post)) = Inr (xs, rd_at T (pre @ bs) post)"
  using assms by (simp_all add: table_bytes_def)

section \<open>The snapshot\<close>

text \<open>The writers of the three stages of reading: no tables, the actors, the actors and objects.\<close>

definition stage1 :: "writer \<Rightarrow> writer" where "stage1 w = newSnapWriter\<lparr>w_actors := w_actors w\<rparr>"
definition stage2 :: "writer \<Rightarrow> writer" where "stage2 w = (stage1 w)\<lparr>w_objects := w_objects w\<rparr>"

lemma decode_encode:
  assumes "doc_stored marshal d" "length (encodeSnapshotV2 d) < 2 ^ 63"
  shows "decodeSnapshotV2 marshal (encodeSnapshotV2 d) = Inr (canon_doc d)"
proof -
  define body where "body = snapshot_body d"
  let ?A = "it_list (w_actors body)" and ?O = "it_list (w_objects body)" and ?S = "it_list (w_strings body)"
  let ?w = "wByte snapshotVersion2 newSnapWriter"
  have tabs: "w_actors ?w = emptyTab" "w_objects ?w = emptyTab" "w_strings ?w = emptyTab" "w_buf ?w = [2]"
    by (simp_all add: wByte_def wRaw_def newSnapWriter_def snapshotVersion2_def)
  obtain b1 where b1: "w_buf (wTable ?A ?w) = [2] @ b1" "table_bytes ?A b1"
    using read_table [OF tabs(1-3), of ?A] by (auto simp: tabs(4))
  obtain b2 where b2: "w_buf (wTable ?O (wTable ?A ?w)) = ([2] @ b1) @ b2" "table_bytes ?O b2"
    using read_table [of "wTable ?A ?w" ?O] b1(1) by (auto simp: tabs)
  obtain b3 where b3: "w_buf (wTable ?S (wTable ?O (wTable ?A ?w))) = (([2] @ b1) @ b2) @ b3" "table_bytes ?S b3"
    using read_table [of "wTable ?O (wTable ?A ?w)" ?S] b2(1) by (auto simp: tabs)
  note l = table_bytesD(1) [OF b1(2)] table_bytesD(1) [OF b2(2)] table_bytesD(1) [OF b3(2)]
  have enc: "encodeSnapshotV2 d = [2] @ b1 @ b2 @ b3 @ w_buf body"
    using b3(1) by (simp add: encodeSnapshotV2_def body_def Let_def)
  have "winv body" unfolding body_def using codec_inv [OF codec_body [OF assms(1)] winv_new] .
  moreover have "length ?A < 2 ^ 63" "length ?O < 2 ^ 63" "length ?S < 2 ^ 63"
    using assms(2) l unfolding enc by simp_all
  ultimately have "itab_ok (w_actors body)" "itab_ok (w_objects body)" "itab_ok (w_strings body)"
    using itab_inv_ok unfolding winv_def by blast+
  then have ok: "tabs_ok body" "tabs_ok (stage1 body)" "tabs_ok (stage2 body)" "tabs_ok newSnapWriter"
    by (simp_all add: tabs_ok_def stage1_def stage2_def newSnapWriter_def empty_ok)
  from codec_reads [OF codec_body [OF assms(1), of body, folded body_def] ok(1) wsub_refl]
  obtain bs where bs: "w_buf body = w_buf newSnapWriter @ bs"
    "\<forall>pre post. length pre + length bs + length post < 2 ^ 63 \<longrightarrow>
      readBody marshal (rd_at body pre (bs @ post)) = Inr (canon_doc d, rd_at body (pre @ bs) post)"
    by (elim exE conjE)
  have buf: "w_buf body = bs" using bs(1) by (simp add: newSnapWriter_def)
  have len: "1 + length b1 + length b2 + length b3 + length bs < 2 ^ 63" using assms(2) by (simp add: enc buf)
  have start: "\<lparr>r_buf = [2] @ b1 @ b2 @ b3 @ bs, r_pos = 1, r_actors = [], r_objects = [], r_strings = []\<rparr> =
      rd_at newSnapWriter [2] (b1 @ b2 @ b3 @ bs)"
    by (simp add: rd_at_def newSnapWriter_def emptyTab_def)
  have step1: "(rd_at newSnapWriter pre post)\<lparr>r_actors := ?A\<rparr> = rd_at (stage1 body) pre post"
    and step2: "(rd_at (stage1 body) pre post)\<lparr>r_objects := ?O\<rparr> = rd_at (stage2 body) pre post"
    and step3: "(rd_at (stage2 body) pre post)\<lparr>r_strings := ?S\<rparr> = rd_at body pre post" for pre post
    by (simp_all add: rd_at_def stage1_def stage2_def newSnapWriter_def)
  show ?thesis
    using table_bytesD(2) [OF b1(2) ok(4), of "[2]" "b2 @ b3 @ bs"] table_bytesD(2) [OF b2(2) ok(2), of "[2] @ b1" "b3 @ bs"]
      table_bytesD(2) [OF b3(2) ok(3), of "[2] @ b1 @ b2" bs] bs(2) [rule_format, of "[2] @ b1 @ b2 @ b3" "[]"] len
    by (simp add: decodeSnapshotV2_def enc buf start step1 step2 step3 Let_def del: append.simps append_Cons One_nat_def)
qed

text \<open>The first byte tells the reader which form it has.\<close>

lemma encode_version: "encodeSnapshotV2 d \<noteq> []" "hd (encodeSnapshotV2 d) = snapshotVersion2"
proof -
  let ?w = "wByte snapshotVersion2 newSnapWriter"
  have "\<exists>bs. w_buf (wTable xs w) = w_buf w @ bs" if "w_actors w = emptyTab" "w_objects w = emptyTab" "w_strings w = emptyTab" for xs w
    using read_table [OF that] by blast
  moreover have "w_actors ?w = emptyTab" "w_objects ?w = emptyTab" "w_strings ?w = emptyTab" "w_buf ?w = [2]"
    by (simp_all add: wByte_def wRaw_def newSnapWriter_def snapshotVersion2_def)
  ultimately have "\<exists>bs. encodeSnapshotV2 d = 2 # bs"
    unfolding encodeSnapshotV2_def Let_def by (metis append_Cons append_assoc wTable_tabs)
  then show "encodeSnapshotV2 d \<noteq> []" "hd (encodeSnapshotV2 d) = snapshotVersion2"
    by (auto simp: snapshotVersion2_def)
qed

end
