(* ===== verification/Doc_Save.thy ===== *)
theory Doc_Save
  imports Snapshot_Roundtrip Doc_Properties
begin

text \<open>
  \<open>Save\<close>, \<open>Load\<close> and \<open>Fork\<close> of \<^verbatim>\<open>crdt/doc.go\<close>. \<open>Save\<close> commits the pending operations, fires
  the hooks and writes the compact snapshot into a document chunk; \<open>Load\<close> reads that chunk and
  also the older JSON body, whose text the JSON package decodes: \<open>unmarshal\<close> stands for it and
  gives the structure the code then works on.
\<close>

section \<open>The older JSON form\<close>

record objectJSON =
  oj_kind :: string
  oj_map :: "(string, mapEntry) fmap"
  oj_list :: "listElem list"

record snapshotJSON =
  sj_actor :: string
  sj_seq :: uint64
  sj_maxOp :: uint64
  sj_deps :: "byte list list"
  sj_objects :: "(string, objectJSON) fmap"
  sj_changes :: "gchange list"

text \<open>\<open>MarshalJSON\<close> and \<open>UnmarshalJSON\<close> of an object, up to the text.\<close>

definition object_to_json :: "crdtObject \<Rightarrow> objectJSON" where
  "object_to_json t = \<lparr>oj_kind = obj_kind t, oj_map = obj_map t,
     oj_list = (if seq_length (obj_seq t) > 0 then seq_elems (obj_seq t) else [])\<rparr>"

definition object_of_json :: "objectJSON \<Rightarrow> crdtObject" where
  "object_of_json j = \<lparr>obj_kind = oj_kind j, obj_map = oj_map j,
     obj_seq = (if listLike (oj_kind j) then normalizeSeqOrder (seq_reset newSeq (oj_list j)) else newSeq)\<rparr>"

section \<open>Load\<close>

datatype load_error =
    Bad_document chunk_error | Bad_snapshot snap_error | Bad_json | Bad_snapshot_actor id_error | Bad_change

text \<open>The loop over the changes computes a hash that is not given.\<close>

fun load_changes :: "(gchange \<Rightarrow> byte list option) \<Rightarrow> gchange list \<Rightarrow> load_error + gchange list" where
  "load_changes marshal [] = Inr []"
| "load_changes marshal (c # cs) =
     (case (if c_hash c = zeroHash
            then map_option (\<lambda>(_, hash). c\<lparr>c_hash := hash\<rparr>) (encodeChangeChunk marshal c) else Some c) of
        None \<Rightarrow> Inl Bad_change
      | Some c \<Rightarrow> map_sum id (Cons c) (load_changes marshal cs))"

definition loadJSON :: "(gchange \<Rightarrow> byte list option) \<Rightarrow> snapshotJSON \<Rightarrow> load_error + gdoc" where
  "loadJSON marshal snap =
     (case parseActorID (sj_actor snap) of
        Inl e \<Rightarrow> Inl (Bad_snapshot_actor e)
      | Inr actor \<Rightarrow>
          (case load_changes marshal (sj_changes snap) of
             Inl e \<Rightarrow> Inl e
           | Inr changes \<Rightarrow>
               let objects = fmmap object_of_json (sj_objects snap);
                   objects = (if fmlookup objects rootID = None then fmupd rootID newMapObject objects else objects)
               in Inr ((newDocWithActor actor)\<lparr>d_seq := sj_seq snap, d_maxOp := sj_maxOp snap,
                    d_deps := sj_deps snap, d_objects := objects, d_changes := changes,
                    d_index := foldl (\<lambda>m c. m(hash_String (c_hash c) \<mapsto> c)) Map.empty changes\<rparr>)))"

definition Load ::
  "(gchange \<Rightarrow> byte list option) \<Rightarrow> (byte list \<Rightarrow> snapshotJSON option) \<Rightarrow> byte list \<Rightarrow> load_error + gdoc" where
  "Load marshal unmarshal data =
     (case decodeDocument data of
        Inl e \<Rightarrow> Inl (Bad_document e)
      | Inr body \<Rightarrow>
          if body \<noteq> [] \<and> hd body = snapshotVersion2 then map_sum Bad_snapshot id (decodeSnapshotV2 marshal body)
          else
            (case unmarshal body of
               None \<Rightarrow> Inl Bad_json
             | Some snap \<Rightarrow> loadJSON marshal snap))"

section \<open>Save and Fork\<close>

definition flushPendingForSnapshot ::
  "(gchange \<Rightarrow> byte list option) \<Rightarrow> gtime \<Rightarrow> gdoc \<Rightarrow> (nat list \<times> gpatch list) outcome" where
  "flushPendingForSnapshot marshal now d =
     (case commitPending marshal now d [] [] of
        (Inl e, d') \<Rightarrow> (Inl e, d')
      | (Inr (hooks, patches, hash), d') \<Rightarrow> (Inr (hooks, patches), d'))"

definition Save ::
  "(gchange \<Rightarrow> byte list option) \<Rightarrow> gtime \<Rightarrow> gdoc \<Rightarrow> (byte list \<times> fired) outcome" where
  "Save marshal now d =
     (case flushPendingForSnapshot marshal now d of
        (Inl e, d') \<Rightarrow> (Inl e, d')
      | (Inr (hooks, patches), d') \<Rightarrow> (Inr (encodeDocument (encodeSnapshotV2 d'), fireHooks hooks patches), d'))"

text \<open>\<open>saveLegacyJSON\<close>, up to the text of the JSON body.\<close>

definition legacySnapshot :: "gdoc \<Rightarrow> snapshotJSON" where
  "legacySnapshot d = \<lparr>sj_actor = actor_String (d_actor d), sj_seq = d_seq d, sj_maxOp = d_maxOp d,
     sj_deps = d_deps d, sj_objects = fmmap object_to_json (d_objects d), sj_changes = d_changes d\<rparr>"

datatype fork_error = Fork_save doc_error | Fork_load load_error

definition Fork ::
  "(gchange \<Rightarrow> byte list option) \<Rightarrow> (byte list \<Rightarrow> snapshotJSON option) \<Rightarrow> gtime \<Rightarrow> gdoc \<Rightarrow>
   (fork_error + gdoc \<times> fired) \<times> gdoc" where
  "Fork marshal unmarshal now d =
     (case Save marshal now d of
        (Inl e, d') \<Rightarrow> (Inl (Fork_save e), d')
      | (Inr (saved, fired), d') \<Rightarrow>
          (map_sum Fork_load (\<lambda>f. (f, fired)) (Load marshal unmarshal saved), d'))"

end
