(* ===== verification/Save_Properties.thy ===== *)
theory Save_Properties
  imports Doc_Save
begin

unbundle bit_operations_syntax

text \<open>
  Saving and loading: what a document must hold for the snapshot to lose nothing, that saving
  and loading then gives a document no reader can tell from the saved one, and what the reader
  does with a damaged dependency.
\<close>

section \<open>What a snapshot keeps\<close>

text \<open>
  The values a snapshot keeps are those of the constructors. An element keeps its reference
  when the reference is well formed, and its stamp when the stamp names an actor.
\<close>

definition elem_kept :: "listElem \<Rightarrow> bool" where
  "elem_kept e \<longleftrightarrow> formatOpIDRef (after_id e) = e_after e \<and> canon_value (e_value e) = e_value e \<and>
     (op_actor (e_vis e) = [] \<longrightarrow> e_vis e = e_id e)"

definition object_kept :: "aobj \<Rightarrow> bool" where
  "object_kept t \<longleftrightarrow>
     (if a_kind t = KMap then a_elems t = [] \<and> (\<forall>k e. fmlookup (a_map t) k = Some e \<longrightarrow> canon_value (me_value e) = me_value e)
      else if listLike (a_kind t) then a_map t = fmempty \<and> length (a_elems t) < 2 ^ 63 \<and> (\<forall>e \<in> set (a_elems t). elem_kept e)
      else a_map t = fmempty \<and> a_elems t = [])"

definition view_kept :: "adoc \<Rightarrow> bool" where
  "view_kept A \<longleftrightarrow> rootID |\<in>| fmdom A \<and> (\<forall>obj t. fmlookup A obj = Some t \<longrightarrow> object_kept t)"

lemma canon_elems_kept: "\<forall>e \<in> set es. elem_kept e \<Longrightarrow> canon_elems es = es"
  by (induction es) (auto simp: canon_elems_def canon_elem_def elem_kept_def)

lemma canon_entries_kept:
  assumes "\<forall>k e. fmlookup m k = Some e \<longrightarrow> canon_value (me_value e) = me_value e"
  shows "fmmap canon_entry m = m"
proof (rule fmap_ext)
  fix k show "fmlookup (fmmap canon_entry m) k = fmlookup m k"
    using assms by (cases "fmlookup m k") (auto simp: canon_entry_def)
qed

lemma canon_elems_ids: "List.map e_id (canon_elems es) = List.map e_id es"
  by (simp add: canon_elems_def canon_elem_def)

text \<open>Loading rebuilds every index; whatever the elements were, it is well formed.\<close>

lemma canon_object_ok:
  assumes "seq_inv (obj_seq t)"
  shows "seq_inv (obj_seq (canon_object t))"
proof -
  have "distinct (List.map e_id (canon_elems (seq_elems (obj_seq t))))"
    using assms core_distinct by (simp add: canon_elems_ids seq_inv_def)
  then show ?thesis by (simp add: canon_object_def newMapObject_def newListObject_def seq_reset_ok newSeq_ok)
qed

lemma canon_object_view:
  assumes "seq_inv (obj_seq t)" "object_kept (abs_obj t)"
  shows "abs_obj (canon_object t) = abs_obj t"
proof -
  have d: "distinct (List.map e_id (seq_elems (obj_seq t)))" using assms(1) core_distinct by (simp add: seq_inv_def)
  then show ?thesis
    using assms(2) canon_elems_kept canon_entries_kept
    by (auto simp: canon_object_def object_kept_def abs_obj_def newMapObject_def newListObject_def
        seq_reset_ok newSeq_ok split: if_splits)
qed

lemma canon_doc_ok: "doc_ok d \<Longrightarrow> doc_ok (canon_doc d)"
  by (auto simp: doc_ok_def canon_doc_def canon_object_ok)

lemma canon_doc_view:
  assumes "doc_ok d" "view_kept (doc_view d)"
  shows "doc_view (canon_doc d) = doc_view d"
proof (rule fmap_ext)
  fix obj show "fmlookup (doc_view (canon_doc d)) obj = fmlookup (doc_view d) obj"
  proof (cases "fmlookup (d_objects d) obj")
    case None
    then show ?thesis by (simp add: doc_view_lookup canon_doc_def)
  next
    case (Some t)
    then have "seq_inv (obj_seq t)" "object_kept (abs_obj t)"
      using assms by (auto simp: doc_view_lookup view_kept_def intro: doc_ok_obj)
    then show ?thesis by (simp add: doc_view_lookup canon_doc_def Some canon_object_view)
  qed
qed

text \<open>What a reader of a text sees depends on the view only.\<close>

lemma text_of_view:
  assumes "doc_ok d" "doc_ok d'" "doc_view d = doc_view d'"
  shows "TextToString d obj = TextToString d' obj"
proof -
  have "map_option abs_obj (fmlookup (d_objects d) obj) = map_option abs_obj (fmlookup (d_objects d') obj)"
    using assms(3) by (metis doc_view_lookup)
  then consider "fmlookup (d_objects d) obj = None" "fmlookup (d_objects d') obj = None"
    | t t' where "fmlookup (d_objects d) obj = Some t" "fmlookup (d_objects d') obj = Some t'" "abs_obj t = abs_obj t'"
    by (cases "fmlookup (d_objects d) obj"; cases "fmlookup (d_objects d') obj") auto
  then show ?thesis
  proof cases
    case 2
    then have "seq_core (obj_seq t)" "seq_core (obj_seq t')" "obj_kind t = obj_kind t'"
      "seq_elems (obj_seq t) = seq_elems (obj_seq t')"
      using assms(1,2) by (auto simp: seq_inv_def abs_obj_def dest!: doc_ok_obj)
    then show ?thesis using 2 by (simp add: TextToString_def objectLocked_def visibleText_eq)
  qed (simp add: TextToString_def objectLocked_def)
qed

section \<open>Saving\<close>

text \<open>The history can be stored: each change is, and the values of its operations are kept.\<close>

definition history_kept :: "(gchange \<Rightarrow> byte list option) \<Rightarrow> gdoc \<Rightarrow> bool" where
  "history_kept marshal d \<longleftrightarrow> (\<forall>dep \<in> set (d_deps d). length dep = 32) \<and> length (d_changes d) + 1 < 2 ^ 63 \<and>
     (\<forall>c \<in> set (d_changes d). change_stored marshal c \<and> (\<forall>op \<in> set (c_ops c). canon_op op = op)) \<and>
     (\<forall>op \<in> set (d_pending d). canon_op op = op)"

lemma canon_stored_kept: "\<forall>op \<in> set (c_ops c). canon_op op = op \<Longrightarrow> canon_stored c = c"
  by (simp add: canon_stored_def map_idI)

lemma commit_stored:
  assumes "history_kept marshal d" "t_nsec now < 1000000000"
    and "commitPending marshal now d msg grp = (Inr (hs, ps, hash), d')"
  shows "(\<forall>dep \<in> set (d_deps d'). length dep = 32) \<and> length (d_changes d') < 2 ^ 63 \<and> d_pending d' = [] \<and>
    d_objects d' = d_objects d \<and> d_actor d' = d_actor d \<and> d_maxOp d' = d_maxOp d \<and>
    (\<forall>c \<in> set (d_changes d'). change_stored marshal c \<and> canon_stored c = c)"
proof (cases "d_pending d = []")
  case True
  then show ?thesis using assms canon_stored_kept by (auto simp: commitPending_def history_kept_def)
next
  case False
  define change where "change = \<lparr>c_hash = zeroHash, c_actor = actor_String (d_actor d), c_seq = d_seq d + 1,
    c_deps = d_deps d, c_start = op_counter (o_id (hd (d_pending d))), c_time = now, c_msg = msg,
    c_group = (if grp = [] then actor_String (d_actor d) @ '':'' @ formatUint (d_seq d + 1) else grp),
    c_ops = d_pending d\<rparr>"
  obtain chunk where c: "encodeChangeChunk marshal change = Some (chunk, hash)"
    "d_changes d' = d_changes d @ [change\<lparr>c_hash := hash\<rparr>]" "d_deps d' = [hash]" "d_pending d' = []"
    "d_objects d' = d_objects d" "d_actor d' = d_actor d" "d_maxOp d' = d_maxOp d"
    using assms(3) False by (auto simp: commitPending_def change_def Let_def split: option.splits)
  have h: "length hash = 32" using c(1) by (auto simp: encodeChangeChunk_def Let_def split: option.splits)
  have ops: "List.map canon_op (d_pending d) = d_pending d"
    using assms(1) by (intro map_idI) (simp add: history_kept_def)
  then have k: "canon_change (change\<lparr>c_hash := hash\<rparr>) = change" by (simp add: canon_change_def change_def)
  have "change_stored marshal (change\<lparr>c_hash := hash\<rparr>)" "canon_stored (change\<lparr>c_hash := hash\<rparr>) = change\<lparr>c_hash := hash\<rparr>"
    using assms(1,2) c(1) ops unfolding change_stored_def k
    by (simp_all add: change_def canon_stored_def history_kept_def)
  then show ?thesis using c h assms(1) canon_stored_kept by (auto simp: history_kept_def)
qed

lemma length_encodeDocument: "length body \<le> length (encodeDocument body)"
  by (simp add: encodeDocument_def encodeChunk_def Let_def)

text \<open>Loading what was saved gives the normal form of the saved document.\<close>

lemma load_saved:
  assumes "doc_good d" "view_kept (doc_view d)" "history_kept marshal d" "t_nsec now < 1000000000"
    and "Save marshal now d = (Inr (bytes, fired), d')" "length bytes < 2 ^ 63"
  shows "Load marshal unmarshal bytes = Inr (canon_doc d')" "doc_view d' = doc_view d" "doc_good d'"
    "d_pending d' = []" "\<forall>c \<in> set (d_changes d'). canon_stored c = c"
proof -
  obtain hs ps hash where cp: "commitPending marshal now d [] [] = (Inr (hs, ps, hash), d')"
    and b: "bytes = encodeDocument (encodeSnapshotV2 d')"
    using assms(5) by (auto simp: Save_def flushPendingForSnapshot_def split: prod.splits sum.splits)
  note c = commit_stored [OF assms(3,4) cp]
  show v: "doc_view d' = doc_view d" using c by (simp add: doc_view_def)
  show g: "doc_good d'" using c assms(1) v by (simp add: doc_good_def doc_ok_def)
  have root: "rootID |\<in>| fmdom (d_objects d')" using assms(2) c by (simp add: view_kept_def doc_view_def)
  have "length (seq_elems (obj_seq t)) < 2 ^ 63" if "fmlookup (d_objects d') oid = Some t" "listLike (obj_kind t)" for oid t
  proof -
    have "object_kept (abs_obj t)" using assms(2) that(1) v by (metis doc_view_lookup option.simps(9) view_kept_def)
    then show ?thesis using that(2) by (auto simp: object_kept_def listLike_def)
  qed
  then have st: "doc_stored marshal d'"
    using c root g unfolding doc_stored_def doc_good_def by blast
  have l: "length (encodeSnapshotV2 d') < 2 ^ 63" using assms(6) length_encodeDocument [of "encodeSnapshotV2 d'"] b by simp
  have hd: "encodeSnapshotV2 d' \<noteq> []" "hd (encodeSnapshotV2 d') = snapshotVersion2"
    by (rule encode_version)+
  show "Load marshal unmarshal bytes = Inr (canon_doc d')"
    using decode_encode [OF st l] hd decodeDocument_encodeDocument [OF l] by (simp add: Load_def b)
  show "d_pending d' = []" "\<forall>c \<in> set (d_changes d'). canon_stored c = c" using c by simp_all
qed

section \<open>Properties\<close>

text \<open>C36. The compact snapshot round trip: for every document whose history can be stored,
  reading the bytes \<open>encodeSnapshotV2\<close> writes gives the document back in normal form: every
  object with its elements, tombstones, stamps and values, the change log with its hashes
  recomputed, the heads and the counters.\<close>
theorem snapshot_roundtrip:
  assumes "doc_stored marshal d" "length (encodeSnapshotV2 d) < 2 ^ 63"
  shows "decodeSnapshotV2 marshal (encodeSnapshotV2 d) = Inr (canon_doc d)"
  by (rule decode_encode [OF assms])


lemma index_changes_known: "c \<in> set cs \<Longrightarrow> index_changes cs (hash_String (c_hash c)) \<noteq> None"
  by (induction cs rule: rev_induct) (auto simp: index_changes_def)

lemma commit_keeps_index:
  assumes "commitPending marshal now d msg grp = (Inr (hs, ps, hash), d')"
    and "\<forall>c \<in> set (d_changes d). d_index d (hash_String (c_hash c)) \<noteq> None"
  shows "\<forall>c \<in> set (d_changes d'). d_index d' (hash_String (c_hash c)) \<noteq> None"
  using assms by (auto simp: commitPending_def Let_def split: option.splits if_splits)

lemma forked:
  assumes "Fork marshal unmarshal now d = (Inr (f, fired), d')"
  obtains bytes where "Save marshal now d = (Inr (bytes, fired), d')" "Load marshal unmarshal bytes = Inr f"
proof -
  obtain bytes fr where s: "Save marshal now d = (Inr (bytes, fr), d')"
    "map_sum Fork_load (\<lambda>f. (f, fr)) (Load marshal unmarshal bytes) = Inr (f, fired)"
    using assms by (auto simp: Fork_def split: prod.splits sum.splits)
  then show thesis using that by (cases "Load marshal unmarshal bytes") auto
qed


section \<open>A damaged dependency\<close>

text \<open>
  A reference from \<open>2 ^ 63 + 1\<close> on turns negative in \<open>int(ref - 1)\<close> and passes the range check.
\<close>

definition corruptSnapshot :: "byte list" where
  "corruptSnapshot = [2] @ [1, 32] @ replicate 32 0x30 @ [0, 0] @ [0, 0, 0, 0, 0] @ [1] @
     [1, 0, 1, 1, 0, 0] @ [1, 0x81, 0x80, 0x80, 0x80, 0x80, 0x80, 0x80, 0x80, 0x80, 1]"

text \<open>Whether reading panics; what it would otherwise give is not looked at.\<close>

fun panics :: "snap_error + 'a \<Rightarrow> bool" where
  "panics (Inl Panic) = True"
| "panics _ = False"

lemma panics_eq: "panics x \<longleftrightarrow> x = Inl Panic"
  by (cases x rule: panics.cases) simp_all


section \<open>A stored document\<close>

definition demoMarshal :: "gchange \<Rightarrow> byte list option" where
  "demoMarshal c = Some [1]"

definition demoOp :: gop where
  "demoOp = \<lparr>o_id = OpID 1 ''x'', o_action = ''put'', o_obj = rootID, o_prop = ''k'', o_value = intValue 5,
     o_after = [], o_run = [], o_delruns = []\<rparr>"

definition demoChange :: "byte list \<Rightarrow> gchange" where
  "demoChange h = \<lparr>c_hash = h, c_actor = ''x'', c_seq = 1, c_deps = [], c_start = 1,
     c_time = \<lparr>t_sec = 5, t_nsec = 7\<rparr>, c_msg = ''m'', c_group = ''g'', c_ops = [demoOp]\<rparr>"

definition demoStored :: "byte list \<Rightarrow> gdoc" where
  "demoStored h = demoDoc\<lparr>d_changes := [demoChange h], d_index := index_changes [demoChange h]\<rparr>"

definition demoHash :: "byte list" where "demoHash = changeHash [1]"

lemma demo_bytes: "length (encodeSnapshotV2 (demoStored h)) < 1000"
proof -
  have "snapshot_body (demoStored h) = snapshot_body (demoStored [])"
    by (simp add: snapshot_body_def demoStored_def demoChange_def writeChange_def wCount_def Let_def)
  then have "encodeSnapshotV2 (demoStored h) = encodeSnapshotV2 (demoStored [])" by (simp add: encodeSnapshotV2_def)
  moreover have "length (encodeSnapshotV2 (demoStored [])) < 1000" by code_simp
  ultimately show ?thesis by simp
qed

lemma demo_op_kept: "canon_op demoOp = demoOp"
  by (simp add: canon_op_def demoOp_def canon_value_def intValue_def)

lemma demo_change_stored: "change_stored demoMarshal (demoChange demoHash)" "c_ops (demoChange h) = [demoOp]"
  by (simp_all add: change_stored_def demoMarshal_def demoChange_def encodeChangeChunk_def demoHash_def Let_def)

lemma demo_view: "view_kept (doc_view (demoStored h))"
proof -
  have a: "after_id demoElem = None" by (simp add: after_id_def demoElem_def parseOpIDRef_def)
  have "elem_kept demoElem"
    unfolding elem_kept_def a
    by (simp add: demoElem_def formatOpIDRef_def canon_value_def stringValue_def)
  then have t: "object_kept (abs_obj demoText)" by (simp add: object_kept_def demo_text listLike_def)
  have r: "object_kept (abs_obj newMapObject)" by (simp add: object_kept_def newMapObject_def newSeq_ok)
  have o: "d_objects (demoStored h) = fmupd ''t'' demoText (fmupd rootID newMapObject fmempty)"
    by (simp add: demoStored_def demoDoc_def put_object_def newDocWithActor_def)
  then show ?thesis using t r by (auto simp: view_kept_def doc_view_def split: if_splits)
qed

lemma demo_stored_good: "doc_good (demoStored h)"
  using demo_good by (simp add: demoStored_def doc_good_def doc_ok_def doc_view_def)

lemma demo_history: "history_kept demoMarshal (demoStored demoHash)"
  using demo_change_stored demo_op_kept
  by (simp add: history_kept_def demoStored_def) (simp add: demoDoc_def put_object_def newDocWithActor_def)

lemma demo_doc_stored: "doc_stored demoMarshal (demoStored demoHash)"
proof -
  have "d_objects (demoStored h) = fmupd ''t'' demoText (fmupd rootID newMapObject fmempty)" for h
    by (simp add: demoStored_def demoDoc_def put_object_def newDocWithActor_def)
  then show ?thesis
    using demo_change_stored
    by (auto simp: doc_stored_def demo_text newMapObject_def newSeq_ok split: if_splits)
      (simp_all add: demoStored_def demoDoc_def put_object_def newDocWithActor_def)
qed

theorem snapshot_roundtrip_witness:
  "decodeSnapshotV2 demoMarshal (encodeSnapshotV2 (demoStored demoHash)) = Inr (canon_doc (demoStored demoHash))"
  by (rule snapshot_roundtrip [OF demo_doc_stored]) (use demo_bytes [of demoHash] in simp)

lemma length_encodeDocument_le: "length (encodeDocument body) \<le> length body + 19"
proof -
  let ?len = "appendULEB128 [] (word_of_nat (length body))"
  have "encodeDocument body = magicBytes @ [documentChunkType] @ ?len @
      take 4 (sha256 (hashInput documentChunkType ?len body)) @ body"
    by (simp only: encodeDocument_def encodeChunk_def Let_def)
  moreover have "length ?len \<le> 10" by (rule length_uleb)
  moreover have "length magicBytes = 4" by (simp add: magicBytes_def)
  ultimately show ?thesis by simp
qed

lemma demo_document_bytes: "length (encodeDocument (encodeSnapshotV2 (demoStored demoHash))) < 2 ^ 63"
proof -
  let ?body = "encodeSnapshotV2 (demoStored demoHash)"
  have "length (encodeDocument ?body) \<le> 1018"
    using demo_bytes [of demoHash] length_encodeDocument_le [of ?body] by linarith
  also have "(1018 :: nat) < 2 ^ 63" by simp
  finally show ?thesis .
qed

lemma demo_save: "Save demoMarshal \<lparr>t_sec = 9, t_nsec = 0\<rparr> (demoStored demoHash) =
    (Inr (encodeDocument (encodeSnapshotV2 (demoStored demoHash)), []), demoStored demoHash)"
proof -
  have "d_pending (demoStored demoHash) = []" by (simp add: demoStored_def)
  then show ?thesis by (simp add: Save_def flushPendingForSnapshot_def commitPending_def fireHooks_def)
qed



end
