(* ===== verification/Net_Game.thy ===== *)
theory Net_Game
  imports Go_Binary
begin

unbundle bit_operations_syntax

text \<open>
  \<^verbatim>\<open>netplay/game.go\<close>. A \<open>Game\<close> is code of the application, so it is a parameter: a record of its
  methods over its state type \<open>'s\<close> and input type \<open>'i\<close>. The session code relies on what the
  interface documents, which is \<open>game_law\<close> and \<open>codec_law\<close>.
\<close>

section \<open>Games, codecs and predictors\<close>

record event =
  ev_frame :: int
  ev_kind :: "16 word"
  ev_source :: uint32
  ev_data :: "byte list"

text \<open>\<open>Step\<close> takes the inputs of player 0 and of player 1.\<close>

record ('i, 's) game =
  g_step :: "'i \<Rightarrow> 'i \<Rightarrow> 's \<Rightarrow> 's"
  g_save :: "'s \<Rightarrow> byte list"
  g_load :: "byte list \<Rightarrow> 's option"
  g_events :: "'s \<Rightarrow> event list"

record 'i codec =
  c_size :: nat
  c_put :: "'i \<Rightarrow> byte list"
  c_get :: "byte list \<Rightarrow> 'i"

definition RepeatLast :: "nat \<Rightarrow> 'i \<Rightarrow> nat \<Rightarrow> 'i" where
  "RepeatLast player prev frame = prev"

text \<open>FNV-1a over the bytes of a saved state.\<close>

definition Checksum :: "byte list \<Rightarrow> uint64" where
  "Checksum state = foldl (\<lambda>h b. (h XOR ucast b) * 1099511628211) 14695981039346656037 state"

section \<open>What the interfaces document\<close>

text \<open>
  A game is deterministic: its steps depend on the saved state only, and loading a saved state
  gives a state that saves to the same bytes. A codec has a fixed size and is lossless.
\<close>

definition game_law :: "('i, 's) game \<Rightarrow> bool" where
  "game_law G \<longleftrightarrow>
     (\<forall>s. \<exists>t. g_load G (g_save G s) = Some t \<and> g_save G t = g_save G s) \<and>
     (\<forall>s t i j. g_save G s = g_save G t \<longrightarrow> g_save G (g_step G i j s) = g_save G (g_step G i j t))"

definition codec_law :: "'i codec \<Rightarrow> bool" where
  "codec_law D \<longleftrightarrow> 0 < c_size D \<and> (\<forall>i. length (c_put D i) = c_size D \<and> c_get D (c_put D i) = i)"

section \<open>The reference simulation\<close>

text \<open>The state after the first \<open>f\<close> frames, given both players' inputs of every frame.\<close>

fun sim :: "('i, 's) game \<Rightarrow> 's \<Rightarrow> (nat \<Rightarrow> 'i) \<Rightarrow> (nat \<Rightarrow> 'i) \<Rightarrow> nat \<Rightarrow> 's" where
  "sim G s0 p q 0 = s0"
| "sim G s0 p q (Suc f) = g_step G (p f) (q f) (sim G s0 p q f)"

lemma sim_cong: "(\<And>g. g < f \<Longrightarrow> p g = p' g \<and> q g = q' g) \<Longrightarrow> sim G s0 p q f = sim G s0 p' q' f"
  by (induction f) auto

end
