(* ===== verification/Net_Packet.thy ===== *)
theory Net_Packet
  imports Net_Game
begin

unbundle bit_operations_syntax

text \<open>
  \<^verbatim>\<open>netplay/packet.go\<close>: the wire format. The code writes fields at fixed offsets of a buffer;
  the fields are contiguous and cover the packet, so a packet is their concatenation here.
  Parsing reads the same offsets.
\<close>

section \<open>Constants\<close>

definition protoVersion :: byte where "protoVersion = 1"
definition ptHello :: byte where "ptHello = 1"
definition ptInput :: byte where "ptInput = 2"
definition ptResync :: byte where "ptResync = 3"
definition ptResyncAck :: byte where "ptResyncAck = 4"
definition ptEnd :: byte where "ptEnd = 5"
definition maxSums :: nat where "maxSums = 4"
definition helloLen :: nat where "helloLen = 61"
definition inputHdr :: nat where "inputHdr = 43"
definition sumLen :: nat where "sumLen = 13"
definition delayAuto :: byte where "delayAuto = 255"
definition resyncHdr :: nat where "resyncHdr = 33"
definition resyncChunk :: nat where "resyncChunk = 1000"
definition maxPacketSize :: nat where "maxPacketSize = 1200"

lemmas packet_consts = protoVersion_def ptHello_def ptInput_def ptResync_def ptResyncAck_def ptEnd_def
  maxSums_def helloLen_def inputHdr_def sumLen_def delayAuto_def resyncHdr_def resyncChunk_def maxPacketSize_def

section \<open>The common header\<close>

record sumEntry =
  se_frame :: uint32
  se_sum :: uint64
  se_epoch :: byte

record header =
  h_typ :: byte
  h_delay :: byte
  h_hasEcho :: bool
  h_seq :: uint32
  h_sendUs :: uint32
  h_echoUs :: uint32
  h_holdUs :: uint32

definition idTag :: "byte list \<Rightarrow> uint64" where
  "idTag ident = le_word (field 0 8 ident)"

definition putHeader :: "byte \<Rightarrow> uint64 \<Rightarrow> header \<Rightarrow> byte list" where
  "putHeader typ tag h =
     [protoVersion, typ] @ le_bytes 8 tag @ [h_delay h] @ [if h_hasEcho h then 1 else 0] @ le_bytes 4 (h_seq h) @
     le_bytes 4 (h_sendUs h) @ le_bytes 4 (h_echoUs h) @ le_bytes 4 (h_holdUs h)"

definition getHeader :: "byte list \<Rightarrow> header" where
  "getHeader b = \<lparr>h_typ = b ! 1, h_delay = b ! 10, h_hasEcho = (b ! 11 AND 1 \<noteq> 0),
     h_seq = le_word (field 12 4 b), h_sendUs = le_word (field 16 4 b),
     h_echoUs = le_word (field 20 4 b), h_holdUs = le_word (field 24 4 b)\<rparr>"

section \<open>Hello and Input packets\<close>

definition putHello :: "uint64 \<Rightarrow> header \<Rightarrow> byte \<Rightarrow> byte list \<Rightarrow> byte list" where
  "putHello tag h player ident = putHeader ptHello tag h @ [player] @ ident"

record inputPkt =
  ip_header :: header
  ip_frame :: uint32
  ip_ack :: uint32
  ip_start :: uint32
  ip_count :: nat
  ip_entries :: "byte list"
  ip_sums :: "sumEntry list"

definition putSum :: "sumEntry \<Rightarrow> byte list" where
  "putSum e = le_bytes 4 (se_frame e) @ le_bytes 8 (se_sum e) @ [se_epoch e]"

definition getSum :: "byte list \<Rightarrow> sumEntry" where
  "getSum b = \<lparr>se_frame = le_word (field 0 4 b), se_sum = le_word (field 4 8 b), se_epoch = b ! 12\<rparr>"

text \<open>The part of \<open>sendInput\<close> that fills the buffer; a count above 65535 wraps in its field.\<close>

definition putInput :: "uint64 \<Rightarrow> header \<Rightarrow> uint32 \<Rightarrow> uint32 \<Rightarrow> uint32 \<Rightarrow> byte list list \<Rightarrow> sumEntry list \<Rightarrow> byte list" where
  "putInput tag h frame ack start entries sums =
     putHeader ptInput tag h @ le_bytes 4 frame @ le_bytes 4 ack @ le_bytes 4 start @
     le_bytes 2 (word_of_nat (length entries) :: 16 word) @ [word_of_nat (length sums)] @
     concat entries @ concat (List.map putSum sums)"

definition parseInput :: "byte list \<Rightarrow> nat \<Rightarrow> (inputPkt \<times> uint64) option" where
  "parseInput b isz =
     (if length b < inputHdr \<or> b ! 0 \<noteq> protoVersion \<or> b ! 1 \<noteq> ptInput then None
      else
        let count = unat (le_word (field 40 2 b) :: 16 word); nsums = unat (b ! 42) in
        if nsums > maxSums \<or> length b \<noteq> inputHdr + count * isz + nsums * sumLen then None
        else
          let o1 = inputHdr + count * isz in
          Some (\<lparr>ip_header = getHeader b, ip_frame = le_word (field 28 4 b), ip_ack = le_word (field 32 4 b),
                  ip_start = le_word (field 36 4 b), ip_count = count, ip_entries = field inputHdr (count * isz) b,
                  ip_sums = List.map (\<lambda>i. getSum (field (o1 + i * sumLen) sumLen b)) [0..<nsums]\<rparr>,
                le_word (field 2 8 b)))"

text \<open>\<open>p.entries[i*isz : (i+1)*isz]\<close>.\<close>

definition entry_at :: "nat \<Rightarrow> inputPkt \<Rightarrow> nat \<Rightarrow> byte list" where
  "entry_at isz p i = field (i * isz) isz (ip_entries p)"

definition maxEntries :: "nat \<Rightarrow> nat" where
  "maxEntries isz = (maxPacketSize - inputHdr - maxSums * sumLen) div isz"

section \<open>Resync and small packets\<close>

record resyncPkt =
  rp_epoch :: byte
  rp_frame :: uint32
  rp_total :: uint32
  rp_offset :: uint32
  rp_sum :: uint64
  rp_data :: "byte list"

definition putResync :: "uint64 \<Rightarrow> resyncPkt \<Rightarrow> byte list" where
  "putResync tag p =
     [protoVersion, ptResync] @ le_bytes 8 tag @ [rp_epoch p] @ le_bytes 4 (rp_frame p) @ le_bytes 4 (rp_total p) @
     le_bytes 4 (rp_offset p) @ le_bytes 8 (rp_sum p) @ le_bytes 2 (word_of_nat (length (rp_data p)) :: 16 word) @ rp_data p"

definition parseResync :: "byte list \<Rightarrow> (resyncPkt \<times> uint64) option" where
  "parseResync b =
     (if length b < resyncHdr \<or> b ! 0 \<noteq> protoVersion \<or> b ! 1 \<noteq> ptResync then None
      else if length b \<noteq> resyncHdr + unat (le_word (field 31 2 b) :: 16 word) then None
      else Some (\<lparr>rp_epoch = b ! 10, rp_frame = le_word (field 11 4 b), rp_total = le_word (field 15 4 b),
                   rp_offset = le_word (field 19 4 b), rp_sum = le_word (field 23 8 b), rp_data = drop resyncHdr b\<rparr>,
                 le_word (field 2 8 b)))"

definition putSmall :: "byte \<Rightarrow> uint64 \<Rightarrow> byte \<Rightarrow> uint32 \<Rightarrow> byte list" where
  "putSmall typ tag v1 v2 = [protoVersion, typ] @ le_bytes 8 tag @ [v1] @ le_bytes 4 v2 @ [0]"

definition parseSmall :: "byte list \<Rightarrow> byte \<Rightarrow> (uint64 \<times> byte \<times> uint32) option" where
  "parseSmall b typ =
     (if length b \<noteq> 16 \<or> b ! 0 \<noteq> protoVersion \<or> b ! 1 \<noteq> typ then None
      else Some (le_word (field 2 8 b), b ! 10, le_word (field 11 4 b)))"

section \<open>Reading inverts writing\<close>

lemma length_putHeader [simp]: "length (putHeader typ tag h) = 28"
  by (simp add: putHeader_def)

lemma length_putSum [simp]: "length (putSum e) = 13"
  by (simp add: putSum_def)

lemma nth_skip: "length x \<le> n \<Longrightarrow> (x @ y) ! n = y ! (n - length x)"
  by (simp add: nth_append)

lemma getSum_putSum [simp]: "getSum (putSum e) = e"
  by (simp add: getSum_def putSum_def nth_skip)

lemma getHeader_put [simp]: "getHeader (putHeader typ tag h @ rest) = h\<lparr>h_typ := typ\<rparr>"
  by (simp add: getHeader_def putHeader_def nth_skip)

lemma header_fields:
  "(putHeader typ tag h @ rest) ! 0 = protoVersion" "(putHeader typ tag h @ rest) ! 1 = typ"
  "field 2 8 (putHeader typ tag h @ rest) = le_bytes 8 tag"
  by (simp_all add: putHeader_def)

lemma field_concat:
  "\<forall>x \<in> set xs. length x = k \<Longrightarrow> i < length xs \<Longrightarrow> field (i * k) k (concat xs @ rest) = xs ! i"
proof (induction xs arbitrary: i)
  case (Cons x xs)
  then show ?case by (cases i) simp_all
qed simp

lemma length_concat_const: "\<forall>x \<in> set xs. length x = k \<Longrightarrow> length (concat xs) = length xs * k"
  by (induction xs) auto

lemma getSum_at:
  assumes "i < length sums"
  shows "getSum (field (i * sumLen) sumLen (concat (List.map putSum sums))) = sums ! i"
  using field_concat [of "List.map putSum sums" 13 i "[]"] assms by (simp add: sumLen_def)

lemma parseInput_put:
  assumes "\<forall>e \<in> set es. length e = isz" "length es < 2 ^ 16" "length sums \<le> maxSums"
  shows "parseInput (putInput tag h fr ack st es sums) isz =
    Some (\<lparr>ip_header = h\<lparr>h_typ := ptInput\<rparr>, ip_frame = fr, ip_ack = ack, ip_start = st, ip_count = length es,
           ip_entries = concat es, ip_sums = sums\<rparr>, tag)"
proof -
  define b where "b = putInput tag h fr ack st es sums"
  have n: "unat (word_of_nat (length es) :: 16 word) = length es" using assms(2) by (simp add: unsigned_of_nat take_bit_nat_eq_self)
  have k: "unat (word_of_nat (length sums) :: byte) = length sums"
    using assms(3) by (simp add: unsigned_of_nat take_bit_nat_eq_self maxSums_def)
  have l: "length (concat es) = length es * isz" using assms(1) by (rule length_concat_const)
  have ls: "length (concat (List.map putSum sums)) = length sums * 13"
    using length_concat_const [of "List.map putSum sums" 13] by simp
  have hd: "b = putHeader ptInput tag h @ le_bytes 4 fr @ le_bytes 4 ack @ le_bytes 4 st @
     le_bytes 2 (word_of_nat (length es) :: 16 word) @ [word_of_nat (length sums)] @
     concat es @ concat (List.map putSum sums)"
    by (simp add: b_def putInput_def)
  have len: "length b = inputHdr + length es * isz + length sums * sumLen"
    by (simp add: hd l ls packet_consts)
  have f: "le_word (field 40 2 b) = (word_of_nat (length es) :: 16 word)" "b ! 42 = word_of_nat (length sums)"
    "le_word (field 28 4 b) = fr" "le_word (field 32 4 b) = ack" "le_word (field 36 4 b) = st"
    by (simp_all add: hd nth_skip)
  have g: "b ! 0 = protoVersion" "b ! 1 = ptInput" "le_word (field 2 8 b) = tag" "getHeader b = h\<lparr>h_typ := ptInput\<rparr>"
    unfolding hd by (simp_all only: header_fields getHeader_put le_word_bytes8)
  have e: "field inputHdr (length es * isz) b = concat es"
    by (simp add: hd inputHdr_def l)
  have s: "field (inputHdr + length es * isz + i * sumLen) sumLen b =
      field (i * sumLen) sumLen (concat (List.map putSum sums))" for i
    by (simp add: hd inputHdr_def l)
  have m: "List.map (\<lambda>i. getSum (field (i * sumLen) sumLen (concat (List.map putSum sums)))) [0..<length sums] = sums"
    by (rule nth_equalityI) (simp_all add: getSum_at)
  have "parseInput b isz = Some (\<lparr>ip_header = h\<lparr>h_typ := ptInput\<rparr>, ip_frame = fr, ip_ack = ack, ip_start = st,
      ip_count = length es, ip_entries = concat es, ip_sums = sums\<rparr>, tag)"
    unfolding parseInput_def Let_def f n k g s m e using len assms(3) by simp
  then show ?thesis by (simp add: b_def)
qed

lemma entry_at_put:
  assumes "\<forall>e \<in> set es. length e = isz" "i < length es"
  shows "entry_at isz (p\<lparr>ip_entries := concat es\<rparr>) i = es ! i"
  using field_concat [OF assms, of "[]"] by (simp add: entry_at_def)

lemma parseResync_put:
  assumes "length (rp_data p) < 2 ^ 16"
  shows "parseResync (putResync tag p) = Some (p, tag)"
proof -
  have n: "unat (word_of_nat (length (rp_data p)) :: 16 word) = length (rp_data p)"
    using assms by (simp add: unsigned_of_nat take_bit_nat_eq_self)
  show ?thesis
    by (simp add: parseResync_def putResync_def packet_consts nth_skip n)
qed

lemma parseSmall_put: "parseSmall (putSmall typ tag v1 v2) typ = Some (tag, v1, v2)"
  by (simp add: parseSmall_def putSmall_def packet_consts nth_skip)

end
