(* ===== verification/Go_Float.thy ===== *)
theory Go_Float
  imports Complex_Main
begin

text \<open>
  \<^verbatim>\<open>float64\<close> arithmetic as the code uses it. A finite \<^verbatim>\<open>float64\<close> is the rational number it stands
  for; an operation computes the exact result and rounds it to the nearest number with a
  significand of 53 bits, ties to the even one. Subnormal numbers, overflow and the special
  values do not arise where the code computes with floats (frame counts and round trips).
\<close>

definition two_pow :: "int \<Rightarrow> rat" where
  "two_pow e = (if 0 \<le> e then 2 ^ nat e else 1 / 2 ^ nat (- e))"

text \<open>The number of binary digits.\<close>

function digits2 :: "int \<Rightarrow> int" where
  "digits2 n = (if n \<le> 0 then 0 else 1 + digits2 (n div 2))"
  by pat_completeness auto
termination by (relation "measure nat") auto

declare digits2.simps [simp del]

text \<open>The exponent \<open>e\<close> with \<open>2 ^ e \<le> x < 2 ^ (e + 1)\<close>, for positive \<open>x\<close>.\<close>

definition exponent :: "rat \<Rightarrow> int" where
  "exponent x =
     (let (n, d) = quotient_of x; e = digits2 n - digits2 d
      in if two_pow e \<le> x then e else e - 1)"

definition round_even :: "rat \<Rightarrow> int" where
  "round_even x =
     (let q = \<lfloor>x\<rfloor>; r = x - of_int q
      in if r < 1 / 2 then q else if r > 1 / 2 then q + 1 else if even q then q else q + 1)"

definition fl :: "rat \<Rightarrow> rat" where
  "fl x =
     (if x = 0 then 0
      else let u = two_pow (exponent \<bar>x\<bar> - 52) in sgn x * of_int (round_even (\<bar>x\<bar> / u)) * u)"

definition fadd :: "rat \<Rightarrow> rat \<Rightarrow> rat" where "fadd x y = fl (x + y)"
definition fsub :: "rat \<Rightarrow> rat \<Rightarrow> rat" where "fsub x y = fl (x - y)"
definition fmul :: "rat \<Rightarrow> rat \<Rightarrow> rat" where "fmul x y = fl (x * y)"
definition fdiv :: "rat \<Rightarrow> rat \<Rightarrow> rat" where "fdiv x y = fl (x / y)"
definition of_integer :: "int \<Rightarrow> rat" where "of_integer n = fl (of_int n)"

end
