(* ===== verification/Net_Session.thy ===== *)
theory Net_Session
  imports Net_Packet Go_Float "HOL-Library.Signed_Division"
begin

unbundle bit_operations_syntax

text \<open>
  \<^verbatim>\<open>netplay/session.go\<close>: one peer of a rollback match. A method is a function from the session
  to the session. Frame numbers are \<open>nat\<close> and \<open>noFrame\<close> is \<open>None\<close>; a duration is the number of
  its nanoseconds; a smoothed frame advantage is a \<^verbatim>\<open>float64\<close> (\<open>Go_Float\<close>). The transport is a
  pair of lists, the datagrams waiting and the datagrams sent so far; \<open>OnChecksum\<close> is the list of
  its calls. An index out of range, which ends the Go process, is the error \<open>Panic_index\<close>.
\<close>

section \<open>State\<close>

datatype sess_error =
    ErrDisconnect | ErrIdentityMismatch | ErrRemoteEnded | ErrCatchUpTimeout | ErrBadResync
  | DesyncError nat uint64 uint64 "byte list" | No_saved_state nat | Load_failed | Panic_index

datatype status = StatusHandshake | StatusRunning | StatusEnded

datatype tick = OutcomeHandshake | OutcomeAdvanced | OutcomeStalled | OutcomeWaited | OutcomeCatchUp | OutcomeEnded

record ('i, 's) netcfg =
  nc_game :: "('i, 's) game"
  nc_codec :: "'i codec"
  nc_zero :: 'i
  nc_me :: nat
  nc_identity :: "byte list"
  nc_inputDelay :: int
  nc_maxInputDelay :: int
  nc_maxRollback :: int
  nc_pred :: "(nat \<Rightarrow> 'i \<Rightarrow> nat \<Rightarrow> 'i) option"
  nc_checksumInterval :: int
  nc_window :: int
  nc_stall :: int
  nc_sync :: int
  nc_frameDur :: int
  nc_relay :: bool
  nc_catchUp :: int
  nc_catchUpTimeout :: int

datatype stat =
    Rollbacks | RolledBackFrames | MaxRollbackDepth | StallTicks | WaitTicks | DuplicateEntries
  | ConflictingEntries | BadPackets | PacketsSent | PacketsReceived | Checksums | Agreed | Mismatches
  | Resyncs | CatchUpTicks | CatchUpFrames | MaxCatchUpPerTick

definition historyFrames :: nat where "historyFrames = 256"
definition cpSlots :: nat where "cpSlots = 8"
definition AutoDelay :: int where "AutoDelay = -1"

record cpSlot =
  cp_frame :: nat
  cp_sum :: uint64
  cp_epoch :: byte
  cp_valid :: bool
  cp_judged :: bool
  cp_state :: "byte list"

record remSum =
  rm_frame :: nat
  rm_sum :: uint64
  rm_epoch :: byte
  rm_valid :: bool

record ('i, 's) session =
  s_status :: status
  s_err :: "sess_error option"
  s_stats :: "stat \<Rightarrow> nat"
  s_delay :: nat
  s_delayKnown :: bool
  s_peerSeen :: bool
  s_hsStart :: int
  s_hsStarted :: bool
  s_frame :: nat
  s_rc :: nat
  s_localNext :: nat
  s_peerAck :: nat
  s_firstBad :: "nat option"
  s_local :: "'i list"
  s_remote :: "'i list"
  s_used :: "'i list"
  s_states :: "byte list list"
  s_stFrame :: "nat option list"
  s_evs :: "event list list"
  s_gamest :: 's
  s_changedFrom :: "nat option"
  s_seq :: uint32
  s_recvSeq :: uint32
  s_haveRecv :: bool
  s_echoUs :: uint32
  s_echoAt :: int
  s_haveEcho :: bool
  s_rtt :: int
  s_haveRTT :: bool
  s_adv :: rat
  s_haveAdv :: bool
  s_sinceWait :: nat
  s_stalling :: bool
  s_stallSince :: int
  s_nextCheck :: nat
  s_cp :: "cpSlot list"
  s_rem :: "remSum list"
  s_epoch :: byte
  s_agreed :: "nat option"
  s_rsEpoch :: byte
  s_rsFrame :: nat
  s_rsTotal :: nat
  s_rsBuf :: "byte list"
  s_rsGot :: "bool list"
  s_rsHave :: nat
  s_rsSum :: uint64
  s_catching :: bool
  s_catchEnd :: nat
  s_catchBy :: int
  s_inq :: "byte list list"
  s_out :: "byte list list"
  s_checks :: "(nat \<times> uint64) list"

section \<open>Construction\<close>

datatype cfg_error = Bad_player | Bad_input_size | Bad_delay

definition default_to :: "int \<Rightarrow> int \<Rightarrow> int" where
  "default_to d x = (if x = 0 then d else x)"

definition withDefaults :: "('i, 's) netcfg \<Rightarrow> ('i, 's) netcfg" where
  "withDefaults C = C\<lparr>nc_maxInputDelay := default_to 3 (nc_maxInputDelay C),
     nc_maxRollback := default_to 4 (nc_maxRollback C),
     nc_pred := (case nc_pred C of None \<Rightarrow> Some RepeatLast | Some p \<Rightarrow> Some p),
     nc_checksumInterval := default_to 30 (nc_checksumInterval C), nc_window := default_to 8 (nc_window C),
     nc_stall := default_to 5000000000 (nc_stall C), nc_sync := default_to 4 (nc_sync C),
     nc_frameDur := default_to (1000000000 div 60) (nc_frameDur C), nc_catchUp := default_to 30 (nc_catchUp C),
     nc_catchUpTimeout := default_to 1000000000 (nc_catchUpTimeout C)\<rparr>"

definition nring :: "('i, 's) netcfg \<Rightarrow> nat" where
  "nring C = nat (nc_window C + nc_maxInputDelay C + 4)"

definition sess_k :: "('i, 's) netcfg \<Rightarrow> nat" where "sess_k C = nat (nc_checksumInterval C)"
definition isz :: "('i, 's) netcfg \<Rightarrow> nat" where "isz C = c_size (nc_codec C)"
definition sess_tag :: "('i, 's) netcfg \<Rightarrow> uint64" where "sess_tag C = idTag (nc_identity C)"

definition predict :: "('i, 's) netcfg \<Rightarrow> nat \<Rightarrow> 'i \<Rightarrow> nat \<Rightarrow> 'i" where
  "predict C = (case nc_pred C of None \<Rightarrow> RepeatLast | Some p \<Rightarrow> p)"

definition noCp :: cpSlot where
  "noCp = \<lparr>cp_frame = 0, cp_sum = 0, cp_epoch = 0, cp_valid = False, cp_judged = False, cp_state = []\<rparr>"

definition noRem :: remSum where
  "noRem = \<lparr>rm_frame = 0, rm_sum = 0, rm_epoch = 0, rm_valid = False\<rparr>"

text \<open>The session of a configuration with its defaults; \<open>g0\<close> is the state of the game.\<close>

definition fresh :: "('i, 's) netcfg \<Rightarrow> 's \<Rightarrow> ('i, 's) session" where
  "fresh C g0 = \<lparr>s_status = StatusHandshake, s_err = None, s_stats = (\<lambda>_. 0),
     s_delay = (if nc_inputDelay C = AutoDelay then 0 else nat (nc_inputDelay C)),
     s_delayKnown = (nc_inputDelay C \<noteq> AutoDelay), s_peerSeen = False, s_hsStart = 0, s_hsStarted = False,
     s_frame = 0, s_rc = 0, s_localNext = 0, s_peerAck = 0, s_firstBad = None,
     s_local = replicate historyFrames (nc_zero C), s_remote = replicate historyFrames (nc_zero C),
     s_used = replicate historyFrames (nc_zero C), s_states = replicate (nring C) [],
     s_stFrame = replicate (nring C) None, s_evs = replicate (nring C) [], s_gamest = g0, s_changedFrom = None,
     s_seq = 0, s_recvSeq = 0, s_haveRecv = False, s_echoUs = 0, s_echoAt = 0, s_haveEcho = False,
     s_rtt = 0, s_haveRTT = False, s_adv = 0, s_haveAdv = False, s_sinceWait = 0,
     s_stalling = False, s_stallSince = 0, s_nextCheck = sess_k C,
     s_cp = replicate cpSlots noCp, s_rem = replicate cpSlots noRem, s_epoch = 0, s_agreed = None,
     s_rsEpoch = 0, s_rsFrame = 0, s_rsTotal = 0, s_rsBuf = [], s_rsGot = [], s_rsHave = 0, s_rsSum = 0,
     s_catching = False, s_catchEnd = 0, s_catchBy = 0, s_inq = [], s_out = [], s_checks = []\<rparr>"

definition NewSession :: "('i, 's) netcfg \<Rightarrow> 's \<Rightarrow> cfg_error + ('i, 's) netcfg \<times> ('i, 's) session" where
  "NewSession C g0 =
     (if nc_me C \<noteq> 0 \<and> nc_me C \<noteq> 1 then Inl Bad_player
      else if c_size (nc_codec C) < 1 \<or> c_size (nc_codec C) > 64 then Inl Bad_input_size
      else
        let D = withDefaults C in
        if nc_inputDelay D > nc_maxInputDelay D \<or> nc_inputDelay D < AutoDelay then Inl Bad_delay
        else Inr (D, fresh D g0))"

section \<open>Small steps\<close>

definition bump :: "stat \<Rightarrow> nat \<Rightarrow> ('i, 's) session \<Rightarrow> ('i, 's) session" where
  "bump c n s = s\<lparr>s_stats := (s_stats s)(c := s_stats s c + n)\<rparr>"

definition raise_to :: "stat \<Rightarrow> nat \<Rightarrow> ('i, 's) session \<Rightarrow> ('i, 's) session" where
  "raise_to c n s = s\<lparr>s_stats := (s_stats s)(c := max (s_stats s c) n)\<rparr>"

definition end_with :: "sess_error \<Rightarrow> ('i, 's) session \<Rightarrow> ('i, 's) session" where
  "end_with e s = (if s_status s \<noteq> StatusEnded then s\<lparr>s_status := StatusEnded, s_err := Some e\<rparr> else s)"

definition send :: "byte list \<Rightarrow> ('i, 's) session \<Rightarrow> ('i, 's) session" where
  "send b s = s\<lparr>s_out := s_out s @ [b]\<rparr>"

definition micros :: "int \<Rightarrow> uint32" where
  "micros d = word_of_int (d sdiv 1000)"

definition seqNewer :: "uint32 \<Rightarrow> uint32 \<Rightarrow> bool" where
  "seqNewer a b \<longleftrightarrow> sint (a - b) > 0"

definition SuggestDelay :: "int \<Rightarrow> int \<Rightarrow> int \<Rightarrow> int \<Rightarrow> int" where
  "SuggestDelay rtt frameDur maxRollback maxDelay =
     (let oneWay = \<lceil>fsub (fdiv (of_integer (rtt sdiv 2)) (of_integer frameDur)) (fl (1 / 20))\<rceil>;
          d = oneWay - maxRollback; d = (if d < 0 then 0 else d)
      in if d > maxDelay then maxDelay else d)"

definition ConfirmedFrame :: "('i, 's) session \<Rightarrow> nat" where
  "ConfirmedFrame s = (let c = s_rc s in if s_localNext s < c then s_localNext s else c)"

definition EventsFrom :: "('i, 's) netcfg \<Rightarrow> ('i, 's) session \<Rightarrow> int \<Rightarrow> event list" where
  "EventsFrom C s from =
     (let lo = int (s_frame s) - int (nring C) + 1; from = (if from < lo then lo else from);
          from = (if from < 0 then 0 else from)
      in concat (List.map (\<lambda>f. if s_stFrame s ! (f mod nring C) = Some f then s_evs s ! (f mod nring C) else [])
           [nat from..<s_frame s]))"

section \<open>Checksums\<close>

definition judge :: "('i, 's) netcfg \<Rightarrow> nat \<Rightarrow> ('i, 's) session \<Rightarrow> ('i, 's) session" where
  "judge C f s =
     (let i = f div sess_k C mod cpSlots; c = s_cp s ! i; r = s_rem s ! i in
      if \<not> cp_valid c \<or> \<not> rm_valid r \<or> cp_frame c \<noteq> f \<or> rm_frame r \<noteq> f \<or> cp_judged c \<or> cp_epoch c \<noteq> rm_epoch r then s
      else
        let s = s\<lparr>s_cp := (s_cp s)[i := c\<lparr>cp_judged := True\<rparr>]\<rparr> in
        if cp_sum c = rm_sum r then
          let s = bump Agreed 1 s in
          (if s_agreed s = None \<or> f > the (s_agreed s) then s\<lparr>s_agreed := Some f\<rparr> else s)
        else
          let s = bump Mismatches 1 s in
          if \<not> nc_relay C then end_with (DesyncError f (cp_sum c) (rm_sum r) (cp_state c)) s else s)"

text \<open>One checkpoint: the sum of the saved state of frame \<open>f\<close> goes into its slot.\<close>

definition checkpoint :: "('i, 's) netcfg \<Rightarrow> nat \<Rightarrow> ('i, 's) session \<Rightarrow> ('i, 's) session" where
  "checkpoint C f s =
     (let st = s_states s ! (f mod nring C); sum = Checksum st; i = f div sess_k C mod cpSlots;
          s = s\<lparr>s_nextCheck := f + sess_k C,
                s_cp := (s_cp s)[i := \<lparr>cp_frame = f, cp_sum = sum, cp_epoch = s_epoch s, cp_valid = True,
                  cp_judged = False, cp_state = st\<rparr>], s_checks := s_checks s @ [(f, sum)]\<rparr>
      in judge C f (bump Checksums 1 s))"

text \<open>The loop; each round passes one multiple of the interval, so \<open>limit + 1\<close> rounds are enough.\<close>

fun check_loop :: "nat \<Rightarrow> ('i, 's) netcfg \<Rightarrow> int \<Rightarrow> ('i, 's) session \<Rightarrow> ('i, 's) session" where
  "check_loop 0 C limit s = s"
| "check_loop (Suc n) C limit s =
     (let f = s_nextCheck s in
      if int f > limit \<or> f > s_rc s then s
      else if s_stFrame s ! (f mod nring C) \<noteq> Some f then
        (if limit - int f \<ge> int (nring C) then check_loop n C limit (s\<lparr>s_nextCheck := f + sess_k C\<rparr>) else s)
      else
        let s = checkpoint C f s in
        if s_status s = StatusEnded then s else check_loop n C limit s)"

definition tryCheckpoints :: "('i, 's) netcfg \<Rightarrow> int \<Rightarrow> ('i, 's) session \<Rightarrow> ('i, 's) session" where
  "tryCheckpoints C limit s = check_loop (nat (limit + 1)) C limit s"

definition onRemoteSum :: "('i, 's) netcfg \<Rightarrow> sumEntry \<Rightarrow> ('i, 's) session \<Rightarrow> ('i, 's) session" where
  "onRemoteSum C e s =
     (let f = unat (se_frame e) in
      if f = 0 \<or> f mod sess_k C \<noteq> 0 then bump BadPackets 1 s
      else
        let i = f div sess_k C mod cpSlots; r = s_rem s ! i in
        if rm_valid r \<and> rm_frame r = f \<and> rm_epoch r = se_epoch e then s
        else judge C f (s\<lparr>s_rem := (s_rem s)[i :=
          \<lparr>rm_frame = f, rm_sum = se_sum e, rm_epoch = se_epoch e, rm_valid = True\<rparr>]\<rparr>))"

section \<open>Simulation\<close>

text \<open>The remote input of frame \<open>g\<close>: the one received, or a prediction from the last one.\<close>

definition remote_input :: "('i, 's) netcfg \<Rightarrow> nat \<Rightarrow> ('i, 's) session \<Rightarrow> 'i" where
  "remote_input C g s =
     (if g < s_rc s then s_remote s ! (g mod historyFrames)
      else
        let prev = (if s_rc s > 0 then s_remote s ! ((s_rc s - 1) mod historyFrames) else nc_zero C)
        in predict C (1 - nc_me C) prev g)"

definition stepFrame :: "('i, 's) netcfg \<Rightarrow> nat \<Rightarrow> ('i, 's) session \<Rightarrow> ('i, 's) session" where
  "stepFrame C g s =
     (let G = nc_game C; i = g mod nring C;
          s = s\<lparr>s_states := (s_states s)[i := g_save G (s_gamest s)], s_stFrame := (s_stFrame s)[i := Some g]\<rparr>;
          mine = s_local s ! (g mod historyFrames); v = remote_input C g s;
          st = (if nc_me C = 0 then g_step G mine v (s_gamest s) else g_step G v mine (s_gamest s));
          s = s\<lparr>s_used := (s_used s)[g mod historyFrames := v], s_gamest := st,
                s_evs := (s_evs s)[i := List.map (\<lambda>e. e\<lparr>ev_frame := int g\<rparr>) (g_events G st)]\<rparr>
      in tryCheckpoints C (int g) s)"

definition rollback :: "('i, 's) netcfg \<Rightarrow> nat \<Rightarrow> ('i, 's) session \<Rightarrow> ('i, 's) session" where
  "rollback C f s =
     (let i = f mod nring C in
      if s_stFrame s ! i \<noteq> Some f then end_with (No_saved_state f) s
      else case g_load (nc_game C) (s_states s ! i) of
        None \<Rightarrow> end_with Load_failed s
      | Some st \<Rightarrow>
          let depth = s_frame s - f;
              s = raise_to MaxRollbackDepth depth (bump RolledBackFrames depth (bump Rollbacks 1 (s\<lparr>s_gamest := st\<rparr>)));
              s = fold (stepFrame C) [f..<s_frame s] s
          in s\<lparr>s_changedFrom := Some f\<rparr>)"

section \<open>Sending\<close>

definition sess_header :: "('i, 's) netcfg \<Rightarrow> byte \<Rightarrow> int \<Rightarrow> ('i, 's) session \<Rightarrow> header \<times> ('i, 's) session" where
  "sess_header C typ now s =
     (let s = s\<lparr>s_seq := s_seq s + 1\<rparr> in
      (\<lparr>h_typ = typ,
        h_delay = (if nc_inputDelay C = AutoDelay \<and> \<not> s_delayKnown s then delayAuto else word_of_nat (s_delay s)),
        h_hasEcho = s_haveEcho s, h_seq = s_seq s, h_sendUs = micros now,
        h_echoUs = (if s_haveEcho s then s_echoUs s else 0),
        h_holdUs = (if s_haveEcho s then micros (now - s_echoAt s) else 0)\<rparr>, s))"

definition sendHello :: "('i, 's) netcfg \<Rightarrow> int \<Rightarrow> ('i, 's) session \<Rightarrow> ('i, 's) session" where
  "sendHello C now s =
     (let (h, s) = sess_header C ptHello now s
      in send (putHello (sess_tag C) h (word_of_nat (nc_me C)) (nc_identity C)) (bump PacketsSent 1 s))"

text \<open>The newest checksums, newest first: a slot moves up past those with smaller frames.\<close>

definition shift_in :: "cpSlot \<Rightarrow> cpSlot list \<Rightarrow> cpSlot list" where
  "shift_in c xs =
     (let smaller = takeWhile (\<lambda>p. cp_frame p < cp_frame c) (rev xs)
      in take (length xs - length smaller) xs @ [c] @ rev smaller)"

fun pick :: "byte \<Rightarrow> cpSlot list \<Rightarrow> cpSlot list \<Rightarrow> cpSlot list" where
  "pick epoch [] picked = picked"
| "pick epoch (c # cs) picked =
     (if \<not> cp_valid c \<or> cp_epoch c \<noteq> epoch then pick epoch cs picked
      else if length picked < maxSums then pick epoch cs (shift_in c picked)
      else if cp_frame c \<le> cp_frame (picked ! (maxSums - 1)) then pick epoch cs picked
      else pick epoch cs (shift_in c (butlast picked)))"

text \<open>The inputs the packet carries: from the peer's acknowledgement on, within the history.\<close>

definition input_start :: "('i, 's) session \<Rightarrow> nat" where
  "input_start s = (let lo = s_localNext s - (historyFrames - 16) in if s_peerAck s < lo then lo else s_peerAck s)"

definition input_count :: "('i, 's) netcfg \<Rightarrow> ('i, 's) session \<Rightarrow> nat" where
  "input_count C s = (let count = s_localNext s - input_start s; m = maxEntries (isz C) in if count > m then m else count)"

definition sendInput :: "('i, 's) netcfg \<Rightarrow> int \<Rightarrow> ('i, 's) session \<Rightarrow> ('i, 's) session" where
  "sendInput C now s =
     (let (h, s) = sess_header C ptInput now s; start = input_start s; count = input_count C s;
          entries = List.map (\<lambda>i. c_put (nc_codec C) (s_local s ! ((start + i) mod historyFrames))) [0..<count];
          csums = List.map (\<lambda>c. \<lparr>se_frame = word_of_nat (cp_frame c), se_sum = cp_sum c, se_epoch = cp_epoch c\<rparr>)
            (pick (s_epoch s) (s_cp s) [])
      in send (putInput (sess_tag C) h (word_of_nat (s_frame s)) (word_of_nat (s_rc s)) (word_of_nat start) entries csums)
           (bump PacketsSent 1 s))"

definition sendResyncAck :: "('i, 's) netcfg \<Rightarrow> ('i, 's) session \<Rightarrow> ('i, 's) session" where
  "sendResyncAck C s = send (putSmall ptResyncAck (sess_tag C) (s_epoch s) (word_of_nat (s_rsFrame s))) s"

section \<open>Catching up after a resync\<close>

fun catch_loop :: "nat \<Rightarrow> ('i, 's) netcfg \<Rightarrow> ('i, 's) session \<Rightarrow> nat \<times> ('i, 's) session" where
  "catch_loop 0 C s = (0, s)"
| "catch_loop (Suc n) C s =
     (if s_frame s < s_catchEnd s then
        let s = stepFrame C (s_frame s) s; (k, s) = catch_loop n C (s\<lparr>s_frame := s_frame s + 1\<rparr>) in (Suc k, s)
      else (0, s))"

definition catchUp :: "('i, 's) netcfg \<Rightarrow> int \<Rightarrow> ('i, 's) session \<Rightarrow> tick \<times> ('i, 's) session" where
  "catchUp C now s =
     (let (n, s) = catch_loop (nat (nc_catchUp C)) C s;
          s = raise_to MaxCatchUpPerTick n (bump CatchUpFrames n (bump CatchUpTicks 1 s)); s = sendInput C now s
      in if s_frame s \<ge> s_catchEnd s then
           (OutcomeCatchUp, s\<lparr>s_catching := False, s_changedFrom := Some (s_catchEnd s + 1 - nring C)\<rparr>)
         else if now > s_catchBy s then (OutcomeEnded, end_with ErrCatchUpTimeout s)
         else (OutcomeCatchUp, s))"

section \<open>Receiving\<close>

definition noteHeader :: "int \<Rightarrow> header \<Rightarrow> ('i, 's) session \<Rightarrow> bool \<times> ('i, 's) session" where
  "noteHeader now h s =
     (let newest = (\<not> s_haveRecv s \<or> seqNewer (h_seq h) (s_recvSeq s));
          s = (if newest then s\<lparr>s_haveRecv := True, s_recvSeq := h_seq h, s_echoUs := h_sendUs h, s_echoAt := now,
                 s_haveEcho := True\<rparr> else s);
          d = micros now - h_echoUs h - h_holdUs h; sample = uint d * 1000
      in (newest,
          if h_hasEcho h \<and> d < 2 ^ 30 then
            (if \<not> s_haveRTT s then s\<lparr>s_rtt := sample, s_haveRTT := True\<rparr>
             else s\<lparr>s_rtt := s_rtt s + (sample - s_rtt s) sdiv 8\<rparr>)
          else s))"

definition maybeStart :: "('i, 's) netcfg \<Rightarrow> int \<Rightarrow> ('i, 's) session \<Rightarrow> ('i, 's) session" where
  "maybeStart C now s =
     (if s_status s \<noteq> StatusHandshake \<or> \<not> s_peerSeen s then s
      else if \<not> s_delayKnown s \<and> \<not> s_haveRTT s then s
      else
        let s = (if s_delayKnown s then s
                 else s\<lparr>s_delay := nat (SuggestDelay (s_rtt s) (nc_frameDur C) (nc_maxRollback C) (nc_maxInputDelay C)),
                        s_delayKnown := True\<rparr>)
        in s\<lparr>s_status := StatusRunning, s_localNext := s_delay s, s_hsStart := now\<rparr>)"

definition handleHello :: "('i, 's) netcfg \<Rightarrow> int \<Rightarrow> byte list \<Rightarrow> ('i, 's) session \<Rightarrow> ('i, 's) session" where
  "handleHello C now b s =
     (if length b \<noteq> helloLen then bump BadPackets 1 s
      else if drop 29 b \<noteq> nc_identity C then end_with ErrIdentityMismatch (sendHello C now s)
      else let (newest, s) = noteHeader now (getHeader b) s in maybeStart C now (s\<lparr>s_peerSeen := True\<rparr>))"

text \<open>The entry of frame \<open>f\<close>: known, next, or beyond a gap.\<close>

definition take_entry :: "('i, 's) netcfg \<Rightarrow> nat \<Rightarrow> byte list \<Rightarrow> ('i, 's) session \<Rightarrow> ('i, 's) session" where
  "take_entry C f raw s =
     (let put = c_put (nc_codec C); i = f mod historyFrames in
      if f < s_rc s then
        let s = bump DuplicateEntries 1 s in
        (if put (s_remote s ! i) \<noteq> raw then bump ConflictingEntries 1 s else s)
      else if f = s_rc s then
        let s = s\<lparr>s_remote := (s_remote s)[i := c_get (nc_codec C) raw]\<rparr>;
            s = (if f < s_frame s \<and> put (s_used s ! i) \<noteq> raw \<and> (s_firstBad s = None \<or> f < the (s_firstBad s))
                 then s\<lparr>s_firstBad := Some f\<rparr> else s)
        in s\<lparr>s_rc := s_rc s + 1\<rparr>
      else bump BadPackets 1 s)"

definition take_entries :: "('i, 's) netcfg \<Rightarrow> inputPkt \<Rightarrow> ('i, 's) session \<Rightarrow> ('i, 's) session" where
  "take_entries C p s =
     fold (\<lambda>i. take_entry C (unat (ip_start p) + i) (entry_at (isz C) p i)) [0..<ip_count p] s"

definition note_advantage :: "('i, 's) netcfg \<Rightarrow> inputPkt \<Rightarrow> ('i, 's) session \<Rightarrow> ('i, 's) session" where
  "note_advantage C p s =
     (let rttFrames = fdiv (of_integer (s_rtt s)) (of_integer (nc_frameDur C));
          sample = fsub (of_integer (int (s_frame s))) (fadd (of_integer (uint (ip_frame p))) (fdiv rttFrames 2))
      in if \<not> s_haveAdv s then s\<lparr>s_adv := sample, s_haveAdv := True\<rparr>
         else s\<lparr>s_adv := fadd (s_adv s) (fmul (fsub sample (s_adv s)) (1 / 4))\<rparr>)"

text \<open>What \<open>handleInput\<close> does once the match runs.\<close>

definition accept_input :: "('i, 's) netcfg \<Rightarrow> bool \<Rightarrow> inputPkt \<Rightarrow> ('i, 's) session \<Rightarrow> ('i, 's) session" where
  "accept_input C newest p s =
     (let s = (if newest then note_advantage C p s else s); a = unat (ip_ack p);
          s = (if a > s_peerAck s then s\<lparr>s_peerAck := a\<rparr> else s);
          s = take_entries C p s
      in fold (onRemoteSum C) (ip_sums p) s)"

definition handleInput :: "('i, 's) netcfg \<Rightarrow> int \<Rightarrow> byte list \<Rightarrow> ('i, 's) session \<Rightarrow> ('i, 's) session" where
  "handleInput C now b s =
     (case parseInput b (isz C) of
        None \<Rightarrow> bump BadPackets 1 s
      | Some (p, tag) \<Rightarrow>
          if tag \<noteq> sess_tag C then bump BadPackets 1 s
          else
            let (newest, s) = noteHeader now (ip_header p) s;
                s = (if s_status s = StatusHandshake then maybeStart C now (s\<lparr>s_peerSeen := True\<rparr>) else s)
            in if s_status s = StatusHandshake then s else accept_input C newest p s)"

section \<open>Resync\<close>

definition applyResync :: "('i, 's) netcfg \<Rightarrow> int \<Rightarrow> ('i, 's) session \<Rightarrow> ('i, 's) session" where
  "applyResync C now s =
     (let blob = s_rsBuf s; s = s\<lparr>s_rsTotal := 0\<rparr>; c = s_rsFrame s in
      if Checksum blob \<noteq> s_rsSum s \<or> c = 0 \<or> c > s_frame s \<or> s_frame s - c \<ge> historyFrames - 16
      then end_with ErrBadResync s
      else case g_load (nc_game C) blob of
        None \<Rightarrow> end_with ErrBadResync s
      | Some st \<Rightarrow>
          let s = bump Resyncs 1 (s\<lparr>s_gamest := st\<rparr>);
              s = s\<lparr>s_epoch := s_rsEpoch s, s_catchEnd := s_frame s, s_frame := c, s_catching := True,
                    s_catchBy := now + nc_catchUpTimeout C, s_firstBad := None,
                    s_cp := List.map (\<lambda>x. x\<lparr>cp_valid := False\<rparr>) (s_cp s),
                    s_rem := List.map (\<lambda>x. x\<lparr>rm_valid := False\<rparr>) (s_rem s),
                    s_stFrame := List.map (\<lambda>x. case x of Some f \<Rightarrow> if f \<ge> c then None else x | None \<Rightarrow> None) (s_stFrame s),
                    s_nextCheck := c + sess_k C\<rparr>
          in sendResyncAck C s)"

text \<open>A new blob starts its reassembly over.\<close>

definition begin_blob :: "resyncPkt \<Rightarrow> ('i, 's) session \<Rightarrow> ('i, 's) session" where
  "begin_blob p s =
     (let total = unat (rp_total p) in
      if s_rsTotal s \<noteq> total \<or> s_rsEpoch s \<noteq> rp_epoch p \<or> s_rsFrame s \<noteq> unat (rp_frame p) \<or> s_rsSum s \<noteq> rp_sum p
      then s\<lparr>s_rsEpoch := rp_epoch p, s_rsFrame := unat (rp_frame p), s_rsTotal := total, s_rsSum := rp_sum p,
             s_rsBuf := replicate total 0, s_rsGot := replicate ((total + resyncChunk - 1) div resyncChunk) False,
             s_rsHave := 0\<rparr>
      else s)"

definition handleResync :: "('i, 's) netcfg \<Rightarrow> int \<Rightarrow> byte list \<Rightarrow> ('i, 's) session \<Rightarrow> ('i, 's) session" where
  "handleResync C now b s =
     (case parseResync b of
        None \<Rightarrow> bump BadPackets 1 s
      | Some (p, tag) \<Rightarrow>
          if tag \<noteq> sess_tag C \<or> \<not> nc_relay C \<or> s_status s \<noteq> StatusRunning then bump BadPackets 1 s
          else if rp_epoch p = s_epoch s \<and> s_epoch s \<noteq> 0 then sendResyncAck C s
          else if rp_epoch p < s_epoch s \<or> rp_total p = 0 \<or> rp_total p > 2 ^ 24 then s
          else
            let s = begin_blob p s; ofs = unat (rp_offset p) in
            if ofs mod resyncChunk \<noteq> 0 \<or> ofs + length (rp_data p) > s_rsTotal s then s
            else
              let ci = ofs div resyncChunk in
              if ci \<ge> length (s_rsGot s) then end_with Panic_index s
              else
                let s = (if \<not> s_rsGot s ! ci
                         then s\<lparr>s_rsBuf := take ofs (s_rsBuf s) @ rp_data p @ drop (ofs + length (rp_data p)) (s_rsBuf s),
                                s_rsGot := (s_rsGot s)[ci := True], s_rsHave := s_rsHave s + 1\<rparr>
                         else s)
                in if s_rsHave s = length (s_rsGot s) then applyResync C now s else s)"

section \<open>One tick\<close>

definition handle :: "('i, 's) netcfg \<Rightarrow> int \<Rightarrow> byte list \<Rightarrow> ('i, 's) session \<Rightarrow> ('i, 's) session" where
  "handle C now b s =
     (if length b < 2 \<or> b ! 0 \<noteq> protoVersion then bump BadPackets 1 s
      else if b ! 1 = ptHello then handleHello C now b s
      else if b ! 1 = ptInput then handleInput C now b s
      else if b ! 1 = ptResync then handleResync C now b s
      else if b ! 1 = ptEnd then
        (case parseSmall b ptEnd of
           Some (tag, v1, v2) \<Rightarrow> if tag = sess_tag C \<and> nc_relay C then end_with ErrRemoteEnded s else bump BadPackets 1 s
         | None \<Rightarrow> bump BadPackets 1 s)
      else bump BadPackets 1 s)"

text \<open>At most 512 datagrams in one tick; a datagram is cut at the receive buffer.\<close>

fun poll_loop :: "nat \<Rightarrow> ('i, 's) netcfg \<Rightarrow> int \<Rightarrow> ('i, 's) session \<Rightarrow> ('i, 's) session" where
  "poll_loop 0 C now s = s"
| "poll_loop (Suc n) C now s =
     (case s_inq s of
        [] \<Rightarrow> s
      | m # ms \<Rightarrow>
          let s = handle C now (take maxPacketSize m) (bump PacketsReceived 1 (s\<lparr>s_inq := ms\<rparr>)) in
          if s_status s = StatusEnded then s else poll_loop n C now s)"

definition poll :: "('i, 's) netcfg \<Rightarrow> int \<Rightarrow> ('i, 's) session \<Rightarrow> ('i, 's) session" where
  "poll C now s = poll_loop 512 C now s"

definition handshake_tick :: "('i, 's) netcfg \<Rightarrow> int \<Rightarrow> ('i, 's) session \<Rightarrow> tick \<times> ('i, 's) session" where
  "handshake_tick C now s =
     (let s = (if s_hsStarted s then s else s\<lparr>s_hsStarted := True, s_hsStart := now\<rparr>) in
      if now - s_hsStart s > nc_stall C then (OutcomeEnded, end_with ErrDisconnect s)
      else (OutcomeHandshake, sendHello C now s))"

text \<open>Rolling back first, if an input that was predicted turned out different.\<close>

definition settle :: "('i, 's) netcfg \<Rightarrow> ('i, 's) session \<Rightarrow> ('i, 's) session" where
  "settle C s =
     (let s = (case s_firstBad s of Some b \<Rightarrow> if b < s_frame s then rollback C b s else s | None \<Rightarrow> s);
          s = s\<lparr>s_firstBad := None\<rparr>
      in tryCheckpoints C (int (s_frame s) - 1) s)"

definition must_stall :: "('i, 's) netcfg \<Rightarrow> ('i, 's) session \<Rightarrow> bool" where
  "must_stall C s \<longleftrightarrow> int (s_frame s) - int (s_rc s) \<ge> nc_window C \<or>
     int (s_localNext s) - int (s_peerAck s) \<ge> int (historyFrames - 16)"

definition stall_tick :: "('i, 's) netcfg \<Rightarrow> int \<Rightarrow> ('i, 's) session \<Rightarrow> tick \<times> ('i, 's) session" where
  "stall_tick C now s =
     (let s = (if s_stalling s then s else s\<lparr>s_stalling := True, s_stallSince := now\<rparr>); s = bump StallTicks 1 s in
      if now - s_stallSince s > nc_stall C then (OutcomeEnded, end_with ErrDisconnect s)
      else (OutcomeStalled, sendInput C now s))"

definition advance_frame :: "('i, 's) netcfg \<Rightarrow> int \<Rightarrow> 'i \<Rightarrow> ('i, 's) session \<Rightarrow> tick \<times> ('i, 's) session" where
  "advance_frame C now inp s =
     (let g = s_frame s + s_delay s;
          s = s\<lparr>s_local := (s_local s)[g mod historyFrames := inp], s_localNext := g + 1\<rparr>;
          s = stepFrame C (s_frame s) s;
          s = (if s_changedFrom s = None then s\<lparr>s_changedFrom := Some (s_frame s)\<rparr> else s);
          s = s\<lparr>s_frame := s_frame s + 1\<rparr>
      in (OutcomeAdvanced, sendInput C now s))"

definition running_tick :: "('i, 's) netcfg \<Rightarrow> int \<Rightarrow> 'i \<Rightarrow> ('i, 's) session \<Rightarrow> tick \<times> ('i, 's) session" where
  "running_tick C now inp s =
     (let s = settle C s in
      if s_status s = StatusEnded then (OutcomeEnded, s)
      else if must_stall C s then stall_tick C now s
      else
        let s = s\<lparr>s_stalling := False\<rparr> in
        if s_haveAdv s \<and> s_adv s > 1 \<and> int (s_sinceWait s) \<ge> nc_sync C then
          (OutcomeWaited, sendInput C now (bump WaitTicks 1 (s\<lparr>s_sinceWait := 0\<rparr>)))
        else advance_frame C now inp s)"

definition Advance :: "('i, 's) netcfg \<Rightarrow> int \<Rightarrow> 'i \<Rightarrow> ('i, 's) session \<Rightarrow> tick \<times> ('i, 's) session" where
  "Advance C now inp s =
     (if s_status s = StatusEnded then (OutcomeEnded, s)
      else
        let s = poll C now (s\<lparr>s_changedFrom := None, s_sinceWait := s_sinceWait s + 1\<rparr>) in
        if s_status s = StatusEnded then (OutcomeEnded, s)
        else if s_status s = StatusHandshake then handshake_tick C now s
        else if s_catching s then catchUp C now s
        else running_tick C now inp s)"

end
