(* ===== verification/Net_Rings.thy ===== *)
theory Net_Rings
  imports Net_Session
begin

text \<open>
  Lemmas on what the steps of a session leave alone, and on its rings: a list updated at an
  index modulo its length represents the latest values of a sequence.
\<close>

section \<open>Rings\<close>

definition rep :: "nat \<Rightarrow> 'a list \<Rightarrow> (nat \<Rightarrow> 'a) \<Rightarrow> nat \<Rightarrow> bool" where
  "rep n ring h m \<longleftrightarrow> length ring = n \<and> (\<forall>f < m. m \<le> f + n \<longrightarrow> ring ! (f mod n) = h f)"

lemma mod_distinct: "f < g \<Longrightarrow> g < f + n \<Longrightarrow> f mod n \<noteq> g mod (n::nat)"
proof
  assume "f < g" "g < f + n" "f mod n = g mod n"
  then have "n dvd g - f" by (metis less_imp_le mod_eq_dvd_iff_nat)
  then have "n \<le> g - f" using \<open>f < g\<close> by (simp add: dvd_imp_le)
  then show False using \<open>g < f + n\<close> \<open>f < g\<close> by simp
qed

lemma rep_at: "rep n ring h m \<Longrightarrow> f < m \<Longrightarrow> m \<le> f + n \<Longrightarrow> ring ! (f mod n) = h f"
  by (simp add: rep_def)

lemma rep_upd:
  assumes "rep n ring h m" "0 < n" "\<And>f. f < m \<Longrightarrow> h' f = h f" "h' m = x"
  shows "rep n (ring[m mod n := x]) h' (Suc m)"
proof -
  have "ring[m mod n := x] ! (f mod n) = h' f" if f: "f < Suc m" "Suc m \<le> f + n" for f
  proof (cases "f = m")
    case True
    then show ?thesis using assms by (simp add: rep_def)
  next
    case False
    then have "f < m" using f(1) by simp
    then have "f mod n \<noteq> m mod n" using f(2) by (intro mod_distinct) simp_all
    then show ?thesis using assms \<open>f < m\<close> f(2) by (simp add: rep_def)
  qed
  then show ?thesis using assms(1) by (simp add: rep_def)
qed

lemma rep_cong: "(\<And>f. f < m \<Longrightarrow> h f = h' f) \<Longrightarrow> rep n ring h m = rep n ring h' m"
  by (auto simp: rep_def)

section \<open>What is left alone\<close>

text \<open>The fields the simulation rests on.\<close>

definition core :: "('i, 's) session \<Rightarrow>
    (nat \<times> nat \<times> nat \<times> nat option \<times> nat \<times> nat) \<times> ('i list \<times> 'i list \<times> 'i list) \<times> (byte list list \<times> nat option list \<times> 's) \<times> bool \<times> byte" where
  "core s = ((s_frame s, s_rc s, s_localNext s, s_firstBad s, s_delay s, s_peerAck s), (s_local s, s_remote s, s_used s),
     (s_states s, s_stFrame s, s_gamest s), s_catching s, s_epoch s)"

text \<open>The fields of the checksum exchange, the status, and the datagrams sent.\<close>

definition sums_of :: "('i, 's) session \<Rightarrow> cpSlot list \<times> remSum list" where
  "sums_of s = (s_cp s, s_rem s)"

definition status_of :: "('i, 's) session \<Rightarrow> status \<times> sess_error option" where
  "status_of s = (s_status s, s_err s)"

lemmas frame_defs = core_def sums_of_def status_of_def

lemma core_simps [simp]:
  "core (bump k n s) = core s" "core (raise_to k n s) = core s" "core (send b s) = core s"
  "core (end_with e s) = core s" "core (snd (sess_header C typ now s)) = core s"
  "core (sendHello C now s) = core s" "core (sendInput C now s) = core s"
  "core (snd (noteHeader now h s)) = core s" "core (note_advantage C p s) = core s" "core (judge C f s) = core s"
  "core (checkpoint C f s) = core s" "core (onRemoteSum C q s) = core s"
  by (simp_all add: core_def bump_def raise_to_def send_def end_with_def sess_header_def sendHello_def sendInput_def
      noteHeader_def note_advantage_def judge_def checkpoint_def onRemoteSum_def Let_def)

lemma sums_simps [simp]:
  "sums_of (bump k n s) = sums_of s" "sums_of (raise_to k n s) = sums_of s" "sums_of (send b s) = sums_of s"
  "sums_of (end_with e s) = sums_of s" "sums_of (sendHello C now s) = sums_of s" "sums_of (sendInput C now s) = sums_of s"
  "sums_of (snd (noteHeader now h s)) = sums_of s" "sums_of (note_advantage C p s) = sums_of s"
  by (simp_all add: sums_of_def bump_def raise_to_def send_def end_with_def sess_header_def sendHello_def sendInput_def
      noteHeader_def note_advantage_def Let_def)

lemma status_simps [simp]:
  "status_of (bump k n s) = status_of s" "status_of (raise_to k n s) = status_of s" "status_of (send b s) = status_of s"
  "status_of (sendHello C now s) = status_of s" "status_of (sendInput C now s) = status_of s"
  "status_of (snd (noteHeader now h s)) = status_of s" "status_of (note_advantage C p s) = status_of s"
  by (simp_all add: status_of_def bump_def raise_to_def send_def sess_header_def sendHello_def sendInput_def
      noteHeader_def note_advantage_def Let_def)

lemma out_simps [simp]:
  "s_out (bump k n s) = s_out s" "s_out (raise_to k n s) = s_out s" "s_out (end_with e s) = s_out s"
  "s_out (snd (noteHeader now h s)) = s_out s" "s_out (note_advantage C p s) = s_out s" "s_out (judge C f s) = s_out s"
  "s_out (checkpoint C f s) = s_out s" "s_out (onRemoteSum C q s) = s_out s"
  by (simp_all add: bump_def raise_to_def end_with_def noteHeader_def note_advantage_def judge_def checkpoint_def
      onRemoteSum_def Let_def)

lemma core_check_loop [simp]: "core (check_loop n C limit s) = core s" "s_out (check_loop n C limit s) = s_out s"
proof -
  have "core (check_loop n C limit s) = core s \<and> s_out (check_loop n C limit s) = s_out s"
  proof (induction n arbitrary: s)
    case (Suc n)
    have "core (s\<lparr>s_nextCheck := k\<rparr>) = core s" for k and s :: "('a, 'b) session" by (simp add: core_def)
    then show ?case using Suc by (simp add: Let_def)
  qed simp
  then show "core (check_loop n C limit s) = core s" "s_out (check_loop n C limit s) = s_out s" by simp_all
qed

lemma core_tryCheckpoints [simp]:
  "core (tryCheckpoints C limit s) = core s" "s_out (tryCheckpoints C limit s) = s_out s"
  by (simp_all add: tryCheckpoints_def)

lemma core_eqD:
  assumes "core t = core s"
  shows "s_frame t = s_frame s" "s_rc t = s_rc s" "s_localNext t = s_localNext s" "s_firstBad t = s_firstBad s"
    "s_delay t = s_delay s" "s_local t = s_local s" "s_remote t = s_remote s" "s_used t = s_used s"
    "s_states t = s_states s" "s_stFrame t = s_stFrame s" "s_gamest t = s_gamest s" "s_catching t = s_catching s"
    "s_epoch t = s_epoch s" "s_peerAck t = s_peerAck s"
  using assms by (simp_all add: core_def)

end
