(* ===== verification/Net_Peer.thy ===== *)
theory Net_Peer
  imports Net_Rings
begin

text \<open>
  One session without a relay, fed with the datagrams of an honest peer. The input streams \<open>p\<close>
  (this player's) and \<open>q\<close> (the other's) are ghosts: the session knows \<open>p\<close> below
  \<open>s_localNext\<close> and \<open>q\<close> below \<open>s_rc\<close>. What a tick keeps is \<open>peer_inv\<close>: the saved states are those
  of the simulation with the inputs used so far, those inputs are the true ones wherever they have
  been received, every checksum kept or sent is that of the confirmed simulation, and every
  datagram sent is honest in turn.
\<close>

section \<open>The invariants\<close>

definition plays :: "('i, 's) netcfg \<Rightarrow> 's \<Rightarrow> (nat \<Rightarrow> 'i) \<Rightarrow> (nat \<Rightarrow> 'i) \<Rightarrow> nat \<Rightarrow> 's" where
  "plays C g0 p q f = (if nc_me C = 0 then sim (nc_game C) g0 p q f else sim (nc_game C) g0 q p f)"

definition saved :: "('i, 's) netcfg \<Rightarrow> 's \<Rightarrow> (nat \<Rightarrow> 'i) \<Rightarrow> (nat \<Rightarrow> 'i) \<Rightarrow> nat \<Rightarrow> byte list" where
  "saved C g0 p q f = g_save (nc_game C) (plays C g0 p q f)"

text \<open>What the session relies on: window and delay small enough for the 256-frame histories.\<close>

definition cfg_ok :: "('i, 's) netcfg \<Rightarrow> bool" where
  "cfg_ok C \<longleftrightarrow> game_law (nc_game C) \<and> codec_law (nc_codec C) \<and> c_size (nc_codec C) \<le> 64 \<and> nc_me C \<le> 1 \<and>
     length (nc_identity C) = 32 \<and> \<not> nc_relay C \<and> 1 \<le> nc_window C \<and> nc_window C \<le> 60 \<and>
     0 \<le> nc_maxInputDelay C \<and> nc_maxInputDelay C \<le> 60 \<and> nc_inputDelay C \<le> nc_maxInputDelay C"

abbreviation window :: "('i, 's) netcfg \<Rightarrow> nat" where "window C \<equiv> nat (nc_window C)"
abbreviation max_delay :: "('i, 's) netcfg \<Rightarrow> nat" where "max_delay C \<equiv> nat (nc_maxInputDelay C)"

text \<open>The frames below \<open>g\<close> are simulated with the inputs \<open>U\<close>; the rings serve frames up to \<open>hi\<close>.\<close>

definition slots_ok :: "('i, 's) netcfg \<Rightarrow> 's \<Rightarrow> (nat \<Rightarrow> 'i) \<Rightarrow> (nat \<Rightarrow> 'i) \<Rightarrow> nat \<Rightarrow> ('i, 's) session \<Rightarrow> bool" where
  "slots_ok C g0 p U g s \<longleftrightarrow>
     (\<forall>i f. i < nring C \<longrightarrow> s_stFrame s ! i = Some f \<longrightarrow> f mod nring C = i \<and> (f < g \<longrightarrow> s_states s ! i = saved C g0 p U f))"

definition played :: "('i, 's) netcfg \<Rightarrow> 's \<Rightarrow> (nat \<Rightarrow> 'i) \<Rightarrow> (nat \<Rightarrow> 'i) \<Rightarrow> nat \<Rightarrow> nat \<Rightarrow> ('i, 's) session \<Rightarrow> bool" where
  "played C g0 p U hi g s \<longleftrightarrow>
     length (s_states s) = nring C \<and> length (s_stFrame s) = nring C \<and> length (s_used s) = historyFrames \<and>
     (\<forall>f < g. hi \<le> f + historyFrames \<longrightarrow> s_used s ! (f mod historyFrames) = U f) \<and> slots_ok C g0 p U g s \<and>
     (\<forall>f < g. hi \<le> f + nring C \<longrightarrow> s_stFrame s ! (f mod nring C) = Some f) \<and>
     g_save (nc_game C) (s_gamest s) = saved C g0 p U g"

definition agree :: "nat \<Rightarrow> (nat \<Rightarrow> 'i) \<Rightarrow> (nat \<Rightarrow> 'i) \<Rightarrow> nat \<Rightarrow> bool" where
  "agree rc U q g \<longleftrightarrow> (\<forall>f < g. f < rc \<longrightarrow> U f = q f)"

text \<open>The histories: \<open>n\<close> bounds what the peer has entered.\<close>

definition hist :: "('i, 's) netcfg \<Rightarrow> (nat \<Rightarrow> 'i) \<Rightarrow> (nat \<Rightarrow> 'i) \<Rightarrow> nat \<Rightarrow> ('i, 's) session \<Rightarrow> bool" where
  "hist C p q n s \<longleftrightarrow>
     rep historyFrames (s_local s) p (s_localNext s) \<and> rep historyFrames (s_remote s) q (s_rc s) \<and> s_rc s \<le> n \<and>
     s_frame s \<le> s_localNext s \<and> s_localNext s \<le> s_frame s + max_delay C \<and> s_frame s \<le> s_rc s + window C \<and>
     s_delay s \<le> max_delay C \<and> s_peerAck s \<le> s_localNext s \<and> \<not> s_catching s"

definition good_sum :: "('i, 's) netcfg \<Rightarrow> 's \<Rightarrow> (nat \<Rightarrow> 'i) \<Rightarrow> (nat \<Rightarrow> 'i) \<Rightarrow> nat \<Rightarrow> nat \<Rightarrow> nat \<Rightarrow> uint64 \<Rightarrow> bool" where
  "good_sum C g0 p q m n f x \<longleftrightarrow> f \<le> m \<and> f \<le> n \<and> x = Checksum (saved C g0 p q f)"

definition sums_ok :: "('i, 's) netcfg \<Rightarrow> 's \<Rightarrow> (nat \<Rightarrow> 'i) \<Rightarrow> (nat \<Rightarrow> 'i) \<Rightarrow> nat \<Rightarrow> nat \<Rightarrow> ('i, 's) session \<Rightarrow> bool" where
  "sums_ok C g0 p q m n s \<longleftrightarrow>
     length (s_cp s) = cpSlots \<and> length (s_rem s) = cpSlots \<and>
     (\<forall>c \<in> set (s_cp s). cp_valid c \<longrightarrow> good_sum C g0 p q m n (cp_frame c) (cp_sum c)) \<and>
     (\<forall>r \<in> set (s_rem s). rm_valid r \<longrightarrow> good_sum C g0 p q m n (rm_frame r) (rm_sum r))"

text \<open>A datagram that the player \<open>C\<close> may send: \<open>m\<close> and \<open>n\<close> bound the inputs of both sides.\<close>

definition fair_input :: "('i, 's) netcfg \<Rightarrow> 's \<Rightarrow> (nat \<Rightarrow> 'i) \<Rightarrow> (nat \<Rightarrow> 'i) \<Rightarrow> nat \<Rightarrow> nat \<Rightarrow>
    nat \<Rightarrow> nat \<Rightarrow> byte list list \<Rightarrow> sumEntry list \<Rightarrow> bool" where
  "fair_input C g0 p q m n ack st es cs \<longleftrightarrow>
     ack \<le> n \<and> st + length es \<le> m \<and> st < 2 ^ 32 \<and> length es \<le> maxEntries (isz C) \<and>
     (\<forall>i < length es. es ! i = c_put (nc_codec C) (p (st + i))) \<and> length cs \<le> maxSums \<and>
     (\<forall>e \<in> set cs. good_sum C g0 p q m n (unat (se_frame e)) (se_sum e))"

definition honest :: "('i, 's) netcfg \<Rightarrow> 's \<Rightarrow> (nat \<Rightarrow> 'i) \<Rightarrow> (nat \<Rightarrow> 'i) \<Rightarrow> nat \<Rightarrow> nat \<Rightarrow> byte list \<Rightarrow> bool" where
  "honest C g0 p q m n b \<longleftrightarrow>
     (\<exists>h. b = putHello (sess_tag C) h (word_of_nat (nc_me C)) (nc_identity C)) \<or>
     (\<exists>h fr ack st es cs. b = putInput (sess_tag C) h fr (word_of_nat ack) (word_of_nat st) es cs \<and>
        fair_input C g0 p q m n ack st es cs)"

section \<open>Monotonicity in the streams\<close>

lemma plays_cong:
  "(\<And>h. h < f \<Longrightarrow> p h = p' h) \<Longrightarrow> (\<And>h. h < f \<Longrightarrow> q h = q' h) \<Longrightarrow> plays C g0 p q f = plays C g0 p' q' f"
  unfolding plays_def by (auto intro: sim_cong)

lemma saved_cong:
  "(\<And>h. h < f \<Longrightarrow> p h = p' h) \<Longrightarrow> (\<And>h. h < f \<Longrightarrow> q h = q' h) \<Longrightarrow> saved C g0 p q f = saved C g0 p' q' f"
  unfolding saved_def using plays_cong [of f p p' q q' C g0] by simp

lemma good_sum_mono:
  assumes "good_sum C g0 p q m n f x" "m \<le> m'" "n \<le> n'"
    "\<And>h. h < m \<Longrightarrow> p' h = p h" "\<And>h. h < n \<Longrightarrow> q' h = q h"
  shows "good_sum C g0 p' q' m' n' f x"
  using assms saved_cong [of f p p' q q' C g0] by (simp add: good_sum_def)

lemma sums_ok_mono:
  assumes "sums_ok C g0 p q m n s" "m \<le> m'" "n \<le> n'"
    "\<And>h. h < m \<Longrightarrow> p' h = p h" "\<And>h. h < n \<Longrightarrow> q' h = q h"
  shows "sums_ok C g0 p' q' m' n' s"
  using assms(1) good_sum_mono [OF _ assms(2,3), of C g0 p q _ _ p' q'] assms(4,5) unfolding sums_ok_def by blast

lemma fair_input_mono:
  assumes "fair_input C g0 p q m n ack st es cs" "m \<le> m'" "n \<le> n'"
    "\<And>h. h < m \<Longrightarrow> p' h = p h" "\<And>h. h < n \<Longrightarrow> q' h = q h"
  shows "fair_input C g0 p' q' m' n' ack st es cs"
proof -
  have "\<forall>e \<in> set cs. good_sum C g0 p' q' m' n' (unat (se_frame e)) (se_sum e)"
    using assms(1) good_sum_mono [OF _ assms(2,3), of C g0 p q _ _ p' q'] assms(4,5) unfolding fair_input_def by blast
  then show ?thesis using assms unfolding fair_input_def by simp
qed

lemma honest_mono:
  assumes "honest C g0 p q m n b" "m \<le> m'" "n \<le> n'"
    "\<And>h. h < m \<Longrightarrow> p' h = p h" "\<And>h. h < n \<Longrightarrow> q' h = q h"
  shows "honest C g0 p' q' m' n' b"
proof -
  have "fair_input C g0 p q m n ack st es cs \<Longrightarrow> fair_input C g0 p' q' m' n' ack st es cs" for ack st es cs
    by (rule fair_input_mono [OF _ assms(2,3)]) (use assms in auto)
  then show ?thesis using assms(1) unfolding honest_def by blast
qed

lemma played_cong:
  assumes "played C g0 p U hi g s" "\<And>h. h < g \<Longrightarrow> p' h = p h" "\<And>h. h < g \<Longrightarrow> U' h = U h"
  shows "played C g0 p' U' hi g s"
proof -
  have below: "saved C g0 p' U' f = saved C g0 p U f" if "f < g" for f
    using that assms(2,3) less_trans by (intro saved_cong) blast+
  have at: "saved C g0 p' U' g = saved C g0 p U g"
    using assms(2,3) by (intro saved_cong) blast+
  have "slots_ok C g0 p U g s" using assms(1) unfolding played_def by blast
  then have "slots_ok C g0 p' U' g s" unfolding slots_ok_def using below by metis
  then show ?thesis using assms(1,3) unfolding played_def at by simp
qed

lemma played_core:
  assumes "core t = core s"
  shows "played C g0 p U hi g t = played C g0 p U hi g s"
  by (simp only: played_def slots_ok_def core_eqD [OF assms])

lemma hist_core:
  assumes "core t = core s"
  shows "hist C p q n t = hist C p q n s"
  by (simp only: hist_def core_eqD [OF assms])

lemma sums_ok_sums: "sums_of t = sums_of s \<Longrightarrow> sums_ok C g0 p q m n t = sums_ok C g0 p q m n s"
  by (simp add: sums_ok_def sums_of_def)

lemma nring_eq: "cfg_ok C \<Longrightarrow> nring C = window C + max_delay C + 4"
  by (simp add: cfg_ok_def nring_def nat_add_distrib)

lemma cfg_bounds: "cfg_ok C \<Longrightarrow> window C \<le> 60" "cfg_ok C \<Longrightarrow> 1 \<le> window C" "cfg_ok C \<Longrightarrow> max_delay C \<le> 60"
  by (auto simp: cfg_ok_def nat_le_iff)

section \<open>Checksums\<close>

lemma set_update: "x \<in> set (xs[i := y]) \<Longrightarrow> x \<in> set xs \<or> x = y"
  using set_update_subset_insert [of xs i y] by auto

lemma sums_okD:
  assumes "sums_ok C g0 p q m n s" "i < cpSlots"
  shows "cp_valid (s_cp s ! i) \<Longrightarrow> good_sum C g0 p q m n (cp_frame (s_cp s ! i)) (cp_sum (s_cp s ! i))"
    "rm_valid (s_rem s ! i) \<Longrightarrow> good_sum C g0 p q m n (rm_frame (s_rem s ! i)) (rm_sum (s_rem s ! i))"
  using assms by (simp_all add: sums_ok_def)

lemma sums_ok_cp:
  assumes "sums_ok C g0 p q m n s" "s_cp t = (s_cp s)[i := c]" "s_rem t = s_rem s"
    "cp_valid c \<Longrightarrow> good_sum C g0 p q m n (cp_frame c) (cp_sum c)"
  shows "sums_ok C g0 p q m n t"
  using assms(1,4) unfolding sums_ok_def assms(2,3) by (auto dest: set_update)

lemma sums_ok_rem:
  assumes "sums_ok C g0 p q m n s" "s_rem t = (s_rem s)[i := r]" "s_cp t = s_cp s"
    "good_sum C g0 p q m n (rm_frame r) (rm_sum r)"
  shows "sums_ok C g0 p q m n t"
  using assms(1,4) unfolding sums_ok_def assms(2,3) by (auto dest: set_update)

lemma judge_ok:
  assumes "sums_ok C g0 p q m n s"
  shows "sums_ok C g0 p q m n (judge C f s)" "status_of (judge C f s) = status_of s"
proof -
  define i where "i = f div sess_k C mod cpSlots"
  define c where "c = s_cp s ! i"
  define r where "r = s_rem s ! i"
  have i: "i < cpSlots" by (simp add: i_def cpSlots_def)
  have *: "sums_ok C g0 p q m n (judge C f s) \<and> status_of (judge C f s) = status_of s"
  proof (cases "\<not> cp_valid c \<or> \<not> rm_valid r \<or> cp_frame c \<noteq> f \<or> rm_frame r \<noteq> f \<or> cp_judged c \<or> cp_epoch c \<noteq> rm_epoch r")
    case True
    then have "judge C f s = s" by (simp add: judge_def Let_def c_def r_def i_def)
    then show ?thesis using assms by simp
  next
    case False
    then have good: "good_sum C g0 p q m n (cp_frame c) (cp_sum c)" "good_sum C g0 p q m n (rm_frame r) (rm_sum r)"
      using sums_okD [OF assms i] by (simp_all add: c_def r_def)
    then have eq: "cp_sum c = rm_sum r" using False by (simp add: good_sum_def)
    let ?t = "bump Agreed 1 (s\<lparr>s_cp := (s_cp s)[i := c\<lparr>cp_judged := True\<rparr>]\<rparr>)"
    have j: "judge C f s = (if s_agreed ?t = None \<or> f > the (s_agreed ?t) then ?t\<lparr>s_agreed := Some f\<rparr> else ?t)"
      using False eq unfolding judge_def Let_def c_def [symmetric] r_def [symmetric] i_def [symmetric] by simp
    have cp: "s_cp (judge C f s) = (s_cp s)[i := c\<lparr>cp_judged := True\<rparr>]" "s_rem (judge C f s) = s_rem s"
      "status_of (judge C f s) = status_of s"
      unfolding j by (simp_all add: bump_def status_of_def)
    have "sums_ok C g0 p q m n (judge C f s)"
      by (rule sums_ok_cp [OF assms cp(1,2)]) (use good(1) in simp)
    then show ?thesis using cp(3) by simp
  qed
  then show "sums_ok C g0 p q m n (judge C f s)" "status_of (judge C f s) = status_of s" by simp_all
qed

lemma checkpoint_ok:
  assumes "sums_ok C g0 p q m n s" "s_states s ! (f mod nring C) = saved C g0 p q f" "f \<le> m" "f \<le> n"
  shows "sums_ok C g0 p q m n (checkpoint C f s)" "status_of (checkpoint C f s) = status_of s"
proof -
  let ?c = "\<lparr>cp_frame = f, cp_sum = Checksum (s_states s ! (f mod nring C)), cp_epoch = s_epoch s, cp_valid = True,
    cp_judged = False, cp_state = s_states s ! (f mod nring C)\<rparr>"
  define t where "t = bump Checksums 1 (s\<lparr>s_nextCheck := f + sess_k C,
    s_cp := (s_cp s)[f div sess_k C mod cpSlots := ?c],
    s_checks := s_checks s @ [(f, Checksum (s_states s ! (f mod nring C)))]\<rparr>)"
  have c: "checkpoint C f s = judge C f t" by (simp add: checkpoint_def Let_def t_def)
  have t: "s_cp t = (s_cp s)[f div sess_k C mod cpSlots := ?c]" "s_rem t = s_rem s" "status_of t = status_of s"
    by (simp_all add: t_def bump_def status_of_def)
  have ok: "sums_ok C g0 p q m n t"
    by (rule sums_ok_cp [OF assms(1) t(1,2)]) (use assms(2-4) in \<open>simp add: good_sum_def\<close>)
  show "sums_ok C g0 p q m n (checkpoint C f s)" "status_of (checkpoint C f s) = status_of s"
    unfolding c using judge_ok [OF ok] t(3) by simp_all
qed

text \<open>A saved state of a confirmed frame is that of the confirmed simulation.\<close>

lemma saved_agree: "agree rc U q g \<Longrightarrow> f \<le> g \<Longrightarrow> f \<le> rc \<Longrightarrow> saved C g0 p U f = saved C g0 p q f"
  by (rule saved_cong) (auto simp: agree_def)

lemma played_slot:
  assumes "played C g0 p U hi g s" "agree (s_rc s) U q g" "0 < nring C" "f < g" "f \<le> s_rc s"
    "s_stFrame s ! (f mod nring C) = Some f"
  shows "s_states s ! (f mod nring C) = saved C g0 p q f"
proof -
  have "slots_ok C g0 p U g s" using assms(1) by (simp add: played_def)
  moreover have "f mod nring C < nring C" using assms(3) by simp
  ultimately have "s_states s ! (f mod nring C) = saved C g0 p U f"
    using assms(4,6) unfolding slots_ok_def by blast
  then show ?thesis using saved_agree [OF assms(2), of f] assms(4,5) by simp
qed

lemma check_loop_ok:
  assumes "sums_ok C g0 p q m n s" "played C g0 p U hi g s" "agree (s_rc s) U q g" "0 < nring C"
    "limit < int g" "g \<le> Suc m" "s_rc s \<le> n"
  shows "sums_ok C g0 p q m n (check_loop k C limit s) \<and> status_of (check_loop k C limit s) = status_of s"
  using assms
proof (induction k arbitrary: s)
  case (Suc k)
  define f where "f = s_nextCheck s"
  have skip: "core (s\<lparr>s_nextCheck := x\<rparr>) = core s" "sums_of (s\<lparr>s_nextCheck := x\<rparr>) = sums_of s"
    "status_of (s\<lparr>s_nextCheck := x\<rparr>) = status_of s" for x
    by (simp_all add: frame_defs)
  consider (stop) "int f > limit \<or> f > s_rc s \<or> s_stFrame s ! (f mod nring C) \<noteq> Some f \<and> limit - int f < int (nring C)"
    | (skip) "int f \<le> limit" "f \<le> s_rc s" "s_stFrame s ! (f mod nring C) \<noteq> Some f" "limit - int f \<ge> int (nring C)"
    | (check) "int f \<le> limit" "f \<le> s_rc s" "s_stFrame s ! (f mod nring C) = Some f" by linarith
  then show ?case
  proof cases
    case stop
    then have "check_loop (Suc k) C limit s = s" by (auto simp: f_def [symmetric] Let_def)
    then show ?thesis using Suc.prems by simp
  next
    case skip': skip
    let ?t = "s\<lparr>s_nextCheck := f + sess_k C\<rparr>"
    have e: "check_loop (Suc k) C limit s = check_loop k C limit ?t"
      using skip' by (simp add: f_def [symmetric] Let_def)
    have rc: "s_rc ?t = s_rc s" by simp
    have "sums_ok C g0 p q m n (check_loop k C limit ?t) \<and> status_of (check_loop k C limit ?t) = status_of ?t"
      by (rule Suc.IH) (use Suc.prems in \<open>simp_all only: rc sums_ok_sums [OF skip(2)] played_core [OF skip(1)]\<close>)
    then show ?thesis unfolding e skip(3) .
  next
    case check
    let ?t = "checkpoint C f s"
    have f: "f < g" using check(1) Suc.prems(5) by simp
    have st: "s_states s ! (f mod nring C) = saved C g0 p q f"
      by (rule played_slot [OF Suc.prems(2-4) f check(2,3)])
    have ok: "sums_ok C g0 p q m n ?t" "status_of ?t = status_of s"
      using checkpoint_ok [OF Suc.prems(1) st] f check(2) Suc.prems(6,7) by simp_all
    have rc: "s_rc ?t = s_rc s" "core ?t = core s" by (simp_all add: core_eqD(2) [OF core_simps(11)])
    have ih: "sums_ok C g0 p q m n (check_loop k C limit ?t) \<and> status_of (check_loop k C limit ?t) = status_of ?t"
      by (rule Suc.IH) (use Suc.prems ok in \<open>simp_all only: rc(1) played_core [OF rc(2)]\<close>)
    have e: "check_loop (Suc k) C limit s = (if s_status ?t = StatusEnded then ?t else check_loop k C limit ?t)"
      using check by (simp add: f_def [symmetric] Let_def)
    show ?thesis unfolding e using ih ok by simp
  qed
qed simp

lemma tryCheckpoints_ok:
  assumes "sums_ok C g0 p q m n s" "played C g0 p U hi g s" "agree (s_rc s) U q g" "0 < nring C"
    "limit < int g" "g \<le> Suc m" "s_rc s \<le> n"
  shows "sums_ok C g0 p q m n (tryCheckpoints C limit s)" "status_of (tryCheckpoints C limit s) = status_of s"
  using check_loop_ok [OF assms] by (simp_all add: tryCheckpoints_def)

section \<open>Simulating a frame\<close>

text \<open>What a step of the simulation leaves alone.\<close>

definition ctl :: "('i, 's) session \<Rightarrow> (nat \<times> nat \<times> nat \<times> nat option \<times> nat \<times> nat) \<times> 'i list \<times> 'i list \<times> bool" where
  "ctl s = ((s_frame s, s_rc s, s_localNext s, s_firstBad s, s_delay s, s_peerAck s), s_local s, s_remote s, s_catching s)"

lemma ctl_core: "core t = core s \<Longrightarrow> ctl t = ctl s"
  by (simp add: core_def ctl_def)

lemma ctl_eqD:
  assumes "ctl t = ctl s"
  shows "s_frame t = s_frame s" "s_rc t = s_rc s" "s_localNext t = s_localNext s" "s_firstBad t = s_firstBad s"
    "s_delay t = s_delay s" "s_peerAck t = s_peerAck s" "s_local t = s_local s" "s_remote t = s_remote s"
    "s_catching t = s_catching s"
  using assms by (simp_all add: ctl_def)

lemma hist_ctl:
  assumes "ctl t = ctl s"
  shows "hist C p q n t = hist C p q n s"
  by (simp only: hist_def ctl_eqD [OF assms])

lemma saved_step:
  assumes "game_law (nc_game C)" "g_save (nc_game C) st = saved C g0 p U g"
  shows "g_save (nc_game C) (if nc_me C = 0 then g_step (nc_game C) (p g) (U g) st else g_step (nc_game C) (U g) (p g) st) =
    saved C g0 p U (Suc g)"
proof -
  have step: "g_save (nc_game C) (g_step (nc_game C) i j st) = g_save (nc_game C) (g_step (nc_game C) i j (plays C g0 p U g))" for i j
    using assms unfolding game_law_def saved_def by blast
  show ?thesis
    using step [of "p g" "U g"] step [of "U g" "p g"] by (cases "nc_me C = 0") (simp_all add: saved_def plays_def)
qed

lemma remote_input_at:
  assumes "rep historyFrames (s_remote s) q (s_rc s)" "s_rc s \<le> g + historyFrames" "g < s_rc s"
  shows "remote_input C g s = q g"
  using assms(3) rep_at [OF assms(1), of g] assms(2) by (simp add: remote_input_def)

lemma stepFrame_ok:
  assumes c: "cfg_ok C" and pl: "played C g0 p U hi g s" and hi: "g < hi" "hi \<le> g + nring C" "hi \<le> g + historyFrames"
    and loc: "rep historyFrames (s_local s) p (s_localNext s)" "g < s_localNext s" "s_localNext s \<le> g + historyFrames"
    and rm: "rep historyFrames (s_remote s) q (s_rc s)" "s_rc s \<le> g + historyFrames"
    and ag: "agree (s_rc s) U q g" and su: "sums_ok C g0 p q m n s" "g \<le> m" "s_rc s \<le> n"
  shows "\<exists>v. played C g0 p (U(g := v)) hi (Suc g) (stepFrame C g s) \<and> agree (s_rc s) (U(g := v)) q (Suc g) \<and>
    sums_ok C g0 p q m n (stepFrame C g s) \<and> status_of (stepFrame C g s) = status_of s \<and>
    ctl (stepFrame C g s) = ctl s \<and> s_out (stepFrame C g s) = s_out s"
proof -
  define v where "v = remote_input C g s"
  define st where "st = (if nc_me C = 0 then g_step (nc_game C) (p g) v (s_gamest s) else g_step (nc_game C) v (p g) (s_gamest s))"
  define i where "i = g mod nring C"
  define U' where "U' = U(g := v)"
  define t where "t = s\<lparr>s_states := (s_states s)[i := g_save (nc_game C) (s_gamest s)],
    s_stFrame := (s_stFrame s)[i := Some g], s_used := (s_used s)[g mod historyFrames := v], s_gamest := st,
    s_evs := (s_evs s)[i := List.map (\<lambda>e. e\<lparr>ev_frame := int g\<rparr>) (g_events (nc_game C) st)]\<rparr>"
  have mine: "s_local s ! (g mod historyFrames) = p g" by (rule rep_at [OF loc])
  have ri: "remote_input C g (s\<lparr>s_states := x, s_stFrame := y\<rparr>) = v" for x y by (simp add: remote_input_def v_def)
  have e: "stepFrame C g s = tryCheckpoints C (int g) t"
    unfolding stepFrame_def Let_def i_def [symmetric] ri by (simp add: t_def st_def mine)
  have N: "0 < nring C" using nring_eq [OF c] by simp
  have len: "length (s_states s) = nring C" "length (s_stFrame s) = nring C" "length (s_used s) = historyFrames"
    and used: "\<forall>f < g. hi \<le> f + historyFrames \<longrightarrow> s_used s ! (f mod historyFrames) = U f"
    and sl: "slots_ok C g0 p U g s"
    and pres: "\<forall>f < g. hi \<le> f + nring C \<longrightarrow> s_stFrame s ! (f mod nring C) = Some f"
    and gm: "g_save (nc_game C) (s_gamest s) = saved C g0 p U g"
    using pl unfolding played_def by blast+
  have i: "i < nring C" using N by (simp add: i_def)
  have same: "saved C g0 p U' f = saved C g0 p U f" if "f \<le> g" for f
    using that by (intro saved_cong) (auto simp: U'_def)
  have used': "s_used t ! (f mod historyFrames) = U' f" if "f < Suc g" "hi \<le> f + historyFrames" for f
  proof (cases "f = g")
    case True
    then show ?thesis by (simp add: t_def U'_def len historyFrames_def)
  next
    case False
    then have "f mod historyFrames \<noteq> g mod historyFrames" using that hi(1) by (intro mod_distinct) simp_all
    then show ?thesis using used that False by (simp add: t_def U'_def)
  qed
  have pres': "s_stFrame t ! (f mod nring C) = Some f" if "f < Suc g" "hi \<le> f + nring C" for f
  proof (cases "f = g")
    case True
    then show ?thesis using i by (simp add: t_def i_def len)
  next
    case False
    then have "f mod nring C \<noteq> g mod nring C" using that hi(1) by (intro mod_distinct) simp_all
    then show ?thesis using pres that False by (simp add: t_def i_def)
  qed
  have slot: "f mod nring C = j \<and> (f < Suc g \<longrightarrow> s_states t ! j = saved C g0 p U' f)"
    if j: "j < nring C" "s_stFrame t ! j = Some f" for j f
  proof (cases "j = i")
    case True
    then have "f = g" using j i by (simp add: t_def len)
    then show ?thesis using True i gm same [of g] by (simp add: t_def len i_def)
  next
    case False
    then have "s_stFrame s ! j = Some f" using j(2) by (simp add: t_def)
    then have *: "f mod nring C = j" "f < g \<longrightarrow> s_states s ! j = saved C g0 p U f"
      using sl j(1) unfolding slots_ok_def by blast+
    then have "f \<noteq> g" using False by (auto simp: i_def)
    then show ?thesis using * False same [of f] by (simp add: t_def)
  qed
  have U'g: "U' g = v" by (simp add: U'_def)
  have gm': "g_save (nc_game C) (s_gamest t) = saved C g0 p U' (Suc g)"
  proof -
    have gl: "game_law (nc_game C)" using c by (simp add: cfg_ok_def)
    have "g_save (nc_game C) (s_gamest s) = saved C g0 p U' g" using gm same [of g] by simp
    from saved_step [OF gl this] show ?thesis unfolding U'g st_def [symmetric] by (simp add: t_def)
  qed
  have "played C g0 p U' hi (Suc g) t"
    unfolding played_def slots_ok_def
    by (intro conjI allI impI; (rule used' pres' gm'; assumption)?)
       (use slot in \<open>simp_all add: t_def len gm'\<close>)
  moreover have "agree (s_rc s) U' q (Suc g)"
    using ag remote_input_at [OF rm] unfolding agree_def U'_def v_def by (auto simp: less_Suc_eq)
  moreover have "sums_ok C g0 p q m n t" using su(1) by (simp add: sums_ok_def t_def)
  moreover have "status_of t = status_of s" "ctl t = ctl s" "s_out t = s_out s" "s_rc t = s_rc s"
    by (simp_all add: t_def status_of_def ctl_def)
  ultimately show ?thesis
    unfolding e U'_def [symmetric] using tryCheckpoints_ok [of C g0 p q m n t U' hi "Suc g" "int g"] N su
    by (intro exI [of _ v]) (simp add: U'_def [symmetric] played_core [OF core_tryCheckpoints(1)] ctl_core [OF core_tryCheckpoints(1)])
qed

section \<open>Rolling back\<close>

lemma resim_ok:
  assumes c: "cfg_ok C" and pl: "played C g0 p U hi b s" and hi: "hi \<le> b + nring C" "hi \<le> b + historyFrames" "b + k \<le> hi"
    and loc: "rep historyFrames (s_local s) p (s_localNext s)" "hi \<le> s_localNext s" "s_localNext s \<le> b + historyFrames"
    and rm: "rep historyFrames (s_remote s) q (s_rc s)" "s_rc s \<le> b + historyFrames"
    and ag: "agree (s_rc s) U q b" and su: "sums_ok C g0 p q m n s" "hi \<le> m" "s_rc s \<le> n"
  shows "\<exists>U'. played C g0 p U' hi (b + k) (fold (stepFrame C) [b..<b + k] s) \<and> agree (s_rc s) U' q (b + k) \<and>
    sums_ok C g0 p q m n (fold (stepFrame C) [b..<b + k] s) \<and>
    status_of (fold (stepFrame C) [b..<b + k] s) = status_of s \<and>
    ctl (fold (stepFrame C) [b..<b + k] s) = ctl s \<and> s_out (fold (stepFrame C) [b..<b + k] s) = s_out s"
  using hi(3)
proof (induction k)
  case 0
  then show ?case using pl ag su by auto
next
  case (Suc k)
  define t where "t = fold (stepFrame C) [b..<b + k] s"
  have "b + k \<le> hi" using Suc.prems by simp
  from Suc.IH [OF this] obtain U1 where
    U1: "played C g0 p U1 hi (b + k) t" "agree (s_rc s) U1 q (b + k)" "sums_ok C g0 p q m n t"
    and same: "status_of t = status_of s" "ctl t = ctl s" "s_out t = s_out s"
    unfolding t_def [symmetric] by (elim exE conjE)
  note ctl = ctl_eqD [OF same(2)]
  have n: "fold (stepFrame C) [b..<b + Suc k] s = stepFrame C (b + k) t" by (simp add: t_def)
  have "\<exists>v. played C g0 p (U1(b + k := v)) hi (Suc (b + k)) (stepFrame C (b + k) t) \<and>
      agree (s_rc t) (U1(b + k := v)) q (Suc (b + k)) \<and>
      sums_ok C g0 p q m n (stepFrame C (b + k) t) \<and> status_of (stepFrame C (b + k) t) = status_of t \<and>
      ctl (stepFrame C (b + k) t) = ctl t \<and> s_out (stepFrame C (b + k) t) = s_out t"
    by (rule stepFrame_ok [OF c U1(1)]) (use hi loc rm su U1 Suc.prems ctl in simp_all)
  then show ?case unfolding n using same ctl by auto
qed

text \<open>The state of a session without a relay, between the steps of a tick.\<close>

definition sim_ok :: "('i, 's) netcfg \<Rightarrow> 's \<Rightarrow> (nat \<Rightarrow> 'i) \<Rightarrow> (nat \<Rightarrow> 'i) \<Rightarrow> nat \<Rightarrow> ('i, 's) session \<Rightarrow> bool" where
  "sim_ok C g0 p q n s \<longleftrightarrow> hist C p q n s \<and> sums_ok C g0 p q (s_localNext s) n s \<and>
     (\<forall>b. s_firstBad s = Some b \<longrightarrow> b < s_frame s \<and> s_frame s \<le> b + window C) \<and>
     (\<exists>U. played C g0 p U (s_frame s) (s_frame s) s \<and>
       (\<forall>f < s_frame s. f < s_rc s \<longrightarrow> (\<forall>b. s_firstBad s = Some b \<longrightarrow> f < b) \<longrightarrow> U f = q f))"

lemma rollback_ok:
  assumes c: "cfg_ok C" and s: "sim_ok C g0 p q n s" and b: "s_firstBad s = Some b" and n: "n \<le> s_frame s + 180"
  shows "\<exists>U. played C g0 p U (s_frame s) (s_frame s) (rollback C b s) \<and> agree (s_rc s) U q (s_frame s) \<and>
    sums_ok C g0 p q (s_localNext s) n (rollback C b s) \<and> status_of (rollback C b s) = status_of s \<and>
    ctl (rollback C b s) = ctl s \<and> s_out (rollback C b s) = s_out s"
proof -
  obtain U where h: "hist C p q n s" and su: "sums_ok C g0 p q (s_localNext s) n s"
    and bb: "b < s_frame s" "s_frame s \<le> b + window C" and pl: "played C g0 p U (s_frame s) (s_frame s) s"
    and ag: "\<forall>f < s_frame s. f < s_rc s \<longrightarrow> f < b \<longrightarrow> U f = q f"
    using s b unfolding sim_ok_def by auto
  let ?F = "s_frame s"
  note w = cfg_bounds [OF c]
  have gl: "game_law (nc_game C)" using c by (simp add: cfg_ok_def)
  have N: "?F \<le> b + nring C" "0 < nring C" using bb nring_eq [OF c] by simp_all
  have here: "s_stFrame s ! (b mod nring C) = Some b" and sl: "slots_ok C g0 p U ?F s" using pl bb N unfolding played_def by blast+
  have st: "s_states s ! (b mod nring C) = saved C g0 p U b"
    using sl here bb(1) N(2) unfolding slots_ok_def by (metis mod_less_divisor)
  obtain x where x: "g_load (nc_game C) (s_states s ! (b mod nring C)) = Some x" "g_save (nc_game C) x = saved C g0 p U b"
    using gl st unfolding game_law_def saved_def by metis
  define t where "t = raise_to MaxRollbackDepth (?F - b) (bump RolledBackFrames (?F - b) (bump Rollbacks 1 (s\<lparr>s_gamest := x\<rparr>)))"
  have t: "ctl t = ctl s" "sums_of t = sums_of s" "status_of t = status_of s" "s_out t = s_out s"
    "s_states t = s_states s" "s_stFrame t = s_stFrame s" "s_used t = s_used s" "s_gamest t = x"
    by (simp_all add: t_def raise_to_def bump_def ctl_def sums_of_def status_of_def)
  note tc = ctl_eqD [OF t(1)]
  have e: "rollback C b s = (fold (stepFrame C) [b..<?F] t)\<lparr>s_changedFrom := Some b\<rparr>"
    unfolding rollback_def Let_def x(1) by (simp add: here t_def bump_def raise_to_def)
  have "slots_ok C g0 p U b t" using sl bb(1) unfolding slots_ok_def t by (meson less_trans)
  then have plt: "played C g0 p U ?F b t" using pl bb(1) x(2) unfolding played_def t by simp
  have agt: "agree (s_rc t) U q b" using ag bb(1) unfolding agree_def tc by simp
  have F: "b + (?F - b) = ?F" using bb(1) by simp
  have "\<exists>U'. played C g0 p U' ?F (b + (?F - b)) (fold (stepFrame C) [b..<b + (?F - b)] t) \<and>
      agree (s_rc t) U' q (b + (?F - b)) \<and> sums_ok C g0 p q (s_localNext s) n (fold (stepFrame C) [b..<b + (?F - b)] t) \<and>
      status_of (fold (stepFrame C) [b..<b + (?F - b)] t) = status_of t \<and>
      ctl (fold (stepFrame C) [b..<b + (?F - b)] t) = ctl t \<and> s_out (fold (stepFrame C) [b..<b + (?F - b)] t) = s_out t"
    by (rule resim_ok [OF c plt]) (use h su bb w N n agt in \<open>simp_all add: hist_def tc sums_ok_sums [OF t(2)] historyFrames_def\<close>)
  then obtain U' where U': "played C g0 p U' ?F ?F (fold (stepFrame C) [b..<?F] t)" "agree (s_rc s) U' q ?F"
      "sums_ok C g0 p q (s_localNext s) n (fold (stepFrame C) [b..<?F] t)"
      "status_of (fold (stepFrame C) [b..<?F] t) = status_of s" "ctl (fold (stepFrame C) [b..<?F] t) = ctl s"
      "s_out (fold (stepFrame C) [b..<?F] t) = s_out s"
    unfolding F tc t(1,3,4) by (elim exE conjE)
  have cf: "core (u\<lparr>s_changedFrom := y\<rparr>) = core u" "sums_of (u\<lparr>s_changedFrom := y\<rparr>) = sums_of u"
    "status_of (u\<lparr>s_changedFrom := y\<rparr>) = status_of u" "ctl (u\<lparr>s_changedFrom := y\<rparr>) = ctl u"
    "s_out (u\<lparr>s_changedFrom := y\<rparr>) = s_out u" for u :: "('a, 'b) session" and y
    by (simp_all add: frame_defs ctl_def)
  show ?thesis
    unfolding e played_core [OF cf(1)] sums_ok_sums [OF cf(2)] cf(3-5) using U' by blast
qed

end
