(* ===== verification/Net_Tick.thy ===== *)
theory Net_Tick
  imports Net_Peer
begin

text \<open>
  Every step of a tick keeps the invariants of a session without a relay: settling mispredicted
  frames, taking the datagrams of an honest peer, simulating a frame and sending.
\<close>

section \<open>Settling\<close>

lemma sim_okI:
  assumes "hist C p q n s" "sums_ok C g0 p q (s_localNext s) n s" "s_firstBad s = None"
    "played C g0 p U (s_frame s) (s_frame s) s" "agree (s_rc s) U q (s_frame s)"
  shows "sim_ok C g0 p q n s"
  using assms unfolding sim_ok_def agree_def by auto

lemma sim_ok_settled:
  assumes "sim_ok C g0 p q n s" "s_firstBad s = None"
  shows "\<exists>U. played C g0 p U (s_frame s) (s_frame s) s \<and> agree (s_rc s) U q (s_frame s)"
  using assms unfolding sim_ok_def agree_def by auto

lemma sim_ok_cong:
  assumes "core t = core s" "sums_of t = sums_of s"
  shows "sim_ok C g0 p q n t = sim_ok C g0 p q n s"
  unfolding sim_ok_def hist_core [OF assms(1)] sums_ok_sums [OF assms(2)] played_core [OF assms(1)] core_eqD [OF assms(1)] ..

lemma sim_ok_hist: "sim_ok C g0 p q n s \<Longrightarrow> hist C p q n s"
  by (simp add: sim_ok_def)

lemma sim_ok_sums: "sim_ok C g0 p q n s \<Longrightarrow> sums_ok C g0 p q (s_localNext s) n s"
  by (simp add: sim_ok_def)

lemma tryCheckpoints_sim:
  assumes c: "cfg_ok C" and s: "sim_ok C g0 p q n s" "s_firstBad s = None" and l: "limit < int (s_frame s)"
  shows "sim_ok C g0 p q n (tryCheckpoints C limit s)" "status_of (tryCheckpoints C limit s) = status_of s"
proof -
  obtain U where U: "played C g0 p U (s_frame s) (s_frame s) s" "agree (s_rc s) U q (s_frame s)"
    using sim_ok_settled [OF s] by blast
  have h: "hist C p q n s" by (rule sim_ok_hist [OF s(1)])
  let ?t = "tryCheckpoints C limit s"
  note ct = core_tryCheckpoints(1) [of C limit s]
  note t = tryCheckpoints_ok [OF sim_ok_sums [OF s(1)] U _ l]
  have N: "0 < nring C" using nring_eq [OF c] by simp
  have b: "s_frame s \<le> Suc (s_localNext s)" "s_rc s \<le> n" using h by (simp_all add: hist_def)
  show "status_of ?t = status_of s" by (rule t(2) [OF N b])
  show "sim_ok C g0 p q n ?t"
    by (rule sim_okI [of C p q n ?t g0 U]; simp only: hist_core [OF ct] core_eqD [OF ct] played_core [OF ct])
       (use h t(1) [OF N b] s(2) U in simp_all)
qed

lemma settle_ok:
  assumes c: "cfg_ok C" and s: "sim_ok C g0 p q n s" and n: "n \<le> s_frame s + 180"
  shows "sim_ok C g0 p q n (settle C s)" "status_of (settle C s) = status_of s"
    "ctl (settle C s) = ctl (s\<lparr>s_firstBad := None\<rparr>)" "s_out (settle C s) = s_out s"
proof -
  define r where "r = (case s_firstBad s of Some b \<Rightarrow> if b < s_frame s then rollback C b s else s | None \<Rightarrow> s)"
  have "\<exists>U. played C g0 p U (s_frame s) (s_frame s) r \<and> agree (s_rc s) U q (s_frame s) \<and>
    sums_ok C g0 p q (s_localNext s) n r \<and> status_of r = status_of s \<and> ctl r = ctl s \<and> s_out r = s_out s"
  proof (cases "s_firstBad s")
    case None
    then show ?thesis using sim_ok_settled [OF s None] sim_ok_sums [OF s] by (auto simp: r_def)
  next
    case (Some b)
    then have "b < s_frame s" using s by (simp add: sim_ok_def)
    then have "r = rollback C b s" using Some by (simp add: r_def)
    then show ?thesis using rollback_ok [OF c s Some n] by (simp only:)
  qed
  then obtain U where U: "played C g0 p U (s_frame s) (s_frame s) r" "agree (s_rc s) U q (s_frame s)"
    "sums_ok C g0 p q (s_localNext s) n r" "status_of r = status_of s" "ctl r = ctl s" "s_out r = s_out s" by (elim exE conjE)
  note cr = ctl_eqD [OF U(5)]
  let ?t = "r\<lparr>s_firstBad := None\<rparr>"
  have f: "s_frame ?t = s_frame s" "s_rc ?t = s_rc s" "s_localNext ?t = s_localNext s" "sums_of ?t = sums_of r"
    "status_of ?t = status_of r" "s_out ?t = s_out s" "ctl ?t = ctl (s\<lparr>s_firstBad := None\<rparr>)"
    by (simp_all add: frame_defs cr U(6) ctl_def)
  have h: "hist C p q n ?t" using sim_ok_hist [OF s] by (simp add: hist_def cr)
  have "played C g0 p U (s_frame s) (s_frame s) ?t" using U(1) unfolding played_def slots_ok_def by simp
  then have t: "sim_ok C g0 p q n ?t"
    by (intro sim_okI [of C p q n ?t g0 U] h) (use U(2,3) in \<open>simp_all only: f sums_ok_sums [OF f(4)], simp\<close>)
  have e: "settle C s = tryCheckpoints C (int (s_frame s) - 1) ?t"
    unfolding settle_def Let_def r_def [symmetric] by (simp add: cr)
  have k: "s_firstBad ?t = None" "int (s_frame s) - 1 < int (s_frame ?t)" by (simp_all add: f)
  show "sim_ok C g0 p q n (settle C s)" "status_of (settle C s) = status_of s"
    unfolding e using tryCheckpoints_sim [OF c t k] f U(4) by simp_all
  show "ctl (settle C s) = ctl (s\<lparr>s_firstBad := None\<rparr>)" "s_out (settle C s) = s_out s"
    unfolding e by (simp_all only: ctl_core [OF core_tryCheckpoints(1)] core_tryCheckpoints(2) f)
qed

section \<open>Receiving inputs\<close>

lemma played_rc:
  assumes "s_states t = s_states s" "s_stFrame t = s_stFrame s" "s_used t = s_used s" "s_gamest t = s_gamest s"
  shows "played C g0 p U hi g t = played C g0 p U hi g s"
  by (simp only: played_def slots_ok_def assms)

text \<open>What the handling of a datagram keeps.\<close>

definition keep :: "('i, 's) session \<Rightarrow> ('i, 's) session \<Rightarrow> bool" where
  "keep s t \<longleftrightarrow> status_of t = status_of s \<and> s_out t = s_out s \<and> s_localNext t = s_localNext s \<and>
     s_frame t = s_frame s \<and> s_delay t = s_delay s"

lemma keep_trans: "keep s t \<Longrightarrow> keep t u \<Longrightarrow> keep s u"
  by (simp add: keep_def)

lemma keep_core: "core t = core s \<Longrightarrow> status_of t = status_of s \<Longrightarrow> s_out t = s_out s \<Longrightarrow> keep s t"
  by (simp add: keep_def core_def)

lemma keep_frame: "keep s t \<Longrightarrow> s_frame t = s_frame s"
  by (simp add: keep_def)

lemma take_entry_ok:
  assumes c: "cfg_ok C" and s: "sim_ok C g0 p q n s" and n: "n \<le> s_frame s + 180"
    and f: "f < n" and raw: "raw = c_put (nc_codec C) (q f)"
  shows "sim_ok C g0 p q n (take_entry C f raw s) \<and> keep s (take_entry C f raw s)"
proof -
  let ?t = "take_entry C f raw s"
  have codec: "c_get (nc_codec C) (c_put (nc_codec C) x) = x" for x using c by (simp add: cfg_ok_def codec_law_def)
  then have inj: "c_put (nc_codec C) x = c_put (nc_codec C) y \<longleftrightarrow> x = y" for x y by metis
  consider (old) "f < s_rc s" | (here) "f = s_rc s" | (gap) "f > s_rc s" by linarith
  then show ?thesis
  proof cases
    case old
    then have k: "core ?t = core s" "sums_of ?t = sums_of s" "status_of ?t = status_of s" "s_out ?t = s_out s"
      by (simp_all add: take_entry_def Let_def)
    show ?thesis unfolding sim_ok_cong [OF k(1,2)] using s keep_core [OF k(1,3,4)] by simp
  next
    case gap
    then have k: "core ?t = core s" "sums_of ?t = sums_of s" "status_of ?t = status_of s" "s_out ?t = s_out s"
      by (simp_all add: take_entry_def Let_def)
    show ?thesis unfolding sim_ok_cong [OF k(1,2)] using s keep_core [OF k(1,3,4)] by simp
  next
    case here
    obtain U where U: "played C g0 p U (s_frame s) (s_frame s) s"
      and ag: "\<And>h. h < s_frame s \<Longrightarrow> h < s_rc s \<Longrightarrow> (\<And>b. s_firstBad s = Some b \<Longrightarrow> h < b) \<Longrightarrow> U h = q h"
      using s unfolding sim_ok_def by auto
    have h: "hist C p q n s" and su: "sums_ok C g0 p q (s_localNext s) n s"
      and fb: "\<And>b. s_firstBad s = Some b \<Longrightarrow> b < s_frame s \<and> s_frame s \<le> b + window C"
      using s unfolding sim_ok_def by auto
    have w: "s_frame s \<le> f + historyFrames" "s_frame s \<le> f + window C"
      using h here cfg_bounds(1) [OF c] by (simp_all add: hist_def historyFrames_def)
    have used: "s_used s ! (f mod historyFrames) = U f" if "f < s_frame s"
      using U that w(1) unfolding played_def by blast
    define bad where "bad \<longleftrightarrow> f < s_frame s \<and> U f \<noteq> q f \<and> (s_firstBad s = None \<or> f < the (s_firstBad s))"
    have e: "?t = s\<lparr>s_remote := (s_remote s)[f mod historyFrames := q f], s_rc := Suc f,
        s_firstBad := (if bad then Some f else s_firstBad s)\<rparr>"
    proof -
      have cond: "f < s_frame s \<and> c_put (nc_codec C) (s_used s ! (f mod historyFrames)) \<noteq> c_put (nc_codec C) (q f) \<and>
          (s_firstBad s = None \<or> f < the (s_firstBad s)) \<longleftrightarrow> bad"
        using used by (auto simp: bad_def inj)
      show ?thesis
        unfolding take_entry_def Let_def raw codec here [symmetric] by (simp add: cond here [symmetric])
    qed
    have "rep historyFrames ((s_remote s)[f mod historyFrames := q f]) q (Suc f)"
      by (rule rep_upd) (use h here in \<open>simp_all add: hist_def historyFrames_def\<close>)
    then have h': "hist C p q n ?t" using h f here unfolding hist_def e by simp
    have su': "sums_ok C g0 p q (s_localNext s) n ?t" using su by (simp add: sums_ok_def e)
    have pl: "played C g0 p U (s_frame s) (s_frame s) ?t"
    proof -
      have "played C g0 p U (s_frame s) (s_frame s) ?t = played C g0 p U (s_frame s) (s_frame s) s"
        by (rule played_rc) (simp_all add: e)
      then show ?thesis using U by simp
    qed
    have fbt: "s_firstBad ?t = (if bad then Some f else s_firstBad s)" by (simp add: e)
    have ag': "U k = q k" if k: "k < s_frame s" "k < Suc f" "\<And>b. s_firstBad ?t = Some b \<Longrightarrow> k < b" for k
    proof (cases "k = f")
      case True
      have "bad \<Longrightarrow> k < f" by (rule k(3)) (simp add: fbt)
      then have nb: "\<not> bad" using True by blast
      show ?thesis
      proof (rule ccontr)
        assume "U k \<noteq> q k"
        then obtain b where b: "s_firstBad s = Some b" "\<not> f < b" using nb k(1) True by (auto simp: bad_def)
        have "k < b" by (rule k(3)) (simp add: fbt nb b(1))
        then show False using b(2) True by simp
      qed
    next
      case False
      then have "k < s_rc s" using k(2) here by simp
      moreover have "k < b" if "s_firstBad s = Some b" for b
      proof (cases bad)
        case True
        then have "f < b" using that by (simp add: bad_def)
        then show ?thesis using k(2) False by simp
      next
        case nb: False
        show ?thesis by (rule k(3)) (simp add: fbt nb that)
      qed
      ultimately show ?thesis using ag k(1) by blast
    qed
    have fb': "b < s_frame s \<and> s_frame s \<le> b + window C" if "s_firstBad ?t = Some b" for b
      using that fb w(2) by (cases bad) (auto simp: bad_def fbt)
    have same: "s_frame ?t = s_frame s" "s_rc ?t = Suc f" "s_localNext ?t = s_localNext s" "s_peerAck ?t = s_peerAck s"
      "s_delay ?t = s_delay s" "status_of ?t = status_of s" "s_out ?t = s_out s"
      by (simp_all add: e status_of_def)
    have "sim_ok C g0 p q n ?t"
      unfolding sim_ok_def same using h' su' pl ag' fb' by blast
    then show ?thesis using same by (simp add: keep_def)
  qed
qed

lemma take_fold_ok:
  assumes c: "cfg_ok C" and n: "n \<le> s_frame s + 180" and s: "sim_ok C g0 p q n s"
    and xs: "\<And>i. i \<in> set xs \<Longrightarrow> pos i < n \<and> raw i = c_put (nc_codec C) (q (pos i))"
  shows "sim_ok C g0 p q n (fold (\<lambda>i. take_entry C (pos i) (raw i)) xs s) \<and>
    keep s (fold (\<lambda>i. take_entry C (pos i) (raw i)) xs s)"
  using n s xs
proof (induction xs arbitrary: s)
  case (Cons i xs)
  have i: "pos i < n" "raw i = c_put (nc_codec C) (q (pos i))" using Cons.prems(3) [of i] by simp_all
  note t = take_entry_ok [OF c Cons.prems(2,1) i]
  have "n \<le> s_frame (take_entry C (pos i) (raw i) s) + 180" using Cons.prems(1) t keep_frame by fastforce
  with Cons.IH [of "take_entry C (pos i) (raw i) s"] t Cons.prems(3)
  have "sim_ok C g0 p q n (fold (\<lambda>i. take_entry C (pos i) (raw i)) xs (take_entry C (pos i) (raw i) s)) \<and>
    keep (take_entry C (pos i) (raw i) s) (fold (\<lambda>i. take_entry C (pos i) (raw i)) xs (take_entry C (pos i) (raw i) s))"
    by auto
  then show ?case using t keep_trans by auto
qed (simp add: keep_def)

lemma onRemoteSum_ok:
  assumes s: "sim_ok C g0 p q n s" and e: "good_sum C g0 p q (s_localNext s) n (unat (se_frame e)) (se_sum e)"
  shows "sim_ok C g0 p q n (onRemoteSum C e s) \<and> keep s (onRemoteSum C e s)"
proof -
  have su: "sums_ok C g0 p q (s_localNext s) n s" by (rule sim_ok_sums [OF s])
  define f where "f = unat (se_frame e)"
  define r where "r = \<lparr>rm_frame = f, rm_sum = se_sum e, rm_epoch = se_epoch e, rm_valid = True\<rparr>"
  define t where "t = s\<lparr>s_rem := (s_rem s)[f div sess_k C mod cpSlots := r]\<rparr>"
  have t: "core t = core s" "status_of t = status_of s" "s_out t = s_out s" by (simp_all add: t_def frame_defs)
  have ok: "sums_ok C g0 p q (s_localNext s) n t"
    by (rule sums_ok_rem [OF su, where i = "f div sess_k C mod cpSlots" and r = r]) (use e in \<open>simp_all add: t_def r_def f_def\<close>)
  have "onRemoteSum C e s = bump BadPackets 1 s \<or> onRemoteSum C e s = s \<or> onRemoteSum C e s = judge C f t"
    unfolding onRemoteSum_def Let_def f_def [symmetric] r_def [symmetric] t_def [symmetric] by simp
  then show ?thesis
  proof (elim disjE)
    assume e: "onRemoteSum C e s = bump BadPackets 1 s"
    have k: "core (bump BadPackets 1 s) = core s" "sums_of (bump BadPackets 1 s) = sums_of s" by simp_all
    show ?thesis unfolding e sim_ok_cong [OF k] using s keep_core [OF k(1)] by simp
  next
    assume "onRemoteSum C e s = s"
    then show ?thesis using s by (simp add: keep_def)
  next
    assume e: "onRemoteSum C e s = judge C f t"
    have k: "core (judge C f t) = core s" "status_of (judge C f t) = status_of s" "s_out (judge C f t) = s_out s"
      using t judge_ok(2) [OF ok] by simp_all
    have "sim_ok C g0 p q n (judge C f t)"
      using s judge_ok(1) [OF ok] unfolding sim_ok_def hist_core [OF k(1)] played_core [OF k(1)] core_eqD [OF k(1)] by blast
    then show ?thesis unfolding e using keep_core [OF k] by simp
  qed
qed

lemma sums_fold_ok:
  assumes "sim_ok C g0 p q n s" "\<And>e. e \<in> set es \<Longrightarrow> good_sum C g0 p q (s_localNext s) n (unat (se_frame e)) (se_sum e)"
  shows "sim_ok C g0 p q n (fold (onRemoteSum C) es s) \<and> keep s (fold (onRemoteSum C) es s)"
  using assms
proof (induction es arbitrary: s)
  case (Cons e es)
  have t: "sim_ok C g0 p q n (onRemoteSum C e s)" "keep s (onRemoteSum C e s)"
    using onRemoteSum_ok [OF Cons.prems(1) Cons.prems(2)] by simp_all
  have l: "s_localNext (onRemoteSum C e s) = s_localNext s" using t(2) by (simp add: keep_def)
  have "sim_ok C g0 p q n (fold (onRemoteSum C) es (onRemoteSum C e s)) \<and>
      keep (onRemoteSum C e s) (fold (onRemoteSum C) es (onRemoteSum C e s))"
    by (rule Cons.IH [OF t(1)]) (simp add: l Cons.prems(2))
  then show ?case using t(2) keep_trans by auto
qed (simp add: keep_def)

section \<open>Handling a datagram\<close>

text \<open>Two configurations of one match.\<close>

definition paired :: "('i, 's) netcfg \<Rightarrow> ('i, 's) netcfg \<Rightarrow> bool" where
  "paired C D \<longleftrightarrow> nc_game D = nc_game C \<and> nc_codec D = nc_codec C \<and> nc_identity D = nc_identity C \<and>
     nc_me C \<le> 1 \<and> nc_me D = 1 - nc_me C"

lemma paired_good_sum: "paired C D \<Longrightarrow> good_sum D g0 q p n m f x = good_sum C g0 p q m n f x"
  by (auto simp: paired_def good_sum_def saved_def plays_def)

lemma paired_wire: "paired C D \<Longrightarrow> isz D = isz C \<and> sess_tag D = sess_tag C"
  by (simp add: paired_def isz_def sess_tag_def)

definition start_ok :: "('i, 's) netcfg \<Rightarrow> (nat \<Rightarrow> 'i) \<Rightarrow> ('i, 's) session \<Rightarrow> bool" where
  "start_ok C p s \<longleftrightarrow>
     (s_status s = StatusHandshake \<longrightarrow> s_localNext s = 0 \<and> s_frame s = 0 \<and>
       s_local s = replicate historyFrames (nc_zero C) \<and> p = (\<lambda>f. nc_zero C)) \<and>
     (s_status s = StatusRunning \<longrightarrow> s_localNext s = s_frame s + s_delay s)"

definition err_ok :: "('i, 's) session \<Rightarrow> bool" where
  "err_ok s \<longleftrightarrow> s_err s = (if s_status s = StatusEnded then Some ErrDisconnect else None)"

definition mid :: "('i, 's) netcfg \<Rightarrow> 's \<Rightarrow> (nat \<Rightarrow> 'i) \<Rightarrow> (nat \<Rightarrow> 'i) \<Rightarrow> nat \<Rightarrow> ('i, 's) session \<Rightarrow> bool" where
  "mid C g0 p q n s \<longleftrightarrow> sim_ok C g0 p q n s \<and> start_ok C p s \<and> err_ok s"

text \<open>From \<open>s\<close> to \<open>t\<close> nothing is sent and no frame is simulated; the match may start.\<close>

definition onward :: "('i, 's) session \<Rightarrow> ('i, 's) session \<Rightarrow> bool" where
  "onward s t \<longleftrightarrow> s_out t = s_out s \<and> s_frame t = s_frame s \<and> s_localNext s \<le> s_localNext t \<and>
     (s_status s \<noteq> StatusEnded \<longrightarrow> s_status t \<noteq> StatusEnded)"

lemma onward_trans: "onward s t \<Longrightarrow> onward t u \<Longrightarrow> onward s u"
  by (simp add: onward_def)

lemma onward_keep: "keep s t \<Longrightarrow> onward s t"
  by (simp add: onward_def keep_def status_of_def)

lemma mid_same:
  assumes "core t = core s" "sums_of t = sums_of s" "status_of t = status_of s"
  shows "mid C g0 p q n t = mid C g0 p q n s"
  using assms(3) unfolding mid_def sim_ok_cong [OF assms(1,2)] start_ok_def err_ok_def core_eqD [OF assms(1)]
  by (simp add: status_of_def)

lemma mid_keep:
  assumes "mid C g0 p q n s" "sim_ok C g0 p q n t" "keep s t" "s_status s \<noteq> StatusHandshake"
  shows "mid C g0 p q n t"
  using assms unfolding mid_def start_ok_def err_ok_def keep_def status_of_def by simp

lemma SuggestDelay_le: "SuggestDelay r d b m \<le> m"
  by (simp add: SuggestDelay_def Let_def)

lemma maybeStart_ok:
  assumes c: "cfg_ok C" and s: "mid C g0 p q n s"
  shows "mid C g0 p q n (maybeStart C now s) \<and> onward s (maybeStart C now s)"
proof (cases "s_status s \<noteq> StatusHandshake \<or> \<not> s_peerSeen s \<or> \<not> s_delayKnown s \<and> \<not> s_haveRTT s")
  case True
  then have "maybeStart C now s = s" by (auto simp: maybeStart_def)
  then show ?thesis using s by (simp add: onward_def)
next
  case False
  then have hs: "s_status s = StatusHandshake" by simp
  define d where "d = (if s_delayKnown s then s_delay s
    else nat (SuggestDelay (s_rtt s) (nc_frameDur C) (nc_maxRollback C) (nc_maxInputDelay C)))"
  define t where "t = s\<lparr>s_delay := d, s_delayKnown := True, s_status := StatusRunning, s_localNext := d, s_hsStart := now\<rparr>"
  have e: "maybeStart C now s = t"
    using False by (cases "s_delayKnown s") (simp_all add: maybeStart_def Let_def t_def d_def)
  have h: "hist C p q n s" and su: "sums_ok C g0 p q (s_localNext s) n s" using s by (simp_all add: mid_def sim_ok_def)
  have z: "s_localNext s = 0" "s_frame s = 0" "s_local s = replicate historyFrames (nc_zero C)" "p = (\<lambda>f. nc_zero C)"
    using s hs by (simp_all add: mid_def start_ok_def)
  have d: "d \<le> max_delay C" using h SuggestDelay_le by (simp add: d_def hist_def nat_mono)
  have f: "s_states t = s_states s" "s_stFrame t = s_stFrame s" "s_used t = s_used s" "s_gamest t = s_gamest s"
    "s_firstBad t = s_firstBad s" "s_frame t = s_frame s" "s_rc t = s_rc s" "s_out t = s_out s"
    "s_localNext t = d" "s_err t = s_err s" "s_status t = StatusRunning"
    by (simp_all add: t_def)
  have "hist C p q n t"
    using h d z(1,2) unfolding hist_def by (auto simp: t_def z(3,4) rep_def historyFrames_def)
  moreover have "sums_ok C g0 p q d n t"
    using sums_ok_mono [OF su, of d n p q] z(1) by (simp add: t_def sums_ok_def)
  ultimately have "sim_ok C g0 p q n t"
    using s unfolding mid_def sim_ok_def f played_rc [OF f(1-4)] by blast
  moreover have "start_ok C p t" "err_ok t" using s z hs by (simp_all add: start_ok_def err_ok_def mid_def t_def)
  ultimately show ?thesis using z f unfolding e by (simp add: mid_def onward_def)
qed

lemma sim_ok_ack:
  assumes "sim_ok C g0 p q n s" "a \<le> s_localNext s"
  shows "sim_ok C g0 p q n (s\<lparr>s_peerAck := a\<rparr>)"
  using assms unfolding sim_ok_def hist_def sums_ok_def played_def slots_ok_def by simp

lemma accept_input_ok:
  assumes c: "cfg_ok C" and pd: "paired C D" and s: "sim_ok C g0 p q n s" and n: "n \<le> s_frame s + 180"
    and d: "fair_input D g0 q p n (s_localNext s) ack st es cs"
    and k: "ip_ack k = word_of_nat ack" "ip_start k = word_of_nat st" "ip_count k = length es" "ip_entries k = concat es"
      "ip_sums k = cs"
  shows "sim_ok C g0 p q n (accept_input C newest k s) \<and> keep s (accept_input C newest k s)"
proof -
  have D: "ack \<le> s_localNext s" "st + length es \<le> n" "st < 2 ^ 32" "\<And>i. i < length es \<Longrightarrow> es ! i = c_put (nc_codec C) (q (st + i))"
    "\<And>e. e \<in> set cs \<Longrightarrow> good_sum C g0 p q (s_localNext s) n (unat (se_frame e)) (se_sum e)"
    using d pd paired_good_sum [OF pd] unfolding fair_input_def paired_def by auto
  define s1 where "s1 = (if newest then note_advantage C k s else s)"
  have s1: "core s1 = core s" "sums_of s1 = sums_of s" "status_of s1 = status_of s" "s_out s1 = s_out s" by (simp_all add: s1_def)
  define a where "a = unat (ip_ack k)"
  have a: "a \<le> s_localNext s1"
    using D(1) core_eqD(3) [OF s1(1)] order_trans [OF take_bit_nat_less_eq_self, of ack]
    unfolding a_def k by (simp add: unsigned_of_nat)
  define s2 where "s2 = (if a > s_peerAck s1 then s1\<lparr>s_peerAck := a\<rparr> else s1)"
  have s1': "sim_ok C g0 p q n s1" "keep s s1" using s keep_core [OF s1(1,3,4)] by (simp_all add: sim_ok_cong [OF s1(1,2)])
  have s2: "sim_ok C g0 p q n s2" "keep s1 s2"
    using s1'(1) sim_ok_ack [OF s1'(1) a] by (simp_all add: s2_def keep_def status_of_def)
  have k2: "keep s s2" by (rule keep_trans [OF s1'(2) s2(2)])
  have len: "\<forall>e \<in> set es. length e = isz C"
    using D(4) c by (auto simp: in_set_conv_nth isz_def cfg_ok_def codec_law_def)
  have st: "unat (ip_start k) = st" unfolding k using D(3) by (simp add: unsigned_of_nat take_bit_nat_eq_self)
  define s3 where "s3 = take_entries C k s2"
  have e3: "s3 = fold (\<lambda>i. take_entry C (st + i) (entry_at (isz C) k i)) [0..<length es] s2"
    by (simp only: s3_def take_entries_def st k(3))
  have raw: "entry_at (isz C) k i = c_put (nc_codec C) (q (st + i))" if "i < length es" for i
    using entry_at_put [OF len that, of k] D(4) [OF that] by (simp add: k(4) [symmetric])
  have "sim_ok C g0 p q n s3 \<and> keep s2 s3"
    unfolding e3 by (rule take_fold_ok [OF c _ s2(1)]) (use n keep_frame [OF k2] D(2) raw in auto)
  then have s3: "sim_ok C g0 p q n s3" "keep s s3" using keep_trans [OF k2] by blast+
  have l: "s_localNext s3 = s_localNext s" using s3(2) by (simp add: keep_def)
  have e: "accept_input C newest k s = fold (onRemoteSum C) cs s3"
    by (simp add: accept_input_def Let_def s1_def s2_def s3_def a_def k(5))
  show ?thesis unfolding e using sums_fold_ok [OF s3(1), of cs] D(5) l keep_trans [OF s3(2)] by simp
qed

lemma noteHeader_same:
  assumes "noteHeader now h s = (newest, t)"
  shows "core t = core s" "sums_of t = sums_of s" "status_of t = status_of s" "s_out t = s_out s"
proof -
  have t: "t = snd (noteHeader now h s)" using assms by simp
  show "core t = core s" "sums_of t = sums_of s" "status_of t = status_of s" "s_out t = s_out s" unfolding t by simp_all
qed

lemma onward_same: "core t = core s \<Longrightarrow> status_of t = status_of s \<Longrightarrow> s_out t = s_out s \<Longrightarrow> onward s t"
  by (simp add: onward_def core_def status_of_def)

lemma peer_seen_same: "core (s\<lparr>s_peerSeen := x\<rparr>) = core s" "sums_of (s\<lparr>s_peerSeen := x\<rparr>) = sums_of s"
  "status_of (s\<lparr>s_peerSeen := x\<rparr>) = status_of s" "s_out (s\<lparr>s_peerSeen := x\<rparr>) = s_out s"
  by (simp_all add: frame_defs)

lemma seen_start_ok:
  assumes c: "cfg_ok C" and s: "mid C g0 p q n s"
  shows "mid C g0 p q n (maybeStart C now (s\<lparr>s_peerSeen := True\<rparr>)) \<and> onward s (maybeStart C now (s\<lparr>s_peerSeen := True\<rparr>))"
proof -
  have "mid C g0 p q n (s\<lparr>s_peerSeen := True\<rparr>)" using s by (simp only: mid_same [OF peer_seen_same(1-3)])
  moreover have "onward s (s\<lparr>s_peerSeen := True\<rparr>)" by (rule onward_same) (simp_all add: peer_seen_same)
  ultimately show ?thesis using maybeStart_ok [OF c] onward_trans by blast
qed

lemma hello_shape:
  "length (putHello tag h x idn) = 29 + length idn" "drop 29 (putHello tag h x idn) = idn"
  "putHello tag h x idn ! 0 = protoVersion" "putHello tag h x idn ! 1 = ptHello"
  by (simp_all add: putHello_def header_fields header_fields(2) [unfolded One_nat_def])

lemma input_shape:
  "putInput tag h fr ack st es cs ! 0 = protoVersion" "putInput tag h fr ack st es cs ! 1 = ptInput"
  "43 \<le> length (putInput tag h fr ack st es cs)"
  by (simp_all add: putInput_def header_fields header_fields(2) [unfolded One_nat_def])

lemma handleHello_ok:
  assumes c: "cfg_ok C" and s: "mid C g0 p q n s" and b: "b = putHello tag h x (nc_identity C)"
  shows "mid C g0 p q n (handleHello C now b s) \<and> onward s (handleHello C now b s)"
proof -
  obtain newest t where t: "noteHeader now (getHeader b) s = (newest, t)" by fastforce
  have len: "length b = helloLen" "drop 29 b = nc_identity C"
    using c unfolding b hello_shape by (simp_all add: helloLen_def cfg_ok_def)
  have e: "handleHello C now b s = maybeStart C now (t\<lparr>s_peerSeen := True\<rparr>)"
    by (simp add: handleHello_def len t)
  note k = noteHeader_same [OF t]
  have "mid C g0 p q n t" using s by (simp only: mid_same [OF k(1-3)])
  with seen_start_ok [OF c] onward_same [OF k(1,3,4)] show ?thesis unfolding e using onward_trans by blast
qed

lemma handleInput_ok:
  assumes c: "cfg_ok C" and pd: "paired C D" and s: "mid C g0 p q n s" and n: "n \<le> s_frame s + 180"
    and b: "b = putInput (sess_tag D) h fr (word_of_nat ack) (word_of_nat st) es cs"
    and d: "fair_input D g0 q p n (s_localNext s) ack st es cs"
  shows "mid C g0 p q n (handleInput C now b s) \<and> onward s (handleInput C now b s)"
proof -
  have len: "\<forall>e \<in> set es. length e = isz C"
    using d c pd by (auto simp: fair_input_def in_set_conv_nth isz_def cfg_ok_def codec_law_def paired_def)
  have "maxEntries (isz D) \<le> 1105"
    by (simp add: maxEntries_def packet_consts)
  then have small: "length es < 2 ^ 16" "length cs \<le> maxSums" using d by (auto simp: fair_input_def)
  define k where "k = \<lparr>ip_header = h\<lparr>h_typ := ptInput\<rparr>, ip_frame = fr, ip_ack = word_of_nat ack, ip_start = word_of_nat st,
    ip_count = length es, ip_entries = concat es, ip_sums = cs\<rparr>"
  have pk: "parseInput b (isz C) = Some (k, sess_tag C)"
    using parseInput_put [OF len small] paired_wire [OF pd] unfolding b k_def by metis
  obtain newest t where t: "noteHeader now (ip_header k) s = (newest, t)" by fastforce
  note kt = noteHeader_same [OF t]
  have mt: "mid C g0 p q n t" "onward s t" using s onward_same [OF kt(1,3,4)] by (simp_all only: mid_same [OF kt(1-3)])
  define u where "u = (if s_status t = StatusHandshake then maybeStart C now (t\<lparr>s_peerSeen := True\<rparr>) else t)"
  have u: "mid C g0 p q n u" "onward s u"
    using seen_start_ok [OF c mt(1)] mt onward_trans [OF mt(2)] unfolding u_def by auto
  have e: "handleInput C now b s = (if s_status u = StatusHandshake then u else accept_input C newest k u)"
    by (simp add: handleInput_def pk t u_def [symmetric] Let_def)
  show ?thesis
  proof (cases "s_status u = StatusHandshake")
    case True
    then show ?thesis using u unfolding e by simp
  next
    case False
    have du: "fair_input D g0 q p n (s_localNext u) ack st es cs"
      by (rule fair_input_mono [OF d]) (use u(2) in \<open>simp_all add: onward_def\<close>)
    have nu: "n \<le> s_frame u + 180" using n u(2) by (simp add: onward_def)
    have su: "sim_ok C g0 p q n u" using u(1) by (simp add: mid_def)
    have a: "sim_ok C g0 p q n (accept_input C newest k u)" "keep u (accept_input C newest k u)"
      using accept_input_ok [OF c pd su nu du] by (simp_all add: k_def)
    show ?thesis
      unfolding e using False mid_keep [OF u(1) a False] onward_trans [OF u(2) onward_keep [OF a(2)]] by simp
  qed
qed

lemma handle_ok:
  assumes c: "cfg_ok C" and pd: "paired C D" and s: "mid C g0 p q n s" and n: "n \<le> s_frame s + 180"
    and b: "honest D g0 q p n (s_localNext s) b"
  shows "mid C g0 p q n (handle C now b s) \<and> onward s (handle C now b s)"
  using b unfolding honest_def
proof (elim disjE exE conjE)
  fix h assume b: "b = putHello (sess_tag D) h (word_of_nat (nc_me D)) (nc_identity D)"
  then have b': "b = putHello (sess_tag D) h (word_of_nat (nc_me D)) (nc_identity C)" using pd by (simp add: paired_def)
  have "length b = 29 + length (nc_identity C)" "b ! 0 = protoVersion" "b ! 1 = ptHello"
    unfolding b' by (simp_all only: hello_shape)
  then have "handle C now b s = handleHello C now b s" by (simp add: handle_def)
  then show ?thesis using handleHello_ok [OF c s b'] by simp
next
  fix h fr ack st es cs
  assume b: "b = putInput (sess_tag D) h fr (word_of_nat ack) (word_of_nat st) es cs"
    and d: "fair_input D g0 q p n (s_localNext s) ack st es cs"
  have "43 \<le> length b" "b ! 0 = protoVersion" "b ! 1 = ptInput" unfolding b by (rule input_shape)+
  then have "handle C now b s = handleInput C now b s" by (simp add: handle_def packet_consts)
  then show ?thesis using handleInput_ok [OF c pd s n b d] by simp
qed

text \<open>Handling a datagram does not touch the queue.\<close>

lemma inq_simps [simp]:
  "s_inq (bump k n s) = s_inq s" "s_inq (end_with e s) = s_inq s" "s_inq (send b s) = s_inq s"
  "s_inq (snd (noteHeader now h s)) = s_inq s" "s_inq (note_advantage C p s) = s_inq s" "s_inq (judge C f s) = s_inq s"
  "s_inq (onRemoteSum C q s) = s_inq s" "s_inq (maybeStart C now s) = s_inq s" "s_inq (take_entry C f raw s) = s_inq s"
  "s_inq (sendHello C now s) = s_inq s" "s_inq (sendResyncAck C s) = s_inq s" "s_inq (begin_blob r s) = s_inq s"
  by (simp_all add: bump_def end_with_def send_def noteHeader_def note_advantage_def judge_def onRemoteSum_def
      maybeStart_def take_entry_def sendHello_def sess_header_def sendResyncAck_def begin_blob_def Let_def)

lemma inq_fold: "(\<And>x s. s_inq (f x s) = s_inq s) \<Longrightarrow> s_inq (fold f xs s) = s_inq s"
  by (induction xs arbitrary: s) auto

lemma inq_accept [simp]: "s_inq (accept_input C newest p s) = s_inq s"
  by (simp add: accept_input_def take_entries_def inq_fold Let_def)

lemma inq_noteHeader: "noteHeader now h s = (newest, t) \<Longrightarrow> s_inq t = s_inq s"
  using inq_simps(4) [of now h s] by simp

lemma inq_handlers [simp]:
  "s_inq (handleHello C now b s) = s_inq s" "s_inq (handleInput C now b s) = s_inq s" "s_inq (applyResync C now s) = s_inq s"
  by (auto simp: handleHello_def handleInput_def applyResync_def Let_def inq_noteHeader split: prod.split option.split)

lemma inq_resync [simp]: "s_inq (handleResync C now b s) = s_inq s"
  by (simp add: handleResync_def Let_def split: option.split prod.split)

lemma handle_inq: "s_inq (handle C now b s) = s_inq s"
  by (simp add: handle_def split: option.split prod.split)

lemma maxEntries_fits: "maxEntries k * k \<le> 1105"
  by (simp add: maxEntries_def packet_consts)

lemma honest_length:
  assumes c: "cfg_ok C" and pd: "paired C D" and b: "honest D g0 q p n m b"
  shows "length b \<le> maxPacketSize"
  using b unfolding honest_def
proof (elim disjE exE conjE)
  fix h assume "b = putHello (sess_tag D) h (word_of_nat (nc_me D)) (nc_identity D)"
  then show ?thesis using c pd by (simp add: hello_shape maxPacketSize_def cfg_ok_def paired_def)
next
  fix h fr ack st es cs
  assume b: "b = putInput (sess_tag D) h fr (word_of_nat ack) (word_of_nat st) es cs"
    and d: "fair_input D g0 q p n m ack st es cs"
  have "\<forall>e \<in> set es. length e = isz D"
    using d c pd by (auto simp: fair_input_def in_set_conv_nth isz_def cfg_ok_def codec_law_def paired_def)
  then have "length (concat es) = length es * isz D" by (rule length_concat_const)
  moreover have "length es * isz D \<le> 1105"
    by (rule order_trans [OF mult_le_mono1 maxEntries_fits]) (use d in \<open>simp add: fair_input_def\<close>)
  moreover have "length (concat (List.map putSum cs)) = length cs * 13"
    using length_concat_const [of "List.map putSum cs" 13] by simp
  moreover have "length cs \<le> 4" using d by (simp add: fair_input_def maxSums_def)
  ultimately show ?thesis unfolding b by (simp add: putInput_def maxPacketSize_def)
qed

lemma poll_loop_ok:
  assumes c: "cfg_ok C" and pd: "paired C D" and s: "mid C g0 p q n s" and n: "n \<le> s_frame s + 180"
    and b: "\<And>b. b \<in> set (s_inq s) \<Longrightarrow> honest D g0 q p n (s_localNext s) b"
  shows "mid C g0 p q n (poll_loop k C now s) \<and> onward s (poll_loop k C now s)"
  using s n b
proof (induction k arbitrary: s)
  case 0
  then show ?case by (simp add: onward_def)
next
  case (Suc k)
  show ?case
  proof (cases "s_inq s")
    case Nil
    then show ?thesis using Suc.prems by (simp add: onward_def)
  next
    case (Cons m ms)
    define t where "t = bump PacketsReceived 1 (s\<lparr>s_inq := ms\<rparr>)"
    have t: "core t = core s" "sums_of t = sums_of s" "status_of t = status_of s" "s_out t = s_out s" "s_inq t = ms"
      by (simp_all add: t_def bump_def frame_defs)
    have mt: "mid C g0 p q n t" "onward s t" using Suc.prems(1) onward_same [OF t(1,3,4)] by (simp_all only: mid_same [OF t(1-3)])
    have nt: "n \<le> s_frame t + 180" "s_localNext t = s_localNext s" using Suc.prems(2) core_eqD [OF t(1)] by simp_all
    have hm: "honest D g0 q p n (s_localNext t) m" using Suc.prems(3) [of m] Cons nt(2) by simp
    have "take maxPacketSize m = m" using honest_length [OF c pd hm] by simp
    define u where "u = handle C now m t"
    have u: "mid C g0 p q n u" "onward t u" using handle_ok [OF c pd mt(1) nt(1) hm] by (simp_all add: u_def)
    have su: "onward s u" by (rule onward_trans [OF mt(2) u(2)])
    have e: "poll_loop (Suc k) C now s = (if s_status u = StatusEnded then u else poll_loop k C now u)"
      unfolding u_def t_def using Cons \<open>take maxPacketSize m = m\<close> by (simp add: Let_def)
    have q: "s_inq u = ms" by (simp add: u_def t(5) [symmetric] handle_inq)
    have hu: "honest D g0 q p n (s_localNext u) b" if "b \<in> set (s_inq u)" for b
      by (rule honest_mono [OF Suc.prems(3) [of b]]) (use that Cons q su in \<open>simp_all add: onward_def\<close>)
    have nu: "n \<le> s_frame u + 180" using Suc.prems(2) su by (simp add: onward_def)
    have ih: "mid C g0 p q n (poll_loop k C now u)" "onward u (poll_loop k C now u)"
      using Suc.IH [OF u(1) nu hu] by blast+
    then show ?thesis unfolding e using u su onward_trans [OF su ih(2)] by simp
  qed
qed

section \<open>Sending\<close>

lemma shift_in_set: "set (shift_in c xs) \<subseteq> insert c (set xs)"
  unfolding shift_in_def Let_def by (auto dest: in_set_takeD set_takeWhileD)

lemma shift_in_length: "length (shift_in c xs) = Suc (length xs)"
  using length_takeWhile_le [of "\<lambda>p. cp_frame p < cp_frame c" "rev xs"] by (simp add: shift_in_def Let_def)

lemma pick_set: "c \<in> set (pick e cs ps) \<Longrightarrow> c \<in> set ps \<or> c \<in> set cs \<and> cp_valid c"
proof (induction e cs ps rule: pick.induct)
  case (2 e a cs ps)
  then show ?case
    using shift_in_set [of a ps] shift_in_set [of a "butlast ps"] in_set_butlastD [of c ps] by (auto split: if_splits)
qed simp

lemma pick_length: "length ps \<le> maxSums \<Longrightarrow> length (pick e cs ps) \<le> maxSums"
proof (induction e cs ps rule: pick.induct)
  case (2 e a cs ps)
  then show ?case by (auto simp: shift_in_length maxSums_def)
qed simp

text \<open>Every datagram sent so far is honest.\<close>

definition sent_ok :: "('i, 's) netcfg \<Rightarrow> 's \<Rightarrow> (nat \<Rightarrow> 'i) \<Rightarrow> (nat \<Rightarrow> 'i) \<Rightarrow> nat \<Rightarrow> ('i, 's) session \<Rightarrow> bool" where
  "sent_ok C g0 p q n s \<longleftrightarrow> (\<forall>b \<in> set (s_out s). honest C g0 p q (s_localNext s) n b)"

lemma sendInput_out:
  "\<exists>h. s_out (sendInput C now s) = s_out s @ [putInput (sess_tag C) h (word_of_nat (s_frame s)) (word_of_nat (s_rc s))
     (word_of_nat (input_start s))
     (List.map (\<lambda>i. c_put (nc_codec C) (s_local s ! ((input_start s + i) mod historyFrames))) [0..<input_count C s])
     (List.map (\<lambda>c. \<lparr>se_frame = word_of_nat (cp_frame c), se_sum = cp_sum c, se_epoch = cp_epoch c\<rparr>)
       (pick (s_epoch s) (s_cp s) []))]"
  by (simp add: sendInput_def sess_header_def send_def bump_def input_start_def input_count_def Let_def) blast

lemma sendHello_out: "\<exists>h. s_out (sendHello C now s) = s_out s @ [putHello (sess_tag C) h (word_of_nat (nc_me C)) (nc_identity C)]"
  by (simp add: sendHello_def sess_header_def send_def bump_def Let_def) blast

lemma hello_honest: "honest C g0 p q m n (putHello (sess_tag C) h (word_of_nat (nc_me C)) (nc_identity C))"
  unfolding honest_def by blast

lemma sendHello_ok:
  assumes "sent_ok C g0 p q n s"
  shows "sent_ok C g0 p q n (sendHello C now s)"
proof -
  obtain h where "s_out (sendHello C now s) = s_out s @ [putHello (sess_tag C) h (word_of_nat (nc_me C)) (nc_identity C)]"
    using sendHello_out [of C now s] by blast
  then show ?thesis using assms core_eqD(3) [OF core_simps(6), of C now s] hello_honest by (simp add: sent_ok_def)
qed

lemma sendInput_ok:
  assumes h: "hist C p q n s" and su: "sums_ok C g0 p q (s_localNext s) n s" and l: "s_localNext s < 2 ^ 32"
    and s: "sent_ok C g0 p q n s"
  shows "sent_ok C g0 p q n (sendInput C now s)"
proof -
  let ?st = "input_start s" and ?k = "input_count C s"
  let ?es = "List.map (\<lambda>i. c_put (nc_codec C) (s_local s ! ((?st + i) mod historyFrames))) [0..<?k]"
  let ?cs = "List.map (\<lambda>c. \<lparr>se_frame = word_of_nat (cp_frame c), se_sum = cp_sum c, se_epoch = cp_epoch c\<rparr>)
    (pick (s_epoch s) (s_cp s) [])"
  have st: "?st \<le> s_localNext s" "s_localNext s \<le> ?st + historyFrames" "?st + ?k \<le> s_localNext s" "?k \<le> maxEntries (isz C)"
    using h by (auto simp: hist_def input_start_def input_count_def Let_def historyFrames_def)
  have loc: "rep historyFrames (s_local s) p (s_localNext s)" using h by (simp add: hist_def)
  have es: "?es ! i = c_put (nc_codec C) (p (?st + i))" if "i < ?k" for i
    using that rep_at [OF loc, of "?st + i"] st by simp
  have cs: "good_sum C g0 p q (s_localNext s) n (unat (se_frame e)) (se_sum e)" if e: "e \<in> set ?cs" for e
  proof -
    obtain c where c: "e = \<lparr>se_frame = word_of_nat (cp_frame c), se_sum = cp_sum c, se_epoch = cp_epoch c\<rparr>"
      and pc: "c \<in> set (pick (s_epoch s) (s_cp s) [])"
      using e unfolding set_map by blast
    have cv: "c \<in> set (s_cp s)" "cp_valid c" using pick_set [OF pc] by simp_all
    have g: "good_sum C g0 p q (s_localNext s) n (cp_frame c) (cp_sum c)" using su cv by (simp add: sums_ok_def)
    then have "cp_frame c < 2 ^ 32" using l by (simp add: good_sum_def)
    then show ?thesis using g by (simp add: c unsigned_of_nat take_bit_nat_eq_self)
  qed
  have len: "length ?cs \<le> maxSums" using pick_length [of "[]" "s_epoch s" "s_cp s"] by (simp add: maxSums_def)
  have d: "fair_input C g0 p q (s_localNext s) n (s_rc s) ?st ?es ?cs"
    unfolding fair_input_def using h st l es cs len by (simp add: hist_def)
  obtain hd where o: "s_out (sendInput C now s) = s_out s @ [putInput (sess_tag C) hd (word_of_nat (s_frame s))
      (word_of_nat (s_rc s)) (word_of_nat ?st) ?es ?cs]"
    using sendInput_out [of C now s] by blast
  have "honest C g0 p q (s_localNext s) n (putInput (sess_tag C) hd (word_of_nat (s_frame s))
      (word_of_nat (s_rc s)) (word_of_nat ?st) ?es ?cs)"
    unfolding honest_def using d by blast
  then show ?thesis using s core_eqD(3) [OF core_simps(7), of C now s] unfolding sent_ok_def o by simp
qed

end
