(* ===== verification/Net_Advance.thy ===== *)
theory Net_Advance
  imports Net_Tick
begin

text \<open>
  A whole tick, \<open>Advance\<close>, keeps the invariant of a session: \<open>peer_ok\<close> is preserved when the
  datagrams that wait are those of an honest peer.
\<close>

definition peer_ok :: "('i, 's) netcfg \<Rightarrow> 's \<Rightarrow> (nat \<Rightarrow> 'i) \<Rightarrow> (nat \<Rightarrow> 'i) \<Rightarrow> nat \<Rightarrow> ('i, 's) session \<Rightarrow> bool" where
  "peer_ok C g0 p q n s \<longleftrightarrow> mid C g0 p q n s \<and> sent_ok C g0 p q n s"

lemma kept_simps [simp]:
  "s_localNext (end_with e s) = s_localNext s" "s_localNext (sendHello C now s) = s_localNext s"
  "s_localNext (sendInput C now s) = s_localNext s"
  "sim_ok C g0 p q n (end_with e s) = sim_ok C g0 p q n s" "mid C g0 p q n (sendHello C now s) = mid C g0 p q n s"
  "mid C g0 p q n (sendInput C now s) = mid C g0 p q n s"
  by (rule core_eqD sim_ok_cong mid_same; simp)+

lemma sent_ok_mono:
  assumes "sent_ok C g0 p q n s" "s_out t = s_out s" "s_localNext s \<le> s_localNext t" "n \<le> n'"
    "\<And>f. f < s_localNext s \<Longrightarrow> p' f = p f" "\<And>f. f < n \<Longrightarrow> q' f = q f"
  shows "sent_ok C g0 p' q' n' t"
  unfolding sent_ok_def assms(2)
proof
  fix b assume "b \<in> set (s_out s)"
  then have "honest C g0 p q (s_localNext s) n b" using assms(1) by (simp add: sent_ok_def)
  then show "honest C g0 p' q' (s_localNext t) n' b" by (rule honest_mono) (use assms in simp_all)
qed

lemma played_hi:
  assumes "played C g0 p U hi g s" "hi \<le> hi'"
  shows "played C g0 p U hi' g s"
proof -
  have "hi' \<le> k \<Longrightarrow> hi \<le> k" for k using assms(2) by simp
  then show ?thesis using assms(1) unfolding played_def by blast
qed

section \<open>Ending, stalling and waiting\<close>

lemma mid_end:
  assumes "mid C g0 p q n s"
  shows "mid C g0 p q n (end_with ErrDisconnect s)"
proof -
  have "sim_ok C g0 p q n (end_with ErrDisconnect s)" using assms by (simp add: mid_def)
  moreover have "start_ok C p (end_with ErrDisconnect s)" using assms by (auto simp: start_ok_def end_with_def mid_def)
  moreover have "err_ok (end_with ErrDisconnect s)" using assms by (auto simp: err_ok_def end_with_def mid_def)
  ultimately show ?thesis by (simp add: mid_def)
qed

lemma peer_end: "peer_ok C g0 p q n s \<Longrightarrow> peer_ok C g0 p q n (end_with ErrDisconnect s)"
  using mid_end [of C g0 p q n s] sent_ok_mono [of C g0 p q n s "end_with ErrDisconnect s" n p q]
  by (simp add: peer_ok_def)

lemma peer_same:
  assumes "peer_ok C g0 p q n s" "core t = core s" "sums_of t = sums_of s" "status_of t = status_of s" "s_out t = s_out s"
  shows "peer_ok C g0 p q n t"
  using assms(1) sent_ok_mono [OF _ assms(5), of C g0 p q n n p q] core_eqD(3) [OF assms(2)]
  by (simp add: peer_ok_def mid_same [OF assms(2-4)])

lemma peer_sendHello: "peer_ok C g0 p q n s \<Longrightarrow> peer_ok C g0 p q n (sendHello C now s)"
  using sendHello_ok [of C g0 p q n s now] by (simp add: peer_ok_def)

lemma peer_sendInput:
  assumes "peer_ok C g0 p q n s" "s_localNext s < 2 ^ 32"
  shows "peer_ok C g0 p q n (sendInput C now s)"
proof -
  have "hist C p q n s" "sums_ok C g0 p q (s_localNext s) n s" "sent_ok C g0 p q n s"
    using assms(1) by (simp_all add: peer_ok_def mid_def sim_ok_def)
  then have "sent_ok C g0 p q n (sendInput C now s)" by (rule sendInput_ok [OF _ _ assms(2)])
  then show ?thesis using assms(1) by (simp add: peer_ok_def)
qed

lemma handshake_ok:
  assumes "peer_ok C g0 p q n s"
  shows "peer_ok C g0 p q n (snd (handshake_tick C now s))" "s_localNext (snd (handshake_tick C now s)) = s_localNext s"
proof -
  define t where "t = (if s_hsStarted s then s else s\<lparr>s_hsStarted := True, s_hsStart := now\<rparr>)"
  have t: "core t = core s" "sums_of t = sums_of s" "status_of t = status_of s" "s_out t = s_out s"
    by (simp_all add: t_def frame_defs)
  have p: "peer_ok C g0 p q n t" by (rule peer_same [OF assms t])
  have e: "snd (handshake_tick C now s) = (if now - s_hsStart t > nc_stall C then end_with ErrDisconnect t else sendHello C now t)"
    by (simp add: handshake_tick_def Let_def t_def)
  show "peer_ok C g0 p q n (snd (handshake_tick C now s))" unfolding e using peer_end [OF p] peer_sendHello [OF p] by simp
  show "s_localNext (snd (handshake_tick C now s)) = s_localNext s"
    unfolding e using core_eqD(3) [OF t(1)] by simp
qed

lemma stall_ok:
  assumes "peer_ok C g0 p q n s" "s_localNext s < 2 ^ 32"
  shows "peer_ok C g0 p q n (snd (stall_tick C now s))" "s_localNext (snd (stall_tick C now s)) = s_localNext s"
proof -
  define t where "t = bump StallTicks 1 (if s_stalling s then s else s\<lparr>s_stalling := True, s_stallSince := now\<rparr>)"
  have t: "core t = core s" "sums_of t = sums_of s" "status_of t = status_of s" "s_out t = s_out s"
    by (simp_all add: t_def bump_def frame_defs)
  have p: "peer_ok C g0 p q n t" by (rule peer_same [OF assms(1) t])
  have l: "s_localNext t = s_localNext s" by (rule core_eqD(3) [OF t(1)])
  have e: "snd (stall_tick C now s) = (if now - s_stallSince t > nc_stall C then end_with ErrDisconnect t else sendInput C now t)"
    by (simp add: stall_tick_def Let_def t_def)
  show "peer_ok C g0 p q n (snd (stall_tick C now s))"
    unfolding e using peer_end [OF p] peer_sendInput [OF p] l assms(2) by simp
  show "s_localNext (snd (stall_tick C now s)) = s_localNext s"
    unfolding e using l by simp
qed

section \<open>A frame\<close>

lemma advance_frame_ok:
  assumes c: "cfg_ok C" and s: "peer_ok C g0 p q n s" and r: "s_status s = StatusRunning" and fb: "s_firstBad s = None"
    and w: "s_frame s < s_rc s + window C" and n: "n \<le> s_frame s + 180" and l: "s_localNext s + 1 < 2 ^ 32"
  shows "\<exists>p'. (\<forall>f < s_localNext s. p' f = p f) \<and> peer_ok C g0 p' q n (snd (advance_frame C now inp s)) \<and>
    s_localNext s \<le> s_localNext (snd (advance_frame C now inp s))"
proof -
  let ?F = "s_frame s" and ?m = "s_localNext s"
  define p' where "p' = p(?m := inp)"
  have pp: "p' f = p f" if "f < ?m" for f using that by (simp add: p'_def)
  have m: "mid C g0 p q n s" and so: "sent_ok C g0 p q n s" using s by (simp_all add: peer_ok_def)
  have sm: "sim_ok C g0 p q n s" and er: "err_ok s" and g: "?m = ?F + s_delay s"
    using m r by (simp_all add: mid_def start_ok_def)
  note h = sim_ok_hist [OF sm] and su = sim_ok_sums [OF sm]
  obtain U where U: "played C g0 p U ?F ?F s" "agree (s_rc s) U q ?F" using sim_ok_settled [OF sm fb] by blast
  note cb = cfg_bounds [OF c]
  define s1 where "s1 = s\<lparr>s_local := (s_local s)[?m mod historyFrames := inp], s_localNext := Suc ?m\<rparr>"
  have s1: "s_frame s1 = ?F" "s_rc s1 = s_rc s" "s_localNext s1 = Suc ?m" "s_remote s1 = s_remote s" "s_delay s1 = s_delay s"
    "s_firstBad s1 = None" "s_peerAck s1 = s_peerAck s" "s_catching s1 = s_catching s" "status_of s1 = status_of s"
    "s_out s1 = s_out s" "sums_of s1 = sums_of s"
    by (simp_all add: s1_def fb frame_defs)
  have F: "?F \<le> ?m" using g by simp
  have loc: "rep historyFrames (s_local s1) p' (s_localNext s1)"
    unfolding s1(3) by (simp add: s1_def, rule rep_upd [of _ _ p]) (use h pp in \<open>simp_all add: hist_def historyFrames_def p'_def\<close>)
  have "played C g0 p' U ?F ?F s" by (rule played_cong [OF U(1)]) (use pp F in simp_all)
  then have "played C g0 p' U (Suc ?F) ?F s" by (rule played_hi) simp
  moreover have "played C g0 p' U (Suc ?F) ?F s1 = played C g0 p' U (Suc ?F) ?F s" by (rule played_rc) (simp_all add: s1_def)
  ultimately have pl: "played C g0 p' U (Suc ?F) ?F s1" by simp
  have su1: "sums_ok C g0 p' q (Suc ?m) n s1"
    unfolding sums_ok_sums [OF s1(11)] by (rule sums_ok_mono [OF su]) (use pp in simp_all)
  have rc: "s_rc s \<le> n" using h by (simp add: hist_def)
  have "\<exists>v. played C g0 p' (U(?F := v)) (Suc ?F) (Suc ?F) (stepFrame C ?F s1) \<and> agree (s_rc s1) (U(?F := v)) q (Suc ?F) \<and>
    sums_ok C g0 p' q (Suc ?m) n (stepFrame C ?F s1) \<and> status_of (stepFrame C ?F s1) = status_of s1 \<and>
    ctl (stepFrame C ?F s1) = ctl s1 \<and> s_out (stepFrame C ?F s1) = s_out s1"
    by (rule stepFrame_ok [OF c pl]) (use loc h U(2) su1 F g cb rc n nring_eq [OF c] s1 in \<open>simp_all add: hist_def historyFrames_def\<close>)
  then obtain v where v: "played C g0 p' (U(?F := v)) (Suc ?F) (Suc ?F) (stepFrame C ?F s1)" "agree (s_rc s) (U(?F := v)) q (Suc ?F)"
    "sums_ok C g0 p' q (Suc ?m) n (stepFrame C ?F s1)" "status_of (stepFrame C ?F s1) = status_of s"
    "ctl (stepFrame C ?F s1) = ctl s1" "s_out (stepFrame C ?F s1) = s_out s"
    unfolding s1(2,9,10) by (elim exE conjE)
  let ?t = "stepFrame C ?F s1"
  note ct = ctl_eqD [OF v(5)]
  have vs: "s_status ?t = s_status s" "s_err ?t = s_err s" using v(4) by (simp_all add: status_of_def)
  define u where "u = (if s_changedFrom ?t = None then ?t\<lparr>s_changedFrom := Some (s_frame ?t)\<rparr> else ?t)\<lparr>s_frame := Suc ?F\<rparr>"
  have u: "s_frame u = Suc ?F" "s_rc u = s_rc s" "s_localNext u = Suc ?m" "s_firstBad u = None" "s_delay u = s_delay s"
    "s_peerAck u = s_peerAck s" "s_local u = s_local s1" "s_remote u = s_remote s" "s_catching u = s_catching s"
    "sums_of u = sums_of ?t" "status_of u = status_of s" "s_out u = s_out s"
    "s_states u = s_states ?t" "s_stFrame u = s_stFrame ?t" "s_used u = s_used ?t" "s_gamest u = s_gamest ?t"
    by (simp_all add: u_def ct s1 v(6) vs sums_of_def status_of_def)
  have e: "snd (advance_frame C now inp s) = sendInput C now u"
    using ct s1 by (simp add: advance_frame_def Let_def g [symmetric] s1_def [symmetric] u_def)
  have hu: "hist C p' q n u" using h loc w g unfolding hist_def u s1(3) by simp
  have su: "sums_ok C g0 p' q (s_localNext u) n u" unfolding sums_ok_sums [OF u(10)] u(3) by (rule v(3))
  have "sim_ok C g0 p' q n u"
    by (rule sim_okI [where U = "U(?F := v)", OF hu su u(4)]) (simp_all only: u(1,2) v(1,2) played_rc [OF u(13-16)])
  moreover have "start_ok C p' u" "err_ok u"
    using u(11) r g er by (simp_all add: start_ok_def err_ok_def status_of_def u(1,3,5))
  ultimately have "mid C g0 p' q n u" by (simp add: mid_def)
  moreover have "sent_ok C g0 p' q n u"
    by (rule sent_ok_mono [OF so u(12)]) (use pp u(3) in simp_all)
  ultimately have "peer_ok C g0 p' q n u" by (simp add: peer_ok_def)
  then have "peer_ok C g0 p' q n (sendInput C now u)" by (rule peer_sendInput) (use l u(3) in simp)
  then show ?thesis unfolding e using pp u(3) by (intro exI [of _ p']) simp
qed

section \<open>The tick\<close>

lemma running_ok:
  assumes c: "cfg_ok C" and s: "peer_ok C g0 p q n s" and r: "s_status s = StatusRunning"
    and n: "n \<le> s_frame s + 180" and l: "s_localNext s + 1 < 2 ^ 32"
  shows "\<exists>p'. (\<forall>f < s_localNext s. p' f = p f) \<and> peer_ok C g0 p' q n (snd (running_tick C now inp s)) \<and>
    s_localNext s \<le> s_localNext (snd (running_tick C now inp s))"
proof -
  have m: "mid C g0 p q n s" and so: "sent_ok C g0 p q n s" using s by (simp_all add: peer_ok_def)
  then have sm: "sim_ok C g0 p q n s" by (simp add: mid_def)
  define t where "t = settle C s"
  note t0 = settle_ok [OF c sm n, folded t_def]
  have ts: "s_status t = StatusRunning" "s_err t = s_err s" using t0(2) r by (simp_all add: status_of_def)
  have tf: "s_firstBad t = None" "s_frame t = s_frame s" "s_localNext t = s_localNext s" "s_delay t = s_delay s" "s_rc t = s_rc s"
    using ctl_eqD [OF t0(3)] by simp_all
  have "start_ok C p t" "err_ok t" using m by (simp_all add: mid_def start_ok_def err_ok_def ts tf r)
  then have pt: "peer_ok C g0 p q n t" using t0(1) sent_ok_mono [OF so t0(4), of n p q] by (simp add: peer_ok_def mid_def tf)
  consider (stall) "must_stall C t"
    | (wait) "\<not> must_stall C t" "s_haveAdv t \<and> s_adv t > 1 \<and> int (s_sinceWait t) \<ge> nc_sync C"
    | (go) "\<not> must_stall C t" "\<not> (s_haveAdv t \<and> s_adv t > 1 \<and> int (s_sinceWait t) \<ge> nc_sync C)" by blast
  then show ?thesis
  proof cases
    case stall
    then have e: "running_tick C now inp s = stall_tick C now t" by (simp add: running_tick_def t_def [symmetric] ts)
    show ?thesis unfolding e using stall_ok [OF pt, of now] l tf by (intro exI [of _ p]) simp
  next
    case wait
    define u where "u = bump WaitTicks 1 (t\<lparr>s_stalling := False, s_sinceWait := 0\<rparr>)"
    have u: "core u = core t" "sums_of u = sums_of t" "status_of u = status_of t" "s_out u = s_out t"
      by (simp_all add: u_def bump_def frame_defs)
    have "must_stall C (t\<lparr>s_stalling := False\<rparr>) = must_stall C t" by (simp add: must_stall_def)
    then have e: "running_tick C now inp s = (OutcomeWaited, sendInput C now u)"
      using wait by (simp add: running_tick_def t_def [symmetric] ts u_def)
    have "peer_ok C g0 p q n (sendInput C now u)"
      by (rule peer_sendInput [OF peer_same [OF pt u]]) (use l tf core_eqD(3) [OF u(1)] in simp)
    then show ?thesis unfolding e using tf core_eqD(3) [OF u(1)] by (intro exI [of _ p]) simp
  next
    case go
    define u where "u = t\<lparr>s_stalling := False\<rparr>"
    have u: "core u = core t" "sums_of u = sums_of t" "status_of u = status_of t" "s_out u = s_out t" "s_status u = s_status t"
      by (simp_all add: u_def frame_defs)
    note cu = core_eqD [OF u(1)]
    have e: "running_tick C now inp s = advance_frame C now inp u"
      using go by (auto simp: running_tick_def t_def [symmetric] ts u_def Let_def)
    have "s_frame u < s_rc u + window C" using go(1) cfg_bounds(2) [OF c] unfolding must_stall_def cu by linarith
    then show ?thesis
      unfolding e using advance_frame_ok [OF c peer_same [OF pt u(1-4)], of now inp] u(5) ts(1) n l unfolding cu tf by simp
  qed
qed

lemma Advance_ok:
  assumes c: "cfg_ok C" and pd: "paired C D" and s: "peer_ok C g0 p q n s" and n: "n \<le> s_frame s + 180" and l: "s_frame s < 2 ^ 31"
    and b: "\<And>b. b \<in> set (s_inq s) \<Longrightarrow> honest D g0 q p n (s_localNext s) b"
  shows "\<exists>p'. (\<forall>f < s_localNext s. p' f = p f) \<and> peer_ok C g0 p' q n (snd (Advance C now inp s)) \<and>
    s_localNext s \<le> s_localNext (snd (Advance C now inp s))"
proof (cases "s_status s = StatusEnded")
  case True
  then have "Advance C now inp s = (OutcomeEnded, s)" by (simp add: Advance_def)
  then show ?thesis using s by auto
next
  case False
  define s1 where "s1 = s\<lparr>s_changedFrom := None, s_sinceWait := s_sinceWait s + 1\<rparr>"
  have s1: "core s1 = core s" "sums_of s1 = sums_of s" "status_of s1 = status_of s" "s_out s1 = s_out s" "s_inq s1 = s_inq s"
    by (simp_all add: s1_def frame_defs)
  note c1 = core_eqD [OF s1(1)]
  define t where "t = poll C now s1"
  have adv: "Advance C now inp s = (if s_status t = StatusEnded then (OutcomeEnded, t)
      else if s_status t = StatusHandshake then handshake_tick C now t
      else if s_catching t then catchUp C now t else running_tick C now inp t)"
    unfolding Advance_def Let_def s1_def [symmetric] t_def [symmetric] using False by simp
  have m1: "mid C g0 p q n s1" using s by (simp add: peer_ok_def mid_same [OF s1(1-3)])
  have b1: "\<And>b. b \<in> set (s_inq s1) \<Longrightarrow> honest D g0 q p n (s_localNext s1) b" using b unfolding s1(5) c1 .
  have "mid C g0 p q n t \<and> onward s1 t"
    unfolding t_def poll_def by (rule poll_loop_ok [OF c pd m1 _ b1]) (use n in \<open>simp only: c1\<close>)
  then have t: "mid C g0 p q n t" "s_out t = s_out s" "s_frame t = s_frame s" "s_localNext s \<le> s_localNext t" "s_status t \<noteq> StatusEnded"
    using False s1(3) unfolding onward_def c1 s1(4) by (simp_all add: status_of_def)
  have pt: "peer_ok C g0 p q n t"
    using t(1) s sent_ok_mono [of C g0 p q n s t n p q] t(2,4) by (simp add: peer_ok_def)
  have h: "hist C p q n t" using t(1) by (simp add: mid_def sim_ok_def)
  have lt: "s_localNext t + 1 < 2 ^ 32" using h t(3) l cfg_bounds(3) [OF c] by (simp add: hist_def)
  have nt: "n \<le> s_frame t + 180" using n t(3) by simp
  have "\<exists>p'. (\<forall>f < s_localNext t. p' f = p f) \<and> peer_ok C g0 p' q n (snd (Advance C now inp s)) \<and>
      s_localNext t \<le> s_localNext (snd (Advance C now inp s))"
  proof (cases "s_status t = StatusHandshake")
    case True
    then have e: "Advance C now inp s = handshake_tick C now t"
      by (simp add: adv)
    show ?thesis unfolding e using handshake_ok [OF pt, of now] by (intro exI [of _ p]) simp
  next
    case nh: False
    then have r: "s_status t = StatusRunning" using t(5) by (cases "s_status t") simp_all
    have "\<not> s_catching t" using h by (simp add: hist_def)
    then have e: "Advance C now inp s = running_tick C now inp t"
      using r by (simp add: adv)
    show ?thesis unfolding e by (rule running_ok [OF c pt r nt lt])
  qed
  then show ?thesis using t(4) by (meson less_le_trans order_trans)
qed

end
