(* ===== verification/Net_Demo.thy ===== *)
theory Net_Demo
  imports Net_Session
begin

text \<open>
  A concrete match for the witnesses: the state is one 64-bit word, an input is a byte. Player 0
  (\<open>demo_a\<close>) and player 1 (\<open>demo_b\<close>) each say hello, then play their first frames.
\<close>

definition demo_game :: "(byte, uint64) game" where
  "demo_game = \<lparr>g_step = (\<lambda>i j s. s * 31 + ucast i + 3 * ucast j), g_save = le_bytes 8,
     g_load = (\<lambda>b. Some (le_word b)), g_events = (\<lambda>s. [])\<rparr>"

definition demo_codec :: "byte codec" where
  "demo_codec = \<lparr>c_size = 1, c_put = (\<lambda>i. [i]), c_get = hd\<rparr>"

definition demo_cfg :: "nat \<Rightarrow> (byte, uint64) netcfg" where
  "demo_cfg me = \<lparr>nc_game = demo_game, nc_codec = demo_codec, nc_zero = 0, nc_me = me, nc_identity = replicate 32 7,
     nc_inputDelay = 1, nc_maxInputDelay = 0, nc_maxRollback = 0, nc_pred = None, nc_checksumInterval = 0, nc_window = 1,
     nc_stall = 0, nc_sync = 0, nc_frameDur = 0, nc_relay = False, nc_catchUp = 0, nc_catchUpTimeout = 0\<rparr>"

definition demo_new :: "nat \<Rightarrow> (byte, uint64) session" where
  "demo_new me = fresh (withDefaults (demo_cfg me)) 5"

definition demo_tick :: "nat \<Rightarrow> byte \<Rightarrow> byte list list \<Rightarrow> (byte, uint64) session \<Rightarrow> (byte, uint64) session" where
  "demo_tick me inp q s = snd (Advance (withDefaults (demo_cfg me)) 0 inp (s\<lparr>s_inq := q\<rparr>))"

text \<open>The datagrams of the run.\<close>

definition hello_b :: "byte list" where
  "hello_b = [1, 1, 7, 7, 7, 7, 7, 7, 7, 7, 1, 0, 1, 0, 0, 0, 0, 0, 0, 0, 0, 0, 0, 0, 0, 0, 0, 0, 1] @ replicate 32 7"

definition input_a :: "byte list" where
  "input_a = [1, 2, 7, 7, 7, 7, 7, 7, 7, 7, 1, 1, 2, 0, 0, 0, 0, 0, 0, 0, 0, 0, 0, 0,
    0, 0, 0, 0, 1, 0, 0, 0, 0, 0, 0, 0, 0, 0, 0, 0, 2, 0, 0, 0, 3]"

definition input_b :: "byte list" where
  "input_b = [1, 2, 7, 7, 7, 7, 7, 7, 7, 7, 1, 1, 2, 0, 0, 0, 0, 0, 0, 0, 0, 0, 0, 0,
    0, 0, 0, 0, 1, 0, 0, 0, 2, 0, 0, 0, 0, 0, 0, 0, 2, 0, 0, 0, 4]"

definition demo_a1 :: "(byte, uint64) session" where "demo_a1 = demo_tick 0 1 [] (demo_new 0)"
definition demo_b1 :: "(byte, uint64) session" where "demo_b1 = demo_tick 1 2 [] (demo_new 1)"
definition demo_a2 :: "(byte, uint64) session" where "demo_a2 = demo_tick 0 3 [hello_b] demo_a1"
definition demo_b2 :: "(byte, uint64) session" where "demo_b2 = demo_tick 1 4 [input_a] demo_b1"
definition demo_a3 :: "(byte, uint64) session" where "demo_a3 = demo_tick 0 5 [input_b] demo_a2"

lemma demo_new_eval: "s_frame (demo_new 0) = 0 \<and> s_frame (demo_new 1) = 0 \<and> s_out (demo_new 1) = []"
  by code_simp

lemma demo_b1_eval: "s_out demo_b1 = [hello_b] \<and> s_frame demo_b1 = 0 \<and> s_frame demo_a1 = 0"
  by code_simp

lemma demo_a2_eval: "(let s = demo_a2 in (drop 1 (s_out s), s_frame s)) = ([input_a], 1)"
  by code_simp

lemma demo_b2_eval: "(let s = demo_b2 in (drop 1 (s_out s), s_frame s, s_rc s, s_firstBad s, s_gamest s)) = ([input_b], 1, 2, None, 155)"
  by code_simp

lemma demo_a3_eval: "(let s = demo_a3 in (s_frame s, s_rc s, s_firstBad s, s_stFrame s ! 1, s_states s ! 1)) =
    (2, 2, None, Some 1, [155, 0, 0, 0, 0, 0, 0, 0])"
  by code_simp

end
