(* ===== verification/Net_Match.thy ===== *)
theory Net_Match
  imports Net_Advance Net_Demo
begin

text \<open>
  Two sessions and the network between them. The network is unreliable: before each tick it hands
  a session any list of datagrams the other one has sent so far, so it may lose, delay, repeat and
  reorder them. Clocks are arbitrary. Frame numbers travel in 32 bits, and a session that ticks
  has simulated fewer than \<open>2 ^ 31\<close> frames, more than a year at 60 frames a second.
\<close>

section \<open>Matches\<close>

inductive match :: "('i, 's) netcfg \<Rightarrow> ('i, 's) netcfg \<Rightarrow> ('i, 's) session \<Rightarrow> ('i, 's) session \<Rightarrow>
    ('i, 's) session \<Rightarrow> ('i, 's) session \<Rightarrow> bool"
  for C D :: "('i, 's) netcfg" and s0 t0 :: "('i, 's) session" where
  start: "match C D s0 t0 s0 t0"
| first: "match C D s0 t0 s t \<Longrightarrow> set q \<subseteq> set (s_out t) \<Longrightarrow> s_frame s < 2 ^ 31 \<Longrightarrow>
    match C D s0 t0 (snd (Advance C now inp (s\<lparr>s_inq := q\<rparr>))) t"
| second: "match C D s0 t0 s t \<Longrightarrow> set q \<subseteq> set (s_out s) \<Longrightarrow> s_frame t < 2 ^ 31 \<Longrightarrow>
    match C D s0 t0 s (snd (Advance D now inp (t\<lparr>s_inq := q\<rparr>)))"

text \<open>What the sessions rely on: a deterministic game, a lossless codec, and a window and a
  largest input delay that fit the histories.\<close>

definition sound :: "('i, 's) netcfg \<Rightarrow> bool" where
  "sound C \<longleftrightarrow> game_law (nc_game C) \<and> codec_law (nc_codec C) \<and> length (nc_identity C) = 32 \<and> \<not> nc_relay C \<and>
     1 \<le> nc_window C \<and> nc_window C \<le> 60 \<and> 0 \<le> nc_maxInputDelay C \<and> nc_maxInputDelay C \<le> 60"

text \<open>The two sides run the same game with the same codec and identity, as different players.\<close>

definition opponents :: "('i, 's) netcfg \<Rightarrow> ('i, 's) netcfg \<Rightarrow> bool" where
  "opponents C D \<longleftrightarrow> nc_game D = nc_game C \<and> nc_codec D = nc_codec C \<and> nc_identity D = nc_identity C \<and>
     nc_me D \<noteq> nc_me C"

section \<open>The invariant\<close>

definition match_ok :: "('i, 's) netcfg \<Rightarrow> ('i, 's) netcfg \<Rightarrow> 's \<Rightarrow> (nat \<Rightarrow> 'i) \<Rightarrow> (nat \<Rightarrow> 'i) \<Rightarrow>
    ('i, 's) session \<Rightarrow> ('i, 's) session \<Rightarrow> bool" where
  "match_ok C D g0 p q s t \<longleftrightarrow>
     peer_ok C g0 p q (s_localNext t) s \<and> peer_ok D g0 q p (s_localNext s) t"

lemma NewSession_fresh:
  assumes "NewSession A g0 = Inr (C, s)" "sound C"
  shows "cfg_ok C" "s = fresh C g0"
  using assms by (auto simp: NewSession_def sound_def cfg_ok_def Let_def withDefaults_def split: if_splits)

lemma fresh_ok:
  assumes c: "cfg_ok C"
  shows "peer_ok C g0 (\<lambda>f. nc_zero C) q 0 (fresh C g0)"
proof -
  have "played C g0 (\<lambda>f. nc_zero C) q 0 0 (fresh C g0)"
    by (simp add: played_def slots_ok_def fresh_def saved_def plays_def)
  moreover have "hist C (\<lambda>f. nc_zero C) q 0 (fresh C g0)"
    using c by (auto simp: hist_def fresh_def rep_def cfg_ok_def nat_mono)
  moreover have "sums_ok C g0 (\<lambda>f. nc_zero C) q 0 0 (fresh C g0)"
    by (simp add: sums_ok_def fresh_def noCp_def noRem_def cpSlots_def)
  ultimately have "sim_ok C g0 (\<lambda>f. nc_zero C) q 0 (fresh C g0)"
    unfolding sim_ok_def by (auto simp: fresh_def)
  moreover have "start_ok C (\<lambda>f. nc_zero C) (fresh C g0)" "err_ok (fresh C g0)" "sent_ok C g0 (\<lambda>f. nc_zero C) q 0 (fresh C g0)"
    by (simp_all add: start_ok_def err_ok_def sent_ok_def fresh_def)
  ultimately show ?thesis by (simp add: peer_ok_def mid_def)
qed

lemma hist_mono:
  assumes "hist C p q n s" "n \<le> n'" "\<And>f. f < n \<Longrightarrow> q' f = q f"
  shows "hist C p q' n' s"
proof -
  have "rep historyFrames (s_remote s) q (s_rc s)" "s_rc s \<le> n" using assms(1) by (simp_all add: hist_def)
  then have "rep historyFrames (s_remote s) q' (s_rc s)" using rep_cong [of "s_rc s" q q'] assms(3) by simp
  then show ?thesis using assms(1,2) by (simp add: hist_def)
qed

lemma peer_mono:
  assumes "peer_ok C g0 p q n s" "n \<le> n'" "\<And>f. f < n \<Longrightarrow> q' f = q f"
  shows "peer_ok C g0 p q' n' s"
proof -
  have sm: "sim_ok C g0 p q n s" and so: "sent_ok C g0 p q n s" and st: "start_ok C p s" "err_ok s"
    using assms(1) by (simp_all add: peer_ok_def mid_def)
  note h = sim_ok_hist [OF sm]
  have "s_rc s \<le> n" using h by (simp add: hist_def)
  then have q: "q' f = q f" if "f < s_rc s" for f using assms(3) that by simp
  have "sums_ok C g0 p q' (s_localNext s) n' s"
    by (rule sums_ok_mono [OF sim_ok_sums [OF sm]]) (use assms(2,3) in simp_all)
  then have "sim_ok C g0 p q' n' s"
    using sm hist_mono [OF h assms(2,3)] unfolding sim_ok_def by (simp add: q cong: conj_cong)
  moreover have "sent_ok C g0 p q' n' s" by (rule sent_ok_mono [OF so _ _ assms(2)]) (use assms(3) in simp_all)
  ultimately show ?thesis using st by (simp add: peer_ok_def mid_def)
qed

text \<open>Neither side runs far ahead of the other.\<close>

lemma near:
  assumes "cfg_ok C" "cfg_ok D" "peer_ok C g0 p q (s_localNext t) s" "peer_ok D g0 q p (s_localNext s) t"
  shows "s_localNext t \<le> s_frame s + 180"
proof -
  have "hist C p q (s_localNext t) s" "hist D q p (s_localNext s) t"
    using assms(3,4) by (simp_all add: peer_ok_def mid_def sim_ok_def)
  then show ?thesis using cfg_bounds [OF assms(1)] cfg_bounds [OF assms(2)] by (auto simp: hist_def)
qed

lemma tick_ok:
  assumes c: "cfg_ok C" "cfg_ok D" and pd: "paired C D" and s: "peer_ok C g0 p q (s_localNext t) s"
    and t: "peer_ok D g0 q p (s_localNext s) t" and x: "set xs \<subseteq> set (s_out t)" and l: "s_frame s < 2 ^ 31"
  shows "\<exists>p'. peer_ok C g0 p' q (s_localNext t) (snd (Advance C now inp (s\<lparr>s_inq := xs\<rparr>))) \<and>
    peer_ok D g0 q p' (s_localNext (snd (Advance C now inp (s\<lparr>s_inq := xs\<rparr>)))) t"
proof -
  let ?s = "s\<lparr>s_inq := xs\<rparr>"
  have k: "core ?s = core s" "sums_of ?s = sums_of s" "status_of ?s = status_of s" "s_out ?s = s_out s"
    by (simp_all add: frame_defs)
  have sp: "peer_ok C g0 p q (s_localNext t) ?s" by (rule peer_same [OF s k])
  have hon: "honest D g0 q p (s_localNext t) (s_localNext ?s) b" if "b \<in> set (s_inq ?s)" for b
    using t that x unfolding peer_ok_def sent_ok_def by auto
  have n: "s_localNext t \<le> s_frame ?s + 180" using near [OF c s t] by simp
  have "s_frame ?s < 2 ^ 31" using l by simp
  from Advance_ok [where now = now and inp = inp, OF c(1) pd sp n this hon] obtain p' where
    p': "\<forall>f < s_localNext s. p' f = p f" "peer_ok C g0 p' q (s_localNext t) (snd (Advance C now inp ?s))"
      "s_localNext s \<le> s_localNext (snd (Advance C now inp ?s))"
    by auto
  have "peer_ok D g0 q p' (s_localNext (snd (Advance C now inp ?s))) t"
    by (rule peer_mono [OF t p'(3)]) (use p'(1) in simp)
  then show ?thesis using p'(2) by blast
qed

lemma opponents_paired: "opponents C D \<Longrightarrow> cfg_ok C \<Longrightarrow> cfg_ok D \<Longrightarrow> paired C D \<and> paired D C"
  by (auto simp: opponents_def paired_def cfg_ok_def)

lemma match_inv:
  assumes "match C D s0 t0 s t" "NewSession A g0 = Inr (C, s0)" "NewSession B g0 = Inr (D, t0)" "sound C" "sound D" "opponents C D"
  shows "\<exists>p q. match_ok C D g0 p q s t"
proof -
  note c = NewSession_fresh [OF assms(2,4)] and d = NewSession_fresh [OF assms(3,5)]
  note pd = opponents_paired [OF assms(6) c(1) d(1)]
  from assms(1) show ?thesis
  proof (induction rule: match.induct)
    case start
    have "s_localNext s0 = 0" "s_localNext t0 = 0" by (simp_all add: c d fresh_def)
    then have "match_ok C D g0 (\<lambda>f. nc_zero C) (\<lambda>f. nc_zero D) s0 t0"
      using fresh_ok [OF c(1)] fresh_ok [OF d(1)] by (simp add: match_ok_def c(2) d(2))
    then show ?case by blast
  next
    case (first s t xs now inp)
    then obtain p q where m: "peer_ok C g0 p q (s_localNext t) s" "peer_ok D g0 q p (s_localNext s) t" by (auto simp: match_ok_def)
    show ?case using tick_ok [where now = now and inp = inp, OF c(1) d(1) conjunct1 [OF pd] m first(2,3)] by (auto simp: match_ok_def)
  next
    case (second s t xs now inp)
    then obtain p q where m: "peer_ok C g0 p q (s_localNext t) s" "peer_ok D g0 q p (s_localNext s) t" by (auto simp: match_ok_def)
    show ?case using tick_ok [where now = now and inp = inp, OF d(1) c(1) conjunct2 [OF pd] m(2,1) second(2,3)] by (auto simp: match_ok_def)
  qed
qed

section \<open>What a match keeps\<close>

text \<open>The saved state of a frame, if the session holds it, and the frames whose inputs are all
  confirmed and simulated.\<close>

definition state_at :: "('i, 's) netcfg \<Rightarrow> ('i, 's) session \<Rightarrow> nat \<Rightarrow> byte list option" where
  "state_at C s f =
     (if f = s_frame s then Some (g_save (nc_game C) (s_gamest s))
      else if s_stFrame s ! (f mod nring C) = Some f then Some (s_states s ! (f mod nring C)) else None)"

definition settled :: "('i, 's) session \<Rightarrow> nat \<Rightarrow> bool" where
  "settled s f \<longleftrightarrow> f \<le> s_frame s \<and> f \<le> s_rc s \<and> (case s_firstBad s of None \<Rightarrow> True | Some b \<Rightarrow> f \<le> b)"

lemma settled_state:
  assumes c: "cfg_ok C" and s: "peer_ok C g0 p q n s" and f: "settled s f" "state_at C s f = Some x"
  shows "x = saved C g0 p q f"
proof -
  have "sim_ok C g0 p q n s" using s by (simp add: peer_ok_def mid_def)
  then obtain U where U: "played C g0 p U (s_frame s) (s_frame s) s"
    and ag: "\<And>k. k < s_frame s \<Longrightarrow> k < s_rc s \<Longrightarrow> (\<And>b. s_firstBad s = Some b \<Longrightarrow> k < b) \<Longrightarrow> U k = q k"
    unfolding sim_ok_def by blast
  have fb: "f \<le> b" if "s_firstBad s = Some b" for b using f(1) that by (simp add: settled_def)
  have "U k = q k" if "k < f" for k
    by (rule ag) (use that f(1) fb in \<open>auto simp: settled_def dest!: fb\<close>)
  then have u: "saved C g0 p U f = saved C g0 p q f" by (intro saved_cong) simp_all
  have N: "0 < nring C" using nring_eq [OF c] by simp
  show ?thesis
  proof (cases "f = s_frame s")
    case True
    then show ?thesis using U f(2) u by (simp add: state_at_def played_def)
  next
    case False
    then have lt: "f < s_frame s" using f(1) by (simp add: settled_def)
    have sl: "s_stFrame s ! (f mod nring C) = Some f" "x = s_states s ! (f mod nring C)"
      using f(2) False by (simp_all add: state_at_def split: if_splits)
    have "slots_ok C g0 p U (s_frame s) s" using U by (simp add: played_def)
    then have "s_states s ! (f mod nring C) = saved C g0 p U f"
      using sl(1) lt N unfolding slots_ok_def by (metis mod_less_divisor)
    then show ?thesis using u sl(2) by simp
  qed
qed

lemma peer_sums:
  "peer_ok C g0 p q n s \<Longrightarrow> c \<in> set (s_cp s) \<Longrightarrow> cp_valid c \<Longrightarrow> cp_sum c = Checksum (saved C g0 p q (cp_frame c))"
  unfolding peer_ok_def mid_def sim_ok_def sums_ok_def good_sum_def by blast

lemma peer_err: "peer_ok C g0 p q n s \<Longrightarrow> s_err s = None \<or> s_err s = Some ErrDisconnect"
  by (auto simp: peer_ok_def mid_def err_ok_def)

lemma saved_paired: "paired C D \<Longrightarrow> saved D g0 q p f = saved C g0 p q f"
  by (auto simp: paired_def saved_def plays_def)

section \<open>A concrete match\<close>

lemma demo_sound: "sound (withDefaults (demo_cfg me))"
proof -
  have "game_law demo_game"
    unfolding game_law_def by (auto simp: demo_game_def dest: arg_cong [where f = "le_word :: byte list \<Rightarrow> uint64"])
  moreover have "codec_law demo_codec" by (simp add: codec_law_def demo_codec_def)
  ultimately show ?thesis by (simp add: sound_def withDefaults_def demo_cfg_def default_to_def)
qed

lemma demo_opponents: "opponents (withDefaults (demo_cfg 0)) (withDefaults (demo_cfg 1))"
  by (simp add: opponents_def withDefaults_def demo_cfg_def)

lemma demo_NewSession: "me \<le> 1 \<Longrightarrow> NewSession (demo_cfg me) 5 = Inr (withDefaults (demo_cfg me), demo_new me)"
  by (auto simp: NewSession_def demo_new_def withDefaults_def demo_cfg_def default_to_def demo_codec_def AutoDelay_def Let_def)

lemma demo_start:
  "match (withDefaults (demo_cfg 0)) (withDefaults (demo_cfg 1)) (demo_new 0) (demo_new 1) demo_a2 demo_b1"
proof -
  let ?M = "match (withDefaults (demo_cfg 0)) (withDefaults (demo_cfg 1)) (demo_new 0) (demo_new 1)"
  have "?M demo_a1 (demo_new 1)"
    unfolding demo_a1_def demo_tick_def by (rule match.first [OF match.start]) (simp_all add: demo_new_eval)
  then have "?M demo_a1 demo_b1"
    unfolding demo_b1_def demo_tick_def by (rule match.second) (simp_all add: demo_new_eval del: One_nat_def)
  then show ?thesis
    unfolding demo_a2_def demo_tick_def by (rule match.first) (simp_all add: demo_b1_eval)
qed

lemma demo_run:
  "match (withDefaults (demo_cfg 0)) (withDefaults (demo_cfg 1)) (demo_new 0) (demo_new 1) demo_a3 demo_b2"
proof -
  let ?M = "match (withDefaults (demo_cfg 0)) (withDefaults (demo_cfg 1)) (demo_new 0) (demo_new 1)"
  have o: "input_a \<in> set (s_out demo_a2)" "input_b \<in> set (s_out demo_b2)" "s_frame demo_a2 = 1"
    using demo_a2_eval demo_b2_eval in_set_dropD [of input_a 1 "s_out demo_a2"] in_set_dropD [of input_b 1 "s_out demo_b2"]
    by (simp_all add: Let_def)
  have "?M demo_a2 demo_b2"
    unfolding demo_b2_def demo_tick_def by (rule match.second [OF demo_start]) (simp_all add: o demo_b1_eval)
  then show ?thesis
    unfolding demo_a3_def demo_tick_def by (rule match.first) (simp_all add: o)
qed

section \<open>Properties of matches\<close>

text \<open>C3. Two sessions of a sound configuration never desynchronise and never fail: whatever the
  network loses, delays, repeats or reorders, a session ends only because its peer went silent
  (\<open>ErrDisconnect\<close>), and the checksums both hold for a frame are equal.\<close>

theorem netplay_never_desyncs:
  assumes "match C D s0 t0 s t" "NewSession A g0 = Inr (C, s0)" "NewSession B g0 = Inr (D, t0)"
    "sound C" "sound D" "opponents C D"
  shows "s_err s \<in> {None, Some ErrDisconnect} \<and> s_err t \<in> {None, Some ErrDisconnect} \<and>
    (\<forall>c \<in> set (s_cp s). \<forall>d \<in> set (s_cp t). cp_valid c \<and> cp_valid d \<and> cp_frame c = cp_frame d \<longrightarrow> cp_sum c = cp_sum d)"
proof -
  obtain p q where m: "peer_ok C g0 p q (s_localNext t) s" "peer_ok D g0 q p (s_localNext s) t"
    using match_inv [OF assms] by (auto simp: match_ok_def)
  have pd: "paired C D"
    using opponents_paired [OF assms(6)] NewSession_fresh(1) [OF assms(2,4)] NewSession_fresh(1) [OF assms(3,5)] by blast
  show ?thesis using peer_err [OF m(1)] peer_err [OF m(2)] peer_sums [OF m(1)] peer_sums [OF m(2)] saved_paired [OF pd] by auto
qed

lemma netplay_never_desyncs_witness:
  "s_err demo_a3 \<in> {None, Some ErrDisconnect} \<and> s_err demo_b2 \<in> {None, Some ErrDisconnect}"
  using netplay_never_desyncs [OF demo_run demo_NewSession demo_NewSession demo_sound demo_sound demo_opponents] by simp

text \<open>C4. Both sessions agree on the past: for a frame whose inputs both have confirmed and
  simulated, the saved states they hold are the same bytes.\<close>

theorem confirmed_frames_agree:
  assumes "match C D s0 t0 s t" "NewSession A g0 = Inr (C, s0)" "NewSession B g0 = Inr (D, t0)"
    "sound C" "sound D" "opponents C D"
    "settled s f" "settled t f" "state_at C s f = Some x" "state_at D t f = Some y"
  shows "x = y"
proof -
  obtain p q where m: "peer_ok C g0 p q (s_localNext t) s" "peer_ok D g0 q p (s_localNext s) t"
    using match_inv [OF assms(1-6)] by (auto simp: match_ok_def)
  have c: "cfg_ok C" "cfg_ok D" using NewSession_fresh(1) [OF assms(2,4)] NewSession_fresh(1) [OF assms(3,5)] by blast+
  then have pd: "paired C D" using opponents_paired [OF assms(6)] by blast
  show ?thesis
    using settled_state [OF c(1) m(1) assms(7,9)] settled_state [OF c(2) m(2) assms(8,10)] saved_paired [OF pd] by simp
qed

lemma confirmed_frames_agree_witness: "le_bytes 8 (s_gamest demo_b2) = s_states demo_a3 ! 1"
proof -
  have a: "s_frame demo_a3 = 2" "s_rc demo_a3 = 2" "s_firstBad demo_a3 = None" "s_stFrame demo_a3 ! 1 = Some 1"
    and b: "s_frame demo_b2 = 1" "s_rc demo_b2 = 2" "s_firstBad demo_b2 = None"
    using demo_a3_eval demo_b2_eval by (simp_all add: Let_def del: One_nat_def)
  have n: "nring (withDefaults (demo_cfg me)) = 8" for me
    by (simp add: nring_def withDefaults_def demo_cfg_def default_to_def)
  have x: "state_at (withDefaults (demo_cfg 0)) demo_a3 1 = Some (s_states demo_a3 ! 1)"
    by (simp add: state_at_def n a del: One_nat_def)
  have y: "state_at (withDefaults (demo_cfg 1)) demo_b2 1 = Some (le_bytes 8 (s_gamest demo_b2))"
    by (simp add: state_at_def b withDefaults_def demo_cfg_def demo_game_def)
  have s: "settled demo_a3 1" "settled demo_b2 1" by (simp_all add: settled_def a b)
  show ?thesis
    using confirmed_frames_agree [OF demo_run demo_NewSession demo_NewSession demo_sound demo_sound demo_opponents s x y] by simp
qed

text \<open>C5. Rollback refines lockstep: there are one input stream for each player, held by both
  sessions' rings, such that the state of a session is the plain simulation of its own inputs with
  inputs \<open>U\<close> of the peer that are the true ones for every confirmed frame, and no session is more
  than its window ahead of the inputs it has received.\<close>

theorem rollback_refines_simulation:
  assumes "match C D s0 t0 s t" "NewSession A g0 = Inr (C, s0)" "NewSession B g0 = Inr (D, t0)"
    "sound C" "sound D" "opponents C D"
  shows "\<exists>p q U. rep historyFrames (s_local s) p (s_localNext s) \<and> rep historyFrames (s_remote s) q (s_rc s) \<and>
    rep historyFrames (s_local t) q (s_localNext t) \<and> rep historyFrames (s_remote t) p (s_rc t) \<and>
    (\<forall>f. f < s_frame s \<longrightarrow> f < s_rc s \<longrightarrow> (case s_firstBad s of None \<Rightarrow> True | Some b \<Rightarrow> f < b) \<longrightarrow> U f = q f) \<and>
    g_save (nc_game C) (s_gamest s) =
      g_save (nc_game C) (if nc_me C = 0 then sim (nc_game C) g0 p U (s_frame s) else sim (nc_game C) g0 U p (s_frame s)) \<and>
    int (s_frame s) \<le> int (s_rc s) + nc_window C"
proof -
  obtain p q where m: "peer_ok C g0 p q (s_localNext t) s" "peer_ok D g0 q p (s_localNext s) t"
    using match_inv [OF assms] by (auto simp: match_ok_def)
  have h: "hist C p q (s_localNext t) s" "hist D q p (s_localNext s) t" and sm: "sim_ok C g0 p q (s_localNext t) s"
    using m by (simp_all add: peer_ok_def mid_def sim_ok_def)
  obtain U where U: "played C g0 p U (s_frame s) (s_frame s) s"
    and ag: "\<And>k. k < s_frame s \<Longrightarrow> k < s_rc s \<Longrightarrow> (\<forall>b. s_firstBad s = Some b \<longrightarrow> k < b) \<Longrightarrow> U k = q k"
    using sm unfolding sim_ok_def by blast
  have "g_save (nc_game C) (s_gamest s) = g_save (nc_game C) (plays C g0 p U (s_frame s))"
    using U by (simp add: played_def saved_def)
  moreover have "int (s_frame s) \<le> int (s_rc s) + nc_window C"
  proof -
    have "s_frame s \<le> s_rc s + window C" "0 \<le> nc_window C" using h(1) assms(4) by (simp_all add: hist_def sound_def)
    then show ?thesis by linarith
  qed
  moreover have "U f = q f" if "f < s_frame s" "f < s_rc s" "case s_firstBad s of None \<Rightarrow> True | Some b \<Rightarrow> f < b" for f
    by (rule ag) (use that in \<open>auto split: option.splits\<close>)
  ultimately show ?thesis using h unfolding hist_def plays_def by blast
qed

lemma rollback_refines_simulation_witness:
  "\<exists>p U. le_bytes 8 (s_gamest demo_a3) = le_bytes 8 (sim demo_game 5 p U 2) \<and>
    rep historyFrames (s_local demo_a3) p (s_localNext demo_a3)"
proof -
  have "s_frame demo_a3 = 2" using demo_a3_eval by (simp add: Let_def)
  then show ?thesis
    using rollback_refines_simulation [OF demo_run demo_NewSession demo_NewSession demo_sound demo_sound demo_opponents]
    by (auto simp: withDefaults_def demo_cfg_def demo_game_def)
qed

end
