(* ===== verification/Net_Ledger.thy ===== *)
theory Net_Ledger
  imports Net_Game "HOL-Library.Multiset"
begin

text \<open>
  \<^verbatim>\<open>netplay/ledger.go\<close>: the ledger that reconciles presentation effects after a rollback. The
  handler is the list of its calls. The slices the code reuses between calls (\<^verbatim>\<open>matched\<close>, \<^verbatim>\<open>pairs\<close>,
  \<^verbatim>\<open>keep\<close>, \<^verbatim>\<open>idx\<close>) are set anew by each call, so they are values here.
\<close>

section \<open>The ledger\<close>

datatype callback = Started event int | Cancelled event

record ledger =
  l_live :: "event list"
  l_retain :: int
  l_calls :: "callback list"

definition NewEventLedger :: "int \<Rightarrow> ledger" where
  "NewEventLedger retain = \<lparr>l_live = [], l_retain = (if retain = 0 then 64 else retain), l_calls = []\<rparr>"

definition Tracked :: "ledger \<Rightarrow> event list" where
  "Tracked l = l_live l"

definition in_range :: "int \<Rightarrow> int \<Rightarrow> int \<Rightarrow> bool" where
  "in_range from to f \<longleftrightarrow> f \<ge> from \<and> f < to"

definition same_key :: "event \<Rightarrow> event \<Rightarrow> bool" where
  "same_key t e \<longleftrightarrow> ev_frame t = ev_frame e \<and> ev_kind t = ev_kind e \<and> ev_source t = ev_source e"

text \<open>The first tracked event of the same key that is not paired yet.\<close>

definition find_pair :: "event list \<Rightarrow> bool list \<Rightarrow> event \<Rightarrow> nat option" where
  "find_pair live matched e = List.find (\<lambda>i. \<not> matched ! i \<and> same_key (live ! i) e) [0..<length live]"

fun pair_events :: "event list \<Rightarrow> (int \<Rightarrow> bool) \<Rightarrow> bool list \<Rightarrow> event list \<Rightarrow> nat option list \<times> bool list" where
  "pair_events live within matched [] = ([], matched)"
| "pair_events live within matched (e # es) =
     (case (if within (ev_frame e) then find_pair live matched e else None) of
        None \<Rightarrow> let (ps, m) = pair_events live within matched es in (None # ps, m)
      | Some i \<Rightarrow> let (ps, m) = pair_events live within (matched[i := True]) es in (Some i # ps, m))"

text \<open>The events to cancel: those that vanished, then the old versions of those that changed.\<close>

definition vanished :: "event list \<Rightarrow> (int \<Rightarrow> bool) \<Rightarrow> bool list \<Rightarrow> event list" where
  "vanished live within matched =
     List.map (\<lambda>i. live ! i) (filter (\<lambda>i. within (ev_frame (live ! i)) \<and> \<not> matched ! i) [0..<length live])"

definition outdated :: "event list \<Rightarrow> (event \<times> nat option) list \<Rightarrow> event list" where
  "outdated live eps =
     List.map (\<lambda>(e, p). live ! the p) (filter (\<lambda>(e, p). case p of None \<Rightarrow> False | Some i \<Rightarrow> ev_data (live ! i) \<noteq> ev_data e) eps)"

text \<open>The compaction: the survivors, and the new place of each.\<close>

definition survivors :: "event list \<Rightarrow> (int \<Rightarrow> bool) \<Rightarrow> bool list \<Rightarrow> nat list" where
  "survivors live within matched = filter (\<lambda>i. \<not> within (ev_frame (live ! i)) \<or> matched ! i) [0..<length live]"

definition new_index :: "event list \<Rightarrow> (int \<Rightarrow> bool) \<Rightarrow> bool list \<Rightarrow> nat \<Rightarrow> nat" where
  "new_index live within matched i = length (filter (\<lambda>k. k < i) (survivors live within matched))"

fun start_events :: "(nat \<Rightarrow> nat) \<Rightarrow> (int \<Rightarrow> bool) \<Rightarrow> (event \<times> nat option) list \<Rightarrow> event list \<Rightarrow> event list \<times> event list" where
  "start_events idx within [] live = (live, [])"
| "start_events idx within ((e, p) # eps) live =
     (if \<not> within (ev_frame e) then start_events idx within eps live
      else case p of
        Some i \<Rightarrow>
          if ev_data (live ! idx i) \<noteq> ev_data e then
            let (l, st) = start_events idx within eps (live[idx i := (live ! idx i)\<lparr>ev_data := ev_data e\<rparr>]) in (l, e # st)
          else start_events idx within eps live
      | None \<Rightarrow> let (l, st) = start_events idx within eps (live @ [e]) in (l, e # st))"

definition Reconcile :: "int \<Rightarrow> int \<Rightarrow> event list \<Rightarrow> ledger \<Rightarrow> ledger" where
  "Reconcile from to events l =
     (let live = l_live l; within = in_range from to;
          (pairs, matched) = pair_events live within (replicate (length live) False) events;
          eps = zip events pairs;
          cancels = vanished live within matched @ outdated live eps;
          kept = List.map (\<lambda>i. live ! i) (survivors live within matched);
          (live', starts) = start_events (new_index live within matched) within eps kept
      in l\<lparr>l_live := filter (\<lambda>t. ev_frame t \<ge> to - l_retain l) live',
           l_calls := l_calls l @ List.map Cancelled cancels @ List.map (\<lambda>e. Started e (to - 1 - ev_frame e)) starts\<rparr>)"

section \<open>Pairing\<close>

definition paired_idx :: "nat option list \<Rightarrow> nat list" where
  "paired_idx ps = List.map the (filter (\<lambda>p. p \<noteq> None) ps)"

lemma paired_idx_simps [simp]:
  "paired_idx [] = []" "paired_idx (None # ps) = paired_idx ps" "paired_idx (Some i # ps) = i # paired_idx ps"
  by (simp_all add: paired_idx_def)

lemma find_pair_Some:
  assumes "find_pair live matched e = Some i"
  shows "i < length live" "\<not> matched ! i" "same_key (live ! i) e"
  using assms unfolding find_pair_def by (auto simp: find_Some_iff)

lemma pair_events_ok:
  assumes "length matched = length live" "pair_events live within matched es = (ps, m)"
  shows "length ps = length es \<and> length m = length live \<and> distinct (paired_idx ps) \<and>
    (\<forall>i < length live. m ! i \<longleftrightarrow> matched ! i \<or> i \<in> set (paired_idx ps)) \<and>
    (\<forall>i \<in> set (paired_idx ps). i < length live \<and> \<not> matched ! i) \<and>
    (\<forall>(e, p) \<in> set (zip es ps). \<forall>i. p = Some i \<longrightarrow> within (ev_frame e) \<and> same_key (live ! i) e)"
  using assms
proof (induction es arbitrary: matched ps m)
  case (Cons e es)
  show ?case
  proof (cases "if within (ev_frame e) then find_pair live matched e else None")
    case None
    then obtain qs where q: "pair_events live within matched es = (qs, m)" "ps = None # qs"
      using Cons.prems(2) by (auto split: prod.splits)
    show ?thesis using Cons.IH [OF Cons.prems(1) q(1)] unfolding q(2) by simp
  next
    case (Some i)
    then have w: "within (ev_frame e)" and f: "find_pair live matched e = Some i" by (auto split: if_splits)
    obtain qs where q: "pair_events live within (matched[i := True]) es = (qs, m)" "ps = Some i # qs"
      using Cons.prems(2) Some by (auto split: prod.splits)
    have l: "length (matched[i := True]) = length live" using Cons.prems(1) by simp
    note ih = Cons.IH [OF l q(1)] and fi = find_pair_Some [OF f]
    have i: "i < length matched" using fi(1) Cons.prems(1) by simp
    have free: "\<not> matched[i := True] ! j \<longleftrightarrow> j \<noteq> i \<and> \<not> matched ! j" if "j < length live" for j
      using that Cons.prems(1) by (cases "j = i") simp_all
    have "i \<notin> set (paired_idx qs)" using ih i by auto
    moreover have "\<forall>j < length live. m ! j \<longleftrightarrow> matched ! j \<or> j \<in> set (paired_idx ps)"
      unfolding q(2) using ih free by auto
    moreover have "\<forall>j \<in> set (paired_idx ps). j < length live \<and> \<not> matched ! j"
      unfolding q(2) using ih free fi by auto
    ultimately show ?thesis using ih w fi unfolding q(2) by auto
  qed
qed simp

section \<open>Compaction\<close>

lemma rank_nth:
  assumes "sorted xs" "distinct xs" "i \<in> set xs"
  shows "length (filter (\<lambda>k. k < i) xs) < length xs \<and> xs ! length (filter (\<lambda>k. k < i) xs) = (i::nat)"
  using assms
proof (induction xs)
  case (Cons x xs)
  show ?case
  proof (cases "i = x")
    case True
    then have "filter (\<lambda>k. k < i) xs = []" using Cons.prems by (auto simp: filter_empty_conv)
    then show ?thesis using True by simp
  next
    case False
    then have "i \<in> set xs" "x < i" using Cons.prems by (auto simp: order_less_le)
    then show ?thesis using Cons by simp
  qed
qed simp

lemma new_index_ok:
  assumes "i \<in> set (survivors live within m)"
  shows "new_index live within m i < length (survivors live within m) \<and>
    survivors live within m ! new_index live within m i = i"
  unfolding new_index_def by (rule rank_nth) (use assms in \<open>simp_all add: survivors_def sorted_wrt_filter\<close>)

lemma mset_pick: "mset (List.map (\<lambda>i. xs ! i) (filter (\<lambda>i. P (xs ! i)) [0..<length xs])) = mset (filter P xs)"
proof -
  have "List.map (\<lambda>i. xs ! i) (filter (P \<circ> (\<lambda>i. xs ! i)) [0..<length xs]) = filter P (List.map (\<lambda>i. xs ! i) [0..<length xs])"
    by (rule filter_map [symmetric])
  then show ?thesis by (simp add: map_nth comp_def)
qed

text \<open>The survivors are the events out of range and the paired ones.\<close>

lemma mset_filter_or:
  "(\<And>x. x \<in> set xs \<Longrightarrow> \<not> (P x \<and> Q x)) \<Longrightarrow> mset (filter (\<lambda>x. P x \<or> Q x) xs) = mset (filter P xs) + mset (filter Q xs)"
  by (induction xs) auto

lemma mset_filter_split: "(\<And>x. Q x \<longleftrightarrow> \<not> P x) \<Longrightarrow> mset xs = mset (filter P xs) + mset (filter Q xs)"
  by (induction xs) auto

lemma mset_kept:
  assumes "length m = length live" "distinct ks" "\<And>i. i < length live \<Longrightarrow> m ! i \<longleftrightarrow> i \<in> set ks"
    "\<And>i. i \<in> set ks \<Longrightarrow> i < length live \<and> within (ev_frame (live ! i))"
  shows "mset (List.map (\<lambda>i. live ! i) (survivors live within m)) =
      mset (filter (\<lambda>e. \<not> within (ev_frame e)) live) + mset (List.map (\<lambda>i. live ! i) ks)"
    "mset live = mset (List.map (\<lambda>i. live ! i) (survivors live within m)) + mset (vanished live within m)"
proof -
  let ?is = "[0..<length live]"
  have "set (filter (\<lambda>i. m ! i) ?is) = set ks" using assms(3,4) by auto
  then have ks: "mset (filter (\<lambda>i. m ! i) ?is) = mset ks"
    using assms(2) by (intro iffD1 [OF set_eq_iff_mset_eq_distinct]) simp_all
  have "mset (survivors live within m) = mset (filter (\<lambda>i. \<not> within (ev_frame (live ! i))) ?is) + mset (filter (\<lambda>i. m ! i) ?is)"
    unfolding survivors_def by (rule mset_filter_or) (use assms(3,4) in auto)
  then have "mset (List.map (\<lambda>i. live ! i) (survivors live within m)) =
      image_mset (\<lambda>i. live ! i) (mset (filter (\<lambda>i. \<not> within (ev_frame (live ! i))) ?is)) + image_mset (\<lambda>i. live ! i) (mset ks)"
    by (simp only: mset_map ks image_mset_union)
  then show "mset (List.map (\<lambda>i. live ! i) (survivors live within m)) =
      mset (filter (\<lambda>e. \<not> within (ev_frame e)) live) + mset (List.map (\<lambda>i. live ! i) ks)"
    using mset_pick [of live "\<lambda>e. \<not> within (ev_frame e)"] by (simp only: mset_map)
  have "mset ?is = mset (survivors live within m) + mset (filter (\<lambda>i. within (ev_frame (live ! i)) \<and> \<not> m ! i) ?is)"
    unfolding survivors_def by (rule mset_filter_split) auto
  then have "image_mset (\<lambda>i. live ! i) (mset ?is) =
      mset (List.map (\<lambda>i. live ! i) (survivors live within m)) + mset (vanished live within m)"
    by (simp only: vanished_def mset_map image_mset_union)
  moreover have "image_mset (\<lambda>i. live ! i) (mset ?is) = mset live" by (simp only: mset_map [symmetric] map_nth)
  ultimately show "mset live = mset (List.map (\<lambda>i. live ! i) (survivors live within m)) + mset (vanished live within m)" by simp
qed

section \<open>Starting\<close>

lemma event_eqI: "same_key t e \<Longrightarrow> ev_data t = ev_data e \<Longrightarrow> t = e"
  by (simp add: same_key_def)

lemma update_key: "same_key t e \<Longrightarrow> t\<lparr>ev_data := ev_data e\<rparr> = e"
  by (simp add: same_key_def)

definition olds :: "(nat \<Rightarrow> event) \<Rightarrow> (event \<times> nat option) list \<Rightarrow> event list" where
  "olds at eps = List.map at (paired_idx (List.map snd eps))"

definition fresh_events :: "(nat \<Rightarrow> event) \<Rightarrow> (int \<Rightarrow> bool) \<Rightarrow> (event \<times> nat option) list \<Rightarrow> event list" where
  "fresh_events at within eps = List.map fst
     (filter (\<lambda>(e, p). within (ev_frame e) \<and> (case p of None \<Rightarrow> True | Some i \<Rightarrow> ev_data (at i) \<noteq> ev_data e)) eps)"

lemma start_events_ok:
  assumes "distinct (List.map idx (paired_idx (List.map snd eps)))"
    "\<And>i. i \<in> set (paired_idx (List.map snd eps)) \<Longrightarrow> idx i < length cur \<and> cur ! idx i = at i"
    "\<And>e i. (e, Some i) \<in> set eps \<Longrightarrow> within (ev_frame e) \<and> same_key (at i) e"
    "start_events idx within eps cur = (l, st)"
  shows "st = fresh_events at within eps \<and>
    mset l + mset (olds at eps) = mset cur + mset (filter (\<lambda>e. within (ev_frame e)) (List.map fst eps))"
  using assms
proof (induction eps arbitrary: cur l st)
  case Nil
  then show ?case by (simp add: fresh_events_def olds_def)
next
  case (Cons ep eps)
  obtain e p where ep: "ep = (e, p)" by (cases ep)
  show ?case
  proof (cases "p = None \<or> \<not> within (ev_frame e)")
    case True
    then have p: "p = None" using Cons.prems(3) [of e] ep by (cases p) auto
    show ?thesis
    proof (cases "within (ev_frame e)")
      case True
      obtain st' where r: "start_events idx within eps (cur @ [e]) = (l, st')" "st = e # st'"
        using Cons.prems(4) True by (auto simp: ep p split: prod.splits)
      have "st' = fresh_events at within eps \<and>
          mset l + mset (olds at eps) = mset (cur @ [e]) + mset (filter (\<lambda>e. within (ev_frame e)) (List.map fst eps))"
      proof (rule Cons.IH [OF _ _ _ r(1)])
        fix j assume "j \<in> set (paired_idx (List.map snd eps))"
        then show "idx j < length (cur @ [e]) \<and> (cur @ [e]) ! idx j = at j"
          using Cons.prems(2) [of j] by (simp add: ep p nth_append)
      qed (use Cons.prems(1,3) in \<open>auto simp: ep p\<close>)
      then show ?thesis using True r(2) by (simp add: ep p fresh_events_def olds_def)
    next
      case False
      have r: "start_events idx within eps cur = (l, st)" using Cons.prems(4) False by (simp add: ep p)
      have "st = fresh_events at within eps \<and>
          mset l + mset (olds at eps) = mset cur + mset (filter (\<lambda>e. within (ev_frame e)) (List.map fst eps))"
        by (rule Cons.IH [OF _ _ _ r]) (use Cons.prems(1-3) in \<open>auto simp: ep p\<close>)
      then show ?thesis using False by (simp add: ep p fresh_events_def olds_def)
    qed
  next
    case False
    then obtain i where p: "p = Some i" and w: "within (ev_frame e)" by auto
    have i: "idx i < length cur" "cur ! idx i = at i" and k: "same_key (at i) e"
      using Cons.prems(2) [of i] Cons.prems(3) [of e i] by (simp_all add: ep p)
    have other: "idx j \<noteq> idx i" if "j \<in> set (paired_idx (List.map snd eps))" for j
      using Cons.prems(1) imageI [OF that, of idx] by (auto simp: ep p)
    define cur' where "cur' = (if ev_data (at i) \<noteq> ev_data e then cur[idx i := e] else cur)"
    have m: "at i \<in># mset cur" using i nth_mem [OF i(1)] by simp
    have e: "mset cur' + {#at i#} = add_mset e (mset cur)"
      using i event_eqI [OF k] insert_DiffM [OF m] by (auto simp: cur'_def mset_update)
    obtain st' where r: "start_events idx within eps cur' = (l, st')"
      "st = (if ev_data (at i) \<noteq> ev_data e then e # st' else st')"
      using Cons.prems(4) w i(2) update_key [OF k] by (auto simp: ep p cur'_def split: prod.splits if_splits)
    have "st' = fresh_events at within eps \<and>
        mset l + mset (olds at eps) = mset cur' + mset (filter (\<lambda>e. within (ev_frame e)) (List.map fst eps))"
    proof (rule Cons.IH [OF _ _ _ r(1)])
      fix j assume j: "j \<in> set (paired_idx (List.map snd eps))"
      have "idx i \<noteq> idx j" using other [OF j] by simp
      then show "idx j < length cur' \<and> cur' ! idx j = at j"
        using Cons.prems(2) [of j] j by (simp add: ep p cur'_def)
    qed (use Cons.prems(1,3) in \<open>auto simp: ep p\<close>)
    then show ?thesis using w r(2) e
      by (auto simp: ep p fresh_events_def olds_def)
  qed
qed

section \<open>The balance of effects\<close>

text \<open>The pairs with the same payload get no callback.\<close>

definition unchanged :: "event list \<Rightarrow> event \<times> nat option \<Rightarrow> bool" where
  "unchanged live ep \<longleftrightarrow> (case snd ep of None \<Rightarrow> False | Some i \<Rightarrow> ev_data (live ! i) = ev_data (fst ep))"

lemma emitted_split:
  assumes "\<And>e i. (e, Some i) \<in> set eps \<Longrightarrow> within (ev_frame e) \<and> same_key (live ! i) e"
  shows "mset (filter (\<lambda>e. within (ev_frame e)) (List.map fst eps)) =
      mset (fresh_events (\<lambda>i. live ! i) within eps) + mset (List.map fst (filter (unchanged live) eps))"
    "mset (olds (\<lambda>i. live ! i) eps) = mset (outdated live eps) + mset (List.map fst (filter (unchanged live) eps))"
proof -
  have "mset (filter (\<lambda>e. within (ev_frame e)) (List.map fst eps)) =
      mset (fresh_events (\<lambda>i. live ! i) within eps) + mset (List.map fst (filter (unchanged live) eps)) \<and>
    mset (olds (\<lambda>i. live ! i) eps) = mset (outdated live eps) + mset (List.map fst (filter (unchanged live) eps))"
    using assms
  proof (induction eps)
    case (Cons ep eps)
    obtain e p where ep: "ep = (e, p)" by (cases ep)
    have ih: "mset (filter (\<lambda>e. within (ev_frame e)) (List.map fst eps)) =
        mset (fresh_events (\<lambda>i. live ! i) within eps) + mset (List.map fst (filter (unchanged live) eps))"
      "mset (olds (\<lambda>i. live ! i) eps) = mset (outdated live eps) + mset (List.map fst (filter (unchanged live) eps))"
      using Cons.IH Cons.prems by auto
    show ?case
    proof (cases p)
      case None
      then show ?thesis using ih by (simp add: ep fresh_events_def olds_def outdated_def unchanged_def)
    next
      case (Some i)
      then have k: "within (ev_frame e)" "same_key (live ! i) e" using Cons.prems [of e i] by (simp_all add: ep)
      then show ?thesis
        using ih event_eqI [OF k(2)] by (auto simp: ep Some fresh_events_def olds_def outdated_def unchanged_def)
    qed
  qed (simp add: fresh_events_def olds_def outdated_def)
  then show "mset (filter (\<lambda>e. within (ev_frame e)) (List.map fst eps)) =
      mset (fresh_events (\<lambda>i. live ! i) within eps) + mset (List.map fst (filter (unchanged live) eps))"
    "mset (olds (\<lambda>i. live ! i) eps) = mset (outdated live eps) + mset (List.map fst (filter (unchanged live) eps))" by simp_all
qed

text \<open>C28. After a reconciliation the ledger tracks exactly the emitted events of the range, beside the
  events out of the range, less those too old to roll back; all cancels come before all starts, a start
  is as late as the event is old; and the effects balance: what was running, less what is cancelled, plus
  what is started, is what is tracked.\<close>

theorem ledger_balances:
  "\<exists>kept cancels starts.
    l_calls (Reconcile from to events l) =
      l_calls l @ List.map Cancelled cancels @ List.map (\<lambda>e. Started e (to - 1 - ev_frame e)) starts \<and>
    mset kept = mset (filter (\<lambda>e. \<not> in_range from to (ev_frame e)) (l_live l)) +
      mset (filter (\<lambda>e. in_range from to (ev_frame e)) events) \<and>
    mset (l_live l) + mset starts = mset kept + mset cancels \<and>
    Tracked (Reconcile from to events l) = filter (\<lambda>e. ev_frame e \<ge> to - l_retain l) kept"
proof -
  define live where "live = l_live l"
  define within where "within = in_range from to"
  obtain ps m where p: "pair_events live within (replicate (length live) False) events = (ps, m)" by fastforce
  define eps where "eps = zip events ps"
  define sv where "sv = survivors live within m"
  define kept where "kept = List.map (\<lambda>i. live ! i) sv"
  define idx where "idx = new_index live within m"
  obtain new st where n: "start_events idx within eps kept = (new, st)" by fastforce
  have "length (replicate (length live) False) = length live" by simp
  note pr = pair_events_ok [OF this p]
  have fe: "List.map fst eps = events" and se: "List.map snd eps = ps" using pr by (simp_all add: eps_def)
  have pk: "within (ev_frame e) \<and> same_key (live ! i) e" if "(e, Some i) \<in> set eps" for e i
    using pr that unfolding eps_def by fastforce
  have wi: "within (ev_frame (live ! i)) \<and> i < length live \<and> i \<in> set sv" if i: "i \<in> set (paired_idx ps)" for i
  proof -
    have "Some i \<in> set (List.map snd eps)" using i unfolding se paired_idx_def by auto
    then obtain e where "(e, Some i) \<in> set eps" by auto
    then have "within (ev_frame (live ! i))" using pk by (fastforce simp: same_key_def)
    then show ?thesis using pr i by (auto simp: sv_def survivors_def)
  qed
  have ix: "idx i < length kept \<and> kept ! idx i = live ! i" if "i \<in> set (paired_idx (List.map snd eps))" for i
    using new_index_ok [of i live within m] wi [of i] that by (simp add: se idx_def kept_def sv_def)
  have inj: "inj_on idx (set (paired_idx ps))"
  proof (rule inj_onI)
    fix i j assume "i \<in> set (paired_idx ps)" "j \<in> set (paired_idx ps)" "idx i = idx j"
    then show "i = j" using new_index_ok [of i live within m] new_index_ok [of j live within m] wi
      by (metis idx_def sv_def)
  qed
  have di: "distinct (List.map idx (paired_idx (List.map snd eps)))" using pr inj by (simp add: se distinct_map)
  have s: "st = fresh_events (\<lambda>i. live ! i) within eps"
    "mset new + mset (olds (\<lambda>i. live ! i) eps) = mset kept + mset (filter (\<lambda>e. within (ev_frame e)) events)"
    using start_events_ok [OF di ix pk n] by (simp_all add: fe)
  have mk: "mset kept = mset (filter (\<lambda>e. \<not> within (ev_frame e)) live) + mset (olds (\<lambda>i. live ! i) eps)"
    "mset live = mset kept + mset (vanished live within m)"
    using mset_kept [of m live "paired_idx ps" within] pr wi unfolding kept_def sv_def olds_def se by auto
  have new: "mset new = mset (filter (\<lambda>e. \<not> within (ev_frame e)) live) + mset (filter (\<lambda>e. within (ev_frame e)) events)"
    using s(2) mk(1) by simp
  define un where "un = mset (List.map fst (filter (unchanged live) eps))"
  have sp: "mset (filter (\<lambda>e. within (ev_frame e)) events) = mset (fresh_events (\<lambda>i. live ! i) within eps) + un"
    "mset (olds (\<lambda>i. live ! i) eps) = mset (outdated live eps) + un"
    using emitted_split [of eps within live] pk by (simp_all only: fe un_def)
  have bal: "mset live + mset st = mset new + mset (vanished live within m @ outdated live eps)"
    unfolding new mk(2) mk(1) s(1) sp mset_append by (simp only: ac_simps)
  have r: "Reconcile from to events l = l\<lparr>l_live := filter (\<lambda>t. ev_frame t \<ge> to - l_retain l) new,
      l_calls := l_calls l @ List.map Cancelled (vanished live within m @ outdated live eps) @
        List.map (\<lambda>e. Started e (to - 1 - ev_frame e)) st\<rparr>"
    unfolding Reconcile_def Let_def live_def [symmetric] within_def [symmetric] p prod.case eps_def [symmetric]
      sv_def [symmetric] kept_def [symmetric] idx_def [symmetric] n by simp
  show ?thesis
    unfolding r Tracked_def using new bal unfolding live_def within_def
    by (intro exI [of _ new] exI [of _ "vanished live within m @ outdated live eps"] exI [of _ st]) (simp add: live_def within_def)
qed

end
