(* ===== verification/Net_Wellformed.thy ===== *)
theory Net_Wellformed
  imports Net_Rings
begin

text \<open>
  What holds of a session whatever datagrams arrive, with or without a relay: its rings and slots
  keep their sizes, so every index the code forms modulo a size is in range, a blob being reassembled
  and its map of fragments have the announced sizes, and the error is set exactly when the session
  has ended. The loop over the checkpoints ends.
\<close>

section \<open>Sizes\<close>

definition sizes :: "('i, 's) session \<Rightarrow> (nat \<times> nat \<times> nat) \<times> (nat \<times> nat \<times> nat) \<times> nat \<times> nat" where
  "sizes s = ((length (s_local s), length (s_remote s), length (s_used s)),
     (length (s_states s), length (s_stFrame s), length (s_evs s)), length (s_cp s), length (s_rem s))"

definition blob_of :: "('i, 's) session \<Rightarrow> nat \<times> byte list \<times> bool list \<times> nat" where
  "blob_of s = (s_rsTotal s, s_rsBuf s, s_rsGot s, s_rsHave s)"

definition blob_ok :: "('i, 's) session \<Rightarrow> bool" where
  "blob_ok s \<longleftrightarrow> (s_rsTotal s \<noteq> 0 \<longrightarrow> length (s_rsBuf s) = s_rsTotal s \<and>
     length (s_rsGot s) = (s_rsTotal s + resyncChunk - 1) div resyncChunk \<and>
     s_rsHave s = length (filter id (s_rsGot s)))"

definition ended_ok :: "('i, 's) session \<Rightarrow> bool" where
  "ended_ok s \<longleftrightarrow> (s_status s = StatusEnded \<longleftrightarrow> s_err s \<noteq> None)"

definition well_formed :: "('i, 's) netcfg \<Rightarrow> ('i, 's) session \<Rightarrow> bool" where
  "well_formed C s \<longleftrightarrow> sizes s = ((historyFrames, historyFrames, historyFrames), (nring C, nring C, nring C), cpSlots, cpSlots) \<and>
     blob_ok s \<and> ended_ok s"

text \<open>The fields that well-formedness rests on, for the steps that only touch others.\<close>

lemma wf_same:
  assumes "sizes t = sizes s" "blob_of t = blob_of s" "status_of t = status_of s"
  shows "well_formed C t = well_formed C s"
  using assms by (simp add: well_formed_def blob_ok_def blob_of_def ended_ok_def status_of_def)

lemma wf_end [simp]: "well_formed C s \<Longrightarrow> well_formed C (end_with e s)"
  by (auto simp: well_formed_def sizes_def blob_ok_def ended_ok_def end_with_def)

lemma sizes_simps [simp]:
  "sizes (bump k n s) = sizes s" "sizes (raise_to k n s) = sizes s" "sizes (send b s) = sizes s"
  "sizes (snd (sess_header C typ now s)) = sizes s" "sizes (sendHello C now s) = sizes s" "sizes (sendInput C now s) = sizes s"
  "sizes (snd (noteHeader now h s)) = sizes s" "sizes (note_advantage C p s) = sizes s"
  "sizes (sendResyncAck C s) = sizes s" "sizes (maybeStart C now s) = sizes s" "sizes (take_entry C f raw s) = sizes s"
  by (simp_all add: sizes_def bump_def raise_to_def send_def sess_header_def sendHello_def sendInput_def
      noteHeader_def note_advantage_def sendResyncAck_def maybeStart_def take_entry_def Let_def)

lemma blob_simps [simp]:
  "blob_of (bump k n s) = blob_of s" "blob_of (raise_to k n s) = blob_of s" "blob_of (send b s) = blob_of s"
  "blob_of (snd (sess_header C typ now s)) = blob_of s" "blob_of (sendHello C now s) = blob_of s"
  "blob_of (sendInput C now s) = blob_of s" "blob_of (snd (noteHeader now h s)) = blob_of s"
  "blob_of (note_advantage C p s) = blob_of s" "blob_of (sendResyncAck C s) = blob_of s"
  "blob_of (maybeStart C now s) = blob_of s" "blob_of (take_entry C f raw s) = blob_of s"
  by (simp_all add: blob_of_def bump_def raise_to_def send_def sess_header_def sendHello_def sendInput_def
      noteHeader_def note_advantage_def sendResyncAck_def maybeStart_def take_entry_def Let_def)

lemma status_more [simp]:
  "status_of (sendResyncAck C s) = status_of s" "status_of (take_entry C f raw s) = status_of s"
  by (simp_all add: status_of_def bump_def send_def sendResyncAck_def take_entry_def Let_def)

section \<open>Every step keeps a session well-formed\<close>

lemma wf_simps [simp]:
  "well_formed C (bump k n s) = well_formed C s" "well_formed C (raise_to k n s) = well_formed C s"
  "well_formed C (send b s) = well_formed C s" "well_formed C (sendHello D now s) = well_formed C s"
  "well_formed C (sendInput D now s) = well_formed C s" "well_formed C (sendResyncAck D s) = well_formed C s"
  "well_formed C (note_advantage D p s) = well_formed C s" "well_formed C (take_entry D f raw s) = well_formed C s"
  "well_formed C (snd (noteHeader now h s)) = well_formed C s"
  by (rule wf_same; simp)+

lemmas wf_fields = sizes_def blob_of_def status_of_def

lemma wf_noteHeader: "noteHeader now h s = (newest, t) \<Longrightarrow> well_formed C t = well_formed C s"
  using wf_simps(9) [of C now h s] by simp

lemma wf_maybeStart [simp]: "well_formed C s \<Longrightarrow> well_formed C (maybeStart C now s)"
  by (auto simp: well_formed_def sizes_def blob_ok_def ended_ok_def maybeStart_def Let_def)

lemma wf_judge [simp]:
  assumes "well_formed C s"
  shows "well_formed C (judge C f s)"
proof -
  have upd: "well_formed C (s\<lparr>s_cp := (s_cp s)[i := c]\<rparr>) = well_formed C s"
    and agr: "well_formed C (t\<lparr>s_agreed := a\<rparr>) = well_formed C t" for i c a and t :: "('a, 'b) session"
    by (rule wf_same; simp add: wf_fields)+
  show ?thesis using assms by (simp add: judge_def Let_def upd agr)
qed

lemma wf_checkpoint [simp]:
  assumes "well_formed C s"
  shows "well_formed C (checkpoint C f s)"
proof -
  have "well_formed C (s\<lparr>s_nextCheck := n, s_cp := (s_cp s)[i := c], s_checks := cs\<rparr>) = well_formed C s" for n i c cs
    by (rule wf_same) (simp_all add: wf_fields)
  then show ?thesis using assms by (simp add: checkpoint_def Let_def)
qed

lemma wf_check_loop: "well_formed C s \<Longrightarrow> well_formed C (check_loop n C limit s)"
proof (induction n arbitrary: s)
  case (Suc n)
  have "well_formed C (s\<lparr>s_nextCheck := k\<rparr>) = well_formed C s" for k by (rule wf_same) (simp_all add: wf_fields)
  then show ?case using Suc by (simp add: Let_def)
qed simp

lemma wf_tryCheckpoints [simp]: "well_formed C s \<Longrightarrow> well_formed C (tryCheckpoints C limit s)"
  by (simp add: tryCheckpoints_def wf_check_loop)

lemma wf_onRemoteSum [simp]:
  assumes "well_formed C s"
  shows "well_formed C (onRemoteSum C e s)"
proof -
  have "well_formed C (s\<lparr>s_rem := (s_rem s)[i := r]\<rparr>) = well_formed C s" for i r
    by (rule wf_same) (simp_all add: wf_fields)
  then show ?thesis using assms by (simp add: onRemoteSum_def Let_def)
qed

lemma wf_stepFrame [simp]:
  assumes "well_formed C s"
  shows "well_formed C (stepFrame C g s)"
proof -
  have "well_formed C (s\<lparr>s_states := (s_states s)[i := a], s_stFrame := (s_stFrame s)[i := b], s_used := (s_used s)[j := c],
      s_gamest := d, s_evs := (s_evs s)[i := e]\<rparr>) = well_formed C s" for i j a b c d e
    by (rule wf_same) (simp_all add: wf_fields)
  then show ?thesis using assms by (simp add: stepFrame_def Let_def)
qed

lemma wf_fold: "(\<And>x s. well_formed C s \<Longrightarrow> well_formed C (f x s)) \<Longrightarrow> well_formed C s \<Longrightarrow> well_formed C (fold f xs s)"
  by (induction xs arbitrary: s) auto

lemma wf_rollback [simp]:
  assumes "well_formed C s"
  shows "well_formed C (rollback C f s)"
proof -
  have "well_formed C (t\<lparr>s_changedFrom := a\<rparr>) = well_formed C t" "well_formed C (t\<lparr>s_gamest := b\<rparr>) = well_formed C t"
    for a b and t :: "('a, 'b) session"
    by (rule wf_same; simp add: wf_fields)+
  then show ?thesis using assms by (simp add: rollback_def Let_def wf_fold split: option.split)
qed

lemma wf_settle [simp]:
  assumes "well_formed C s"
  shows "well_formed C (settle C s)"
proof -
  have "well_formed C (t\<lparr>s_firstBad := a\<rparr>) = well_formed C t" for a and t :: "('a, 'b) session"
    by (rule wf_same; simp add: wf_fields)
  then show ?thesis using assms by (simp add: settle_def Let_def split: option.split)
qed

lemma wf_catch_loop: "well_formed C s \<Longrightarrow> well_formed C (snd (catch_loop n C s))"
proof (induction n arbitrary: s)
  case (Suc n)
  have "well_formed C (t\<lparr>s_frame := k\<rparr>) = well_formed C t" for k and t :: "('a, 'b) session"
    by (rule wf_same) (simp_all add: wf_fields)
  then show ?case using Suc by (simp add: Let_def split_def)
qed simp

lemma wf_catchUp [simp]:
  assumes "well_formed C s"
  shows "well_formed C (snd (catchUp C now s))"
proof -
  have "well_formed C (t\<lparr>s_catching := a, s_changedFrom := b\<rparr>) = well_formed C t" for a b and t :: "('a, 'b) session"
    by (rule wf_same) (simp_all add: wf_fields)
  then show ?thesis using wf_catch_loop [OF assms, of "nat (nc_catchUp C)"] by (simp add: catchUp_def Let_def split_def)
qed

lemma wf_seen [simp]: "well_formed C (s\<lparr>s_peerSeen := a\<rparr>) = well_formed C s"
  by (rule wf_same) (simp_all add: wf_fields)

lemma wf_handleHello [simp]: "well_formed C s \<Longrightarrow> well_formed C (handleHello C now b s)"
  by (auto simp: handleHello_def Let_def wf_noteHeader split: prod.split)

lemma wf_accept [simp]:
  assumes "well_formed C s"
  shows "well_formed C (accept_input C newest p s)"
proof -
  have "well_formed C (t\<lparr>s_peerAck := a\<rparr>) = well_formed C t" for a and t :: "('a, 'b) session"
    by (rule wf_same) (simp_all add: wf_fields)
  then show ?thesis using assms by (simp add: accept_input_def take_entries_def Let_def wf_fold)
qed

lemma wf_handleInput [simp]: "well_formed C s \<Longrightarrow> well_formed C (handleInput C now b s)"
  by (auto simp: handleInput_def Let_def wf_noteHeader split: prod.split option.split)

section \<open>Fragments of a blob\<close>

lemma count_mark: "i < length xs \<Longrightarrow> \<not> xs ! i \<Longrightarrow> length (filter id (xs[i := True])) = Suc (length (filter id xs))"
proof (induction xs arbitrary: i)
  case (Cons x xs)
  then show ?case by (cases i) auto
qed simp

lemma wf_begin_blob [simp]:
  assumes "well_formed C s"
  shows "well_formed C (begin_blob p s)"
  using assms by (auto simp: begin_blob_def Let_def well_formed_def sizes_def blob_ok_def ended_ok_def)

lemma wf_fragment:
  assumes "well_formed C s" "ofs + length d \<le> s_rsTotal s" "ci < length (s_rsGot s)" "\<not> s_rsGot s ! ci"
  shows "well_formed C (s\<lparr>s_rsBuf := take ofs (s_rsBuf s) @ d @ drop (ofs + length d) (s_rsBuf s),
    s_rsGot := (s_rsGot s)[ci := True], s_rsHave := s_rsHave s + 1\<rparr>)"
  using assms count_mark [OF assms(3,4)] by (auto simp: well_formed_def sizes_def blob_ok_def ended_ok_def)

lemma wf_applyResync [simp]:
  assumes "well_formed C s"
  shows "well_formed C (applyResync C now s)"
proof -
  define t where "t = s\<lparr>s_rsTotal := 0\<rparr>"
  have t: "well_formed C t" "s_rsTotal t = 0" using assms by (simp_all add: t_def well_formed_def sizes_def blob_ok_def ended_ok_def)
  have u: "well_formed C (u\<lparr>s_epoch := a, s_catchEnd := b, s_frame := c, s_catching := d, s_catchBy := e, s_firstBad := f,
      s_cp := List.map g (s_cp u), s_rem := List.map h (s_rem u), s_stFrame := List.map k (s_stFrame u), s_nextCheck := l\<rparr>) =
      well_formed C u" "well_formed C (u\<lparr>s_gamest := m\<rparr>) = well_formed C u"
    for a b c d e f g h k l m and u :: "('a, 'b) session"
    by (rule wf_same; simp add: wf_fields)+
  have b: "bump Resyncs n (u\<lparr>s_gamest := m\<rparr>) = (bump Resyncs n u)\<lparr>s_gamest := m\<rparr>" for n m and u :: "('a, 'b) session"
    by (simp add: bump_def)
  show ?thesis
    unfolding applyResync_def Let_def t_def [symmetric] using t(1) by (auto simp: u split: option.split)
qed

lemma wf_handleResync [simp]:
  assumes "well_formed C s"
  shows "well_formed C (handleResync C now b s)"
proof (cases "parseResync b")
  case None
  then show ?thesis using assms by (simp add: handleResync_def)
next
  case (Some pt)
  obtain p tag where p: "parseResync b = Some (p, tag)" using Some by (cases pt) simp
  let ?t = "begin_blob p s" and ?o = "unat (rp_offset p)"
  have t: "well_formed C ?t" using assms by simp
  have "well_formed C (?t\<lparr>s_rsBuf := take ?o (s_rsBuf ?t) @ rp_data p @ drop (?o + length (rp_data p)) (s_rsBuf ?t),
      s_rsGot := (s_rsGot ?t)[?o div resyncChunk := True], s_rsHave := s_rsHave ?t + 1\<rparr>)"
    if "\<not> ?o + length (rp_data p) > s_rsTotal ?t" "\<not> ?o div resyncChunk \<ge> length (s_rsGot ?t)" "\<not> s_rsGot ?t ! (?o div resyncChunk)"
    using wf_fragment [OF t _ _ that(3)] that(1,2) by simp
  then show ?thesis using assms t by (simp add: handleResync_def p Let_def)
qed

lemma wf_handle [simp]: "well_formed C s \<Longrightarrow> well_formed C (handle C now b s)"
  by (simp add: handle_def split: option.split prod.split)

lemma wf_poll_loop: "well_formed C s \<Longrightarrow> well_formed C (poll_loop n C now s)"
proof (induction n arbitrary: s)
  case (Suc n)
  have "well_formed C (t\<lparr>s_inq := q\<rparr>) = well_formed C t" for q and t :: "('a, 'b) session"
    by (rule wf_same) (simp_all add: wf_fields)
  then show ?case using Suc by (simp add: Let_def split: list.split)
qed simp

lemma wf_tick_fields:
  "well_formed C (s\<lparr>s_hsStarted := a, s_hsStart := b\<rparr>) = well_formed C s"
  "well_formed C (s\<lparr>s_stalling := c, s_stallSince := d\<rparr>) = well_formed C s"
  "well_formed C (s\<lparr>s_stalling := c\<rparr>) = well_formed C s" "well_formed C (s\<lparr>s_stalling := c, s_sinceWait := e\<rparr>) = well_formed C s"
  "well_formed C (s\<lparr>s_frame := f\<rparr>) = well_formed C s" "well_formed C (s\<lparr>s_changedFrom := g\<rparr>) = well_formed C s"
  "well_formed C (s\<lparr>s_local := (s_local s)[i := x], s_localNext := j\<rparr>) = well_formed C s"
  "well_formed C (s\<lparr>s_changedFrom := g, s_sinceWait := e\<rparr>) = well_formed C s" "well_formed C (s\<lparr>s_inq := q\<rparr>) = well_formed C s"
  by (rule wf_same; simp add: wf_fields)+

lemma wf_advance_frame: "well_formed C s \<Longrightarrow> well_formed C (snd (advance_frame C now inp s))"
  by (simp add: advance_frame_def Let_def wf_tick_fields)

lemma wf_running_tick: "well_formed C s \<Longrightarrow> well_formed C (snd (running_tick C now inp s))"
  by (simp add: running_tick_def stall_tick_def Let_def wf_tick_fields wf_advance_frame)

lemma wf_Advance: "well_formed C s \<Longrightarrow> well_formed C (snd (Advance C now inp s))"
  by (simp add: Advance_def handshake_tick_def poll_def Let_def wf_tick_fields wf_poll_loop wf_running_tick)

lemma wf_fresh: "well_formed C (fresh C g0)"
  by (simp add: well_formed_def sizes_def blob_ok_def ended_ok_def fresh_def)

text \<open>C29. Whatever datagrams arrive, whatever the clock says and whatever is played, a session keeps the
  sizes of its rings, slots and buffers, and holds an error exactly when it has ended.\<close>

theorem session_keeps_its_types:
  assumes "NewSession A g0 = Inr (C, s0)"
  shows "well_formed C (fold (\<lambda>(now, inp, q) s. snd (Advance C now inp (s\<lparr>s_inq := q\<rparr>))) ticks s0)"
proof -
  have "s0 = fresh C g0" using assms by (auto simp: NewSession_def Let_def split: if_splits)
  then have "well_formed C s0" by (simp add: wf_fresh)
  then show ?thesis by (rule wf_fold [rotated]) (auto simp: wf_Advance wf_tick_fields)
qed

definition echo_cfg :: "(byte, byte) netcfg" where
  "echo_cfg = \<lparr>nc_game = \<lparr>g_step = (\<lambda>i j s. s + i + j), g_save = (\<lambda>s. [s]), g_load = (\<lambda>b. Some (hd b)), g_events = (\<lambda>s. [])\<rparr>,
     nc_codec = \<lparr>c_size = 1, c_put = (\<lambda>i. [i]), c_get = hd\<rparr>, nc_zero = 0, nc_me = 0, nc_identity = replicate 32 7,
     nc_inputDelay = 1, nc_maxInputDelay = 0, nc_maxRollback = 0, nc_pred = None, nc_checksumInterval = 0, nc_window = 0,
     nc_stall = 0, nc_sync = 0, nc_frameDur = 0, nc_relay = False, nc_catchUp = 0, nc_catchUpTimeout = 0\<rparr>"

lemma session_keeps_its_types_witness:
  "well_formed (withDefaults echo_cfg) (fold (\<lambda>(now, inp, q) s. snd (Advance (withDefaults echo_cfg) now inp (s\<lparr>s_inq := q\<rparr>)))
     [(0, 1, [[9, 9, 9], []]), (5, 2, [[1, 3]])] (fresh (withDefaults echo_cfg) 0))"
  by (rule session_keeps_its_types [of echo_cfg 0])
    (simp add: NewSession_def echo_cfg_def withDefaults_def default_to_def AutoDelay_def Let_def)

section \<open>The loop over the checkpoints ends\<close>

lemma judge_check [simp]: "s_nextCheck (judge C f s) = s_nextCheck s" "s_stFrame (judge C f s) = s_stFrame s"
    "s_rc (judge C f s) = s_rc s"
  by (simp_all add: judge_def bump_def end_with_def Let_def)

lemma checkpoint_check [simp]: "s_nextCheck (checkpoint C f s) = f + sess_k C" "s_stFrame (checkpoint C f s) = s_stFrame s"
    "s_rc (checkpoint C f s) = s_rc s"
  by (simp_all add: checkpoint_def bump_def Let_def)

text \<open>Where the loop of the code stops.\<close>

definition check_done :: "('i, 's) netcfg \<Rightarrow> int \<Rightarrow> ('i, 's) session \<Rightarrow> bool" where
  "check_done C limit s \<longleftrightarrow> s_status s = StatusEnded \<or> int (s_nextCheck s) > limit \<or> s_nextCheck s > s_rc s \<or>
     (s_stFrame s ! (s_nextCheck s mod nring C) \<noteq> Some (s_nextCheck s) \<and> limit - int (s_nextCheck s) < int (nring C))"

lemma check_loop_fuel:
  assumes "1 \<le> sess_k C" "limit < int n + int (s_nextCheck s)"
  shows "check_loop (n + d) C limit s = check_loop n C limit s \<and> (check_done C limit (check_loop n C limit s))"
  using assms(2)
proof (induction n arbitrary: s)
  case 0
  then have "check_loop d C limit s = s" by (cases d) (simp_all add: Let_def)
  then show ?case using 0 by (simp add: check_done_def)
next
  case (Suc n)
  let ?f = "s_nextCheck s"
  have more: "limit < int n + (int ?f + int (sess_k C))" using Suc.prems assms(1) by simp
  consider (stop) "int ?f > limit \<or> ?f > s_rc s" | (skip) "int ?f \<le> limit" "?f \<le> s_rc s" "s_stFrame s ! (?f mod nring C) \<noteq> Some ?f"
    | (check) "int ?f \<le> limit" "?f \<le> s_rc s" "s_stFrame s ! (?f mod nring C) = Some ?f" by linarith
  then show ?case
  proof cases
    case stop
    then show ?thesis by (auto simp: Let_def check_done_def)
  next
    case skip
    then show ?thesis using Suc.IH [of "s\<lparr>s_nextCheck := ?f + sess_k C\<rparr>"] more by (auto simp: Let_def check_done_def)
  next
    case check
    then show ?thesis using Suc.IH [of "checkpoint C ?f s"] more by (auto simp: Let_def check_done_def)
  qed
qed

text \<open>C32. The loop over the checkpoints ends, with a positive interval: the rounds that
  \<open>tryCheckpoints\<close> allows are enough, more of them change nothing, and at its end the session has ended,
  or the next checkpoint is not due, not confirmed or not saved.\<close>

theorem checkpoints_terminate:
  assumes "1 \<le> sess_k C" "nat (limit + 1) \<le> n"
  shows "check_loop n C limit s = tryCheckpoints C limit s \<and> check_done C limit (tryCheckpoints C limit s)"
proof -
  have "limit < int (nat (limit + 1)) + int (s_nextCheck s)" by simp
  from check_loop_fuel [OF assms(1) this, of "n - nat (limit + 1)"] show ?thesis
    using assms(2) by (simp add: tryCheckpoints_def)
qed

lemma checkpoints_terminate_witness:
  "check_loop 100 (withDefaults echo_cfg) 90 (fresh (withDefaults echo_cfg) 0) =
    tryCheckpoints (withDefaults echo_cfg) 90 (fresh (withDefaults echo_cfg) 0)"
proof -
  have "1 \<le> sess_k (withDefaults echo_cfg)" by (simp add: sess_k_def withDefaults_def echo_cfg_def default_to_def)
  from checkpoints_terminate [OF this, of 90 100] show ?thesis by simp
qed

section \<open>A fragment past the end\<close>

text \<open>C39. An empty fragment at the end of a blob whose size is a multiple of the fragment size passes the
  range check and indexes the map of fragments out of range, which ends the process: the error that
  stands for it is \<open>Panic_index\<close>.\<close>

theorem resync_fragment_panics:
  assumes s: "well_formed C s" "s_status s = StatusRunning" and c: "nc_relay C"
    and p: "unat (rp_total p) = k * resyncChunk" "0 < k" "unat (rp_total p) \<le> 2 ^ 24" "rp_offset p = rp_total p" "rp_data p = []"
    and e: "s_epoch s < rp_epoch p"
  shows "s_err (handleResync C now (putResync (sess_tag C) p) s) = Some Panic_index"
proof -
  have pr: "parseResync (putResync (sess_tag C) p) = Some (p, sess_tag C)" using p(5) by (intro parseResync_put) simp
  let ?t = "begin_blob p s"
  have t: "blob_ok ?t" using wf_begin_blob [OF s(1), of p] by (simp add: well_formed_def)
  have tot: "s_rsTotal ?t = k * resyncChunk" "s_status ?t = StatusRunning"
    using p(1) s(2) by (auto simp: begin_blob_def Let_def)
  have "(k * resyncChunk + resyncChunk - 1) div resyncChunk = k"
  proof -
    have "k * resyncChunk + resyncChunk - 1 = (resyncChunk - 1) + k * resyncChunk" by (simp add: resyncChunk_def)
    then show ?thesis by (simp add: resyncChunk_def)
  qed
  then have got: "length (s_rsGot ?t) = k" using t tot p(2) by (simp add: blob_ok_def resyncChunk_def)
  have g: "rp_epoch p \<noteq> s_epoch s" "\<not> rp_epoch p < s_epoch s" "rp_total p \<noteq> 0" "\<not> rp_total p > 2 ^ 24"
    using e p(1-3) by (auto simp: resyncChunk_def word_less_nat_alt)
  have "handleResync C now (putResync (sess_tag C) p) s = end_with Panic_index ?t"
    using g c s(2) p(1,4,5) tot got by (simp add: handleResync_def pr Let_def resyncChunk_def)
  then show ?thesis using tot(2) by (simp add: end_with_def)
qed

lemma resync_fragment_panics_witness:
  "s_err (handleResync (echo_cfg\<lparr>nc_relay := True\<rparr>) 0
     (putResync (sess_tag (echo_cfg\<lparr>nc_relay := True\<rparr>))
       \<lparr>rp_epoch = 1, rp_frame = 1, rp_total = 1000, rp_offset = 1000, rp_sum = 0, rp_data = []\<rparr>)
     ((fresh (echo_cfg\<lparr>nc_relay := True\<rparr>) 0)\<lparr>s_status := StatusRunning\<rparr>)) = Some Panic_index"
proof (rule resync_fragment_panics [where k = 1])
  show "well_formed (echo_cfg\<lparr>nc_relay := True\<rparr>) ((fresh (echo_cfg\<lparr>nc_relay := True\<rparr>) 0)\<lparr>s_status := StatusRunning\<rparr>)"
    by (simp add: well_formed_def sizes_def blob_ok_def ended_ok_def fresh_def)
qed (simp_all add: resyncChunk_def fresh_def)

end
