(* ===== verification/Net_Replay.thy ===== *)
theory Net_Replay
  imports Net_Packet
begin

unbundle bit_operations_syntax

text \<open>
  \<^verbatim>\<open>netplay/replay.go\<close>: recorded matches, their binary form and their verification. An error of
  \<^verbatim>\<open>fmt.Errorf\<close> that wraps \<open>ErrReplayFormat\<close> carries the reason.
\<close>

section \<open>Replays\<close>

record replay_check =
  rc_frame :: uint32
  rc_sum :: uint64

record replay =
  re_identity :: "byte list"
  re_inputSize :: nat
  re_interval :: nat
  re_frames :: nat
  re_inputs :: "byte list"
  re_checks :: "replay_check list"

datatype replay_error =
    ErrReplayFormat | ErrReplayTrailer | ErrReplayLength | ErrReplayVersion "16 word"
  | ErrReplayIdentity | ReplayDivergeError uint32 uint64 uint64

definition replayMagic :: "byte list" where
  "replayMagic = [71, 88, 78, 80, 82, 80, 76, 0]"

definition replayVersion :: "16 word" where "replayVersion = 1"
definition replayHdr :: nat where "replayHdr = 8 + 2 + 2 + 32 + 2 + 2 + 4 + 4"

definition put_check :: "replay_check \<Rightarrow> byte list" where
  "put_check c = le_bytes 4 (rc_frame c) @ le_bytes 8 (rc_sum c)"

definition replay_body :: "replay \<Rightarrow> byte list" where
  "replay_body r =
     replayMagic @ le_bytes 2 replayVersion @ le_bytes 2 (0 :: 16 word) @ re_identity r @
     le_bytes 2 (word_of_nat (re_inputSize r) :: 16 word) @ le_bytes 2 (word_of_nat (re_interval r) :: 16 word) @
     le_bytes 4 (word_of_nat (re_frames r) :: uint32) @ le_bytes 4 (word_of_nat (length (re_checks r)) :: uint32) @
     re_inputs r @ concat (List.map put_check (re_checks r))"

definition Marshal :: "replay \<Rightarrow> byte list" where
  "Marshal r = replay_body r @ le_bytes 8 (Checksum (replay_body r))"

definition UnmarshalReplay :: "byte list \<Rightarrow> replay_error + replay" where
  "UnmarshalReplay b =
     (if length b < replayHdr + 8 \<or> take 8 b \<noteq> replayMagic then Inl ErrReplayFormat
      else
        let v = le_word (field 8 2 b) in
        if v \<noteq> replayVersion then Inl (ErrReplayVersion v)
        else if le_word (drop (length b - 8) b) \<noteq> Checksum (take (length b - 8) b) then Inl ErrReplayTrailer
        else
          let size = unat (le_word (field 44 2 b) :: 16 word); interval = unat (le_word (field 46 2 b) :: 16 word);
              frames = unat (le_word (field 48 4 b) :: uint32); nchecks = unat (le_word (field 52 4 b) :: uint32) in
          if size = 0 \<or> interval = 0 then Inl ErrReplayFormat
          else
            let inLen = frames * 2 * size; o1 = replayHdr + inLen in
            if length b \<noteq> replayHdr + inLen + 12 * nchecks + 8 then Inl ErrReplayLength
            else Inr \<lparr>re_identity = field 12 32 b, re_inputSize = size, re_interval = interval, re_frames = frames,
                   re_inputs = field replayHdr inLen b,
                   re_checks = List.map (\<lambda>i. \<lparr>rc_frame = le_word (field (o1 + i * 12) 4 b),
                                             rc_sum = le_word (field (o1 + i * 12 + 4) 8 b)\<rparr>) [0..<nchecks]\<rparr>)"

section \<open>Verification\<close>

text \<open>The checks of the frame just simulated; \<open>cs\<close> is what is left of them.\<close>

fun check_frame :: "('i, 's) game \<Rightarrow> 's \<Rightarrow> nat \<Rightarrow> replay_check list \<Rightarrow> replay_error + replay_check list" where
  "check_frame G st f [] = Inr []"
| "check_frame G st f (c # cs) =
     (if unat (rc_frame c) = f then
        let got = Checksum (g_save G st) in
        if got \<noteq> rc_sum c then Inl (ReplayDivergeError (rc_frame c) (rc_sum c) got) else check_frame G st f cs
      else Inr (c # cs))"

text \<open>The input at an offset; \<open>Get\<close> is given the rest of the slice.\<close>

definition input_at :: "'i codec \<Rightarrow> replay \<Rightarrow> nat \<Rightarrow> 'i" where
  "input_at D r o1 = c_get D (drop o1 (re_inputs r))"

text \<open>The frames from \<open>f\<close> on; \<open>n\<close> of them are left.\<close>

fun verify_loop :: "('i, 's) game \<Rightarrow> 'i codec \<Rightarrow> replay \<Rightarrow> nat \<Rightarrow> nat \<Rightarrow> 's \<Rightarrow> replay_check list \<Rightarrow>
    replay_error + replay_check list" where
  "verify_loop G D r 0 f st cs = Inr cs"
| "verify_loop G D r (Suc n) f st cs =
     (let o1 = f * 2 * c_size D; st = g_step G (input_at D r o1) (input_at D r (o1 + c_size D)) st in
      case check_frame G st (f + 1) cs of Inl e \<Rightarrow> Inl e | Inr cs \<Rightarrow> verify_loop G D r n (f + 1) st cs)"

definition VerifyReplay :: "replay \<Rightarrow> byte list \<Rightarrow> ('i, 's) game \<Rightarrow> 's \<Rightarrow> 'i codec \<Rightarrow> replay_error option" where
  "VerifyReplay r ident G g0 D =
     (if re_identity r \<noteq> ident then Some ErrReplayIdentity
      else if re_inputSize r \<noteq> c_size D \<or> length (re_inputs r) \<noteq> re_frames r * 2 * c_size D then Some ErrReplayFormat
      else case verify_loop G D r (re_frames r) 0 g0 (re_checks r) of
        Inl e \<Rightarrow> Some e
      | Inr cs \<Rightarrow> if list_all (\<lambda>c. unat (rc_frame c) > re_frames r) cs then None else Some ErrReplayFormat)"

section \<open>Reading a marshalled replay\<close>

text \<open>What fits the fields of the format.\<close>

definition replay_ok :: "replay \<Rightarrow> bool" where
  "replay_ok r \<longleftrightarrow> length (re_identity r) = 32 \<and> 0 < re_inputSize r \<and> re_inputSize r < 2 ^ 16 \<and>
     0 < re_interval r \<and> re_interval r < 2 ^ 16 \<and> re_frames r < 2 ^ 32 \<and> length (re_checks r) < 2 ^ 32 \<and>
     length (re_inputs r) = re_frames r * 2 * re_inputSize r"

lemma length_put_check [simp]: "length (put_check c) = 12"
  by (simp add: put_check_def)

lemma length_checks: "length (concat (List.map put_check cs)) = length cs * 12"
  using length_concat_const [of "List.map put_check cs" 12] by simp

lemma field_field: "i + n \<le> m \<Longrightarrow> field i n (field ofs m b) = field (ofs + i) n b"
  by (simp add: field_def take_drop drop_drop min_def add.commute)

lemma checks_at:
  assumes "i < length cs"
  shows "field (i * 12) 12 (concat (List.map put_check cs) @ rest) = put_check (cs ! i)"
  using field_concat [of "List.map put_check cs" 12 i rest] assms by simp

lemma check_fields:
  assumes "field x 12 b = put_check c"
  shows "field x 4 b = le_bytes 4 (rc_frame c)" "field (x + 4) 8 b = le_bytes 8 (rc_sum c)"
proof -
  have "field x 4 b = field 0 4 (field x 12 b)" "field (x + 4) 8 b = field 4 8 (field x 12 b)" by (simp_all add: field_field)
  then show "field x 4 b = le_bytes 4 (rc_frame c)" "field (x + 4) 8 b = le_bytes 8 (rc_sum c)"
    unfolding assms by (simp_all add: put_check_def)
qed

text \<open>C31. A replay whose fields fit the format is read back from its binary form.\<close>

theorem replay_roundtrip:
  assumes "replay_ok r"
  shows "UnmarshalReplay (Marshal r) = Inr r"
proof -
  define b where "b = Marshal r"
  define tr where "tr = le_bytes 8 (Checksum (replay_body r))"
  define ck where "ck = concat (List.map put_check (re_checks r))"
  have lck: "length ck = length (re_checks r) * 12" unfolding ck_def by (rule length_checks)
  have ok: "length (re_identity r) = 32" "0 < re_inputSize r" "re_inputSize r < 2 ^ 16" "0 < re_interval r" "re_interval r < 2 ^ 16"
    "re_frames r < 2 ^ 32" "length (re_checks r) < 2 ^ 32" "length (re_inputs r) = re_frames r * 2 * re_inputSize r"
    using assms by (simp_all add: replay_ok_def)
  have mag: "length replayMagic = 8" by (simp add: replayMagic_def)
  have hd: "b = replayMagic @ le_bytes 2 replayVersion @ le_bytes 2 (0 :: 16 word) @ re_identity r @
     le_bytes 2 (word_of_nat (re_inputSize r) :: 16 word) @ le_bytes 2 (word_of_nat (re_interval r) :: 16 word) @
     le_bytes 4 (word_of_nat (re_frames r) :: uint32) @ le_bytes 4 (word_of_nat (length (re_checks r)) :: uint32) @
     re_inputs r @ ck @ tr"
    by (simp add: b_def Marshal_def replay_body_def tr_def ck_def)
  have len: "length b = 56 + re_frames r * 2 * re_inputSize r + 12 * length (re_checks r) + 8"
    by (simp add: hd mag lck ok tr_def)
  have w: "unat (word_of_nat (re_inputSize r) :: 16 word) = re_inputSize r" "unat (word_of_nat (re_interval r) :: 16 word) = re_interval r"
    "unat (word_of_nat (re_frames r) :: uint32) = re_frames r"
    "unat (word_of_nat (length (re_checks r)) :: uint32) = length (re_checks r)"
    using ok by (simp_all add: unsigned_of_nat take_bit_nat_eq_self)
  have f: "take 8 b = replayMagic" "le_word (field 8 2 b) = replayVersion"
    "le_word (field 44 2 b) = (word_of_nat (re_inputSize r) :: 16 word)"
    "le_word (field 46 2 b) = (word_of_nat (re_interval r) :: 16 word)"
    "le_word (field 48 4 b) = (word_of_nat (re_frames r) :: uint32)"
    "le_word (field 52 4 b) = (word_of_nat (length (re_checks r)) :: uint32)"
    "field 12 32 b = re_identity r"
    by (simp_all add: hd mag ok)
  have inp: "field 56 (re_frames r * 2 * re_inputSize r) b = re_inputs r" by (simp add: hd mag ok)
  have split: "b = replay_body r @ tr" by (simp add: b_def Marshal_def tr_def)
  have "length b - 8 = length (replay_body r)" unfolding split by (simp add: tr_def)
  then have cs: "take (length b - 8) b = replay_body r" "drop (length b - 8) b = tr" unfolding split by simp_all
  have "le_word tr = (Checksum (replay_body r) :: uint64)" by (simp add: tr_def)
  then have trail: "le_word (drop (length b - 8) b) = Checksum (take (length b - 8) b)" by (simp only: cs)
  have at: "field (56 + re_frames r * 2 * re_inputSize r + i * 12) 12 b = put_check (re_checks r ! i)" if "i < length (re_checks r)" for i
    using checks_at [OF that, of tr] by (simp add: hd mag ok ck_def)
  have c: "\<lparr>rc_frame = le_word (field (56 + re_frames r * 2 * re_inputSize r + i * 12) 4 b),
      rc_sum = le_word (field (56 + re_frames r * 2 * re_inputSize r + i * 12 + 4) 8 b)\<rparr> = re_checks r ! i"
    if "i < length (re_checks r)" for i
    by (simp only: check_fields [OF at [OF that]] le_word_bytes4 le_word_bytes8, simp)
  have m: "List.map (\<lambda>i. \<lparr>rc_frame = le_word (field (56 + re_frames r * 2 * re_inputSize r + i * 12) 4 b),
      rc_sum = le_word (field (56 + re_frames r * 2 * re_inputSize r + i * 12 + 4) 8 b)\<rparr>) [0..<length (re_checks r)] = re_checks r"
  proof -
    have "List.map (\<lambda>i. \<lparr>rc_frame = le_word (field (56 + re_frames r * 2 * re_inputSize r + i * 12) 4 b),
        rc_sum = le_word (field (56 + re_frames r * 2 * re_inputSize r + i * 12 + 4) 8 b)\<rparr>) [0..<length (re_checks r)] =
      List.map (\<lambda>i. re_checks r ! i) [0..<length (re_checks r)]"
      by (rule map_cong [OF refl], rule c) simp
    then show ?thesis by (simp only: map_nth)
  qed
  have h: "replayHdr = 56" by (simp add: replayHdr_def)
  show ?thesis
    unfolding b_def [symmetric] UnmarshalReplay_def Let_def h f w inp trail m
    using len ok by simp
qed

lemma replay_roundtrip_witness:
  "UnmarshalReplay (Marshal \<lparr>re_identity = replicate 32 1, re_inputSize = 1, re_interval = 30, re_frames = 2,
     re_inputs = [1, 2, 3, 4], re_checks = [\<lparr>rc_frame = 1, rc_sum = 5\<rparr>]\<rparr>) =
   Inr \<lparr>re_identity = replicate 32 1, re_inputSize = 1, re_interval = 30, re_frames = 2,
     re_inputs = [1, 2, 3, 4], re_checks = [\<lparr>rc_frame = 1, rc_sum = 5\<rparr>]\<rparr>"
  by (rule replay_roundtrip) (simp add: replay_ok_def)

section \<open>What a verified replay shows\<close>

text \<open>The players' inputs of a recording, and the checks that its simulation confirms.\<close>

definition rec_input :: "'i codec \<Rightarrow> replay \<Rightarrow> nat \<Rightarrow> nat \<Rightarrow> 'i" where
  "rec_input D r player f = input_at D r (f * 2 * c_size D + player * c_size D)"

definition recorded :: "('i, 's) game \<Rightarrow> 's \<Rightarrow> 'i codec \<Rightarrow> replay \<Rightarrow> nat \<Rightarrow> 's" where
  "recorded G g0 D r f = sim G g0 (rec_input D r 0) (rec_input D r 1) f"

definition confirmed_check :: "('i, 's) game \<Rightarrow> 's \<Rightarrow> 'i codec \<Rightarrow> replay \<Rightarrow> replay_check \<Rightarrow> bool" where
  "confirmed_check G g0 D r c \<longleftrightarrow>
     rc_sum c = Checksum (g_save G (recorded G g0 D r (unat (rc_frame c))))"

lemma check_frame_Inr:
  "check_frame G st f cs = Inr rest \<Longrightarrow>
    \<exists>as. cs = as @ rest \<and> (\<forall>c \<in> set as. unat (rc_frame c) = f \<and> rc_sum c = Checksum (g_save G st))"
proof (induction cs)
  case (Cons c cs)
  show ?case
  proof (cases "unat (rc_frame c) = f")
    case True
    then have g: "rc_sum c = Checksum (g_save G st)" and r: "check_frame G st f cs = Inr rest"
      using Cons.prems by (auto simp: Let_def split: if_splits)
    then obtain as where "cs = as @ rest" "\<forall>c \<in> set as. unat (rc_frame c) = f \<and> rc_sum c = Checksum (g_save G st)"
      using Cons.IH by blast
    then show ?thesis using True g by (intro exI [of _ "c # as"]) simp
  next
    case False
    then show ?thesis using Cons.prems by simp
  qed
qed simp

lemma check_frame_pass:
  assumes "\<forall>c \<in> set as. unat (rc_frame c) = f \<and> rc_sum c = Checksum (g_save G st)"
    "\<forall>c \<in> set rest. unat (rc_frame c) \<noteq> f"
  shows "check_frame G st f (as @ rest) = Inr rest"
  using assms
proof (induction as)
  case Nil
  then show ?case by (cases rest) auto
qed (simp add: Let_def)

lemma recorded_step:
  "recorded G g0 D r (Suc f) =
    g_step G (input_at D r (f * 2 * c_size D)) (input_at D r (f * 2 * c_size D + c_size D)) (recorded G g0 D r f)"
  by (simp add: recorded_def rec_input_def)

lemma verify_step:
  "verify_loop G D r (Suc n) f (recorded G g0 D r f) cs =
    (case check_frame G (recorded G g0 D r (Suc f)) (Suc f) cs of
       Inl e \<Rightarrow> Inl e | Inr cs \<Rightarrow> verify_loop G D r n (Suc f) (recorded G g0 D r (Suc f)) cs)"
  unfolding recorded_step by (simp only: verify_loop.simps Let_def Suc_eq_plus1 [symmetric])

lemma verify_loop_sound:
  assumes "verify_loop G D r n f (recorded G g0 D r f) cs = Inr rest"
  shows "\<exists>as. cs = as @ rest \<and> sorted (List.map (\<lambda>c. unat (rc_frame c)) as) \<and>
    (\<forall>c \<in> set as. f < unat (rc_frame c) \<and> unat (rc_frame c) \<le> f + n \<and> confirmed_check G g0 D r c)"
  using assms
proof (induction n arbitrary: f cs)
  case (Suc n)
  let ?st = "recorded G g0 D r (Suc f)"
  obtain cs' where c: "check_frame G ?st (Suc f) cs = Inr cs'" "verify_loop G D r n (Suc f) ?st cs' = Inr rest"
    using Suc.prems unfolding verify_step by (auto split: sum.splits)
  obtain as where as: "cs = as @ cs'" "\<forall>c \<in> set as. unat (rc_frame c) = Suc f \<and> rc_sum c = Checksum (g_save G ?st)"
    using check_frame_Inr [OF c(1)] by blast
  obtain bs where bs: "cs' = bs @ rest" "sorted (List.map (\<lambda>c. unat (rc_frame c)) bs)"
    "\<forall>c \<in> set bs. Suc f < unat (rc_frame c) \<and> unat (rc_frame c) \<le> Suc f + n \<and> confirmed_check G g0 D r c"
    using Suc.IH [OF c(2)] by blast
  have all: "\<forall>c \<in> set as. unat (rc_frame c) = Suc f \<and> confirmed_check G g0 D r c"
    using as(2) by (auto simp: confirmed_check_def)
  have "sorted (List.map (\<lambda>c. unat (rc_frame c)) as)" using as(2) by (induction as) auto
  then have "sorted (List.map (\<lambda>c. unat (rc_frame c)) (as @ bs))"
    using bs(2,3) all by (fastforce simp: sorted_append)
  then show ?case using as(1) bs(1,3) all by (intro exI [of _ "as @ bs"]) auto
qed simp

lemma verify_loop_complete:
  assumes "sorted (List.map (\<lambda>c. unat (rc_frame c)) as)"
    "\<forall>c \<in> set as. f < unat (rc_frame c) \<and> unat (rc_frame c) \<le> f + n \<and> confirmed_check G g0 D r c"
    "\<forall>c \<in> set rest. f + n < unat (rc_frame c)"
  shows "verify_loop G D r n f (recorded G g0 D r f) (as @ rest) = Inr rest"
  using assms
proof (induction n arbitrary: f as)
  case 0
  then have "as = []" by (cases as) auto
  then show ?case by simp
next
  case (Suc n)
  let ?st = "recorded G g0 D r (Suc f)"
  define here where "here = takeWhile (\<lambda>c. unat (rc_frame c) = Suc f) as"
  define later where "later = dropWhile (\<lambda>c. unat (rc_frame c) = Suc f) as"
  have as: "as = here @ later" by (simp add: here_def later_def)
  have h: "\<forall>c \<in> set here. unat (rc_frame c) = Suc f" unfolding here_def by (auto dest: set_takeWhileD)
  have l: "\<forall>c \<in> set later. Suc f < unat (rc_frame c)"
  proof (cases later)
    case (Cons x xs)
    then have "unat (rc_frame x) \<noteq> Suc f" using hd_dropWhile [of "\<lambda>c. unat (rc_frame c) = Suc f" as] unfolding later_def by auto
    moreover have "f < unat (rc_frame x)" using Suc.prems(2) as Cons by auto
    moreover have "\<forall>c \<in> set xs. unat (rc_frame x) \<le> unat (rc_frame c)" using Suc.prems(1) unfolding as Cons by (auto simp: sorted_append)
    ultimately show ?thesis unfolding Cons by auto
  qed simp
  have "check_frame G ?st (Suc f) (here @ (later @ rest)) = Inr (later @ rest)"
  proof (rule check_frame_pass)
    show "\<forall>c \<in> set here. unat (rc_frame c) = Suc f \<and> rc_sum c = Checksum (g_save G ?st)"
      using h Suc.prems(2) as by (auto simp: confirmed_check_def)
    show "\<forall>c \<in> set (later @ rest). unat (rc_frame c) \<noteq> Suc f" using l Suc.prems(3) by fastforce
  qed
  moreover have "verify_loop G D r n (Suc f) ?st (later @ rest) = Inr rest"
    by (rule Suc.IH) (use Suc.prems as l in \<open>auto simp: sorted_append\<close>)
  ultimately show ?case unfolding verify_step by (simp add: as)
qed

lemma verify_iff:
  "VerifyReplay r ident G g0 D = None \<longleftrightarrow>
    re_identity r = ident \<and> re_inputSize r = c_size D \<and> length (re_inputs r) = re_frames r * 2 * c_size D \<and>
    (\<exists>as bs. re_checks r = as @ bs \<and> sorted (List.map (\<lambda>c. unat (rc_frame c)) as) \<and>
      (\<forall>c \<in> set as. 0 < unat (rc_frame c) \<and> unat (rc_frame c) \<le> re_frames r \<and> confirmed_check G g0 D r c) \<and>
      (\<forall>c \<in> set bs. re_frames r < unat (rc_frame c)))"
  (is "?lhs = (?i \<and> ?s \<and> ?n \<and> ?r)")
proof (cases "?i \<and> ?s \<and> ?n")
  case False
  then show ?thesis by (auto simp: VerifyReplay_def)
next
  case True
  let ?v = "verify_loop G D r (re_frames r) 0 g0 (re_checks r)"
  have g0: "recorded G g0 D r 0 = g0" by (simp add: recorded_def)
  have lhs: "?lhs \<longleftrightarrow> (\<exists>cs. ?v = Inr cs \<and> (\<forall>c \<in> set cs. re_frames r < unat (rc_frame c)))"
    using True by (auto simp: VerifyReplay_def list_all_iff split: sum.splits if_splits)
  have fwd: "?r" if "?v = Inr cs" "\<forall>c \<in> set cs. re_frames r < unat (rc_frame c)" for cs
    using verify_loop_sound [of G D r "re_frames r" 0 g0 "re_checks r" cs] that by (auto simp: g0)
  have bwd: "\<exists>cs. ?v = Inr cs \<and> (\<forall>c \<in> set cs. re_frames r < unat (rc_frame c))" if r: "?r"
  proof -
    obtain as bs where "re_checks r = as @ bs" "sorted (List.map (\<lambda>c. unat (rc_frame c)) as)"
      "\<forall>c \<in> set as. 0 < unat (rc_frame c) \<and> unat (rc_frame c) \<le> re_frames r \<and> confirmed_check G g0 D r c"
      "\<forall>c \<in> set bs. re_frames r < unat (rc_frame c)" using r by blast
    then show ?thesis using verify_loop_complete [of as 0 "re_frames r" G g0 D r bs] by (auto simp: g0)
  qed
  have "?lhs \<longleftrightarrow> ?r"
  proof
    assume "?lhs"
    then obtain cs where "?v = Inr cs" "\<forall>c \<in> set cs. re_frames r < unat (rc_frame c)" using lhs by blast
    then show "?r" by (rule fwd)
  next
    assume "?r"
    then show "?lhs" using bwd lhs by blast
  qed
  then show ?thesis by (simp only: True simp_thms)
qed

text \<open>C30. A replay verifies exactly when it was recorded under the identity and input size at hand and
  its checks are, in order of their frames, those of a simulation of the recorded inputs, followed by
  checks beyond the recorded frames only.\<close>

theorem verify_replay_exact:
  "VerifyReplay r ident G g0 D = None \<longleftrightarrow>
    re_identity r = ident \<and> re_inputSize r = c_size D \<and> length (re_inputs r) = re_frames r * 2 * c_size D \<and>
    (\<exists>as bs. re_checks r = as @ bs \<and> sorted (List.map (\<lambda>c. unat (rc_frame c)) as) \<and>
      (\<forall>c \<in> set as. 0 < unat (rc_frame c) \<and> unat (rc_frame c) \<le> re_frames r \<and> confirmed_check G g0 D r c) \<and>
      (\<forall>c \<in> set bs. re_frames r < unat (rc_frame c)))"
  by (rule verify_iff)

lemma verify_replay_exact_witness:
  "VerifyReplay \<lparr>re_identity = [1], re_inputSize = 1, re_interval = 1, re_frames = 1, re_inputs = [3, 4],
      re_checks = [\<lparr>rc_frame = 1, rc_sum = Checksum [7]\<rparr>]\<rparr> [1]
    \<lparr>g_step = (\<lambda>i j s. s + i + j), g_save = (\<lambda>s. [s]), g_load = (\<lambda>b. Some (hd b)), g_events = (\<lambda>s. [])\<rparr> (0 :: byte)
    \<lparr>c_size = 1, c_put = (\<lambda>i. [i]), c_get = hd\<rparr> = None"
  unfolding verify_replay_exact
  by (intro conjI exI [of _ "[\<lparr>rc_frame = 1, rc_sum = Checksum [7]\<rparr>]"] exI [of _ "[]"])
    (simp_all add: confirmed_check_def recorded_def rec_input_def input_at_def)

end
