(* ===== verification/Net_Relay.thy ===== *)
theory Net_Relay
  imports Net_Replay
begin

unbundle bit_operations_syntax

text \<open>
  \<^verbatim>\<open>netplay/relay.go\<close>: the relay between two sessions, which logs their inputs, simulates the
  confirmed ones with its own copy of the game, repairs a desync and streams the match to
  spectators. A \<^verbatim>\<open>[2]T\<close> array is a function of the player; each transport is the list of datagrams
  waiting and the list of datagrams sent. Frame numbers are \<open>nat\<close>.
\<close>

section \<open>State\<close>

definition ptSpectate :: byte where "ptSpectate = 6"
definition ptSpecAck :: byte where "ptSpecAck = 7"
definition EndDesync :: byte where "EndDesync = 1"
definition relayCPSlots :: nat where "relayCPSlots = 16"
definition specMaxHdr :: nat where "specMaxHdr = 16"

record ('i, 's) relaycfg =
  rl_game :: "('i, 's) game"
  rl_new :: 's
  rl_codec :: "'i codec"
  rl_identity :: "byte list"
  rl_interval :: int
  rl_frameDur :: int
  rl_catchUp :: int
  rl_specDelay :: int
  rl_lateSlack :: int
  rl_lateFlag :: int

record player_report =
  pr_inputDelay :: nat
  pr_framesLogged :: nat
  pr_lateInputs :: nat
  pr_maxLateness :: int
  pr_flagged :: bool
  pr_duplicates :: nat
  pr_conflicts :: nat

record relay_cp =
  yc_frame :: nat
  yc_sum :: uint64
  yc_valid :: bool
  yc_blob :: "byte list"

record relay_rep =
  yr_frame :: nat
  yr_sum :: uint64
  yr_epoch :: byte
  yr_valid :: bool
  yr_judged :: bool

record relay_resync =
  yz_active :: bool
  yz_epoch :: byte
  yz_frame :: nat
  yz_sum :: uint64
  yz_blob :: "byte list"
  yz_last :: int

record relay_spec =
  yp_next :: nat
  yp_last :: int
  yp_sent :: bool
  yp_in :: "byte list list"
  yp_out :: "byte list list"

record 's relay =
  y_log :: "nat \<Rightarrow> byte list"
  y_logN :: "nat \<Rightarrow> nat"
  y_first :: "nat \<Rightarrow> int"
  y_hasLog :: "nat \<Rightarrow> bool"
  y_delay :: "nat \<Rightarrow> nat"
  y_players :: "nat \<Rightarrow> player_report"
  y_gamest :: 's
  y_simFrame :: nat
  y_cps :: "relay_cp list"
  y_checks :: "replay_check list"
  y_reported :: "nat \<Rightarrow> relay_rep list"
  y_confirmedAt :: "int list"
  y_confN :: nat
  y_sentEpoch :: "nat \<Rightarrow> byte"
  y_ackedEpoch :: "nat \<Rightarrow> byte"
  y_rs :: "nat \<Rightarrow> relay_resync"
  y_desyncs :: "nat list"
  y_resyncs :: nat
  y_specs :: "relay_spec list"
  y_specVis :: nat
  y_ended :: bool
  y_endReason :: byte
  y_endRepeat :: nat
  y_in :: "nat \<Rightarrow> byte list list"
  y_out :: "nat \<Rightarrow> byte list list"

definition nz :: "int \<Rightarrow> int \<Rightarrow> int" where
  "nz d x = (if x = 0 then d else x)"

definition relayDefaults :: "('i, 's) relaycfg \<Rightarrow> ('i, 's) relaycfg" where
  "relayDefaults R = (let dur = nz (1000000000 div 60) (rl_frameDur R) in
     R\<lparr>rl_interval := nz 30 (rl_interval R), rl_frameDur := dur, rl_catchUp := nz 30 (rl_catchUp R),
       rl_specDelay := nz 3000000000 (rl_specDelay R), rl_lateSlack := nz (2 * dur) (rl_lateSlack R),
       rl_lateFlag := nz 10 (rl_lateFlag R)\<rparr>)"

definition noReport :: player_report where
  "noReport = \<lparr>pr_inputDelay = 0, pr_framesLogged = 0, pr_lateInputs = 0, pr_maxLateness = 0, pr_flagged = False,
     pr_duplicates = 0, pr_conflicts = 0\<rparr>"

definition relay0 :: "('i, 's) relaycfg \<Rightarrow> 's relay" where
  "relay0 R = \<lparr>y_log = (\<lambda>_. []), y_logN = (\<lambda>_. 0), y_first = (\<lambda>_. 0), y_hasLog = (\<lambda>_. False), y_delay = (\<lambda>_. 0),
     y_players = (\<lambda>_. noReport), y_gamest = rl_new R, y_simFrame = 0,
     y_cps = replicate relayCPSlots \<lparr>yc_frame = 0, yc_sum = 0, yc_valid = False, yc_blob = []\<rparr>, y_checks = [],
     y_reported = (\<lambda>_. replicate relayCPSlots \<lparr>yr_frame = 0, yr_sum = 0, yr_epoch = 0, yr_valid = False, yr_judged = False\<rparr>),
     y_confirmedAt = [], y_confN = 0, y_sentEpoch = (\<lambda>_. 0), y_ackedEpoch = (\<lambda>_. 0),
     y_rs = (\<lambda>_. \<lparr>yz_active = False, yz_epoch = 0, yz_frame = 0, yz_sum = 0, yz_blob = [], yz_last = 0\<rparr>),
     y_desyncs = [], y_resyncs = 0, y_specs = [], y_specVis = 0, y_ended = False, y_endReason = 0, y_endRepeat = 0,
     y_in = (\<lambda>_. []), y_out = (\<lambda>_. [])\<rparr>"

definition NewRelay :: "('i, 's) relaycfg \<Rightarrow> ('i, 's) relaycfg \<times> 's relay" where
  "NewRelay R = (let R = relayDefaults R in (R, relay0 R))"

definition AddSpectator :: "'s relay \<Rightarrow> 's relay" where
  "AddSpectator r = r\<lparr>y_specs := y_specs r @ [\<lparr>yp_next = 0, yp_last = 0, yp_sent = False, yp_in = [], yp_out = []\<rparr>]\<rparr>"

definition relay_k :: "('i, 's) relaycfg \<Rightarrow> nat" where "relay_k R = nat (rl_interval R)"
definition relay_isz :: "('i, 's) relaycfg \<Rightarrow> nat" where "relay_isz R = c_size (rl_codec R)"
definition relay_tag :: "('i, 's) relaycfg \<Rightarrow> uint64" where "relay_tag R = idTag (rl_identity R)"

definition relay_send :: "nat \<Rightarrow> byte list \<Rightarrow> 's relay \<Rightarrow> 's relay" where
  "relay_send p b r = r\<lparr>y_out := (y_out r)(p := y_out r p @ [b])\<rparr>"

section \<open>Logging inputs\<close>

text \<open>The input of a player for a frame, as logged.\<close>

definition logged :: "('i, 's) relaycfg \<Rightarrow> 's relay \<Rightarrow> nat \<Rightarrow> nat \<Rightarrow> byte list" where
  "logged R r p f = field (f * relay_isz R) (relay_isz R) (y_log r p)"

definition noteLateness :: "('i, 's) relaycfg \<Rightarrow> int \<Rightarrow> nat \<Rightarrow> nat \<Rightarrow> nat \<Rightarrow> 's relay \<Rightarrow> 's relay" where
  "noteLateness R now p q f r =
     (let due = y_first r p + int (f + y_delay r p) * rl_frameDur R + rl_lateSlack R; late = now - due in
      if late \<le> 0 \<or> y_logN r q \<le> f then r
      else
        let pr = y_players r p; n = pr_lateInputs pr + 1;
            pr = pr\<lparr>pr_lateInputs := n, pr_maxLateness := (if late > pr_maxLateness pr then late else pr_maxLateness pr),
                    pr_flagged := (pr_flagged pr \<or> int n \<ge> rl_lateFlag R)\<rparr>
        in r\<lparr>y_players := (y_players r)(p := pr)\<rparr>)"

definition log_entry :: "('i, 's) relaycfg \<Rightarrow> int \<Rightarrow> nat \<Rightarrow> nat \<Rightarrow> byte list \<Rightarrow> 's relay \<Rightarrow> 's relay" where
  "log_entry R now p f raw r =
     (if f < y_logN r p then
        let pr = y_players r p; pr = pr\<lparr>pr_duplicates := pr_duplicates pr + 1\<rparr>;
            pr = (if logged R r p f \<noteq> raw then pr\<lparr>pr_conflicts := pr_conflicts pr + 1\<rparr> else pr)
        in r\<lparr>y_players := (y_players r)(p := pr)\<rparr>
      else if f = y_logN r p then
        let r = (if \<not> y_hasLog r p then r\<lparr>y_hasLog := (y_hasLog r)(p := True), y_first := (y_first r)(p := now)\<rparr> else r);
            r = r\<lparr>y_log := (y_log r)(p := y_log r p @ raw), y_logN := (y_logN r)(p := y_logN r p + 1)\<rparr>
        in noteLateness R now p (1 - p) f r
      else r)"

text \<open>The frames that became confirmed, with the time.\<close>

definition confirm :: "int \<Rightarrow> 's relay \<Rightarrow> 's relay" where
  "confirm now r = (let m = min (y_logN r 0) (y_logN r 1) in
     if y_confN r < m then r\<lparr>y_confirmedAt := y_confirmedAt r @ replicate (m - y_confN r) now, y_confN := m\<rparr> else r)"

definition logInputs :: "('i, 's) relaycfg \<Rightarrow> int \<Rightarrow> nat \<Rightarrow> inputPkt \<Rightarrow> 's relay \<Rightarrow> 's relay" where
  "logInputs R now p k r =
     (let d = h_delay (ip_header k);
          r = (if d \<noteq> delayAuto
               then r\<lparr>y_delay := (y_delay r)(p := unat d), y_players := (y_players r)(p := (y_players r p)\<lparr>pr_inputDelay := unat d\<rparr>)\<rparr>
               else r);
          r = fold (\<lambda>i. log_entry R now p (unat (ip_start k) + i) (entry_at (relay_isz R) k i)) [0..<ip_count k] r
      in confirm now r)"

section \<open>Judging checksums\<close>

definition endMatch :: "('i, 's) relaycfg \<Rightarrow> byte \<Rightarrow> 's relay \<Rightarrow> 's relay" where
  "endMatch R reason r =
     (let r = r\<lparr>y_ended := True, y_endReason := reason, y_endRepeat := 10,
                y_rs := (y_rs r)(0 := (y_rs r 0)\<lparr>yz_active := False\<rparr>, 1 := (y_rs r 1)\<lparr>yz_active := False\<rparr>)\<rparr>;
          b = putSmall ptEnd (relay_tag R) reason 0
      in relay_send 1 b (relay_send 0 b r))"

definition relay_judge :: "('i, 's) relaycfg \<Rightarrow> int \<Rightarrow> nat \<Rightarrow> nat \<Rightarrow> 's relay \<Rightarrow> 's relay" where
  "relay_judge R now p f r =
     (let i = f div relay_k R mod relayCPSlots; c = y_cps r ! i; rep = y_reported r p ! i in
      if \<not> yc_valid c \<or> yc_frame c \<noteq> f \<or> \<not> yr_valid rep \<or> yr_frame rep \<noteq> f \<or> yr_judged rep then r
      else if y_sentEpoch r p \<noteq> y_ackedEpoch r p \<or> yr_epoch rep \<noteq> y_ackedEpoch r p then r
      else
        let r = r\<lparr>y_reported := (y_reported r)(p := (y_reported r p)[i := rep\<lparr>yr_judged := True\<rparr>])\<rparr> in
        if yr_sum rep = yc_sum c then r
        else
          let r = (if f \<in> set (y_desyncs r) then r else r\<lparr>y_desyncs := y_desyncs r @ [f]\<rparr>) in
          if length (y_desyncs r) \<ge> 2 then endMatch R EndDesync r
          else
            let e = y_sentEpoch r p + 1 in
            r\<lparr>y_sentEpoch := (y_sentEpoch r)(p := e),
              y_rs := (y_rs r)(p := \<lparr>yz_active = True, yz_epoch = e, yz_frame = f, yz_sum = yc_sum c, yz_blob = yc_blob c,
                                    yz_last = now - rl_frameDur R\<rparr>)\<rparr>)"

definition onReport :: "('i, 's) relaycfg \<Rightarrow> int \<Rightarrow> nat \<Rightarrow> sumEntry \<Rightarrow> 's relay \<Rightarrow> 's relay" where
  "onReport R now p e r =
     (let f = unat (se_frame e) in
      if f = 0 \<or> f mod relay_k R \<noteq> 0 then r
      else
        let i = f div relay_k R mod relayCPSlots; rep = y_reported r p ! i in
        if yr_valid rep \<and> yr_frame rep = f \<and> yr_epoch rep = se_epoch e then r
        else relay_judge R now p f (r\<lparr>y_reported := (y_reported r)(p := (y_reported r p)[i :=
          \<lparr>yr_frame = f, yr_sum = se_sum e, yr_epoch = se_epoch e, yr_valid = True, yr_judged = False\<rparr>])\<rparr>))"

section \<open>The native copy\<close>

definition saveCP :: "('i, 's) relaycfg \<Rightarrow> int \<Rightarrow> nat \<Rightarrow> 's relay \<Rightarrow> 's relay" where
  "saveCP R now f r =
     (let blob = g_save (rl_game R) (y_gamest r); sum = Checksum blob;
          r = r\<lparr>y_cps := (y_cps r)[f div relay_k R mod relayCPSlots :=
                  \<lparr>yc_frame = f, yc_sum = sum, yc_valid = True, yc_blob = blob\<rparr>],
                y_checks := y_checks r @ [\<lparr>rc_frame = word_of_nat f, rc_sum = sum\<rparr>]\<rparr>
      in relay_judge R now 1 f (relay_judge R now 0 f r))"

definition native_step :: "('i, 's) relaycfg \<Rightarrow> 's relay \<Rightarrow> 's relay" where
  "native_step R r =
     (let f = y_simFrame r; get = (\<lambda>p. c_get (rl_codec R) (drop (f * relay_isz R) (y_log r p)))
      in r\<lparr>y_gamest := g_step (rl_game R) (get 0) (get 1) (y_gamest r), y_simFrame := f + 1\<rparr>)"

fun simulate_loop :: "nat \<Rightarrow> ('i, 's) relaycfg \<Rightarrow> int \<Rightarrow> nat \<Rightarrow> 's relay \<Rightarrow> 's relay" where
  "simulate_loop 0 R now confirmed r = r"
| "simulate_loop (Suc n) R now confirmed r =
     (if y_simFrame r < confirmed then
        let r = native_step R r; r = (if y_simFrame r mod relay_k R = 0 then saveCP R now (y_simFrame r) r else r)
        in if y_ended r then r else simulate_loop n R now confirmed r
      else r)"

definition simulate :: "('i, 's) relaycfg \<Rightarrow> int \<Rightarrow> 's relay \<Rightarrow> 's relay" where
  "simulate R now r =
     (let confirmed = (if y_logN r 1 < y_logN r 0 then y_logN r 1 else y_logN r 0)
      in simulate_loop (nat (rl_catchUp R)) R now confirmed r)"

section \<open>Datagrams\<close>

definition relay_ack :: "nat \<Rightarrow> byte \<Rightarrow> 's relay \<Rightarrow> 's relay" where
  "relay_ack p epoch r =
     r\<lparr>y_rs := (y_rs r)(p := (y_rs r p)\<lparr>yz_active := False\<rparr>), y_ackedEpoch := (y_ackedEpoch r)(p := epoch),
       y_resyncs := y_resyncs r + 1,
       y_reported := (y_reported r)(p := List.map (\<lambda>x. x\<lparr>yr_valid := False\<rparr>) (y_reported r p))\<rparr>"

definition relay_handle :: "('i, 's) relaycfg \<Rightarrow> int \<Rightarrow> nat \<Rightarrow> byte list \<Rightarrow> 's relay \<Rightarrow> 's relay" where
  "relay_handle R now p b r =
     (if length b < 2 \<or> b ! 0 \<noteq> protoVersion then r
      else if b ! 1 = ptHello then
        (if length b \<noteq> helloLen \<or> drop 29 b \<noteq> rl_identity R then r else relay_send (1 - p) b r)
      else if b ! 1 = ptInput then
        (case parseInput b (relay_isz R) of
           None \<Rightarrow> r
         | Some (k, tag) \<Rightarrow>
             if tag \<noteq> relay_tag R then r
             else relay_send (1 - p) b (fold (onReport R now p) (ip_sums k) (logInputs R now p k r)))
      else if b ! 1 = ptResyncAck then
        (case parseSmall b ptResyncAck of
           None \<Rightarrow> r
         | Some (tag, epoch, v2) \<Rightarrow>
             if tag = relay_tag R \<and> yz_active (y_rs r p) \<and> epoch = yz_epoch (y_rs r p) then relay_ack p epoch r else r)
      else r)"

fun relay_poll :: "nat \<Rightarrow> ('i, 's) relaycfg \<Rightarrow> int \<Rightarrow> nat \<Rightarrow> 's relay \<Rightarrow> 's relay" where
  "relay_poll 0 R now p r = r"
| "relay_poll (Suc n) R now p r =
     (case y_in r p of
        [] \<Rightarrow> r
      | m # ms \<Rightarrow>
          let r = relay_handle R now p (take maxPacketSize m) (r\<lparr>y_in := (y_in r)(p := ms)\<rparr>) in
          if y_ended r then r else relay_poll n R now p r)"

text \<open>The fragments of a pending blob.\<close>

definition fragments :: "('i, 's) relaycfg \<Rightarrow> relay_resync \<Rightarrow> byte list list" where
  "fragments R z =
     List.map (\<lambda>i. let ofs = i * resyncChunk in
         putResync (relay_tag R) \<lparr>rp_epoch = yz_epoch z, rp_frame = word_of_nat (yz_frame z),
           rp_total = word_of_nat (length (yz_blob z)), rp_offset = word_of_nat ofs, rp_sum = Checksum (yz_blob z),
           rp_data = take resyncChunk (drop ofs (yz_blob z))\<rparr>)
       [0..<(length (yz_blob z) + resyncChunk - 1) div resyncChunk]"

definition sendResync :: "('i, 's) relaycfg \<Rightarrow> int \<Rightarrow> nat \<Rightarrow> 's relay \<Rightarrow> 's relay" where
  "sendResync R now p r =
     (let z = y_rs r p in
      if \<not> yz_active z \<or> now - yz_last z < rl_frameDur R then r
      else fold (relay_send p) (fragments R z) (r\<lparr>y_rs := (y_rs r)(p := z\<lparr>yz_last := now\<rparr>)\<rparr>))"

section \<open>Spectators\<close>

text \<open>At most 64 acknowledgements of one spectator in a tick.\<close>

definition spec_acks :: "('i, 's) relaycfg \<Rightarrow> relay_spec \<Rightarrow> relay_spec" where
  "spec_acks R s =
     (let ack = (\<lambda>m s. case parseSmall (take maxPacketSize m) ptSpecAck of
            None \<Rightarrow> s
          | Some (tag, v1, next) \<Rightarrow> if tag = relay_tag R \<and> unat next > yp_next s then s\<lparr>yp_next := unat next\<rparr> else s)
      in fold ack (take 64 (yp_in s)) (s\<lparr>yp_in := drop 64 (yp_in s)\<rparr>))"

definition stream :: "('i, 's) relaycfg \<Rightarrow> 's relay \<Rightarrow> nat \<Rightarrow> nat \<Rightarrow> byte list" where
  "stream R r start count =
     [protoVersion, ptSpectate] @ le_bytes 8 (relay_tag R) @ le_bytes 4 (word_of_nat start :: uint32) @
     le_bytes 2 (word_of_nat count :: 16 word) @
     concat (List.map (\<lambda>i. logged R r 0 (start + i) @ logged R r 1 (start + i)) [0..<count])"

definition serve :: "('i, 's) relaycfg \<Rightarrow> int \<Rightarrow> 's relay \<Rightarrow> relay_spec \<Rightarrow> relay_spec" where
  "serve R now r s =
     (let s = spec_acks R s in
      if yp_next s \<ge> y_specVis r \<or> yp_sent s \<and> now - yp_last s < rl_frameDur R then s
      else
        let per = (maxPacketSize - specMaxHdr) div (2 * relay_isz R); count = y_specVis r - yp_next s;
            count = (if count > per then per else count)
        in s\<lparr>yp_sent := True, yp_last := now, yp_out := yp_out s @ [stream R r (yp_next s) count]\<rparr>)"

definition serveSpectators :: "('i, 's) relaycfg \<Rightarrow> int \<Rightarrow> 's relay \<Rightarrow> 's relay" where
  "serveSpectators R now r =
     (let seen = takeWhile (\<lambda>t. t + rl_specDelay R \<le> now) (drop (y_specVis r) (take (y_confN r) (y_confirmedAt r)));
          r = r\<lparr>y_specVis := y_specVis r + length seen\<rparr>
      in r\<lparr>y_specs := List.map (serve R now r) (y_specs r)\<rparr>)"

section \<open>A tick, reports and replays\<close>

definition relay_Tick :: "('i, 's) relaycfg \<Rightarrow> int \<Rightarrow> 's relay \<Rightarrow> 's relay" where
  "relay_Tick R now r =
     (if y_ended r then
        (if y_endRepeat r > 0 then
           let b = putSmall ptEnd (relay_tag R) (y_endReason r) 0
           in relay_send 1 b (relay_send 0 b (r\<lparr>y_endRepeat := y_endRepeat r - 1\<rparr>))
         else r)
      else
        let r = relay_poll 512 R now 0 r in
        if y_ended r then r
        else
          let r = relay_poll 512 R now 1 r in
          if y_ended r then r
          else serveSpectators R now (sendResync R now 1 (sendResync R now 0 (simulate R now r))))"

definition relay_Replay :: "('i, 's) relaycfg \<Rightarrow> 's relay \<Rightarrow> replay" where
  "relay_Replay R r =
     (let n = y_confN r in
      \<lparr>re_identity = rl_identity R, re_inputSize = relay_isz R, re_interval = relay_k R, re_frames = n,
       re_inputs = concat (List.map (\<lambda>f. logged R r 0 f @ logged R r 1 f) [0..<n]),
       re_checks = filter (\<lambda>c. unat (rc_frame c) \<le> n) (y_checks r)\<rparr>)"

record match_report =
  mr_identity :: "byte list"
  mr_confirmed :: nat
  mr_verified :: nat
  mr_players :: "nat \<Rightarrow> player_report"
  mr_desyncs :: "nat list"
  mr_resyncs :: nat
  mr_ended :: bool
  mr_endReason :: byte
  mr_replay :: "replay option"

definition Report :: "('i, 's) relaycfg \<Rightarrow> 's relay \<Rightarrow> match_report" where
  "Report R r =
     \<lparr>mr_identity = rl_identity R, mr_confirmed = y_confN r, mr_verified = y_simFrame r,
      mr_players = (\<lambda>p. (y_players r p)\<lparr>pr_framesLogged := y_logN r p\<rparr>), mr_desyncs = y_desyncs r,
      mr_resyncs = y_resyncs r, mr_ended = y_ended r, mr_endReason = y_endReason r,
      mr_replay = (if y_ended r \<and> y_endReason r = EndDesync then Some (relay_Replay R r) else None)\<rparr>"

end
