(* ===== verification/Net_Relay_Log.thy ===== *)
theory Net_Relay_Log
  imports Net_Relay
begin

text \<open>
  What the relay's log shows: whatever the two peers send, the relay's native copy is the
  simulation of the inputs it logged, its checkpoints are those of that simulation, and so the
  replay it attaches to a match report verifies.
\<close>

section \<open>The invariant of the log\<close>

text \<open>What the code relies on: \<open>Get\<close> reads the first \<open>Size()\<close> bytes of its slice.\<close>

definition reads_prefix :: "'i codec \<Rightarrow> bool" where
  "reads_prefix D \<longleftrightarrow> (\<forall>b. c_get D (take (c_size D) b) = c_get D b)"

definition log_input :: "('i, 's) relaycfg \<Rightarrow> 's relay \<Rightarrow> nat \<Rightarrow> nat \<Rightarrow> 'i" where
  "log_input R r p f = c_get (rl_codec R) (logged R r p f)"

definition log_sim :: "('i, 's) relaycfg \<Rightarrow> 's relay \<Rightarrow> nat \<Rightarrow> 's" where
  "log_sim R r f = sim (rl_game R) (rl_new R) (log_input R r 0) (log_input R r 1) f"

definition due_checks :: "('i, 's) relaycfg \<Rightarrow> 's relay \<Rightarrow> nat \<Rightarrow> replay_check list" where
  "due_checks R r n = List.map (\<lambda>j. \<lparr>rc_frame = word_of_nat (j * relay_k R),
     rc_sum = Checksum (g_save (rl_game R) (log_sim R r (j * relay_k R)))\<rparr>) [1..<n div relay_k R + 1]"

definition log_ok :: "('i, 's) relaycfg \<Rightarrow> 's relay \<Rightarrow> bool" where
  "log_ok R r \<longleftrightarrow> (\<forall>p \<in> {0, 1}. length (y_log r p) = y_logN r p * relay_isz R) \<and>
     y_confN r \<le> y_logN r 0 \<and> y_confN r \<le> y_logN r 1 \<and> y_simFrame r \<le> min (y_logN r 0) (y_logN r 1) \<and>
     y_gamest r = log_sim R r (y_simFrame r) \<and> y_checks r = due_checks R r (y_simFrame r)"

text \<open>The fields it rests on.\<close>

definition log_of :: "'s relay \<Rightarrow> ((nat \<Rightarrow> byte list) \<times> (nat \<Rightarrow> nat)) \<times> nat \<times> ('s \<times> nat \<times> replay_check list)" where
  "log_of r = ((y_log r, y_logN r), y_confN r, (y_gamest r, y_simFrame r, y_checks r))"

lemma log_same:
  assumes "log_of t = log_of r"
  shows "log_ok R t = log_ok R r" "y_simFrame t = y_simFrame r" "y_confN t = y_confN r" "y_logN t = y_logN r"
proof -
  have e: "y_log t = y_log r" "y_logN t = y_logN r" "y_confN t = y_confN r" "y_gamest t = y_gamest r"
    "y_simFrame t = y_simFrame r" "y_checks t = y_checks r"
    using assms by (simp_all add: log_of_def)
  have i: "log_input R t p f = log_input R r p f" for p f by (simp add: log_input_def logged_def e)
  then have "log_sim R t f = log_sim R r f" for f unfolding log_sim_def by (intro sim_cong) simp
  then have "due_checks R t n = due_checks R r n" for n by (simp add: due_checks_def)
  then show "log_ok R t = log_ok R r" "y_simFrame t = y_simFrame r" "y_confN t = y_confN r" "y_logN t = y_logN r"
    using \<open>log_sim R t _ = _\<close> by (simp_all add: log_ok_def e log_sim_def i)
qed

lemma log_simps [simp]:
  "log_of (relay_send p b r) = log_of r" "log_of (endMatch R e r) = log_of r" "log_of (relay_judge R now p f r) = log_of r"
  "log_of (noteLateness R now p q f r) = log_of r" "log_of (relay_ack p ep r) = log_of r" "log_of (serveSpectators R now r) = log_of r"
  by (simp_all add: log_of_def relay_send_def endMatch_def relay_judge_def noteLateness_def relay_ack_def serveSpectators_def Let_def)

lemma log_onReport [simp]: "log_of (onReport R now p e r) = log_of r"
proof -
  have "log_of (r\<lparr>y_reported := x\<rparr>) = log_of r" for x by (simp add: log_of_def)
  then show ?thesis by (simp add: onReport_def Let_def)
qed

lemma log_fold: "(\<And>x r. log_of (f x r) = log_of r) \<Longrightarrow> log_of (fold f xs r) = log_of r"
  by (induction xs arbitrary: r) auto

lemma log_sendResync [simp]: "log_of (sendResync R now p r) = log_of r"
proof -
  have "log_of (r\<lparr>y_rs := x\<rparr>) = log_of r" for x by (simp add: log_of_def)
  then show ?thesis by (simp add: sendResync_def Let_def log_fold)
qed

section \<open>Logging keeps the past\<close>

lemma log_sim_cong:
  assumes "\<And>f. f < n \<Longrightarrow> logged R t 0 f = logged R r 0 f" "\<And>f. f < n \<Longrightarrow> logged R t 1 f = logged R r 1 f" "m \<le> n"
  shows "log_sim R t m = log_sim R r m" "due_checks R t m = due_checks R r m"
proof -
  have s: "log_sim R t i = log_sim R r i" if "i \<le> n" for i
    unfolding log_sim_def by (rule sim_cong) (use assms(1,2) that in \<open>simp add: log_input_def\<close>)
  then show "log_sim R t m = log_sim R r m" using assms(3) by simp
  have "j * relay_k R \<le> n" if "j < m div relay_k R + 1" for j
  proof -
    have "j * relay_k R \<le> m div relay_k R * relay_k R" using that by (intro mult_le_mono1) simp
    also have "\<dots> \<le> n" using assms(3) by (meson div_times_less_eq_dividend order_trans)
    finally show ?thesis .
  qed
  then show "due_checks R t m = due_checks R r m" unfolding due_checks_def by (auto simp: s)
qed

lemma field_append: "i + n \<le> length xs \<Longrightarrow> field i n (xs @ ys) = field i n xs"
  by (simp add: field_def)

lemma log_entry_ok:
  assumes r: "log_ok R r" and p: "p \<in> {0, 1}" and raw: "length raw = relay_isz R"
  shows "log_ok R (log_entry R now p f raw r) \<and> y_confN (log_entry R now p f raw r) = y_confN r"
proof -
  consider (old) "f < y_logN r p" | (new) "f = y_logN r p" | (gap) "f > y_logN r p" by linarith
  then show ?thesis
  proof cases
    case old
    then have "log_of (log_entry R now p f raw r) = log_of r" by (simp add: log_entry_def log_of_def Let_def)
    then show ?thesis using r log_same by metis
  next
    case gap
    then show ?thesis using r by (simp add: log_entry_def)
  next
    case new
    define s where "s = (if \<not> y_hasLog r p then r\<lparr>y_hasLog := (y_hasLog r)(p := True), y_first := (y_first r)(p := now)\<rparr> else r)"
    have s: "y_log s = y_log r" "y_logN s = y_logN r" "y_confN s = y_confN r" "y_simFrame s = y_simFrame r"
      "y_gamest s = y_gamest r" "y_checks s = y_checks r" by (simp_all add: s_def)
    define t where "t = s\<lparr>y_log := (y_log r)(p := y_log r p @ raw), y_logN := (y_logN r)(p := y_logN r p + 1)\<rparr>"
    have e: "log_entry R now p f raw r = noteLateness R now p (1 - p) f t"
      using new by (simp add: log_entry_def Let_def s_def [symmetric] s t_def)
    let ?n = "min (y_logN r 0) (y_logN r 1)"
    have len: "length (y_log r q) = y_logN r q * relay_isz R" if "q \<in> {0, 1}" for q using r that by (auto simp: log_ok_def)
    have same: "logged R t q i = logged R r q i" if "i < ?n" "q \<in> {0, 1}" for q i
    proof -
      have "i + 1 \<le> y_logN r q" using that by auto
      then have "(i + 1) * relay_isz R \<le> length (y_log r q)" using len [OF that(2)] by (metis mult_le_mono1)
      then have "i * relay_isz R + relay_isz R \<le> length (y_log r q)" by simp
      then show ?thesis unfolding logged_def t_def by (auto intro: field_append)
    qed
    note c = log_sim_cong [of ?n R t r "y_simFrame r", OF same same]
    have sf: "y_simFrame r \<le> ?n" using r by (simp add: log_ok_def)
    have lt: "length (y_log t q) = y_logN t q * relay_isz R" if "q \<in> {0, 1}" for q
      using len [OF that] raw by (auto simp: t_def)
    have "log_ok R t"
      unfolding log_ok_def using r lt c sf
      by (auto simp: t_def s log_ok_def)
    moreover have "y_confN t = y_confN r" by (simp add: t_def s)
    ultimately show ?thesis unfolding e by (simp only: log_same [OF log_simps(4)])
  qed
qed

lemma log_entries_ok:
  assumes "log_ok R r" "p \<in> {0, 1}" "\<And>i. i \<in> set xs \<Longrightarrow> length (raw i) = relay_isz R"
  shows "log_ok R (fold (\<lambda>i. log_entry R now p (pos i) (raw i)) xs r)"
  using assms(1,3)
proof (induction xs arbitrary: r)
  case (Cons x xs)
  then show ?case using log_entry_ok [OF Cons.prems(1) assms(2), of "raw x" now "pos x"] by simp
qed simp

text \<open>All of the frames that both players entered are confirmed, at the end of a datagram.\<close>

definition conf_ok :: "'s relay \<Rightarrow> bool" where
  "conf_ok r \<longleftrightarrow> y_confN r = min (y_logN r 0) (y_logN r 1)"

lemma confirm_ok:
  assumes "log_ok R r"
  shows "log_ok R (confirm now r) \<and> conf_ok (confirm now r)"
proof (cases "y_confN r < min (y_logN r 0) (y_logN r 1)")
  case True
  let ?m = "min (y_logN r 0) (y_logN r 1)"
  define t where "t = r\<lparr>y_confirmedAt := y_confirmedAt r @ replicate (?m - y_confN r) now, y_confN := ?m\<rparr>"
  have e: "confirm now r = t" using True by (simp add: confirm_def Let_def t_def)
  have l: "logged R t p f = logged R r p f" for p f by (simp add: t_def logged_def)
  have c: "log_sim R t m = log_sim R r m \<and> due_checks R t m = due_checks R r m" for m
    using log_sim_cong [of m R t r m] by (simp add: l)
  have "log_ok R t" using assms c by (auto simp: log_ok_def t_def)
  then show ?thesis unfolding e by (simp add: conf_ok_def t_def)
next
  case False
  then show ?thesis using assms by (auto simp: confirm_def conf_ok_def log_ok_def Let_def)
qed

lemma logInputs_ok:
  assumes r: "log_ok R r" and p: "p \<in> {0, 1}" and k: "length (ip_entries k) = ip_count k * relay_isz R"
  shows "log_ok R (logInputs R now p k r) \<and> conf_ok (logInputs R now p k r)"
proof -
  define s where "s = (if h_delay (ip_header k) \<noteq> delayAuto
    then r\<lparr>y_delay := (y_delay r)(p := unat (h_delay (ip_header k))),
      y_players := (y_players r)(p := (y_players r p)\<lparr>pr_inputDelay := unat (h_delay (ip_header k))\<rparr>)\<rparr> else r)"
  have s: "log_ok R s" using r log_same(1) [of s r R] by (simp add: s_def log_of_def)
  have raw: "length (entry_at (relay_isz R) k i) = relay_isz R" if "i \<in> set [0..<ip_count k]" for i
  proof -
    have "(i + 1) * relay_isz R \<le> ip_count k * relay_isz R" using that by (intro mult_le_mono1) simp
    then have "i * relay_isz R + relay_isz R \<le> length (ip_entries k)" using k by simp
    then show ?thesis by (simp add: entry_at_def field_def)
  qed
  show ?thesis
    unfolding logInputs_def Let_def s_def [symmetric] using log_entries_ok [OF s p raw] by (intro confirm_ok)
qed

lemma parseInput_entries:
  assumes "parseInput b n = Some (k, tag)"
  shows "length (ip_entries k) = ip_count k * n"
proof -
  define count where "count = unat (le_word (field 40 2 b) :: 16 word)"
  define m where "m = unat (b ! 42)"
  have "length b = inputHdr + count * n + m * sumLen \<and> ip_entries k = field inputHdr (count * n) b \<and> ip_count k = count"
    using assms unfolding parseInput_def Let_def count_def [symmetric] m_def [symmetric]
    by (simp split: if_splits) (metis inputPkt.select_convs(5,6))
  then show ?thesis by (simp add: field_def)
qed

lemma conf_same: "log_of t = log_of r \<Longrightarrow> conf_ok t = conf_ok r"
  by (simp add: conf_ok_def log_of_def)

text \<open>Two relays with the same log: the second is as good as the first.\<close>

definition relay_ok :: "('i, 's) relaycfg \<Rightarrow> 's relay \<Rightarrow> bool" where
  "relay_ok R r \<longleftrightarrow> log_ok R r \<and> conf_ok r"

lemma relay_ok_same: "log_of t = log_of u \<Longrightarrow> relay_ok R t = relay_ok R u"
  unfolding relay_ok_def by (metis log_same(1) conf_same)

lemma relay_ok_send: "relay_ok R r \<Longrightarrow> relay_ok R (relay_send q b r)"
  using relay_ok_same [OF log_simps(1)] by blast

lemma relay_ok_ack: "relay_ok R r \<Longrightarrow> relay_ok R (relay_ack p e r)"
  using relay_ok_same [OF log_simps(5)] by blast

lemma handle_input_ok:
  assumes r: "relay_ok R r" and p: "p \<in> {0, 1}" and k: "parseInput b (relay_isz R) = Some (k, tag)"
  shows "relay_ok R (relay_send q b (fold (onReport R now p) (ip_sums k) (logInputs R now p k r)))"
proof -
  have "relay_ok R (logInputs R now p k r)"
    using logInputs_ok [OF _ p parseInput_entries [OF k]] r by (simp add: relay_ok_def)
  moreover have "log_of (fold (onReport R now p) (ip_sums k) (logInputs R now p k r)) = log_of (logInputs R now p k r)"
    by (rule log_fold) (rule log_onReport)
  ultimately show ?thesis using relay_ok_same relay_ok_send by blast
qed

lemma relay_handle_ok:
  assumes r: "relay_ok R r" and p: "p \<in> {0, 1}"
  shows "relay_ok R (relay_handle R now p b r)"
proof (cases "parseInput b (relay_isz R)")
  case None
  then show ?thesis unfolding relay_handle_def
    by (simp add: r relay_ok_send relay_ok_ack split: option.split prod.split)
next
  case (Some x)
  obtain k tag where x: "x = (k, tag)" by (cases x)
  show ?thesis unfolding relay_handle_def Some x
    by (simp add: r relay_ok_send relay_ok_ack handle_input_ok [OF r p Some [unfolded x]] split: option.split prod.split)
qed

lemma relay_poll_ok:
  assumes "relay_ok R r" "p \<in> {0, 1}"
  shows "relay_ok R (relay_poll n R now p r)"
  using assms(1)
proof (induction n arbitrary: r)
  case (Suc n)
  show ?case
  proof (cases "y_in r p")
    case Nil
    then show ?thesis using Suc.prems by simp
  next
    case (Cons m ms)
    let ?u = "r\<lparr>y_in := (y_in r)(p := ms)\<rparr>"
    have "relay_ok R ?u = relay_ok R r" by (rule relay_ok_same) (simp add: log_of_def)
    then have h: "relay_ok R (relay_handle R now p (take maxPacketSize m) ?u)"
      using Suc.prems assms(2) relay_handle_ok by blast
    show ?thesis using h Suc.IH [OF h] by (simp add: Cons Let_def)
  qed
qed simp

section \<open>The native copy keeps up\<close>

lemma due_checks_Suc:
  "due_checks R r (Suc n) = due_checks R r n @
     (if Suc n mod relay_k R = 0 \<and> relay_k R > 0
      then [\<lparr>rc_frame = word_of_nat (Suc n), rc_sum = Checksum (g_save (rl_game R) (log_sim R r (Suc n)))\<rparr>] else [])"
proof (cases "Suc n mod relay_k R = 0 \<and> relay_k R > 0")
  case True
  then obtain q where q: "Suc n = q * relay_k R" "relay_k R > 0" by (metis mult.commute mod_0_imp_dvd dvdE)
  have d: "Suc n div relay_k R = Suc (n div relay_k R)" using True by (simp only: div_Suc) simp
  moreover have "Suc n div relay_k R * relay_k R = Suc n" using q by simp
  ultimately have "Suc (n div relay_k R) * relay_k R = Suc n" by simp
  then show ?thesis using True d by (simp add: due_checks_def del: mult_Suc of_nat_mult of_nat_Suc)
next
  case False
  then have "Suc n div relay_k R = n div relay_k R" by (cases "relay_k R = 0") (simp_all add: div_Suc)
  then show ?thesis using False unfolding due_checks_def by simp
qed

lemma native_step_sim:
  assumes D: "reads_prefix (rl_codec R)" and r: "log_ok R r"
  shows "y_gamest (native_step R r) = log_sim R r (Suc (y_simFrame r))"
proof -
  have "c_get (rl_codec R) (drop (f * relay_isz R) (y_log r p)) = log_input R r p f" for f p
    using D by (simp add: reads_prefix_def log_input_def logged_def field_def relay_isz_def)
  then show ?thesis using r by (simp add: native_step_def Let_def log_ok_def log_sim_def)
qed

lemma simulate_step_ok:
  assumes D: "reads_prefix (rl_codec R)" and k: "0 < relay_k R" and r: "relay_ok R r" and c: "y_simFrame r < y_confN r"
  shows "relay_ok R (let r = native_step R r in if y_simFrame r mod relay_k R = 0 then saveCP R now (y_simFrame r) r else r)"
proof -
  let ?n = "y_simFrame r"
  define t where "t = native_step R r"
  have t: "y_log t = y_log r" "y_logN t = y_logN r" "y_confN t = y_confN r" "y_simFrame t = Suc ?n" "y_checks t = y_checks r"
    by (simp_all add: t_def native_step_def Let_def)
  define u where "u = t\<lparr>y_checks := due_checks R r (Suc ?n)\<rparr>"
  have g: "y_gamest t = log_sim R r (Suc ?n)" unfolding t_def using native_step_sim [OF D] r by (simp add: relay_ok_def)
  have l: "logged R u p f = logged R r p f" for p f by (simp add: u_def t logged_def)
  have e: "log_sim R u m = log_sim R r m \<and> due_checks R u m = due_checks R r m" for m
    using log_sim_cong [of m R u r m] by (simp add: l)
  have u: "relay_ok R u"
    using r c e [of "Suc ?n"] by (auto simp: relay_ok_def log_ok_def conf_ok_def u_def t g)
  have d: "y_checks r = due_checks R r ?n" using r by (simp add: relay_ok_def log_ok_def)
  show ?thesis
  proof (cases "Suc ?n mod relay_k R = 0")
    case True
    have "log_of (saveCP R now (Suc ?n) t) = log_of u"
      using True k by (simp add: saveCP_def Let_def) (simp add: log_of_def u_def t g d due_checks_Suc)
    then have "relay_ok R (saveCP R now (Suc ?n) t)" using u relay_ok_same by blast
    then show ?thesis using True by (simp add: t_def [symmetric] t)
  next
    case False
    then have "log_of t = log_of u" by (simp add: log_of_def u_def t d due_checks_Suc)
    then have "relay_ok R t" using u relay_ok_same by blast
    then show ?thesis using False by (simp add: t_def [symmetric] t)
  qed
qed

lemma confN_step:
  "y_confN (let r = native_step R r in if y_simFrame r mod relay_k R = 0 then saveCP R now (y_simFrame r) r else r) = y_confN r"
  (is "y_confN ?t = _")
proof -
  have s: "y_confN (saveCP R now f u) = y_confN u" for f u
    unfolding saveCP_def Let_def by (subst log_same(3) [OF log_simps(3)])+ simp
  show ?thesis by (simp add: Let_def s) (simp add: native_step_def Let_def)
qed

lemma simulate_loop_ok:
  assumes D: "reads_prefix (rl_codec R)" and k: "0 < relay_k R"
  shows "relay_ok R r \<Longrightarrow> relay_ok R (simulate_loop n R now (y_confN r) r)"
proof (induction n arbitrary: r)
  case (Suc n)
  define t where "t = (let r = native_step R r in if y_simFrame r mod relay_k R = 0 then saveCP R now (y_simFrame r) r else r)"
  have c: "y_confN t = y_confN r" unfolding t_def by (rule confN_step)
  have e: "simulate_loop (Suc n) R now (y_confN r) r =
      (if y_simFrame r < y_confN r then if y_ended t then t else simulate_loop n R now (y_confN r) t else r)"
    by (simp add: t_def Let_def)
  show ?case
  proof (cases "y_simFrame r < y_confN r")
    case True
    have "relay_ok R t" unfolding t_def by (rule simulate_step_ok [OF D k Suc.prems True])
    then show ?thesis using Suc.IH [of t] c Suc.prems unfolding e by simp
  next
    case False
    then show ?thesis using Suc.prems unfolding e by simp
  qed
qed simp

lemma simulate_ok:
  assumes "reads_prefix (rl_codec R)" "0 < relay_k R" "relay_ok R r"
  shows "relay_ok R (simulate R now r)"
proof -
  have "(if y_logN r 1 < y_logN r 0 then y_logN r 1 else y_logN r 0) = y_confN r"
    using assms(3) by (simp add: relay_ok_def conf_ok_def)
  then show ?thesis unfolding simulate_def Let_def using simulate_loop_ok [OF assms] by simp
qed

lemma relay_Tick_ok:
  assumes D: "reads_prefix (rl_codec R)" and k: "0 < relay_k R" and r: "relay_ok R r"
  shows "relay_ok R (relay_Tick R now r)"
proof -
  have e: "relay_ok R (r\<lparr>y_endRepeat := x\<rparr>)" for x
    using r by (subst relay_ok_same [of _ r]) (simp_all add: log_of_def)
  have a: "relay_ok R (relay_poll 512 R now 0 r)" by (rule relay_poll_ok [OF r]) simp
  then have b: "relay_ok R (relay_poll 512 R now 1 (relay_poll 512 R now 0 r))" by (rule relay_poll_ok) simp
  have s: "relay_ok R (serveSpectators R now (sendResync R now 1 (sendResync R now 0 (simulate R now u))))"
    if "relay_ok R u" for u
    using simulate_ok [OF D k that] relay_ok_same [OF log_simps(6)] relay_ok_same [OF log_sendResync] by blast
  show ?thesis unfolding relay_Tick_def Let_def using r e a b s by (simp add: relay_ok_send)
qed

section \<open>A match\<close>

text \<open>What reaches the relay before a tick: more datagrams of the players and of the spectators.\<close>

definition arrive :: "(nat \<Rightarrow> byte list list) \<Rightarrow> (nat \<Rightarrow> byte list list) \<Rightarrow> 's relay \<Rightarrow> 's relay" where
  "arrive ps ss r = r\<lparr>y_in := (\<lambda>p. y_in r p @ ps p),
     y_specs := List.map (\<lambda>(i, s). s\<lparr>yp_in := yp_in s @ ss i\<rparr>) (enumerate 0 (y_specs r))\<rparr>"

text \<open>One event: a new spectator, or a tick at a time after some arrivals.\<close>

datatype relay_event = Joined | Ticked int "nat \<Rightarrow> byte list list" "nat \<Rightarrow> byte list list"

fun relay_on :: "('i, 's) relaycfg \<Rightarrow> relay_event \<Rightarrow> 's relay \<Rightarrow> 's relay" where
  "relay_on R Joined r = AddSpectator r"
| "relay_on R (Ticked now ps ss) r = relay_Tick R now (arrive ps ss r)"

definition relay_run :: "('i, 's) relaycfg \<Rightarrow> relay_event list \<Rightarrow> 's relay" where
  "relay_run A evs = (let (R, r) = NewRelay A in fold (relay_on R) evs r)"

lemma relay_on_ok:
  assumes "reads_prefix (rl_codec R)" "0 < relay_k R" "relay_ok R r"
  shows "relay_ok R (relay_on R e r)"
proof (cases e)
  case Joined
  have "log_of (AddSpectator r) = log_of r" by (simp add: log_of_def AddSpectator_def)
  then show ?thesis using relay_ok_same assms(3) unfolding Joined relay_on.simps by blast
next
  case (Ticked now ps ss)
  have "log_of (arrive ps ss r) = log_of r" by (simp add: log_of_def arrive_def)
  then have "relay_ok R (arrive ps ss r)" using relay_ok_same assms(3) by blast
  then show ?thesis unfolding Ticked relay_on.simps by (rule relay_Tick_ok [OF assms(1,2)])
qed

lemma relay_ok_init: "relay_ok R (relay0 R)"
  by (simp add: relay_ok_def log_ok_def conf_ok_def relay0_def due_checks_def log_sim_def)

lemma relay_run_ok:
  assumes "reads_prefix (rl_codec A)" "0 \<le> rl_interval A"
  shows "relay_ok (relayDefaults A) (relay_run A evs)"
proof -
  let ?R = "relayDefaults A"
  have D: "reads_prefix (rl_codec ?R)" "0 < relay_k ?R"
    using assms by (simp_all add: relayDefaults_def relay_k_def nz_def Let_def)
  have "relay_ok ?R (fold (relay_on ?R) evs r)" if "relay_ok ?R r" for r
    using that by (induction evs arbitrary: r) (simp_all add: relay_on_ok [OF D])
  then show ?thesis by (simp add: relay_run_def NewRelay_def Let_def relay_ok_init)
qed

section \<open>The replay of the relay verifies\<close>

text \<open>The input of a player in the replay is the one in the log.\<close>

lemma replay_input:
  assumes D: "reads_prefix (rl_codec R)" and r: "relay_ok R r" and p: "p \<in> {0, 1}" and f: "f < y_confN r"
  shows "rec_input (rl_codec R) (relay_Replay R r) p f = log_input R r p f"
proof -
  let ?z = "relay_isz R" and ?n = "y_confN r"
  define xs where "xs = List.map (\<lambda>f. logged R r 0 f @ logged R r 1 f) [0..<?n]"
  have len: "length (logged R r q i) = ?z" if "q \<in> {0, 1}" "i < ?n" for q i
  proof -
    have l: "length (y_log r q) = y_logN r q * ?z" "i + 1 \<le> y_logN r q"
      using r that by (auto simp: relay_ok_def log_ok_def)
    then have "(i + 1) * ?z \<le> length (y_log r q)" by (metis mult_le_mono1)
    then show ?thesis by (simp add: logged_def field_def)
  qed
  have "field (f * (2 * ?z)) (2 * ?z) (concat xs @ []) = xs ! f"
    by (rule field_concat) (use f in \<open>auto simp: xs_def len\<close>)
  then have e: "field (f * (2 * ?z)) (2 * ?z) (concat xs) = logged R r 0 f @ logged R r 1 f" using f by (simp add: xs_def)
  have "field (f * (2 * ?z) + p * ?z) ?z (concat xs) = field (p * ?z) ?z (field (f * (2 * ?z)) (2 * ?z) (concat xs))"
    using p by (subst field_field) auto
  also have "\<dots> = logged R r p f" unfolding e using p len [of 0 f] len [of 1 f] f by (auto simp: field_def)
  finally have "take ?z (drop (f * 2 * ?z + p * ?z) (concat xs)) = logged R r p f" by (simp add: field_def mult.assoc)
  then have t: "take (c_size (rl_codec R)) (drop (f * 2 * c_size (rl_codec R) + p * c_size (rl_codec R)) (concat xs)) = logged R r p f"
    by (simp only: relay_isz_def)
  have "re_inputs (relay_Replay R r) = concat xs" by (simp add: relay_Replay_def Let_def xs_def)
  then have "rec_input (rl_codec R) (relay_Replay R r) p f =
      c_get (rl_codec R) (drop (f * 2 * c_size (rl_codec R) + p * c_size (rl_codec R)) (concat xs))"
    by (simp only: rec_input_def input_at_def)
  also have "\<dots> = log_input R r p f"
    unfolding log_input_def t [symmetric] using D unfolding reads_prefix_def by metis
  finally show ?thesis .
qed

lemma replay_verifies:
  assumes D: "reads_prefix (rl_codec R)" and k: "0 < relay_k R" and r: "relay_ok R r" and n: "y_confN r < 2 ^ 32"
  shows "VerifyReplay (relay_Replay R r) (rl_identity R) (rl_game R) (rl_new R) (rl_codec R) = None"
proof -
  let ?n = "y_confN r" and ?p = "relay_Replay R r"
  define xs where "xs = List.map (\<lambda>j. j * relay_k R) [1..<y_simFrame r div relay_k R + 1]"
  have ok: "y_simFrame r \<le> ?n" "y_checks r = due_checks R r (y_simFrame r)"
    "\<forall>p \<in> {0, 1}. length (y_log r p) = y_logN r p * relay_isz R" "?n \<le> y_logN r 0" "?n \<le> y_logN r 1"
    using r by (auto simp: relay_ok_def log_ok_def conf_ok_def)
  have x: "0 < m \<and> m \<le> ?n \<and> unat (word_of_nat m :: uint32) = m" if m: "m \<in> set xs" for m
  proof -
    obtain j where j: "m = j * relay_k R" "j \<in> set [1..<y_simFrame r div relay_k R + 1]"
      using m unfolding xs_def set_map by blast
    then have j': "1 \<le> j" "j \<le> y_simFrame r div relay_k R" by auto
    have "m \<le> y_simFrame r" using j(1) j' by (metis div_times_less_eq_dividend mult_le_mono1 order_trans)
    then have "m < 2 ^ 32" "m \<le> ?n" using ok(1) n by linarith+
    then have "unat (word_of_nat m :: uint32) = m" by (simp add: unsigned_of_nat take_bit_nat_eq_self)
    moreover have "0 < m" using j(1) j'(1) k by simp
    ultimately show ?thesis using \<open>m \<le> ?n\<close> by blast
  qed
  have c: "y_checks r = List.map (\<lambda>m. \<lparr>rc_frame = word_of_nat m, rc_sum = Checksum (g_save (rl_game R) (log_sim R r m))\<rparr>) xs"
    unfolding ok(2) due_checks_def xs_def by simp
  have rec: "recorded (rl_game R) (rl_new R) (rl_codec R) ?p m = log_sim R r m" if "m \<le> ?n" for m
    unfolding recorded_def log_sim_def by (rule sim_cong) (use replay_input [OF D r] that in auto)
  have "filter (\<lambda>c. unat (rc_frame c) \<le> ?n) (y_checks r) = y_checks r"
    unfolding c by (rule filter_True) (auto simp: x)
  then have cs: "re_checks ?p = y_checks r" by (simp add: relay_Replay_def Let_def)
  have "List.map (\<lambda>c. unat (rc_frame c)) (y_checks r) = xs" unfolding c by (simp add: x map_idI)
  moreover have "sorted_wrt (\<lambda>i j. i * relay_k R \<le> j * relay_k R) [1..<y_simFrame r div relay_k R + 1]"
    by (rule sorted_wrt_mono_rel [OF _ sorted_upt]) (simp add: mult_le_mono1)
  then have "sorted xs" unfolding xs_def sorted_wrt_map .
  ultimately have srt: "sorted (List.map (\<lambda>c. unat (rc_frame c)) (y_checks r))" by simp
  have good: "0 < unat (rc_frame a) \<and> unat (rc_frame a) \<le> re_frames ?p \<and>
      confirmed_check (rl_game R) (rl_new R) (rl_codec R) ?p a" if a: "a \<in> set (y_checks r)" for a
  proof -
    obtain m where m: "m \<in> set xs" "a = \<lparr>rc_frame = word_of_nat m, rc_sum = Checksum (g_save (rl_game R) (log_sim R r m))\<rparr>"
      using a unfolding c by auto
    show ?thesis using x [OF m(1)] rec [of m] by (simp add: m(2) confirmed_check_def relay_Replay_def Let_def)
  qed
  have "length (logged R r 0 f) + length (logged R r 1 f) = 2 * relay_isz R" if "f < ?n" for f
  proof -
    have "(f + 1) * relay_isz R \<le> y_logN r q * relay_isz R" if "q \<in> {0, 1}" for q
      using \<open>f < ?n\<close> ok(4,5) that by (intro mult_le_mono1) auto
    from this [of 0] this [of 1] show ?thesis using ok(3) by (simp add: logged_def field_def)
  qed
  then have "length (re_inputs ?p) = ?n * (2 * relay_isz R)"
    using length_concat_const [of "List.map (\<lambda>f. logged R r 0 f @ logged R r 1 f) [0..<?n]" "2 * relay_isz R"]
    by (simp add: relay_Replay_def Let_def)
  moreover have p: "re_identity ?p = rl_identity R" "re_inputSize ?p = c_size (rl_codec R)" "re_frames ?p = ?n"
    by (simp_all add: relay_Replay_def Let_def relay_isz_def)
  ultimately have "length (re_inputs ?p) = re_frames ?p * 2 * c_size (rl_codec R)" by (simp add: relay_isz_def)
  moreover have "re_checks ?p = y_checks r @ []" using cs by simp
  ultimately show ?thesis unfolding verify_iff using p(1,2) srt good by (metis empty_iff list.set(1))
qed

text \<open>C19. Whatever datagrams the two players and the spectators send, and whenever the relay ticks, the
  replay it has of the match verifies: its native copy simulated exactly the inputs it recorded, and
  its checksums are those of that simulation, as long as the frames fit the 32 bits of the format.\<close>

theorem relay_replay_verifies:
  assumes "reads_prefix (rl_codec A)" "0 \<le> rl_interval A" "y_confN (relay_run A evs) < 2 ^ 32"
  shows "VerifyReplay (relay_Replay (relayDefaults A) (relay_run A evs)) (rl_identity A) (rl_game A) (rl_new A) (rl_codec A) = None"
proof -
  let ?R = "relayDefaults A"
  have f: "rl_codec ?R = rl_codec A" "rl_identity ?R = rl_identity A" "rl_game ?R = rl_game A" "rl_new ?R = rl_new A" "0 < relay_k ?R"
    using assms(2) by (simp_all add: relayDefaults_def relay_k_def nz_def Let_def)
  show ?thesis
    using replay_verifies [of ?R "relay_run A evs"] assms f relay_run_ok [OF assms(1,2), of evs] by simp
qed

text \<open>A game of one byte; both players send the inputs of two frames, a check at every frame.\<close>

definition demo_relay :: "(byte, byte) relaycfg" where
  "demo_relay = \<lparr>rl_game = \<lparr>g_step = (\<lambda>i j s. s + i + j), g_save = (\<lambda>s. [s]), g_load = (\<lambda>b. Some (hd b)), g_events = (\<lambda>s. [])\<rparr>,
     rl_new = 0, rl_codec = \<lparr>c_size = 1, c_put = (\<lambda>i. [i]), c_get = (\<lambda>b. b ! 0)\<rparr>, rl_identity = replicate 32 1,
     rl_interval = 1, rl_frameDur = 10, rl_catchUp = 2, rl_specDelay = 5, rl_lateSlack = 0, rl_lateFlag = 0\<rparr>"

definition demo_input :: "byte \<Rightarrow> byte \<Rightarrow> byte list" where
  "demo_input a b = [protoVersion, ptInput] @ le_bytes 8 (idTag (replicate 32 1)) @ replicate 30 0 @ [2, 0, 0, a, b]"

definition demo_events :: "relay_event list" where
  "demo_events = [Ticked 0 (\<lambda>p. [demo_input 3 4]) (\<lambda>_. [])]"

lemma demo_confirmed: "y_confN (relay_run demo_relay demo_events) = 2"
  by code_simp

lemma relay_replay_verifies_witness:
  "y_confN (relay_run demo_relay demo_events) = 2 \<and>
   VerifyReplay (relay_Replay (relayDefaults demo_relay) (relay_run demo_relay demo_events)) (rl_identity demo_relay)
     (rl_game demo_relay) (rl_new demo_relay) (rl_codec demo_relay) = None"
  using relay_replay_verifies [of demo_relay demo_events]
  by (simp add: demo_confirmed) (simp add: reads_prefix_def demo_relay_def)

end
