(* ===== verification/Net_Spectator.thy ===== *)
theory Net_Spectator
  imports Net_Relay_Log
begin

text \<open>
  The \<open>Spectator\<close> of \<^verbatim>\<open>netplay/relay.go\<close>: it plays a match from the delayed stream of confirmed
  inputs of the relay. The transport is the list of datagrams waiting and the list of datagrams
  sent. It is shown to follow the log of the relay whatever the network does to the stream.
\<close>

section \<open>State and operations\<close>

text \<open>The field \<open>base\<close> is set once, to 0, and \<open>buf\<close> only grows.\<close>

record ('i, 's) spectcfg =
  sc_game :: "('i, 's) game"
  sc_codec :: "'i codec"
  sc_identity :: "byte list"
  sc_perPoll :: int

record 's spectator =
  sp_gamest :: 's
  sp_frame :: nat
  sp_buf :: "byte list"
  sp_base :: nat
  sp_in :: "byte list list"
  sp_out :: "byte list list"

definition NewSpectator :: "('i, 's) spectcfg \<Rightarrow> 's \<Rightarrow> ('i, 's) spectcfg \<times> 's spectator" where
  "NewSpectator S g = (S\<lparr>sc_perPoll := nz 30 (sc_perPoll S)\<rparr>,
     \<lparr>sp_gamest = g, sp_frame = 0, sp_buf = [], sp_base = 0, sp_in = [], sp_out = []\<rparr>)"

definition spec_isz :: "('i, 's) spectcfg \<Rightarrow> nat" where "spec_isz S = c_size (sc_codec S)"

text \<open>The first frame that is not held.\<close>

definition held :: "('i, 's) spectcfg \<Rightarrow> 's spectator \<Rightarrow> nat" where
  "held S s = sp_base s + length (sp_buf s) div (2 * spec_isz S)"

definition hold_frame :: "('i, 's) spectcfg \<Rightarrow> byte list \<Rightarrow> nat \<Rightarrow> nat \<Rightarrow> 's spectator \<Rightarrow> 's spectator" where
  "hold_frame S b start i s =
     (if start + i < held S s then s
      else s\<lparr>sp_buf := sp_buf s @ field (specMaxHdr + i * 2 * spec_isz S) (2 * spec_isz S) b\<rparr>)"

definition spec_packet :: "('i, 's) spectcfg \<Rightarrow> byte list \<Rightarrow> 's spectator \<Rightarrow> 's spectator" where
  "spec_packet S b s =
     (if length b < specMaxHdr \<or> b ! 0 \<noteq> protoVersion \<or> b ! 1 \<noteq> ptSpectate \<or>
         le_word (field 2 8 b) \<noteq> idTag (sc_identity S) then s
      else
        let start = unat (le_word (field 10 4 b) :: uint32); count = unat (le_word (field 14 2 b) :: 16 word) in
        if length b \<noteq> specMaxHdr + count * 2 * spec_isz S \<or> start > held S s then s
        else fold (hold_frame S b start) [0..<count] s)"

definition spec_step :: "('i, 's) spectcfg \<Rightarrow> 's spectator \<Rightarrow> 's spectator" where
  "spec_step S s =
     (let o1 = (sp_frame s - sp_base s) * 2 * spec_isz S;
          i0 = c_get (sc_codec S) (drop o1 (sp_buf s)); i1 = c_get (sc_codec S) (drop (o1 + spec_isz S) (sp_buf s))
      in s\<lparr>sp_gamest := g_step (sc_game S) i0 i1 (sp_gamest s), sp_frame := sp_frame s + 1\<rparr>)"

text \<open>The loop over the frames held, and the frames it stepped.\<close>

fun spec_loop :: "nat \<Rightarrow> ('i, 's) spectcfg \<Rightarrow> nat \<times> 's spectator \<Rightarrow> nat \<times> 's spectator" where
  "spec_loop 0 S (k, s) = (k, s)"
| "spec_loop (Suc n) S (k, s) = (if sp_frame s < held S s then spec_loop n S (k + 1, spec_step S s) else (k, s))"

definition spec_Poll :: "('i, 's) spectcfg \<Rightarrow> 's spectator \<Rightarrow> nat \<times> 's spectator" where
  "spec_Poll S s =
     (let s = fold (\<lambda>m. spec_packet S (take maxPacketSize m)) (take 512 (sp_in s)) (s\<lparr>sp_in := drop 512 (sp_in s)\<rparr>);
          (k, s) = spec_loop (nat (sc_perPoll S)) S (0, s)
      in (k, s\<lparr>sp_out := sp_out s @ [putSmall ptSpecAck (idTag (sc_identity S)) 0 (word_of_nat (held S s))]\<rparr>))"

definition spec_Checksum :: "('i, 's) spectcfg \<Rightarrow> 's spectator \<Rightarrow> uint64" where
  "spec_Checksum S s = Checksum (g_save (sc_game S) (sp_gamest s))"

section \<open>The log of the relay only grows\<close>

definition grows :: "'s relay \<Rightarrow> 's relay \<Rightarrow> bool" where
  "grows r t \<longleftrightarrow> (\<forall>p. \<exists>ys. y_log t p = y_log r p @ ys) \<and> y_confN r \<le> y_confN t \<and> y_specVis r \<le> y_specVis t"

definition log_only :: "'s relay \<Rightarrow> (nat \<Rightarrow> byte list) \<times> nat \<times> nat" where
  "log_only r = (y_log r, y_confN r, y_specVis r)"

lemma grows_same: "log_only t = log_only r \<Longrightarrow> grows r t"
  by (auto simp: grows_def log_only_def)

lemma grows_trans: "grows r s \<Longrightarrow> grows s t \<Longrightarrow> grows r t"
  unfolding grows_def by (metis append.assoc le_trans)

lemma grows_refl: "grows r r" by (rule grows_same) simp

text \<open>Every operation but the service of spectators keeps the links to them.\<close>

definition keeps :: "'s relay \<Rightarrow> 's relay \<Rightarrow> bool" where
  "keeps r t \<longleftrightarrow> grows r t \<and> y_specs t = y_specs r \<and> y_specVis t = y_specVis r"

lemma keeps_trans: "keeps r s \<Longrightarrow> keeps s t \<Longrightarrow> keeps r t"
  using grows_trans unfolding keeps_def by metis

lemma keeps_same: "log_only t = log_only r \<Longrightarrow> y_specs t = y_specs r \<Longrightarrow> keeps r t"
  by (simp add: keeps_def grows_same) (simp add: log_only_def)

lemma keeps_refl: "keeps r r" by (rule keeps_same) simp_all

lemma keeps_fold: "(\<And>x r. keeps r (f x r)) \<Longrightarrow> keeps r (fold f xs r)"
proof (induction xs arbitrary: r)
  case (Cons x xs)
  then show ?case using keeps_trans by (metis fold_simps(2))
qed (simp add: keeps_refl)

lemma keeps_simple: "keeps r (relay_send p b r)" "keeps r (endMatch R e r)" "keeps r (relay_judge R now p f r)"
  "keeps r (noteLateness R now p q f r)" "keeps r (relay_ack p ep r)" "keeps r (native_step R r)"
  by (rule keeps_same; simp add: log_only_def relay_send_def endMatch_def relay_judge_def noteLateness_def relay_ack_def
      native_step_def Let_def)+

lemma keeps_append: "keeps u (u\<lparr>y_log := (y_log u)(p := y_log u p @ raw), y_logN := n\<rparr>)"
  by (auto simp: keeps_def grows_def)

lemma keeps_log_entry: "keeps r (log_entry R now p f raw r)"
proof -
  have s: "keeps r (r\<lparr>y_players := x\<rparr>)" "keeps r (r\<lparr>y_hasLog := h, y_first := g\<rparr>)" for x h g
    by (rule keeps_same; simp add: log_only_def)+
  consider (old) "f < y_logN r p" | (new) "f = y_logN r p" | (gap) "f > y_logN r p" by linarith
  then show ?thesis
  proof cases
    case new
    define u where "u = (if \<not> y_hasLog r p then r\<lparr>y_hasLog := (y_hasLog r)(p := True), y_first := (y_first r)(p := now)\<rparr> else r)"
    have "keeps r u" by (simp add: u_def s(2) keeps_refl)
    then have "keeps r (noteLateness R now p (1 - p) f (u\<lparr>y_log := (y_log u)(p := y_log u p @ raw), y_logN := (y_logN u)(p := y_logN u p + 1)\<rparr>))"
      by (rule keeps_trans [OF keeps_trans [OF _ keeps_append] keeps_simple(4)])
    then show ?thesis using new by (simp add: log_entry_def Let_def u_def [symmetric])
  qed (auto simp: log_entry_def Let_def s(1) keeps_refl)
qed

lemma keeps_confirm: "keeps r (confirm now r)"
  by (auto simp: confirm_def keeps_def grows_def Let_def)

lemma keeps_logInputs: "keeps r (logInputs R now p k r)"
proof -
  define s where "s = (if h_delay (ip_header k) \<noteq> delayAuto
    then r\<lparr>y_delay := (y_delay r)(p := unat (h_delay (ip_header k))),
      y_players := (y_players r)(p := (y_players r p)\<lparr>pr_inputDelay := unat (h_delay (ip_header k))\<rparr>)\<rparr> else r)"
  have "keeps r s" by (rule keeps_same) (simp_all add: s_def log_only_def)
  moreover have "keeps s (fold (\<lambda>i. log_entry R now p (unat (ip_start k) + i) (entry_at (relay_isz R) k i)) [0..<ip_count k] s)"
    by (rule keeps_fold) (rule keeps_log_entry)
  ultimately show ?thesis
    unfolding logInputs_def Let_def s_def [symmetric] using keeps_trans keeps_confirm by blast
qed

lemma keeps_onReport: "keeps r (onReport R now p e r)"
proof -
  have "keeps r (r\<lparr>y_reported := x\<rparr>)" for x by (rule keeps_same) (simp_all add: log_only_def)
  then have "keeps r (relay_judge R now p f (r\<lparr>y_reported := x\<rparr>))" for f x using keeps_trans keeps_simple(3) by blast
  then show ?thesis by (simp add: onReport_def Let_def keeps_refl)
qed

lemma keeps_handle: "keeps r (relay_handle R now p b r)"
proof -
  have i: "keeps r (relay_send q b (fold (onReport R now p) es (logInputs R now p k r)))" for q es k
    by (rule keeps_trans [OF keeps_trans [OF keeps_logInputs keeps_fold] keeps_simple(1)]) (rule keeps_onReport)
  show ?thesis unfolding relay_handle_def
    by (simp add: i keeps_refl keeps_simple split: option.split prod.split)
qed

lemma keeps_poll: "keeps r (relay_poll n R now p r)"
proof (induction n arbitrary: r)
  case (Suc n)
  show ?case
  proof (cases "y_in r p")
    case (Cons m ms)
    let ?h = "relay_handle R now p (take maxPacketSize m) (r\<lparr>y_in := (y_in r)(p := ms)\<rparr>)"
    have "keeps r (r\<lparr>y_in := (y_in r)(p := ms)\<rparr>)" by (rule keeps_same) (simp_all add: log_only_def)
    then have "keeps r ?h" using keeps_trans keeps_handle by blast
    then show ?thesis using keeps_trans [OF _ Suc.IH] by (simp add: Cons Let_def)
  qed (simp add: keeps_refl)
qed (simp add: keeps_refl)

lemma keeps_saveCP: "keeps r (saveCP R now f r)"
proof -
  have "keeps r (r\<lparr>y_cps := c, y_checks := d\<rparr>)" for c d by (rule keeps_same) (simp_all add: log_only_def)
  then show ?thesis unfolding saveCP_def Let_def using keeps_trans keeps_simple(3) by blast
qed

lemma keeps_simulate: "keeps r (simulate R now r)"
proof -
  have "keeps r (simulate_loop n R now c r)" for n c
  proof (induction n arbitrary: r)
    case (Suc n)
    let ?t = "native_step R r"
    let ?u = "if y_simFrame ?t mod relay_k R = 0 then saveCP R now (y_simFrame ?t) ?t else ?t"
    have "keeps r ?u" by (simp add: keeps_simple(6) keeps_trans [OF keeps_simple(6) keeps_saveCP])
    then show ?case using keeps_trans [OF _ Suc.IH] by (simp add: Let_def keeps_refl)
  qed (simp add: keeps_refl)
  then show ?thesis unfolding simulate_def Let_def by blast
qed

lemma keeps_sendResync: "keeps r (sendResync R now p r)"
proof -
  have "keeps r (r\<lparr>y_rs := x\<rparr>)" for x by (rule keeps_same) (simp_all add: log_only_def)
  moreover have "keeps (r\<lparr>y_rs := x\<rparr>) (fold (relay_send p) bs (r\<lparr>y_rs := x\<rparr>))" for bs x
    by (rule keeps_fold) (rule keeps_simple)
  ultimately have "keeps r (fold (relay_send p) bs (r\<lparr>y_rs := x\<rparr>))" for bs x using keeps_trans by blast
  then show ?thesis by (simp add: sendResync_def Let_def keeps_refl)
qed

section \<open>What the relay streams\<close>

definition is_stream :: "('i, 's) relaycfg \<Rightarrow> 's relay \<Rightarrow> byte list \<Rightarrow> bool" where
  "is_stream R r b \<longleftrightarrow> (\<exists>start count. start + count \<le> y_specVis r \<and> count < 2 ^ 16 \<and>
     count * (2 * relay_isz R) \<le> maxPacketSize - specMaxHdr \<and> b = stream R r start count)"

definition serve_ok :: "('i, 's) relaycfg \<Rightarrow> 's relay \<Rightarrow> bool" where
  "serve_ok R r \<longleftrightarrow> relay_ok R r \<and> y_specVis r \<le> y_confN r \<and>
     (\<forall>sp \<in> set (y_specs r). \<forall>b \<in> set (yp_out sp). is_stream R r b)"

lemma logged_grows:
  assumes r: "relay_ok R r" and g: "grows r t" and f: "f < y_confN r" and p: "p \<in> {0, 1}"
  shows "logged R t p f = logged R r p f"
proof -
  have l: "length (y_log r p) = y_logN r p * relay_isz R" "f + 1 \<le> y_logN r p"
    using r f p by (auto simp: relay_ok_def log_ok_def)
  then have "(f + 1) * relay_isz R \<le> length (y_log r p)" by (metis mult_le_mono1)
  then have "f * relay_isz R + relay_isz R \<le> length (y_log r p)" by simp
  moreover obtain ys where "y_log t p = y_log r p @ ys" using g by (auto simp: grows_def)
  ultimately show ?thesis by (simp add: logged_def field_append)
qed

lemma is_stream_grows:
  assumes r: "relay_ok R r" "y_specVis r \<le> y_confN r" and g: "grows r t" and b: "is_stream R r b"
  shows "is_stream R t b"
proof -
  obtain start count where s: "start + count \<le> y_specVis r" "count < 2 ^ 16" "b = stream R r start count"
    "count * (2 * relay_isz R) \<le> maxPacketSize - specMaxHdr"
    using b by (auto simp: is_stream_def)
  have e: "List.map (\<lambda>i. logged R t 0 (start + i) @ logged R t 1 (start + i)) [0..<count] =
      List.map (\<lambda>i. logged R r 0 (start + i) @ logged R r 1 (start + i)) [0..<count]"
    using s(1) r by (intro list.map_cong0) (simp add: logged_grows [OF r(1) g])
  have "stream R t start count = b" unfolding s(3) stream_def e ..
  moreover have "start + count \<le> y_specVis t" using s(1) g by (auto simp: grows_def)
  ultimately show ?thesis using s(2,4) unfolding is_stream_def by blast
qed

lemma serve_ok_keeps:
  assumes "serve_ok R r" "keeps r t" "relay_ok R t"
  shows "serve_ok R t"
proof -
  have g: "grows r t" "y_specs t = y_specs r" "y_specVis t = y_specVis r" using assms(2) by (simp_all add: keeps_def)
  then have "y_specVis t \<le> y_confN t" using assms(1) by (auto simp: serve_ok_def grows_def)
  moreover have "is_stream R t b" if "sp \<in> set (y_specs t)" "b \<in> set (yp_out sp)" for sp b
    using that assms(1) g is_stream_grows [OF _ _ g(1)] by (auto simp: serve_ok_def)
  ultimately show ?thesis using assms(3) by (simp add: serve_ok_def)
qed

lemma spec_acks_out: "yp_out (spec_acks R s) = yp_out s"
proof -
  define ack where "ack = (\<lambda>m (s :: relay_spec). case parseSmall (take maxPacketSize m) ptSpecAck of None \<Rightarrow> s
    | Some (tag, v1, next) \<Rightarrow> if tag = relay_tag R \<and> unat next > yp_next s then s\<lparr>yp_next := unat next\<rparr> else s)"
  have "yp_out (ack m s) = yp_out s" for m and s :: relay_spec by (simp add: ack_def split: option.split prod.split)
  then have "yp_out (fold ack ms s) = yp_out s" for ms and s :: relay_spec by (induction ms arbitrary: s) simp_all
  from this [of "take 64 (yp_in s)" "s\<lparr>yp_in := drop 64 (yp_in s)\<rparr>"] show ?thesis
    by (simp add: spec_acks_def Let_def ack_def)
qed

lemma serve_out: "b \<in> set (yp_out (serve R now r s)) \<Longrightarrow> b \<in> set (yp_out s) \<or> is_stream R r b"
proof -
  let ?n = "yp_next (spec_acks R s)"
  define per where "per = (maxPacketSize - specMaxHdr) div (2 * relay_isz R)"
  define count where "count = (if y_specVis r - ?n > per then per else y_specVis r - ?n)"
  have "per \<le> maxPacketSize - specMaxHdr" unfolding per_def by (rule div_le_dividend)
  then have "count < 2 ^ 16" by (simp add: count_def maxPacketSize_def specMaxHdr_def)
  moreover have "count * (2 * relay_isz R) \<le> maxPacketSize - specMaxHdr"
  proof -
    have "count * (2 * relay_isz R) \<le> per * (2 * relay_isz R)" by (intro mult_le_mono1) (simp add: count_def)
    also have "\<dots> \<le> maxPacketSize - specMaxHdr" unfolding per_def by (rule div_times_less_eq_dividend)
    finally show ?thesis .
  qed
  moreover have "?n + count \<le> y_specVis r" if "\<not> ?n \<ge> y_specVis r" using that by (auto simp: count_def)
  ultimately have c: "is_stream R r (stream R r ?n count)" if "\<not> ?n \<ge> y_specVis r"
    using that unfolding is_stream_def by blast
  assume "b \<in> set (yp_out (serve R now r s))"
  then have "b \<in> set (yp_out s) \<or> \<not> ?n \<ge> y_specVis r \<and> b = stream R r ?n count"
    by (auto simp: serve_def Let_def spec_acks_out per_def [symmetric] count_def split: if_splits)
  then show ?thesis using c by blast
qed

lemma serveSpectators_ok:
  assumes "serve_ok R r"
  shows "serve_ok R (serveSpectators R now r)"
proof -
  define seen where "seen = takeWhile (\<lambda>t. t + rl_specDelay R \<le> now) (drop (y_specVis r) (take (y_confN r) (y_confirmedAt r)))"
  define s where "s = r\<lparr>y_specVis := y_specVis r + length seen\<rparr>"
  define t where "t = serveSpectators R now r"
  have t: "t = s\<lparr>y_specs := List.map (serve R now s) (y_specs s)\<rparr>"
    by (simp add: t_def serveSpectators_def Let_def seen_def s_def)
  have "length seen \<le> length (drop (y_specVis r) (take (y_confN r) (y_confirmedAt r)))"
    unfolding seen_def by (rule length_takeWhile_le)
  also have "\<dots> \<le> y_confN r - y_specVis r" by simp
  finally have "length seen \<le> y_confN r - y_specVis r" .
  then have v: "y_specVis t \<le> y_confN t" using assms by (auto simp: t s_def serve_ok_def)
  have g: "grows r t" "grows s t" by (auto simp: t s_def grows_def)
  have st: "is_stream R t b = is_stream R s b" for b by (simp add: is_stream_def stream_def logged_def t)
  have ok: "relay_ok R t" using assms relay_ok_same [of t r] unfolding t_def serve_ok_def by (metis log_simps(6))
  have "is_stream R t b" if sp: "sp \<in> set (y_specs t)" "b \<in> set (yp_out sp)" for sp b
  proof -
    obtain u where u: "u \<in> set (y_specs r)" "sp = serve R now s u" using sp(1) by (auto simp: t s_def)
    then have "b \<in> set (yp_out u) \<or> is_stream R s b" using sp(2) serve_out by blast
    moreover have "is_stream R t b" if "b \<in> set (yp_out u)"
      using that u(1) assms is_stream_grows [OF _ _ g(1)] unfolding serve_ok_def by blast
    ultimately show ?thesis using st by blast
  qed
  then show ?thesis using ok v unfolding t_def serve_ok_def by blast
qed

lemma relay_Tick_serves:
  assumes D: "reads_prefix (rl_codec R)" "0 < relay_k R" and r: "serve_ok R r"
  shows "serve_ok R (relay_Tick R now r)"
proof -
  have e: "keeps r (relay_send 1 b (relay_send 0 b (r\<lparr>y_endRepeat := n\<rparr>)))" for b n
    by (rule keeps_same) (simp_all add: log_only_def relay_send_def)
  have ok: "relay_ok R (relay_Tick R now r)" using relay_Tick_ok [OF D] r by (simp add: serve_ok_def)
  define a where "a = relay_poll 512 R now 0 r"
  define b where "b = relay_poll 512 R now 1 a"
  have ka: "keeps r a" unfolding a_def by (rule keeps_poll)
  have kb: "keeps r b" unfolding b_def by (rule keeps_trans [OF ka keeps_poll])
  show ?thesis
  proof (cases "y_ended r \<or> y_ended a \<or> y_ended b")
    case True
    then have "keeps r (relay_Tick R now r)"
      using e ka kb by (auto simp: relay_Tick_def Let_def a_def [symmetric] b_def [symmetric] keeps_refl simp del: One_nat_def)
    then show ?thesis using serve_ok_keeps [OF r _ ok] by blast
  next
    case False
    define c where "c = sendResync R now 1 (sendResync R now 0 (simulate R now b))"
    have t: "relay_Tick R now r = serveSpectators R now c"
      using False by (simp add: relay_Tick_def Let_def a_def [symmetric] b_def [symmetric] c_def del: One_nat_def)
    have kc: "keeps r c" unfolding c_def
      by (rule keeps_trans [OF keeps_trans [OF keeps_trans [OF kb keeps_simulate] keeps_sendResync] keeps_sendResync])
    have "relay_ok R b" unfolding b_def a_def using r relay_poll_ok by (metis insertCI serve_ok_def)
    then have "relay_ok R c" unfolding c_def using simulate_ok [OF D] relay_ok_same [OF log_sendResync] by blast
    then show ?thesis unfolding t using serveSpectators_ok [OF serve_ok_keeps [OF r kc]] by blast
  qed
qed

lemma relay_on_serves:
  assumes D: "reads_prefix (rl_codec R)" "0 < relay_k R" and r: "serve_ok R r"
  shows "serve_ok R (relay_on R e r)"
proof (cases e)
  case Joined
  have "relay_ok R (AddSpectator r)" using relay_on_ok [OF D, of r Joined] r by (simp add: serve_ok_def)
  moreover have "is_stream R (AddSpectator r) b = is_stream R r b" for b
    by (simp add: is_stream_def stream_def logged_def AddSpectator_def)
  ultimately show ?thesis using r by (auto simp: Joined serve_ok_def AddSpectator_def)
next
  case (Ticked now ps ss)
  let ?a = "arrive ps ss r"
  have "log_of ?a = log_of r" by (simp add: log_of_def arrive_def)
  then have ok: "relay_ok R ?a" using r relay_ok_same by (metis serve_ok_def)
  have st: "is_stream R ?a b = is_stream R r b" for b by (simp add: is_stream_def stream_def logged_def arrive_def)
  have out: "\<exists>u \<in> set (y_specs r). yp_out sp = yp_out u" if sp: "sp \<in> set (y_specs ?a)" for sp
  proof -
    obtain i u where u: "(i, u) \<in> set (enumerate 0 (y_specs r))" "sp = u\<lparr>yp_in := yp_in u @ ss i\<rparr>"
      using sp by (auto simp: arrive_def)
    have "u \<in> set (y_specs r)" using u(1) unfolding enumerate_eq_zip by (rule set_zip_rightD)
    then show ?thesis using u(2) by auto
  qed
  have "is_stream R ?a b" if "sp \<in> set (y_specs ?a)" "b \<in> set (yp_out sp)" for sp b
    using out [OF that(1)] that(2) r st unfolding serve_ok_def by metis
  moreover have "y_specVis ?a \<le> y_confN ?a" using r by (simp add: serve_ok_def arrive_def)
  ultimately have "serve_ok R ?a" using ok unfolding serve_ok_def by blast
  then show ?thesis unfolding Ticked relay_on.simps by (rule relay_Tick_serves [OF D])
qed

lemma relay_run_serves:
  assumes "reads_prefix (rl_codec A)" "0 \<le> rl_interval A"
  shows "serve_ok (relayDefaults A) (relay_run A evs)"
proof -
  let ?R = "relayDefaults A"
  have D: "reads_prefix (rl_codec ?R)" "0 < relay_k ?R"
    using assms by (simp_all add: relayDefaults_def relay_k_def nz_def Let_def)
  have "serve_ok ?R (fold (relay_on ?R) evs r)" if "serve_ok ?R r" for r
    using that by (induction evs arbitrary: r) (simp_all add: relay_on_serves [OF D])
  moreover have "serve_ok ?R (relay0 ?R)" using relay_ok_init [of ?R] by (simp add: serve_ok_def relay0_def)
  ultimately show ?thesis by (simp add: relay_run_def NewRelay_def Let_def)
qed

section \<open>The spectator follows\<close>

text \<open>The inputs of the two players for a frame, and those of the first frames.\<close>

definition frame_of :: "('i, 's) relaycfg \<Rightarrow> 's relay \<Rightarrow> nat \<Rightarrow> byte list" where
  "frame_of R r f = logged R r 0 f @ logged R r 1 f"

definition frames_of :: "('i, 's) relaycfg \<Rightarrow> 's relay \<Rightarrow> nat \<Rightarrow> byte list" where
  "frames_of R r n = concat (List.map (frame_of R r) [0..<n])"

definition watches :: "('i, 's) spectcfg \<Rightarrow> ('i, 's) relaycfg \<Rightarrow> bool" where
  "watches S R \<longleftrightarrow> sc_game S = rl_game R \<and> sc_codec S = rl_codec R \<and> sc_identity S = rl_identity R \<and> 0 < c_size (rl_codec R)"

definition follows :: "('i, 's) spectcfg \<Rightarrow> ('i, 's) relaycfg \<Rightarrow> 's relay \<Rightarrow> 's spectator \<Rightarrow> bool" where
  "follows S R r s \<longleftrightarrow> sp_base s = 0 \<and> (\<exists>n \<le> y_specVis r. sp_buf s = frames_of R r n \<and> sp_frame s \<le> n) \<and>
     sp_gamest s = log_sim R r (sp_frame s)"

lemma length_frame:
  assumes "serve_ok R r" "f < y_specVis r"
  shows "length (frame_of R r f) = 2 * relay_isz R"
proof -
  have l: "length (logged R r q f) = relay_isz R" if "q \<in> {0, 1}" for q
  proof -
    have "length (y_log r q) = y_logN r q * relay_isz R" "f + 1 \<le> y_logN r q"
      using assms that by (auto simp: serve_ok_def relay_ok_def log_ok_def)
    then have "(f + 1) * relay_isz R \<le> length (y_log r q)" by (metis mult_le_mono1)
    then show ?thesis by (simp add: logged_def field_def)
  qed
  show ?thesis using l [of 0] l [of 1] by (simp add: frame_of_def)
qed

lemma length_frames:
  assumes "serve_ok R r" "n \<le> y_specVis r"
  shows "length (frames_of R r n) = n * (2 * relay_isz R)"
  unfolding frames_of_def using length_concat_const [of "List.map (frame_of R r) [0..<n]" "2 * relay_isz R"]
    length_frame [OF assms(1)] assms(2) by auto

lemma frame_at:
  assumes "serve_ok R r" "n \<le> y_specVis r" "f < n"
  shows "field (f * (2 * relay_isz R)) (2 * relay_isz R) (frames_of R r n) = frame_of R r f"
proof -
  have "field (f * (2 * relay_isz R)) (2 * relay_isz R) (concat (List.map (frame_of R r) [0..<n]) @ []) = List.map (frame_of R r) [0..<n] ! f"
    by (rule field_concat) (use assms length_frame [OF assms(1)] in auto)
  then show ?thesis using assms(3) by (simp add: frames_of_def)
qed

lemma held_frames:
  assumes "watches S R" "serve_ok R r" "n \<le> y_specVis r" "sp_base s = 0" "sp_buf s = frames_of R r n"
  shows "held S s = n"
proof -
  have "spec_isz S = relay_isz R" "0 < relay_isz R" using assms(1) by (simp_all add: watches_def spec_isz_def relay_isz_def)
  then show ?thesis using assms(4,5) length_frames [OF assms(2,3)] by (simp add: held_def)
qed

lemma hold_frame_follows:
  assumes w: "watches S R" and ok: "serve_ok R r" and s: "follows S R r s" and v: "start + i < y_specVis r" "start + i \<le> held S s"
    and b: "field (specMaxHdr + i * 2 * spec_isz S) (2 * spec_isz S) b = frame_of R r (start + i)"
  shows "follows S R r (hold_frame S b start i s) \<and> start + Suc i \<le> held S (hold_frame S b start i s)"
proof -
  obtain n where n: "sp_base s = 0" "n \<le> y_specVis r" "sp_buf s = frames_of R r n" "sp_frame s \<le> n"
    "sp_gamest s = log_sim R r (sp_frame s)" using s by (auto simp: follows_def)
  have h: "held S s = n" using held_frames [OF w ok n(2,1,3)] .
  show ?thesis
  proof (cases "start + i < n")
    case True
    then show ?thesis using s h by (simp add: hold_frame_def)
  next
    case False
    then have e: "start + i = n" using v(2) h by simp
    define t where "t = s\<lparr>sp_buf := frames_of R r (Suc n)\<rparr>"
    have t: "hold_frame S b start i s = t" using e h n(3) b by (simp add: hold_frame_def t_def frames_of_def)
    have "held S t = Suc n" by (rule held_frames [OF w ok]) (use v(1) e n(1) in \<open>simp_all add: t_def\<close>)
    moreover have "follows S R r t" unfolding follows_def using n v(1) e by (auto simp: t_def intro!: exI [of _ "Suc n"])
    ultimately show ?thesis unfolding t using e by simp
  qed
qed

lemma hold_frames_follow:
  assumes w: "watches S R" and ok: "serve_ok R r" and v: "start + count \<le> y_specVis r"
    and b: "\<And>i. i < count \<Longrightarrow> field (specMaxHdr + i * 2 * spec_isz S) (2 * spec_isz S) b = frame_of R r (start + i)"
  shows "follows S R r s \<Longrightarrow> start \<le> held S s \<Longrightarrow> k \<le> count \<Longrightarrow>
    follows S R r (fold (hold_frame S b start) [0..<k] s) \<and> start + k \<le> held S (fold (hold_frame S b start) [0..<k] s)"
proof (induction k)
  case (Suc k)
  then show ?case using hold_frame_follows [OF w ok _ _ _ b [of k]] v by simp
qed simp

lemma spec_packet_follows:
  assumes w: "watches S R" and ok: "serve_ok R r" and n: "y_confN r < 2 ^ 32" and s: "follows S R r s" and m: "is_stream R r m"
  shows "follows S R r (spec_packet S (take maxPacketSize m) s)"
proof -
  obtain start count where c: "start + count \<le> y_specVis r" "count < 2 ^ 16"
    "count * (2 * relay_isz R) \<le> maxPacketSize - specMaxHdr" "m = stream R r start count"
    using m by (auto simp: is_stream_def)
  have z: "spec_isz S = relay_isz R" using w by (simp add: watches_def spec_isz_def relay_isz_def)
  define xs where "xs = List.map (\<lambda>i. frame_of R r (start + i)) [0..<count]"
  define hd where "hd = [protoVersion, ptSpectate] @ le_bytes 8 (relay_tag R) @ le_bytes 4 (word_of_nat start :: uint32) @
     le_bytes 2 (word_of_nat count :: 16 word)"
  have lh: "length hd = specMaxHdr" by (simp add: hd_def specMaxHdr_def)
  have m: "m = hd @ concat xs" by (simp add: c(4) stream_def hd_def xs_def frame_of_def)
  have lx: "\<forall>x \<in> set xs. length x = 2 * relay_isz R"
    using length_frame [OF ok] c(1) by (auto simp: xs_def)
  have len: "length m = specMaxHdr + count * (2 * relay_isz R)"
    using length_concat_const [OF lx] by (simp add: m lh xs_def)
  then have t: "take maxPacketSize m = m" using c(3) by (simp add: maxPacketSize_def specMaxHdr_def)
  have "start < 2 ^ 32" using n c(1) ok by (simp add: serve_ok_def)
  then have u: "unat (word_of_nat start :: uint32) = start" "unat (word_of_nat count :: 16 word) = count"
    using c(2) by (simp_all add: unsigned_of_nat take_bit_nat_eq_self)
  have f: "le_word (field 10 4 m) = (word_of_nat start :: uint32)" "le_word (field 14 2 m) = (word_of_nat count :: 16 word)"
    by (simp_all add: m hd_def)
  have at: "field (specMaxHdr + i * 2 * spec_isz S) (2 * spec_isz S) m = frame_of R r (start + i)" if "i < count" for i
  proof -
    have "field (i * (2 * relay_isz R)) (2 * relay_isz R) (concat xs @ []) = xs ! i"
      by (rule field_concat [OF lx]) (use that in \<open>simp add: xs_def\<close>)
    then show ?thesis using that by (simp add: m z lh xs_def mult.assoc)
  qed
  show ?thesis
    using hold_frames_follow [OF w ok c(1) at s _ order_refl] s
    unfolding t spec_packet_def Let_def f u by simp
qed

lemma spec_step_follows:
  assumes w: "watches S R" and D: "reads_prefix (rl_codec R)" and ok: "serve_ok R r" and s: "follows S R r s" and f: "sp_frame s < held S s"
  shows "follows S R r (spec_step S s)"
proof -
  obtain n where n: "sp_base s = 0" "n \<le> y_specVis r" "sp_buf s = frames_of R r n" "sp_frame s \<le> n"
    "sp_gamest s = log_sim R r (sp_frame s)" using s by (auto simp: follows_def)
  let ?f = "sp_frame s" and ?z = "relay_isz R"
  have h: "held S s = n" using held_frames [OF w ok n(2,1,3)] .
  then have fn: "?f < n" using f by simp
  have z: "spec_isz S = ?z" "sc_codec S = rl_codec R" "sc_game S = rl_game R" "c_size (rl_codec R) = ?z"
    using w by (simp_all add: watches_def spec_isz_def relay_isz_def)
  have at: "field (?f * (2 * ?z)) (2 * ?z) (sp_buf s) = frame_of R r ?f" unfolding n(3) by (rule frame_at [OF ok n(2) fn])
  have lf: "length (frame_of R r ?f) = 2 * ?z" by (rule length_frame [OF ok]) (use fn n(2) in simp)
  have l0: "length (logged R r 0 ?f) = ?z"
  proof -
    have "length (y_log r 0) = y_logN r 0 * ?z" "?f + 1 \<le> y_logN r 0"
      using ok fn n(2) by (auto simp: serve_ok_def relay_ok_def log_ok_def)
    then have "(?f + 1) * ?z \<le> length (y_log r 0)" by (metis mult_le_mono1)
    then show ?thesis by (simp add: logged_def field_def)
  qed
  then have l1: "length (logged R r 1 ?f) = ?z" using lf by (simp add: frame_of_def)
  have "field (?f * (2 * ?z) + i * ?z) ?z (sp_buf s) = field (i * ?z) ?z (frame_of R r ?f)" if "i \<in> {0, 1}" for i
    unfolding at [symmetric] using that by (subst field_field) auto
  from this [of 0] this [of 1]
  have e: "take ?z (drop (?f * (2 * ?z)) (sp_buf s)) = logged R r 0 ?f" "take ?z (drop (?f * (2 * ?z) + ?z) (sp_buf s)) = logged R r 1 ?f"
    using l0 l1 by (simp_all add: frame_of_def field_def)
  have g: "c_get (rl_codec R) (take ?z b) = c_get (rl_codec R) b" for b using D z(4) unfolding reads_prefix_def by metis
  have i: "c_get (rl_codec R) (drop (?f * 2 * ?z) (sp_buf s)) = log_input R r 0 ?f"
    "c_get (rl_codec R) (drop (?f * 2 * ?z + ?z) (sp_buf s)) = log_input R r 1 ?f"
    using g [of "drop (?f * (2 * ?z)) (sp_buf s)"] g [of "drop (?f * (2 * ?z) + ?z) (sp_buf s)"]
    by (simp_all add: log_input_def e mult.assoc)
  have "sp_gamest (spec_step S s) = log_sim R r (Suc ?f)"
    using n(1,5) i by (simp add: spec_step_def Let_def z log_sim_def)
  then show ?thesis unfolding follows_def using n(1,2,3) fn by (auto simp: spec_step_def Let_def intro!: exI [of _ n])
qed

lemma spec_loop_follows:
  assumes "watches S R" "reads_prefix (rl_codec R)" "serve_ok R r"
  shows "follows S R r s \<Longrightarrow> follows S R r (snd (spec_loop n S (k, s)))"
proof (induction n arbitrary: k s)
  case (Suc n)
  then show ?case using spec_step_follows [OF assms Suc.prems] by simp
qed simp

lemma follows_same:
  "sp_base t = sp_base s \<Longrightarrow> sp_buf t = sp_buf s \<Longrightarrow> sp_frame t = sp_frame s \<Longrightarrow> sp_gamest t = sp_gamest s \<Longrightarrow>
    follows S R r s \<Longrightarrow> follows S R r t"
  by (simp add: follows_def)

lemma spec_Poll_follows:
  assumes w: "watches S R" and D: "reads_prefix (rl_codec R)" and ok: "serve_ok R r" and n: "y_confN r < 2 ^ 32"
    and s: "follows S R r s" and m: "\<And>m. m \<in> set (sp_in s) \<Longrightarrow> is_stream R r m"
  shows "follows S R r (snd (spec_Poll S s)) \<and> set (sp_in (snd (spec_Poll S s))) \<subseteq> set (sp_in s)"
proof -
  let ?go = "\<lambda>m. spec_packet S (take maxPacketSize m)"
  have io: "sp_in (spec_packet S b s) = sp_in s" for b and s :: "'b spectator"
  proof -
    have "sp_in (fold (hold_frame S b start) xs s) = sp_in s" for start xs and s :: "'b spectator"
      by (induction xs arbitrary: s) (simp_all add: hold_frame_def)
    then show ?thesis by (simp add: spec_packet_def Let_def)
  qed
  have run: "follows S R r (fold ?go ms u)" if "follows S R r u" "\<And>m. m \<in> set ms \<Longrightarrow> is_stream R r m" for ms u
    using that by (induction ms arbitrary: u) (simp_all add: spec_packet_follows [OF w ok n])
  have fin: "sp_in (fold ?go ms u) = sp_in u" for ms and u :: "'b spectator" by (induction ms arbitrary: u) (simp_all add: io)
  have lin: "sp_in (snd (spec_loop k S (j, u))) = sp_in u" for k j and u :: "'b spectator"
    by (induction k arbitrary: j u) (simp_all add: spec_step_def Let_def)
  define t where "t = fold ?go (take 512 (sp_in s)) (s\<lparr>sp_in := drop 512 (sp_in s)\<rparr>)"
  have "follows S R r t" unfolding t_def
    by (rule run) (use s m in_set_takeD in \<open>fastforce simp: follows_def\<close>)+
  then have "follows S R r (snd (spec_loop (nat (sc_perPoll S)) S (0, t)))" by (rule spec_loop_follows [OF w D ok])
  moreover have "sp_in (snd (spec_loop (nat (sc_perPoll S)) S (0, t))) = drop 512 (sp_in s)" unfolding lin by (simp add: t_def fin)
  ultimately show ?thesis unfolding spec_Poll_def Let_def t_def [symmetric]
    by (auto simp: split_beta follows_def dest: in_set_dropD)
qed

text \<open>Batches of datagrams that arrive before one poll each.\<close>

definition spect_run :: "('i, 's) spectcfg \<Rightarrow> 's \<Rightarrow> byte list list list \<Rightarrow> 's spectator" where
  "spect_run S g batches =
     (let (S, s) = NewSpectator S g in fold (\<lambda>ms s. snd (spec_Poll S (s\<lparr>sp_in := sp_in s @ ms\<rparr>))) batches s)"

lemma spect_run_follows:
  assumes w: "watches S R" and D: "reads_prefix (rl_codec R)" and ok: "serve_ok R r" and n: "y_confN r < 2 ^ 32"
    and m: "\<And>ms m. ms \<in> set batches \<Longrightarrow> m \<in> set ms \<Longrightarrow> is_stream R r m"
  shows "follows S R r (spect_run S (rl_new R) batches)"
proof -
  define T where "T = S\<lparr>sc_perPoll := nz 30 (sc_perPoll S)\<rparr>"
  have wT: "watches T R" using w by (simp add: watches_def T_def)
  have fT: "follows S R r s = follows T R r s" for s by (simp add: follows_def)
  have run: "follows T R r (fold (\<lambda>ms s. snd (spec_Poll T (s\<lparr>sp_in := sp_in s @ ms\<rparr>))) bs s)"
    if "follows T R r s" "\<And>m. m \<in> set (sp_in s) \<Longrightarrow> is_stream R r m"
      "\<And>ms m. ms \<in> set bs \<Longrightarrow> m \<in> set ms \<Longrightarrow> is_stream R r m" for bs s
    using that
  proof (induction bs arbitrary: s)
    case (Cons ms bs)
    let ?u = "s\<lparr>sp_in := sp_in s @ ms\<rparr>"
    have i: "is_stream R r m" if "m \<in> set (sp_in ?u)" for m
      using that Cons.prems(2) [of m] Cons.prems(3) [of ms m] by auto
    have "follows T R r ?u" using Cons.prems(1) by (simp add: follows_def)
    note p = spec_Poll_follows [OF wT D ok n this i]
    have "follows T R r (fold (\<lambda>ms s. snd (spec_Poll T (s\<lparr>sp_in := sp_in s @ ms\<rparr>))) bs (snd (spec_Poll T ?u)))"
    proof (rule Cons.IH)
      show "follows T R r (snd (spec_Poll T ?u))" using p by blast
      show "is_stream R r m" if "m \<in> set (sp_in (snd (spec_Poll T ?u)))" for m using that p i by blast
      show "is_stream R r m" if "xs \<in> set bs" "m \<in> set xs" for xs m using that Cons.prems(3) by auto
    qed
    then show ?case by simp
  qed simp
  have "follows T R r \<lparr>sp_gamest = rl_new R, sp_frame = 0, sp_buf = [], sp_base = 0, sp_in = [], sp_out = []\<rparr>"
    unfolding follows_def by (auto simp: frames_of_def log_sim_def intro!: exI [of _ 0])
  from run [OF this _ m] show ?thesis unfolding fT spect_run_def NewSpectator_def T_def [symmetric] by simp
qed

text \<open>C20. Whatever the network loses, repeats, delays or reorders of the relay's stream to its
  spectators, the state of a spectator is the simulation of the logged inputs of the frames it has
  stepped, and it has stepped only frames that the relay has released after the spectator delay.\<close>

theorem spectator_follows_relay:
  assumes "reads_prefix (rl_codec A)" "0 \<le> rl_interval A" "y_confN (relay_run A evs) < 2 ^ 32" "watches S A"
    and "\<forall>ms \<in> set batches. \<forall>m \<in> set ms. \<exists>sp \<in> set (y_specs (relay_run A evs)). m \<in> set (yp_out sp)"
  shows "let s = spect_run S (rl_new A) batches; r = relay_run A evs; R = relayDefaults A in
    sp_frame s \<le> y_specVis r \<and> y_specVis r \<le> y_confN r \<and>
    sp_gamest s = sim (rl_game A) (rl_new A) (log_input R r 0) (log_input R r 1) (sp_frame s)"
proof -
  let ?R = "relayDefaults A" and ?r = "relay_run A evs"
  have f: "rl_codec ?R = rl_codec A" "rl_new ?R = rl_new A" "rl_game ?R = rl_game A" "watches S ?R"
    using assms(4) by (simp_all add: relayDefaults_def Let_def watches_def)
  have ok: "serve_ok ?R ?r" by (rule relay_run_serves [OF assms(1,2)])
  have "follows S ?R ?r (spect_run S (rl_new ?R) batches)"
    by (rule spect_run_follows) (use f assms ok in \<open>auto simp: serve_ok_def\<close>)
  then show ?thesis using ok by (auto simp: follows_def f log_sim_def serve_ok_def Let_def)
qed

definition demo_watcher :: "(byte, byte) spectcfg" where
  "demo_watcher = \<lparr>sc_game = rl_game demo_relay, sc_codec = rl_codec demo_relay, sc_identity = rl_identity demo_relay, sc_perPoll = 0\<rparr>"

definition demo_streamed :: "relay_event list" where
  "demo_streamed = Joined # demo_events @ [Ticked 10 (\<lambda>_. []) (\<lambda>_. [])]"

definition demo_stream :: "byte list list" where
  "demo_stream = yp_out (hd (y_specs (relay_run demo_relay demo_streamed)))"

lemma demo_streamed: "y_confN (relay_run demo_relay demo_streamed) = 2 \<and> length (y_specs (relay_run demo_relay demo_streamed)) = 1"
  by code_simp

lemma spectator_follows_relay_witness:
  "sp_frame (spect_run demo_watcher (rl_new demo_relay) [demo_stream, demo_stream]) \<le> y_specVis (relay_run demo_relay demo_streamed) \<and>
   y_confN (relay_run demo_relay demo_streamed) = 2 \<and> demo_stream = yp_out (hd (y_specs (relay_run demo_relay demo_streamed)))"
proof -
  have "y_specs (relay_run demo_relay demo_streamed) \<noteq> []" using demo_streamed by auto
  then have "\<forall>ms \<in> set [demo_stream, demo_stream]. \<forall>m \<in> set ms. \<exists>sp \<in> set (y_specs (relay_run demo_relay demo_streamed)). m \<in> set (yp_out sp)"
    unfolding demo_stream_def by (auto intro: hd_in_set)
  moreover have "reads_prefix (rl_codec demo_relay)" "0 \<le> rl_interval demo_relay" "watches demo_watcher demo_relay" "rl_new demo_relay = 0"
    by (simp_all add: reads_prefix_def demo_relay_def watches_def demo_watcher_def)
  moreover have "y_confN (relay_run demo_relay demo_streamed) < 2 ^ 32" using demo_streamed by simp
  ultimately show ?thesis
    using spectator_follows_relay [of demo_relay demo_streamed demo_watcher "[demo_stream, demo_stream]"] demo_streamed
    unfolding Let_def by (simp add: demo_stream_def)
qed

end
