(* ===== verification/Prog_Codec.thy ===== *)
theory Prog_Codec
  imports Go_Binary "HOL-Library.State_Monad"
begin

unbundle bit_operations_syntax

text \<open>
  \<^verbatim>\<open>island/program\<close>: the program of an island (\<^verbatim>\<open>program.go\<close>) and its binary form
  (\<^verbatim>\<open>encode_binary.go\<close>). Kinds, opcodes and expression types are bytes, as the decoder takes any
  byte for them; identifiers of nodes and expressions are 16 bits wide. A Go map is a finite map.
\<close>

section \<open>Programs\<close>

type_synonym uint16 = "16 word"

record prop_def =
  pd_name :: string
  pd_type :: byte

record node_attr =
  na_kind :: byte
  na_name :: string
  na_value :: string
  na_expr :: uint16
  na_event :: string

record prog_node =
  pn_kind :: byte
  pn_tag :: string
  pn_text :: string
  pn_expr :: uint16
  pn_attrs :: "node_attr list"
  pn_children :: "uint16 list"

record prog_expr =
  px_op :: byte
  px_operands :: "uint16 list"
  px_value :: string
  px_type :: byte

record signal_def =
  sd_name :: string
  sd_type :: byte
  sd_init :: uint16

record computed_def =
  cd_name :: string
  cd_type :: byte
  cd_expr :: uint16

record prog_handler =
  ph_name :: string
  ph_body :: "uint16 list"

record func_def =
  fd_name :: string
  fd_params :: "string list"
  fd_body :: "uint16 list"
  fd_results :: int

record engine_node =
  en_kind :: string
  en_geometry :: string
  en_material :: string
  en_props :: "(string, uint16) fmap"
  en_children :: "int list"
  en_static :: bool

datatype surface_kind = SurfaceDOM | SurfaceCanvas2D | SurfaceScene3D

record prog =
  pg_version :: string
  pg_name :: string
  pg_props :: "prop_def list"
  pg_nodes :: "prog_node list"
  pg_root :: uint16
  pg_exprs :: "prog_expr list"
  pg_signals :: "signal_def list"
  pg_computeds :: "computed_def list"
  pg_handlers :: "prog_handler list"
  pg_funcs :: "func_def list"
  pg_staticMask :: "bool list"
  pg_engineNodes :: "engine_node list"
  pg_surface :: surface_kind
  pg_maxCallDepth :: int

text \<open>The zero value of the struct.\<close>

definition prog0 :: prog where
  "prog0 = \<lparr>pg_version = [], pg_name = [], pg_props = [], pg_nodes = [], pg_root = 0, pg_exprs = [], pg_signals = [],
     pg_computeds = [], pg_handlers = [], pg_funcs = [], pg_staticMask = [], pg_engineNodes = [], pg_surface = SurfaceDOM,
     pg_maxCallDepth = 0\<rparr>"

section \<open>The string table\<close>

record stringTable =
  st_index :: "string \<rightharpoonup> uint16"
  st_strings :: "string list"

definition newStringTable :: stringTable where
  "newStringTable = \<lparr>st_index = (\<lambda>_. None), st_strings = []\<rparr>"

definition intern :: "string \<Rightarrow> stringTable \<Rightarrow> uint16 \<times> stringTable" where
  "intern s st =
     (case st_index st s of
        Some n \<Rightarrow> (n, st)
      | None \<Rightarrow>
          let n = word_of_nat (length (st_strings st))
          in (n, \<lparr>st_index = (st_index st)(s \<mapsto> n), st_strings = st_strings st @ [s]\<rparr>))"

definition sortedPropNames :: "(string, uint16) fmap \<Rightarrow> string list" where
  "sortedPropNames m = sorted_list_of_fset (fmdom m)"

text \<open>The strings in the order of \<open>internAll\<close>.\<close>

definition program_strings :: "prog \<Rightarrow> string list" where
  "program_strings p =
     [pg_name p, pg_version p] @ List.map pd_name (pg_props p) @
     concat (List.map (\<lambda>n. [pn_tag n, pn_text n] @ concat (List.map (\<lambda>a. [na_name a, na_value a, na_event a]) (pn_attrs n))) (pg_nodes p)) @
     List.map px_value (pg_exprs p) @ List.map sd_name (pg_signals p) @ List.map cd_name (pg_computeds p) @
     List.map ph_name (pg_handlers p) @ concat (List.map (\<lambda>f. fd_name f # fd_params f) (pg_funcs p)) @
     concat (List.map (\<lambda>e. [en_kind e, en_geometry e, en_material e] @ sortedPropNames (en_props e)) (pg_engineNodes p))"

definition internAll :: "prog \<Rightarrow> stringTable \<Rightarrow> stringTable" where
  "internAll p st = fold (\<lambda>s st. snd (intern s st)) (program_strings p) st"

section \<open>The encoder\<close>

definition magic :: "byte list" where "magic = [71, 83, 88, 0]"
definition binaryVersion :: uint16 where "binaryVersion = 1"
definition sectionCount :: uint16 where "sectionCount = 11"

definition secStringTable :: byte where "secStringTable = 0"
definition secProps :: byte where "secProps = 1"
definition secNodes :: byte where "secNodes = 2"
definition secExprs :: byte where "secExprs = 3"
definition secSignals :: byte where "secSignals = 4"
definition secComputeds :: byte where "secComputeds = 5"
definition secHandlers :: byte where "secHandlers = 6"
definition secStaticMask :: byte where "secStaticMask = 7"
definition secFuncs :: byte where "secFuncs = 8"
definition secEngineNodes :: byte where "secEngineNodes = 9"
definition secMeta :: byte where "secMeta = 10"

definition putUint16 :: "uint16 \<Rightarrow> byte list" where
  "putUint16 v = [ucast v, ucast (drop_bit 8 v)]"

definition putUint32 :: "uint32 \<Rightarrow> byte list" where
  "putUint32 v = [ucast v, ucast (drop_bit 8 v), ucast (drop_bit 16 v), ucast (drop_bit 24 v)]"

text \<open>\<open>uint16(len(xs))\<close>, which drops what does not fit.\<close>

definition putLen :: "'a list \<Rightarrow> byte list" where
  "putLen xs = putUint16 (word_of_nat (length xs))"

text \<open>The identifier that a writer gets for a string; the table of a program holds every string it
  writes, so that the writers leave it as it is.\<close>

definition putString :: "stringTable \<Rightarrow> string \<Rightarrow> byte list" where
  "putString st s = putUint16 (fst (intern s st))"

definition putBool :: "bool \<Rightarrow> byte list" where
  "putBool b = [if b then 1 else 0]"

definition putIDs :: "uint16 list \<Rightarrow> byte list" where
  "putIDs xs = putLen xs @ concat (List.map putUint16 xs)"

definition encodeStringTable :: "stringTable \<Rightarrow> byte list" where
  "encodeStringTable st =
     putLen (st_strings st) @ concat (List.map (\<lambda>s. putLen s @ bytes_of_string s) (st_strings st))"

definition encodeProp :: "stringTable \<Rightarrow> prop_def \<Rightarrow> byte list" where
  "encodeProp st d = putString st (pd_name d) @ [pd_type d]"

definition encodeProps :: "prog \<Rightarrow> stringTable \<Rightarrow> byte list" where
  "encodeProps p st = putLen (pg_props p) @ concat (List.map (encodeProp st) (pg_props p))"

definition encodeAttr :: "stringTable \<Rightarrow> node_attr \<Rightarrow> byte list" where
  "encodeAttr st a = [na_kind a] @ putString st (na_name a) @ putString st (na_value a) @ putUint16 (na_expr a) @
     putString st (na_event a)"

definition encodeNode :: "stringTable \<Rightarrow> prog_node \<Rightarrow> byte list" where
  "encodeNode st n = [pn_kind n] @ putString st (pn_tag n) @ putString st (pn_text n) @ putUint16 (pn_expr n) @
     putLen (pn_attrs n) @ concat (List.map (encodeAttr st) (pn_attrs n)) @ putIDs (pn_children n)"

definition encodeNodes :: "prog \<Rightarrow> stringTable \<Rightarrow> byte list" where
  "encodeNodes p st = putLen (pg_nodes p) @ putUint16 (pg_root p) @ putString st (pg_name p) @
     concat (List.map (encodeNode st) (pg_nodes p))"

definition encodeExpr :: "stringTable \<Rightarrow> prog_expr \<Rightarrow> byte list" where
  "encodeExpr st e = [px_op e, px_type e] @ putString st (px_value e) @ putIDs (px_operands e)"

definition encodeExprs :: "prog \<Rightarrow> stringTable \<Rightarrow> byte list" where
  "encodeExprs p st = putLen (pg_exprs p) @ concat (List.map (encodeExpr st) (pg_exprs p))"

definition encodeSignal :: "stringTable \<Rightarrow> signal_def \<Rightarrow> byte list" where
  "encodeSignal st s = putString st (sd_name s) @ [sd_type s] @ putUint16 (sd_init s)"

definition encodeSignals :: "prog \<Rightarrow> stringTable \<Rightarrow> byte list" where
  "encodeSignals p st = putLen (pg_signals p) @ concat (List.map (encodeSignal st) (pg_signals p))"

definition encodeComputed :: "stringTable \<Rightarrow> computed_def \<Rightarrow> byte list" where
  "encodeComputed st c = putString st (cd_name c) @ [cd_type c] @ putUint16 (cd_expr c)"

definition encodeComputeds :: "prog \<Rightarrow> stringTable \<Rightarrow> byte list" where
  "encodeComputeds p st = putLen (pg_computeds p) @ concat (List.map (encodeComputed st) (pg_computeds p))"

definition encodeHandler :: "stringTable \<Rightarrow> prog_handler \<Rightarrow> byte list" where
  "encodeHandler st h = putString st (ph_name h) @ putIDs (ph_body h)"

definition encodeHandlers :: "prog \<Rightarrow> stringTable \<Rightarrow> byte list" where
  "encodeHandlers p st = putLen (pg_handlers p) @ concat (List.map (encodeHandler st) (pg_handlers p))"

definition encodeFunc :: "stringTable \<Rightarrow> func_def \<Rightarrow> byte list" where
  "encodeFunc st f = putString st (fd_name f) @ putUint32 (word_of_int (fd_results f)) @
     putLen (fd_params f) @ concat (List.map (putString st) (fd_params f)) @ putIDs (fd_body f)"

definition encodeFuncs :: "prog \<Rightarrow> stringTable \<Rightarrow> byte list" where
  "encodeFuncs p st = putLen (pg_funcs p) @ concat (List.map (encodeFunc st) (pg_funcs p))"

definition encodeEngineNode :: "stringTable \<Rightarrow> engine_node \<Rightarrow> byte list" where
  "encodeEngineNode st e =
     (let names = sortedPropNames (en_props e) in
      putString st (en_kind e) @ putString st (en_geometry e) @ putString st (en_material e) @
      putLen names @ concat (List.map (\<lambda>n. putString st n @ putUint16 (the (fmlookup (en_props e) n))) names) @
      putLen (en_children e) @ concat (List.map (\<lambda>c. putUint32 (word_of_int c)) (en_children e)) @ putBool (en_static e))"

definition encodeEngineNodes :: "prog \<Rightarrow> stringTable \<Rightarrow> byte list" where
  "encodeEngineNodes p st = putLen (pg_engineNodes p) @ concat (List.map (encodeEngineNode st) (pg_engineNodes p))"

definition encodeMeta :: "prog \<Rightarrow> stringTable \<Rightarrow> byte list" where
  "encodeMeta p st = putString st (pg_version p) @ putUint32 (word_of_int (pg_maxCallDepth p))"

definition encodeStaticMask :: "prog \<Rightarrow> byte list" where
  "encodeStaticMask p = putLen (pg_staticMask p) @ concat (List.map putBool (pg_staticMask p))"

definition writeSection :: "byte \<Rightarrow> byte list \<Rightarrow> byte list" where
  "writeSection tag body = [tag] @ putUint32 (word_of_nat (length body)) @ body"

definition program_sections :: "prog \<Rightarrow> (byte \<times> byte list) list" where
  "program_sections p =
     (let st = internAll p newStringTable in
      [(secStringTable, encodeStringTable st), (secProps, encodeProps p st), (secNodes, encodeNodes p st),
       (secExprs, encodeExprs p st), (secSignals, encodeSignals p st), (secComputeds, encodeComputeds p st),
       (secHandlers, encodeHandlers p st), (secStaticMask, encodeStaticMask p), (secFuncs, encodeFuncs p st),
       (secEngineNodes, encodeEngineNodes p st), (secMeta, encodeMeta p st)])"

text \<open>The error that \<open>EncodeBinary\<close> returns is always nil.\<close>

definition EncodeBinary :: "prog \<Rightarrow> byte list" where
  "EncodeBinary p = magic @ putUint16 binaryVersion @ putUint16 sectionCount @
     concat (List.map (\<lambda>(tag, body). writeSection tag body) (program_sections p))"

section \<open>The reader\<close>

text \<open>The only error of the reader is \<open>io.ErrUnexpectedEOF\<close>; once it is set, every read gives zero.\<close>

record binReader =
  br_data :: "byte list"
  br_off :: nat
  br_err :: bool

definition newReader :: "byte list \<Rightarrow> binReader" where
  "newReader b = \<lparr>br_data = b, br_off = 0, br_err = False\<rparr>"

definition br_remaining :: "binReader \<Rightarrow> nat" where
  "br_remaining br = length (br_data br) - br_off br"

definition readFull :: "nat \<Rightarrow> (binReader, byte list) state" where
  "readFull n = State (\<lambda>br.
     if br_err br then (replicate n 0, br)
     else if br_remaining br < n then (replicate n 0, br\<lparr>br_err := True\<rparr>)
     else (field (br_off br) n (br_data br), br\<lparr>br_off := br_off br + n\<rparr>))"

definition readByte :: "(binReader, byte) state" where
  "readByte = State (\<lambda>br.
     if br_err br then (0, br)
     else if br_remaining br < 1 then (0, br\<lparr>br_err := True\<rparr>)
     else (br_data br ! br_off br, br\<lparr>br_off := br_off br + 1\<rparr>))"

definition readU16 :: "(binReader, uint16) state" where
  "readU16 = State (\<lambda>br.
     if br_err br then (0, br)
     else if br_remaining br < 2 then (0, br\<lparr>br_err := True\<rparr>)
     else (le_word (field (br_off br) 2 (br_data br)), br\<lparr>br_off := br_off br + 2\<rparr>))"

definition readU32 :: "(binReader, uint32) state" where
  "readU32 = State (\<lambda>br.
     if br_err br then (0, br)
     else if br_remaining br < 4 then (0, br\<lparr>br_err := True\<rparr>)
     else (le_word (field (br_off br) 4 (br_data br)), br\<lparr>br_off := br_off br + 4\<rparr>))"

text \<open>The sub-reader of a section.\<close>

definition readSection :: "uint32 \<Rightarrow> (binReader, binReader) state" where
  "readSection len = State (\<lambda>br.
     if br_err br then (\<lparr>br_data = [], br_off = 0, br_err = True\<rparr>, br)
     else if (word_of_nat (br_remaining br) :: uint32) < len
       then (\<lparr>br_data = [], br_off = 0, br_err = True\<rparr>, br\<lparr>br_err := True\<rparr>)
     else (newReader (field (br_off br) (unat len) (br_data br)), br\<lparr>br_off := br_off br + unat len\<rparr>))"

text \<open>\<open>for i := range count\<close>, one value for each round.\<close>

fun read_times :: "nat \<Rightarrow> ('s, 'a) state \<Rightarrow> ('s, 'a list) state" where
  "read_times 0 r = State_Monad.return []"
| "read_times (Suc n) r = do { x \<leftarrow> r; xs \<leftarrow> read_times n r; State_Monad.return (x # xs) }"

definition read_list :: "(binReader, 'a) state \<Rightarrow> (binReader, 'a list) state" where
  "read_list r = do { n \<leftarrow> readU16; read_times (unat n) r }"

section \<open>The decoder\<close>

definition resolveString :: "string list \<Rightarrow> uint16 \<Rightarrow> string" where
  "resolveString strs idx = (if unat idx < length strs then strs ! unat idx else [])"

definition readString :: "string list \<Rightarrow> (binReader, string) state" where
  "readString strs = do { i \<leftarrow> readU16; State_Monad.return (resolveString strs i) }"

text \<open>The strings left to read; on an error those are empty.\<close>

fun decodeStrings :: "nat \<Rightarrow> (binReader, string list) state" where
  "decodeStrings 0 = State_Monad.return []"
| "decodeStrings (Suc n) = do {
     slen \<leftarrow> readU16;
     br \<leftarrow> State_Monad.get;
     (if br_err br then State_Monad.return (replicate (Suc n) [])
      else if br_remaining br < unat slen then do {
        State_Monad.set (br\<lparr>br_err := True\<rparr>);
        State_Monad.return (replicate (Suc n) []) }
      else do {
        State_Monad.set (br\<lparr>br_off := br_off br + unat slen\<rparr>);
        ss \<leftarrow> decodeStrings n;
        State_Monad.return (string_of_bytes (field (br_off br) (unat slen) (br_data br)) # ss) }) }"

definition decodeStringTable :: "(binReader, string list) state" where
  "decodeStringTable = do { count \<leftarrow> readU16; decodeStrings (unat count) }"

definition decodeProp :: "string list \<Rightarrow> (binReader, prop_def) state" where
  "decodeProp strs = do { n \<leftarrow> readString strs; t \<leftarrow> readByte; State_Monad.return \<lparr>pd_name = n, pd_type = t\<rparr> }"

definition decodeProps :: "string list \<Rightarrow> (binReader, prop_def list) state" where
  "decodeProps strs = read_list (decodeProp strs)"

definition decodeAttr :: "string list \<Rightarrow> (binReader, node_attr) state" where
  "decodeAttr strs = do {
     k \<leftarrow> readByte; n \<leftarrow> readString strs; v \<leftarrow> readString strs; x \<leftarrow> readU16; e \<leftarrow> readString strs;
     State_Monad.return \<lparr>na_kind = k, na_name = n, na_value = v, na_expr = x, na_event = e\<rparr> }"

definition decodeNode :: "string list \<Rightarrow> (binReader, prog_node) state" where
  "decodeNode strs = do {
     k \<leftarrow> readByte; t \<leftarrow> readString strs; x \<leftarrow> readString strs; e \<leftarrow> readU16;
     attrs \<leftarrow> read_list (decodeAttr strs); children \<leftarrow> read_list readU16;
     State_Monad.return \<lparr>pn_kind = k, pn_tag = t, pn_text = x, pn_expr = e, pn_attrs = attrs, pn_children = children\<rparr> }"

definition decodeNodes :: "string list \<Rightarrow> (binReader, prog_node list \<times> uint16 \<times> string) state" where
  "decodeNodes strs = do {
     count \<leftarrow> readU16; root \<leftarrow> readU16; name \<leftarrow> readString strs;
     nodes \<leftarrow> read_times (unat count) (decodeNode strs);
     State_Monad.return (nodes, root, name) }"

definition decodeExpr :: "string list \<Rightarrow> (binReader, prog_expr) state" where
  "decodeExpr strs = do {
     op \<leftarrow> readByte; t \<leftarrow> readByte; v \<leftarrow> readString strs; ops \<leftarrow> read_list readU16;
     State_Monad.return \<lparr>px_op = op, px_operands = ops, px_value = v, px_type = t\<rparr> }"

definition decodeExprs :: "string list \<Rightarrow> (binReader, prog_expr list) state" where
  "decodeExprs strs = read_list (decodeExpr strs)"

definition decodeSignal :: "string list \<Rightarrow> (binReader, signal_def) state" where
  "decodeSignal strs = do {
     n \<leftarrow> readString strs; t \<leftarrow> readByte; i \<leftarrow> readU16;
     State_Monad.return \<lparr>sd_name = n, sd_type = t, sd_init = i\<rparr> }"

definition decodeSignals :: "string list \<Rightarrow> (binReader, signal_def list) state" where
  "decodeSignals strs = read_list (decodeSignal strs)"

definition decodeComputed :: "string list \<Rightarrow> (binReader, computed_def) state" where
  "decodeComputed strs = do {
     n \<leftarrow> readString strs; t \<leftarrow> readByte; e \<leftarrow> readU16;
     State_Monad.return \<lparr>cd_name = n, cd_type = t, cd_expr = e\<rparr> }"

definition decodeComputeds :: "string list \<Rightarrow> (binReader, computed_def list) state" where
  "decodeComputeds strs = read_list (decodeComputed strs)"

definition decodeHandler :: "string list \<Rightarrow> (binReader, prog_handler) state" where
  "decodeHandler strs = do {
     n \<leftarrow> readString strs; b \<leftarrow> read_list readU16; State_Monad.return \<lparr>ph_name = n, ph_body = b\<rparr> }"

definition decodeHandlers :: "string list \<Rightarrow> (binReader, prog_handler list) state" where
  "decodeHandlers strs = read_list (decodeHandler strs)"

text \<open>\<open>int(int32(br.readU32()))\<close>.\<close>

definition readInt32 :: "(binReader, int) state" where
  "readInt32 = do { w \<leftarrow> readU32; State_Monad.return (sint w) }"

definition decodeFunc :: "string list \<Rightarrow> (binReader, func_def) state" where
  "decodeFunc strs = do {
     n \<leftarrow> readString strs; results \<leftarrow> readInt32; params \<leftarrow> read_list (readString strs); b \<leftarrow> read_list readU16;
     State_Monad.return \<lparr>fd_name = n, fd_params = params, fd_body = b, fd_results = results\<rparr> }"

definition decodeFuncs :: "string list \<Rightarrow> (binReader, func_def list) state" where
  "decodeFuncs strs = read_list (decodeFunc strs)"

definition readPair :: "string list \<Rightarrow> (binReader, string \<times> uint16) state" where
  "readPair strs = do { n \<leftarrow> readString strs; e \<leftarrow> readU16; State_Monad.return (n, e) }"

definition decodeEngineNode :: "string list \<Rightarrow> (binReader, engine_node) state" where
  "decodeEngineNode strs = do {
     k \<leftarrow> readString strs; g \<leftarrow> readString strs; m \<leftarrow> readString strs;
     props \<leftarrow> read_list (readPair strs); children \<leftarrow> read_list readInt32; b \<leftarrow> readByte;
     State_Monad.return \<lparr>en_kind = k, en_geometry = g, en_material = m,
       en_props = fold (\<lambda>(n, e) m. fmupd n e m) props fmempty, en_children = children, en_static = (b \<noteq> 0)\<rparr> }"

definition decodeEngineNodes :: "string list \<Rightarrow> (binReader, engine_node list) state" where
  "decodeEngineNodes strs = read_list (decodeEngineNode strs)"

definition decodeMeta :: "string list \<Rightarrow> (binReader, string \<times> int) state" where
  "decodeMeta strs = do { v \<leftarrow> readString strs; d \<leftarrow> readInt32; State_Monad.return (v, d) }"

definition decodeStaticMask :: "(binReader, bool list) state" where
  "decodeStaticMask = read_list (do { b \<leftarrow> readByte; State_Monad.return (b \<noteq> 0) })"

datatype decode_error =
    ReadingMagic | InvalidMagic "byte list" | ReadingVersion | UnsupportedVersion uint16 | ReadingCount
  | SectionHeader nat | SectionData nat | SectionBody byte

text \<open>The section of a tag, read into the program and the strings; an unknown tag is skipped.\<close>

definition decode_section :: "byte \<Rightarrow> prog \<times> string list \<Rightarrow> (binReader, prog \<times> string list) state" where
  "decode_section tag = (\<lambda>(p, strs).
     if tag = secStringTable then do { ss \<leftarrow> decodeStringTable; State_Monad.return (p, ss) }
     else if tag = secProps then do { x \<leftarrow> decodeProps strs; State_Monad.return (p\<lparr>pg_props := x\<rparr>, strs) }
     else if tag = secNodes then do {
       (nodes, root, name) \<leftarrow> decodeNodes strs;
       State_Monad.return (p\<lparr>pg_nodes := nodes, pg_root := root, pg_name := name\<rparr>, strs) }
     else if tag = secExprs then do { x \<leftarrow> decodeExprs strs; State_Monad.return (p\<lparr>pg_exprs := x\<rparr>, strs) }
     else if tag = secSignals then do { x \<leftarrow> decodeSignals strs; State_Monad.return (p\<lparr>pg_signals := x\<rparr>, strs) }
     else if tag = secComputeds then do { x \<leftarrow> decodeComputeds strs; State_Monad.return (p\<lparr>pg_computeds := x\<rparr>, strs) }
     else if tag = secHandlers then do { x \<leftarrow> decodeHandlers strs; State_Monad.return (p\<lparr>pg_handlers := x\<rparr>, strs) }
     else if tag = secStaticMask then do { x \<leftarrow> decodeStaticMask; State_Monad.return (p\<lparr>pg_staticMask := x\<rparr>, strs) }
     else if tag = secFuncs then do { x \<leftarrow> decodeFuncs strs; State_Monad.return (p\<lparr>pg_funcs := x\<rparr>, strs) }
     else if tag = secEngineNodes then do { x \<leftarrow> decodeEngineNodes strs; State_Monad.return (p\<lparr>pg_engineNodes := x\<rparr>, strs) }
     else if tag = secMeta then do {
       (v, d) \<leftarrow> decodeMeta strs; State_Monad.return (p\<lparr>pg_version := v, pg_maxCallDepth := d\<rparr>, strs) }
     else State_Monad.return (p, strs))"

text \<open>The sections from the \<open>i\<close>-th on; \<open>n\<close> of them are left.\<close>

fun decode_sections :: "nat \<Rightarrow> nat \<Rightarrow> binReader \<Rightarrow> prog \<times> string list \<Rightarrow> decode_error + prog \<times> string list" where
  "decode_sections 0 i br ps = Inr ps"
| "decode_sections (Suc n) i br ps =
     (let (tag, br) = run_state readByte br; (len, br) = run_state readU32 br in
      if br_err br then Inl (SectionHeader i)
      else
        let (sr, br) = run_state (readSection len) br in
        if br_err sr then Inl (SectionData i)
        else
          let (ps, sr) = run_state (decode_section tag ps) sr in
          if br_err sr then Inl (SectionBody tag) else decode_sections n (i + 1) br ps)"

definition DecodeBinary :: "byte list \<Rightarrow> decode_error + prog" where
  "DecodeBinary data =
     (let (hdr, br) = run_state (readFull 4) (newReader data) in
      if br_err br then Inl ReadingMagic
      else if hdr \<noteq> magic then Inl (InvalidMagic hdr)
      else
        let (version, br) = run_state readU16 br in
        if br_err br then Inl ReadingVersion
        else if version \<noteq> binaryVersion then Inl (UnsupportedVersion version)
        else
          let (count, br) = run_state readU16 br in
          if br_err br then Inl ReadingCount
          else map_sum id fst (decode_sections (unat count) 0 br (prog0, [])))"

end
