(* ===== verification/Prog_Roundtrip.thy ===== *)
theory Prog_Roundtrip
  imports Prog_Codec
begin

unbundle bit_operations_syntax

text \<open>
  The binary form of a program: what \<open>EncodeBinary\<close> writes and \<open>DecodeBinary\<close> makes of it. The reader
  consumes exactly what a writer put, section by section; lists longer than their 16-bit counts
  are cut, silently.
\<close>

section \<open>Reading what was written\<close>

definition reads :: "(binReader, 'a) state \<Rightarrow> byte list \<Rightarrow> 'a \<Rightarrow> bool" where
  "reads m b v \<longleftrightarrow> (\<forall>pre post. run_state m \<lparr>br_data = pre @ b @ post, br_off = length pre, br_err = False\<rparr> =
     (v, \<lparr>br_data = pre @ b @ post, br_off = length pre + length b, br_err = False\<rparr>))"

named_theorems reading

lemma readsI: "reads m (b @ []) v \<Longrightarrow> reads m b v"
  by simp

lemma reads_return: "reads (State_Monad.return v) [] v"
  by (simp add: reads_def State_Monad.return_def)

lemma reads_returnI [reading]: "v = w \<Longrightarrow> reads (State_Monad.return v) [] w"
  by (simp add: reads_return)

lemma reads_bind:
  assumes "reads m b v" "reads (f v) c w"
  shows "reads (m \<bind> f) (b @ c) w"
  unfolding reads_def
proof (intro allI)
  fix pre post
  show "run_state (m \<bind> f) \<lparr>br_data = pre @ (b @ c) @ post, br_off = length pre, br_err = False\<rparr> =
    (w, \<lparr>br_data = pre @ (b @ c) @ post, br_off = length pre + length (b @ c), br_err = False\<rparr>)"
    using assms(1) [unfolded reads_def, rule_format, of pre "c @ post"]
      assms(2) [unfolded reads_def, rule_format, of "pre @ b" post]
    by (simp add: State_Monad.bind_def add.assoc)
qed

lemma reads_byte: "reads readByte [x] x"
  by (simp add: reads_def readByte_def br_remaining_def nth_append)

lemma putUint16_le: "putUint16 v = le_bytes 2 v"
  by (simp add: putUint16_def le_bytes_def numeral_2_eq_2)

lemma putUint32_le: "putUint32 v = le_bytes 4 v"
  by (simp add: putUint32_def le_bytes_def eval_nat_numeral)

lemma reads_U16: "reads readU16 (putUint16 v) v"
  by (simp add: reads_def readU16_def br_remaining_def putUint16_le)

lemma reads_U32: "reads readU32 (putUint32 v) v"
  by (simp add: reads_def readU32_def br_remaining_def putUint32_le)

lemma reads_bind_byte [reading]: "reads (f x) c w \<Longrightarrow> reads (readByte \<bind> f) (x # c) w"
  using reads_bind [OF reads_byte] by fastforce

lemma reads_bind_U16 [reading]: "reads (f v) c w \<Longrightarrow> reads (readU16 \<bind> f) (putUint16 v @ c) w"
  by (rule reads_bind [OF reads_U16])

lemma reads_bind_U32: "reads (f v) c w \<Longrightarrow> reads (readU32 \<bind> f) (putUint32 v @ c) w"
  by (rule reads_bind [OF reads_U32])

lemma bind_assoc: "((m :: (binReader, 'a) state) \<bind> f) \<bind> g = m \<bind> (\<lambda>x. f x \<bind> g)"
  by (simp add: State_Monad.bind_def split_beta)

lemma bind_return: "(State_Monad.return v :: (binReader, 'a) state) \<bind> f = f v"
  by (simp add: State_Monad.bind_def State_Monad.return_def)

lemma reads_int: "- (2 ^ 31) \<le> i \<Longrightarrow> i < 2 ^ 31 \<Longrightarrow> reads readInt32 (putUint32 (word_of_int i)) i"
  unfolding readInt32_def
  by (rule readsI, rule reads_bind_U32) (simp add: reads_return sint_sbintrunc' signed_take_bit_int_eq_self [of 31 i, simplified])

lemma reads_bind_int [reading]:
  "- (2 ^ 31) \<le> i \<Longrightarrow> i < 2 ^ 31 \<Longrightarrow> reads (f i) c w \<Longrightarrow> reads (readInt32 \<bind> f) (putUint32 (word_of_int i) @ c) w"
  by (rule reads_bind [OF reads_int])

text \<open>Lists.\<close>

lemma reads_times:
  "\<forall>x \<in> set xs. reads r (enc x) (g x) \<Longrightarrow> reads (read_times (length xs) r) (concat (List.map enc xs)) (List.map g xs)"
proof (induction xs)
  case Nil
  then show ?case by (simp add: reads_return)
next
  case (Cons x xs)
  have "reads (read_times (length xs) r \<bind> (\<lambda>ys. State_Monad.return (g x # ys))) (concat (List.map enc xs)) (g x # List.map g xs)"
    by (rule readsI, rule reads_bind [OF Cons.IH]) (use Cons.prems in \<open>simp_all add: reads_return\<close>)
  then show ?case using reads_bind [of r "enc x" "g x"] Cons.prems by simp
qed

text \<open>What is kept of a list whose length is written in 16 bits, and what is left of it.\<close>

definition kept :: "'a list \<Rightarrow> 'a list" where
  "kept xs = take (length xs mod 2 ^ 16) xs"

lemma kept_all: "length xs < 2 ^ 16 \<Longrightarrow> kept xs = xs"
  by (simp add: kept_def)

lemma reads_list:
  assumes "length xs < 2 ^ 16" "\<forall>x \<in> set xs. reads r (enc x) (g x)"
  shows "reads (read_list r) (putLen xs @ concat (List.map enc xs)) (List.map g xs)"
proof -
  have "unat (word_of_nat (length xs) :: uint16) = length xs" using assms(1) by (simp add: unsigned_of_nat take_bit_nat_eq_self)
  then show ?thesis unfolding read_list_def putLen_def using reads_bind_U16 reads_times [OF assms(2)] by metis
qed

lemma reads_bind_list:
  assumes "length xs < 2 ^ 16" "\<forall>x \<in> set xs. reads r (enc x) (g x)" "reads (f (List.map g xs)) c w"
  shows "reads (read_list r \<bind> f) (putLen xs @ concat (List.map enc xs) @ c) w"
  using reads_bind [of "read_list r" "putLen xs @ concat (List.map enc xs)" "List.map g xs" f c w] reads_list [OF assms(1,2)] assms(3)
  by simp

lemma reads_bind_list' [reading]:
  assumes "length xs < 2 ^ 16" "\<forall>x \<in> set xs. reads r (enc x) x" "reads (f xs) c w"
  shows "reads (read_list r \<bind> f) (putLen xs @ concat (List.map enc xs) @ c) w"
  using reads_bind_list [of xs r enc "\<lambda>x. x"] assms by simp

section \<open>The table of strings\<close>

definition table_ok :: "stringTable \<Rightarrow> bool" where
  "table_ok st \<longleftrightarrow> distinct (st_strings st) \<and> dom (st_index st) = set (st_strings st) \<and>
     (\<forall>i < length (st_strings st). st_index st (st_strings st ! i) = Some (word_of_nat i))"

lemma table_ok_new: "table_ok newStringTable"
  by (simp add: table_ok_def newStringTable_def)

lemma intern_ok:
  assumes "table_ok st"
  shows "table_ok (snd (intern s st)) \<and> set (st_strings (snd (intern s st))) = insert s (set (st_strings st))"
proof (cases "st_index st s")
  case None
  then have "s \<notin> set (st_strings st)" using assms by (metis domIff table_ok_def)
  moreover have "st_strings st ! i \<noteq> s" if "i < length (st_strings st)" for i using calculation that nth_mem by blast
  ultimately show ?thesis using assms None by (auto simp: intern_def table_ok_def Let_def nth_append less_Suc_eq)
next
  case (Some n)
  then have "s \<in> set (st_strings st)" using assms by (metis domI table_ok_def)
  then show ?thesis using assms Some by (auto simp: intern_def)
qed

lemma internAll_ok:
  "table_ok (internAll p newStringTable) \<and> set (st_strings (internAll p newStringTable)) = set (program_strings p)"
proof -
  have "table_ok (fold (\<lambda>s st. snd (intern s st)) xs st) \<and>
      set (st_strings (fold (\<lambda>s st. snd (intern s st)) xs st)) = set xs \<union> set (st_strings st)" if "table_ok st" for xs st
    using that
  proof (induction xs arbitrary: st)
    case (Cons x xs)
    then show ?case using Cons.IH [of "snd (intern x st)"] intern_ok [OF Cons.prems, of x] by auto
  qed simp
  from this [OF table_ok_new, of "program_strings p"] show ?thesis by (simp add: internAll_def) (simp add: newStringTable_def)
qed

text \<open>The strings of a table are found again, and interning one of them changes nothing.\<close>

definition knows :: "string list \<Rightarrow> stringTable \<Rightarrow> string \<Rightarrow> bool" where
  "knows strs st s \<longleftrightarrow> resolveString strs (fst (intern s st)) = s \<and> snd (intern s st) = st"

lemma table_knows:
  assumes "table_ok st" "length (st_strings st) < 2 ^ 16" "s \<in> set (st_strings st)"
  shows "knows (st_strings st) st s"
proof -
  obtain i where i: "i < length (st_strings st)" "st_strings st ! i = s" using assms(3) by (auto simp: in_set_conv_nth)
  then have "st_index st s = Some (word_of_nat i)" using assms(1) by (auto simp: table_ok_def)
  moreover have "unat (word_of_nat i :: uint16) = i" using i(1) assms(2) by (simp add: unsigned_of_nat take_bit_nat_eq_self)
  ultimately show ?thesis using i by (simp add: knows_def intern_def resolveString_def)
qed

lemma reads_string: "knows strs st s \<Longrightarrow> reads (readString strs) (putString st s) s"
  unfolding readString_def putString_def knows_def
  by (rule readsI, rule reads_bind_U16) (simp add: reads_return)

lemma reads_bind_string [reading]:
  "knows strs st s \<Longrightarrow> reads (f s) c w \<Longrightarrow> reads (readString strs \<bind> f) (putString st s @ c) w"
  by (rule reads_bind [OF reads_string])

lemma reads_bind_ids [reading]:
  "length xs < 2 ^ 16 \<Longrightarrow> reads (f xs) c w \<Longrightarrow> reads (read_list readU16 \<bind> f) (putIDs xs @ c) w"
  unfolding putIDs_def append_assoc by (rule reads_bind_list') (simp_all add: reads_U16)

text \<open>The table itself.\<close>

lemma decodeStrings_reads:
  "\<forall>s \<in> set ss. length s < 2 ^ 16 \<Longrightarrow> reads (decodeStrings (length ss)) (concat (List.map (\<lambda>s. putLen s @ bytes_of_string s) ss)) ss"
proof (induction ss)
  case Nil
  then show ?case by (simp add: reads_return)
next
  case (Cons s ss)
  have l: "unat (word_of_nat (length s) :: uint16) = length s" using Cons.prems by (simp add: unsigned_of_nat take_bit_nat_eq_self)
  have IH: "reads (decodeStrings (length ss)) (concat (List.map (\<lambda>s. putLen s @ bytes_of_string s) ss)) ss"
    using Cons by simp
  define K where "K = (\<lambda>(slen :: uint16). State_Monad.get \<bind> (\<lambda>br.
     if br_err br then State_Monad.return (replicate (Suc (length ss)) [])
     else if br_remaining br < unat slen then State_Monad.set (br\<lparr>br_err := True\<rparr>) \<bind> (\<lambda>_. State_Monad.return (replicate (Suc (length ss)) []))
     else State_Monad.set (br\<lparr>br_off := br_off br + unat slen\<rparr>) \<bind> (\<lambda>_. decodeStrings (length ss) \<bind> (\<lambda>xs.
       State_Monad.return (string_of_bytes (field (br_off br) (unat slen) (br_data br)) # xs)))))"
  have "reads (K (word_of_nat (length s))) (bytes_of_string s @ concat (List.map (\<lambda>s. putLen s @ bytes_of_string s) ss)) (s # ss)"
    unfolding reads_def
  proof (intro allI)
    fix pre post
    let ?c = "concat (List.map (\<lambda>s. putLen s @ bytes_of_string s) ss)"
    have "run_state (decodeStrings (length ss)) \<lparr>br_data = (pre @ bytes_of_string s) @ ?c @ post, br_off = length (pre @ bytes_of_string s), br_err = False\<rparr> =
      (ss, \<lparr>br_data = (pre @ bytes_of_string s) @ ?c @ post, br_off = length (pre @ bytes_of_string s) + length ?c, br_err = False\<rparr>)"
      by (rule IH [unfolded reads_def, rule_format])
    then show "run_state (K (word_of_nat (length s))) \<lparr>br_data = pre @ (bytes_of_string s @ ?c) @ post, br_off = length pre, br_err = False\<rparr> =
      (s # ss, \<lparr>br_data = pre @ (bytes_of_string s @ ?c) @ post, br_off = length pre + length (bytes_of_string s @ ?c), br_err = False\<rparr>)"
      by (simp add: K_def State_Monad.bind_def State_Monad.get_def State_Monad.set_def State_Monad.return_def br_remaining_def l add.assoc)
  qed
  then have "reads (readU16 \<bind> K) (putLen s @ bytes_of_string s @ concat (List.map (\<lambda>s. putLen s @ bytes_of_string s) ss)) (s # ss)"
    unfolding putLen_def by (rule reads_bind_U16)
  then show ?case by (simp add: K_def)
qed

section \<open>One entry of each section\<close>

definition small :: "'a list \<Rightarrow> bool" where "small xs \<longleftrightarrow> length xs < 2 ^ 16"
definition int32 :: "int \<Rightarrow> bool" where "int32 i \<longleftrightarrow> - (2 ^ 31) \<le> i \<and> i < 2 ^ 31"

definition node_fits :: "prog_node \<Rightarrow> bool" where
  "node_fits n \<longleftrightarrow> small (pn_attrs n) \<and> small (pn_children n)"

definition func_fits :: "func_def \<Rightarrow> bool" where
  "func_fits f \<longleftrightarrow> small (fd_params f) \<and> small (fd_body f) \<and> int32 (fd_results f)"

definition engine_fits :: "engine_node \<Rightarrow> bool" where
  "engine_fits e \<longleftrightarrow> small (sortedPropNames (en_props e)) \<and> small (en_children e) \<and> list_all int32 (en_children e)"

lemma reads_prop: "knows strs st (pd_name d) \<Longrightarrow> reads (decodeProp strs) (encodeProp st d) d"
  unfolding decodeProp_def encodeProp_def
  by (rule readsI) (simp only: append_assoc append_Cons append_Nil, (rule reading | assumption | simp)+)

lemma reads_attr:
  assumes "knows strs st (na_name a)" "knows strs st (na_value a)" "knows strs st (na_event a)"
  shows "reads (decodeAttr strs) (encodeAttr st a) a"
  unfolding decodeAttr_def encodeAttr_def
  by (rule readsI) (simp only: append_assoc append_Cons append_Nil, (rule reading assms | simp)+)

lemma reads_node:
  assumes "knows strs st (pn_tag n)" "knows strs st (pn_text n)" "node_fits n"
    "\<forall>a \<in> set (pn_attrs n). knows strs st (na_name a) \<and> knows strs st (na_value a) \<and> knows strs st (na_event a)"
  shows "reads (decodeNode strs) (encodeNode st n) n"
proof -
  have a: "\<forall>a \<in> set (pn_attrs n). reads (decodeAttr strs) (encodeAttr st a) a" using assms(4) reads_attr by blast
  have l: "length (pn_attrs n) < 2 ^ 16" "length (pn_children n) < 2 ^ 16" using assms(3) by (simp_all add: node_fits_def small_def)
  show ?thesis unfolding decodeNode_def encodeNode_def
    by (rule readsI) (simp only: append_assoc append_Cons append_Nil, (rule reading assms a l | simp)+)
qed

lemma reads_expr: "knows strs st (px_value e) \<Longrightarrow> small (px_operands e) \<Longrightarrow> reads (decodeExpr strs) (encodeExpr st e) e"
  unfolding decodeExpr_def encodeExpr_def small_def
  by (rule readsI) (simp only: append_assoc append_Cons append_Nil, (rule reading | assumption | simp)+)

lemma reads_signal: "knows strs st (sd_name d) \<Longrightarrow> reads (decodeSignal strs) (encodeSignal st d) d"
  unfolding decodeSignal_def encodeSignal_def
  by (rule readsI) (simp only: append_assoc append_Cons append_Nil, (rule reading | assumption | simp)+)

lemma reads_computed: "knows strs st (cd_name d) \<Longrightarrow> reads (decodeComputed strs) (encodeComputed st d) d"
  unfolding decodeComputed_def encodeComputed_def
  by (rule readsI) (simp only: append_assoc append_Cons append_Nil, (rule reading | assumption | simp)+)

lemma reads_handler: "knows strs st (ph_name h) \<Longrightarrow> small (ph_body h) \<Longrightarrow> reads (decodeHandler strs) (encodeHandler st h) h"
  unfolding decodeHandler_def encodeHandler_def small_def
  by (rule readsI) (simp only: append_assoc append_Cons append_Nil, (rule reading | assumption | simp)+)

lemma reads_func:
  assumes "knows strs st (fd_name f)" "\<forall>s \<in> set (fd_params f). knows strs st s" "func_fits f"
  shows "reads (decodeFunc strs) (encodeFunc st f) f"
proof -
  have a: "\<forall>s \<in> set (fd_params f). reads (readString strs) (putString st s) s" using assms(2) reads_string by blast
  have l: "length (fd_params f) < 2 ^ 16" "length (fd_body f) < 2 ^ 16" "- (2 ^ 31) \<le> fd_results f" "fd_results f < 2 ^ 31"
    using assms(3) by (simp_all add: func_fits_def small_def int32_def)
  show ?thesis unfolding decodeFunc_def encodeFunc_def
    by (rule readsI) (simp only: append_assoc append_Cons append_Nil, (rule reading assms a l | simp)+)
qed

text \<open>The properties of a node in the order of their names make the same map.\<close>

lemma fmupd_fold:
  "distinct ks \<Longrightarrow> fmlookup (fold (\<lambda>(n, e) m. fmupd n e m) (List.map (\<lambda>n. (n, v n)) ks) m) x =
    (if x \<in> set ks then Some (v x) else fmlookup m x)"
  by (induction ks arbitrary: m) auto

lemma props_again:
  "fold (\<lambda>(n, e) m. fmupd n e m) (List.map (\<lambda>n. (n, the (fmlookup m n))) (sortedPropNames m)) fmempty = m"
proof (rule fmap_ext)
  have d: "distinct (sortedPropNames m)" "set (sortedPropNames m) = fset (fmdom m)"
    by (simp_all add: sortedPropNames_def sorted_list_of_fset.rep_eq)
  show "fmlookup (fold (\<lambda>(n, e) m. fmupd n e m) (List.map (\<lambda>n. (n, the (fmlookup m n))) (sortedPropNames m)) fmempty) x = fmlookup m x" for x
  proof (cases "fmlookup m x")
    case None
    then have "x \<notin> set (sortedPropNames m)" using d(2) by (simp add: fmlookup_dom_iff)
    then show ?thesis using None by (simp add: fmupd_fold [OF d(1)])
  next
    case (Some y)
    then have "x \<in> set (sortedPropNames m)" using d(2) by (simp add: fmdomI)
    then show ?thesis using Some by (simp add: fmupd_fold [OF d(1)])
  qed
qed

lemma reads_engineNode:
  assumes "knows strs st (en_kind e)" "knows strs st (en_geometry e)" "knows strs st (en_material e)" "engine_fits e"
    "\<forall>s \<in> set (sortedPropNames (en_props e)). knows strs st s"
  shows "reads (decodeEngineNode strs) (encodeEngineNode st e) e"
proof -
  let ?ns = "sortedPropNames (en_props e)" and ?v = "\<lambda>n. the (fmlookup (en_props e) n)"
  have l: "length ?ns < 2 ^ 16" "length (en_children e) < 2 ^ 16" "list_all int32 (en_children e)"
    using assms(4) by (simp_all add: engine_fits_def small_def)
  have p: "\<forall>n \<in> set ?ns. reads (readPair strs) (putString st n @ putUint16 (?v n)) (n, ?v n)"
  proof
    fix n assume "n \<in> set ?ns"
    then have "knows strs st n" using assms(5) by blast
    then show "reads (readPair strs) (putString st n @ putUint16 (?v n)) (n, ?v n)"
      unfolding readPair_def
      by - (rule readsI, simp only: append_assoc append_Cons append_Nil, (rule reading | assumption | simp)+)
  qed
  have c: "\<forall>i \<in> set (en_children e). reads readInt32 (putUint32 (word_of_int i)) i"
    using l(3) by (simp add: list_all_iff int32_def reads_int)
  have fin: "\<lparr>en_kind = en_kind e, en_geometry = en_geometry e, en_material = en_material e,
      en_props = fold (\<lambda>(n, e) m. fmupd n e m) (List.map (\<lambda>n. (n, ?v n)) ?ns) fmempty, en_children = en_children e,
      en_static = ((if en_static e then 1 else 0 :: byte) \<noteq> 0)\<rparr> = e" by (simp add: props_again)
  show ?thesis unfolding decodeEngineNode_def encodeEngineNode_def putBool_def Let_def
    by (rule readsI, simp only: append_assoc append_Cons append_Nil)
      (rule reads_bind_string assms reads_bind_list [OF l(1) p] reads_bind_list' [OF l(2) c] reads_bind_byte reads_returnI fin)+
qed

section \<open>Sections\<close>

text \<open>A reader that takes a value off the front of a section; what is left of the section is ignored.\<close>

definition section_reads :: "(binReader, 'a) state \<Rightarrow> byte list \<Rightarrow> 'a \<Rightarrow> bool" where
  "section_reads m body v \<longleftrightarrow> (\<exists>b post. body = b @ post \<and> reads m b v)"

lemma section_run:
  assumes "section_reads m body v"
  shows "fst (run_state m (newReader body)) = v" "\<not> br_err (snd (run_state m (newReader body)))"
proof -
  obtain b post where b: "body = b @ post" "reads m b v" using assms by (auto simp: section_reads_def)
  show "fst (run_state m (newReader body)) = v" "\<not> br_err (snd (run_state m (newReader body)))"
    using b(2) [unfolded reads_def, rule_format, of "[]" post] by (simp_all add: newReader_def b(1))
qed

lemma section_return: "section_reads m body v \<Longrightarrow> section_reads (m \<bind> (\<lambda>x. State_Monad.return (f x))) body (f v)"
  unfolding section_reads_def by (metis append_Nil2 reads_bind reads_return)

lemma section_exact: "reads m b v \<Longrightarrow> section_reads m b v"
  unfolding section_reads_def by (metis append_Nil2)

lemma kept_prefix: "xs = kept xs @ drop (length (kept xs)) xs"
  by (simp add: kept_def)

lemma length_kept_mod: "length (kept xs) = length xs mod 2 ^ 16"
proof -
  have "length xs mod 2 ^ 16 \<le> length xs" by (rule mod_less_eq_dividend)
  then show ?thesis by (simp add: kept_def)
qed

lemma putLen_kept: "putLen xs = putLen (kept xs)"
  unfolding putLen_def length_kept_mod by (rule arg_cong [of _ _ putUint16]) (simp add: word_of_nat_eq_iff take_bit_eq_mod)

lemma length_kept: "length (kept xs) < 2 ^ 16"
  unfolding length_kept_mod by simp

lemma section_list:
  assumes "\<forall>x \<in> set (kept xs). reads r (enc x) x"
  shows "section_reads (read_list r) (putLen xs @ concat (List.map enc xs)) (kept xs)"
proof -
  have "reads (read_list r) (putLen (kept xs) @ concat (List.map enc (kept xs))) (kept xs)"
    using reads_list [OF length_kept, of xs r enc "\<lambda>x. x"] assms by simp
  moreover have "putLen xs @ concat (List.map enc xs) =
      (putLen (kept xs) @ concat (List.map enc (kept xs))) @ concat (List.map enc (drop (length (kept xs)) xs))"
    unfolding putLen_kept [of xs] by (subst (2) kept_prefix) simp
  ultimately show ?thesis unfolding section_reads_def by blast
qed

text \<open>What the sections of a file make of a program.\<close>

fun run_secs :: "(byte \<times> byte list) list \<Rightarrow> prog \<times> string list \<Rightarrow> decode_error + prog \<times> string list" where
  "run_secs [] ps = Inr ps"
| "run_secs ((tag, body) # secs) ps =
     (let (ps, sr) = run_state (decode_section tag ps) (newReader body) in
      if br_err sr then Inl (SectionBody tag) else run_secs secs ps)"

abbreviation put_secs :: "(byte \<times> byte list) list \<Rightarrow> byte list" where
  "put_secs secs \<equiv> concat (List.map (\<lambda>(tag, body). writeSection tag body) secs)"

lemma read_header:
  "run_state readByte \<lparr>br_data = pre @ writeSection tag body @ post, br_off = length pre, br_err = False\<rparr> =
     (tag, \<lparr>br_data = pre @ writeSection tag body @ post, br_off = length pre + 1, br_err = False\<rparr>)"
  "run_state readU32 \<lparr>br_data = pre @ writeSection tag body @ post, br_off = length pre + 1, br_err = False\<rparr> =
     (word_of_nat (length body), \<lparr>br_data = pre @ writeSection tag body @ post, br_off = length pre + 5, br_err = False\<rparr>)"
  using reads_byte [of tag, unfolded reads_def, rule_format, of pre "putUint32 (word_of_nat (length body)) @ body @ post"]
    reads_U32 [of "word_of_nat (length body)", unfolded reads_def, rule_format, of "pre @ [tag]" "body @ post"]
  by (simp_all add: writeSection_def putUint32_le)

lemma read_body:
  assumes "length (pre @ writeSection tag body @ post) < 2 ^ 32"
  shows "run_state (readSection (word_of_nat (length body))) \<lparr>br_data = pre @ writeSection tag body @ post, br_off = length pre + 5, br_err = False\<rparr> =
     (newReader body, \<lparr>br_data = pre @ writeSection tag body @ post, br_off = length pre + length (writeSection tag body), br_err = False\<rparr>)"
proof -
  have l: "length body + length post < 2 ^ 32" using assms by (simp add: writeSection_def putUint32_le)
  then have u: "unat (word_of_nat (length body) :: uint32) = length body"
    "unat (word_of_nat (length body + length post) :: uint32) = length body + length post"
    by (simp_all only: unsigned_of_nat) (simp_all add: take_bit_nat_eq_self)
  let ?r = "\<lparr>br_data = pre @ writeSection tag body @ post, br_off = length pre + 5, br_err = False\<rparr>"
  have r: "br_remaining ?r = length body + length post" by (simp add: br_remaining_def writeSection_def putUint32_le)
  have "\<not> (word_of_nat (br_remaining ?r) :: uint32) < word_of_nat (length body)"
    unfolding r by (simp only: word_less_nat_alt u)
  then show ?thesis
    by (simp add: readSection_def u writeSection_def putUint32_le field_def newReader_def)
qed

lemma decode_sections_run:
  "length (pre @ put_secs secs) < 2 ^ 32 \<Longrightarrow>
    decode_sections (length secs) i \<lparr>br_data = pre @ put_secs secs, br_off = length pre, br_err = False\<rparr> ps = run_secs secs ps"
proof (induction secs arbitrary: pre i ps)
  case (Cons s secs)
  obtain tag body where s: "s = (tag, body)" by (cases s)
  have b: "pre @ put_secs (s # secs) = pre @ writeSection tag body @ put_secs secs" by (simp add: s)
  have len: "length (pre @ writeSection tag body @ put_secs secs) < 2 ^ 32" using Cons.prems by (simp add: s)
  let ?br = "\<lparr>br_data = pre @ writeSection tag body @ put_secs secs, br_off = length pre + length (writeSection tag body), br_err = False\<rparr>"
  have IH: "decode_sections (length secs) (i + 1) ?br ps = run_secs secs ps" for ps
    using Cons.IH [of "pre @ writeSection tag body" "i + 1" ps] len by simp
  show ?case
    unfolding b unfolding s by (simp add: read_header [simplified] read_body [OF len] IH [simplified] newReader_def split_beta Let_def)
qed simp

text \<open>The header, then the sections.\<close>

lemma header_length [simp]: "length magic = 4" "length (putUint16 v) = 2"
  by (simp_all add: magic_def putUint16_def)

lemma decode_file:
  assumes "length (magic @ putUint16 binaryVersion @ putUint16 (word_of_nat (length secs)) @ put_secs secs) < 2 ^ 32" "length secs < 2 ^ 16"
  shows "DecodeBinary (magic @ putUint16 binaryVersion @ putUint16 (word_of_nat (length secs)) @ put_secs secs) =
    map_sum id fst (run_secs secs (prog0, []))"
proof -
  let ?n = "word_of_nat (length secs) :: uint16"
  let ?d = "magic @ putUint16 binaryVersion @ putUint16 ?n @ put_secs secs"
  have u: "unat ?n = length secs" using assms(2) by (simp add: unsigned_of_nat take_bit_nat_eq_self)
  have h: "run_state (readFull 4) (newReader ?d) = (magic, \<lparr>br_data = ?d, br_off = 4, br_err = False\<rparr>)"
    by (simp add: readFull_def newReader_def br_remaining_def field_def)
  have v: "run_state readU16 \<lparr>br_data = ?d, br_off = 4, br_err = False\<rparr> = (binaryVersion, \<lparr>br_data = ?d, br_off = 6, br_err = False\<rparr>)"
    using reads_U16 [of binaryVersion, unfolded reads_def, rule_format, of magic "putUint16 ?n @ put_secs secs"]
    by simp
  have c: "run_state readU16 \<lparr>br_data = ?d, br_off = 6, br_err = False\<rparr> = (?n, \<lparr>br_data = ?d, br_off = 8, br_err = False\<rparr>)"
    using reads_U16 [of ?n, unfolded reads_def, rule_format, of "magic @ putUint16 binaryVersion" "put_secs secs"]
    by simp
  have s: "decode_sections (length secs) 0 \<lparr>br_data = ?d, br_off = 8, br_err = False\<rparr> (prog0, []) = run_secs secs (prog0, [])"
    using decode_sections_run [of "magic @ putUint16 binaryVersion @ putUint16 ?n" secs 0 "(prog0, [])"] assms(1)
    by simp
  show ?thesis unfolding DecodeBinary_def Let_def h by (simp add: v c u s)
qed

lemma run_secs_step:
  assumes "section_reads (decode_section tag ps) body ps'"
  shows "run_secs ((tag, body) # secs) ps = run_secs secs ps'"
  using section_run [OF assms] by (simp add: split_beta)

section \<open>Programs that fit\<close>

text \<open>What the format assumes of a program: the strings fit the table, every list inside an entry fits
  its count, the integers fit 32 bits, and the file stays below 4 GiB. Nothing is asked of the lists
  of the program itself.\<close>

definition program_fits :: "prog \<Rightarrow> bool" where
  "program_fits p \<longleftrightarrow> small (st_strings (internAll p newStringTable)) \<and> list_all small (program_strings p) \<and>
     list_all node_fits (pg_nodes p) \<and> list_all (\<lambda>e. small (px_operands e)) (pg_exprs p) \<and>
     list_all (\<lambda>h. small (ph_body h)) (pg_handlers p) \<and> list_all func_fits (pg_funcs p) \<and>
     list_all engine_fits (pg_engineNodes p) \<and> int32 (pg_maxCallDepth p) \<and> length (EncodeBinary p) < 2 ^ 32"

text \<open>What is left of a program: the lists cut to their length modulo \<open>2\<^sup>1\<^sup>6\<close>, and the surface, which is not written.\<close>

definition cut_program :: "prog \<Rightarrow> prog" where
  "cut_program p = p\<lparr>pg_props := kept (pg_props p), pg_nodes := kept (pg_nodes p), pg_exprs := kept (pg_exprs p),
     pg_signals := kept (pg_signals p), pg_computeds := kept (pg_computeds p), pg_handlers := kept (pg_handlers p),
     pg_funcs := kept (pg_funcs p), pg_staticMask := kept (pg_staticMask p), pg_engineNodes := kept (pg_engineNodes p),
     pg_surface := SurfaceDOM\<rparr>"

lemma kept_set: "x \<in> set (kept xs) \<Longrightarrow> x \<in> set xs"
  unfolding kept_def by (rule in_set_takeD)

text \<open>Every string that a writer looks up is in the table.\<close>

lemma program_strings_mem:
  "pg_name p \<in> set (program_strings p)" "pg_version p \<in> set (program_strings p)"
  "d \<in> set (pg_props p) \<Longrightarrow> pd_name d \<in> set (program_strings p)"
  "n \<in> set (pg_nodes p) \<Longrightarrow> pn_tag n \<in> set (program_strings p)"
  "n \<in> set (pg_nodes p) \<Longrightarrow> pn_text n \<in> set (program_strings p)"
  "n \<in> set (pg_nodes p) \<Longrightarrow> a \<in> set (pn_attrs n) \<Longrightarrow> s \<in> {na_name a, na_value a, na_event a} \<Longrightarrow> s \<in> set (program_strings p)"
  "e \<in> set (pg_exprs p) \<Longrightarrow> px_value e \<in> set (program_strings p)"
  "g \<in> set (pg_signals p) \<Longrightarrow> sd_name g \<in> set (program_strings p)"
  "c \<in> set (pg_computeds p) \<Longrightarrow> cd_name c \<in> set (program_strings p)"
  "h \<in> set (pg_handlers p) \<Longrightarrow> ph_name h \<in> set (program_strings p)"
  "f \<in> set (pg_funcs p) \<Longrightarrow> s \<in> set (fd_name f # fd_params f) \<Longrightarrow> s \<in> set (program_strings p)"
  "b \<in> set (pg_engineNodes p) \<Longrightarrow> s \<in> set ([en_kind b, en_geometry b, en_material b] @ sortedPropNames (en_props b)) \<Longrightarrow>
    s \<in> set (program_strings p)"
  by (force simp: program_strings_def)+

definition known :: "string list \<Rightarrow> stringTable \<Rightarrow> prog \<Rightarrow> bool" where
  "known strs st p \<longleftrightarrow> (\<forall>s \<in> set (program_strings p). knows strs st s)"

lemma knownD: "known strs st p \<Longrightarrow> s \<in> set (program_strings p) \<Longrightarrow> knows strs st s"
  by (simp add: known_def)

lemma props_decode: "known strs st p \<Longrightarrow> section_reads (decodeProps strs) (encodeProps p st) (kept (pg_props p))"
  unfolding decodeProps_def encodeProps_def
  by (rule section_list) (meson kept_set knownD program_strings_mem(3) reads_prop)

lemma nodes_decode:
  assumes k: "known strs st p" and fits: "list_all node_fits (pg_nodes p)"
  shows "section_reads (decodeNodes strs) (encodeNodes p st) (kept (pg_nodes p), pg_root p, pg_name p)"
proof -
  have n: "\<forall>n \<in> set (kept (pg_nodes p)). reads (decodeNode strs) (encodeNode st n) n"
  proof
    fix n assume "n \<in> set (kept (pg_nodes p))"
    then have n: "n \<in> set (pg_nodes p)" by (rule kept_set)
    show "reads (decodeNode strs) (encodeNode st n) n"
      by (rule reads_node) (use n fits program_strings_mem(4,5) program_strings_mem(6) [OF n] knownD [OF k] in \<open>auto simp: list_all_iff\<close>)
  qed
  have u: "unat (word_of_nat (length (kept (pg_nodes p))) :: uint16) = length (kept (pg_nodes p))"
    using length_kept [of "pg_nodes p"] by (simp add: unsigned_of_nat take_bit_nat_eq_self)
  have t: "reads (read_times (unat (word_of_nat (length (kept (pg_nodes p))) :: uint16)) (decodeNode strs))
      (concat (List.map (encodeNode st) (kept (pg_nodes p)))) (kept (pg_nodes p))"
    unfolding u using reads_times [of "kept (pg_nodes p)" "decodeNode strs" "encodeNode st" "\<lambda>x. x"] n by simp
  have name: "knows strs st (pg_name p)" by (rule knownD [OF k program_strings_mem(1)])
  have "reads (decodeNodes strs) (putLen (kept (pg_nodes p)) @ putUint16 (pg_root p) @ putString st (pg_name p) @
      concat (List.map (encodeNode st) (kept (pg_nodes p)))) (kept (pg_nodes p), pg_root p, pg_name p)"
    unfolding decodeNodes_def putLen_def
    by (rule readsI, simp only: append_assoc)
      (rule reads_bind_U16 reads_bind_string name reads_bind [OF t] reads_return)+
  moreover have "encodeNodes p st = (putLen (kept (pg_nodes p)) @ putUint16 (pg_root p) @ putString st (pg_name p) @
      concat (List.map (encodeNode st) (kept (pg_nodes p)))) @ concat (List.map (encodeNode st) (drop (length (kept (pg_nodes p))) (pg_nodes p)))"
    unfolding encodeNodes_def putLen_kept [of "pg_nodes p"] by (subst (2) kept_prefix) simp
  ultimately show ?thesis unfolding section_reads_def by blast
qed

lemma exprs_decode:
  "known strs st p \<Longrightarrow> list_all (\<lambda>e. small (px_operands e)) (pg_exprs p) \<Longrightarrow>
    section_reads (decodeExprs strs) (encodeExprs p st) (kept (pg_exprs p))"
  unfolding decodeExprs_def encodeExprs_def list_all_iff
  by (rule section_list) (meson kept_set knownD program_strings_mem(7) reads_expr)

lemma signals_decode: "known strs st p \<Longrightarrow> section_reads (decodeSignals strs) (encodeSignals p st) (kept (pg_signals p))"
  unfolding decodeSignals_def encodeSignals_def
  by (rule section_list) (meson kept_set knownD program_strings_mem(8) reads_signal)

lemma computeds_decode: "known strs st p \<Longrightarrow> section_reads (decodeComputeds strs) (encodeComputeds p st) (kept (pg_computeds p))"
  unfolding decodeComputeds_def encodeComputeds_def
  by (rule section_list) (meson kept_set knownD program_strings_mem(9) reads_computed)

lemma handlers_decode:
  "known strs st p \<Longrightarrow> list_all (\<lambda>h. small (ph_body h)) (pg_handlers p) \<Longrightarrow>
    section_reads (decodeHandlers strs) (encodeHandlers p st) (kept (pg_handlers p))"
  unfolding decodeHandlers_def encodeHandlers_def list_all_iff
  by (rule section_list) (meson kept_set knownD program_strings_mem(10) reads_handler)

lemma funcs_decode:
  assumes k: "known strs st p" and fits: "list_all func_fits (pg_funcs p)"
  shows "section_reads (decodeFuncs strs) (encodeFuncs p st) (kept (pg_funcs p))"
  unfolding decodeFuncs_def encodeFuncs_def
proof (rule section_list, rule ballI)
  fix f assume "f \<in> set (kept (pg_funcs p))"
  then have f: "f \<in> set (pg_funcs p)" by (rule kept_set)
  show "reads (decodeFunc strs) (encodeFunc st f) f"
    by (rule reads_func) (use f fits program_strings_mem(11) [OF f] knownD [OF k] in \<open>auto simp: list_all_iff\<close>)
qed

lemma engine_decode:
  assumes k: "known strs st p" and fits: "list_all engine_fits (pg_engineNodes p)"
  shows "section_reads (decodeEngineNodes strs) (encodeEngineNodes p st) (kept (pg_engineNodes p))"
  unfolding decodeEngineNodes_def encodeEngineNodes_def
proof (rule section_list, rule ballI)
  fix e assume "e \<in> set (kept (pg_engineNodes p))"
  then have e: "e \<in> set (pg_engineNodes p)" by (rule kept_set)
  show "reads (decodeEngineNode strs) (encodeEngineNode st e) e"
    by (rule reads_engineNode) (use e fits program_strings_mem(12) [OF e] knownD [OF k] in \<open>auto simp: list_all_iff\<close>)
qed

lemma mask_decode: "section_reads decodeStaticMask (encodeStaticMask p) (kept (pg_staticMask p))"
proof -
  have "reads (readByte \<bind> (\<lambda>b. State_Monad.return (b \<noteq> 0))) (putBool x) x" for x
    unfolding putBool_def by (rule reads_bind_byte, rule reads_returnI) simp
  then show ?thesis unfolding decodeStaticMask_def encodeStaticMask_def by (intro section_list) blast
qed

lemma meta_decode:
  "known strs st p \<Longrightarrow> int32 (pg_maxCallDepth p) \<Longrightarrow> section_reads (decodeMeta strs) (encodeMeta p st) (pg_version p, pg_maxCallDepth p)"
  unfolding decodeMeta_def encodeMeta_def int32_def
  by (rule section_exact, rule readsI, simp only: append_assoc)
    (rule reading knownD program_strings_mem(2) | assumption | simp)+

lemma strings_decode:
  assumes "small (st_strings st)" "list_all small (st_strings st)"
  shows "section_reads decodeStringTable (encodeStringTable st) (st_strings st)"
proof -
  let ?n = "word_of_nat (length (st_strings st)) :: uint16"
  have u: "unat ?n = length (st_strings st)" using assms(1) by (simp add: small_def unsigned_of_nat take_bit_nat_eq_self)
  have "reads (decodeStrings (unat ?n)) (concat (List.map (\<lambda>s. putLen s @ bytes_of_string s) (st_strings st))) (st_strings st)"
    unfolding u by (rule decodeStrings_reads) (use assms(2) in \<open>simp add: list_all_iff small_def\<close>)
  then show ?thesis unfolding decodeStringTable_def encodeStringTable_def putLen_def [of "st_strings st"]
    by (rule section_exact [OF reads_bind_U16])
qed

lemma section_returnI:
  assumes "section_reads m body v" "f v = w"
  shows "section_reads (m \<bind> (\<lambda>x. State_Monad.return (f x))) body w"
  using section_return [OF assms(1), of f] assms(2) by simp

lemmas tag_defs = secStringTable_def secProps_def secNodes_def secExprs_def secSignals_def secComputeds_def secHandlers_def
  secStaticMask_def secFuncs_def secEngineNodes_def secMeta_def

lemma decode_tags:
  "decode_section secStringTable (p, strs) = decodeStringTable \<bind> (\<lambda>x. State_Monad.return (p, x))"
  "decode_section secProps (p, strs) = decodeProps strs \<bind> (\<lambda>x. State_Monad.return (p\<lparr>pg_props := x\<rparr>, strs))"
  "decode_section secNodes (p, strs) = decodeNodes strs \<bind> (\<lambda>x. State_Monad.return
     (p\<lparr>pg_nodes := fst x, pg_root := fst (snd x), pg_name := snd (snd x)\<rparr>, strs))"
  "decode_section secExprs (p, strs) = decodeExprs strs \<bind> (\<lambda>x. State_Monad.return (p\<lparr>pg_exprs := x\<rparr>, strs))"
  "decode_section secSignals (p, strs) = decodeSignals strs \<bind> (\<lambda>x. State_Monad.return (p\<lparr>pg_signals := x\<rparr>, strs))"
  "decode_section secComputeds (p, strs) = decodeComputeds strs \<bind> (\<lambda>x. State_Monad.return (p\<lparr>pg_computeds := x\<rparr>, strs))"
  "decode_section secHandlers (p, strs) = decodeHandlers strs \<bind> (\<lambda>x. State_Monad.return (p\<lparr>pg_handlers := x\<rparr>, strs))"
  "decode_section secStaticMask (p, strs) = decodeStaticMask \<bind> (\<lambda>x. State_Monad.return (p\<lparr>pg_staticMask := x\<rparr>, strs))"
  "decode_section secFuncs (p, strs) = decodeFuncs strs \<bind> (\<lambda>x. State_Monad.return (p\<lparr>pg_funcs := x\<rparr>, strs))"
  "decode_section secEngineNodes (p, strs) = decodeEngineNodes strs \<bind> (\<lambda>x. State_Monad.return (p\<lparr>pg_engineNodes := x\<rparr>, strs))"
  "decode_section secMeta (p, strs) = decodeMeta strs \<bind> (\<lambda>x. State_Monad.return (p\<lparr>pg_version := fst x, pg_maxCallDepth := snd x\<rparr>, strs))"
  by (simp_all add: decode_section_def tag_defs split_beta')

lemma sections_decode:
  assumes "program_fits p"
  shows "run_secs (program_sections p) (prog0, []) = Inr (cut_program p, st_strings (internAll p newStringTable))"
proof -
  define st where "st = internAll p newStringTable"
  let ?ss = "st_strings st"
  have fits: "small ?ss" "list_all small (program_strings p)" "list_all node_fits (pg_nodes p)" "list_all (\<lambda>e. small (px_operands e)) (pg_exprs p)"
    "list_all (\<lambda>h. small (ph_body h)) (pg_handlers p)" "list_all func_fits (pg_funcs p)" "list_all engine_fits (pg_engineNodes p)"
    "int32 (pg_maxCallDepth p)"
    using assms by (simp_all add: program_fits_def st_def)
  have tab: "table_ok st" "set ?ss = set (program_strings p)" using internAll_ok by (simp_all add: st_def)
  have k: "known ?ss st p" unfolding known_def using table_knows [OF tab(1)] fits(1) tab(2) by (simp add: small_def)
  have strs: "section_reads decodeStringTable (encodeStringTable st) ?ss"
    by (rule strings_decode) (use fits(1,2) tab(2) in \<open>auto simp: list_all_iff\<close>)
  note sec = strs props_decode [OF k] nodes_decode [OF k fits(3)] exprs_decode [OF k fits(4)] signals_decode [OF k]
    computeds_decode [OF k] handlers_decode [OF k fits(5)] mask_decode [of p] funcs_decode [OF k fits(6)] engine_decode [OF k fits(7)]
    meta_decode [OF k fits(8)]
  have e: "run_secs (program_sections p) (prog0, []) = run_secs
      [(secStringTable, encodeStringTable st), (secProps, encodeProps p st), (secNodes, encodeNodes p st),
       (secExprs, encodeExprs p st), (secSignals, encodeSignals p st), (secComputeds, encodeComputeds p st),
       (secHandlers, encodeHandlers p st), (secStaticMask, encodeStaticMask p), (secFuncs, encodeFuncs p st),
       (secEngineNodes, encodeEngineNodes p st), (secMeta, encodeMeta p st)] (prog0, [])"
    by (simp only: program_sections_def Let_def st_def)
  have "\<dots> = Inr (cut_program p, ?ss)"
    by (rule trans [OF run_secs_step], unfold decode_tags, rule section_returnI, rule sec, rule refl)+
      (simp add: cut_program_def prog0_def)
  then show ?thesis unfolding e st_def .
qed

theorem program_decodes:
  assumes "program_fits p"
  shows "DecodeBinary (EncodeBinary p) = Inr (cut_program p)"
proof -
  have l: "length (program_sections p) = 11" by (simp add: program_sections_def Let_def)
  have "EncodeBinary p = magic @ putUint16 binaryVersion @ putUint16 (word_of_nat (length (program_sections p))) @ put_secs (program_sections p)"
    by (simp add: EncodeBinary_def l sectionCount_def)
  moreover have "length (EncodeBinary p) < 2 ^ 32" using assms by (simp add: program_fits_def)
  ultimately show ?thesis using decode_file [of "program_sections p"] l sections_decode [OF assms] by simp
qed

end
