(* ===== verification/Prog_Properties.thy ===== *)
theory Prog_Properties
  imports Prog_Roundtrip
begin

unbundle bit_operations_syntax

text \<open>
  What the binary form of a program promises: a program that fits the format is recovered, a list
  that does not is cut without an error, a file that was cut off is rejected, and a section of a
  later version of the format is skipped.
\<close>

section \<open>Round trip\<close>

text \<open>C21. A program whose strings, lists and integers fit the widths of the format is recovered by
  \<open>DecodeBinary\<close> from what \<open>EncodeBinary\<close> writes, up to the surface, which is not written.\<close>

theorem program_roundtrip:
  assumes "program_fits p" "small (pg_props p)" "small (pg_nodes p)" "small (pg_exprs p)" "small (pg_signals p)"
    "small (pg_computeds p)" "small (pg_handlers p)" "small (pg_funcs p)" "small (pg_staticMask p)" "small (pg_engineNodes p)"
  shows "DecodeBinary (EncodeBinary p) = Inr (p\<lparr>pg_surface := SurfaceDOM\<rparr>)"
  using program_decodes [OF assms(1)] assms(2-) by (simp add: cut_program_def small_def kept_all)

definition demo_prog :: prog where
  "demo_prog = prog0\<lparr>pg_name := ''Counter'', pg_props := [\<lparr>pd_name = ''step'', pd_type = 1\<rparr>],
     pg_nodes := [\<lparr>pn_kind = 0, pn_tag = ''button'', pn_text = [], pn_expr = 0,
       pn_attrs = [\<lparr>na_kind = 3, na_name = ''click'', na_value = [], na_expr = 0, na_event = ''inc''\<rparr>], pn_children = [1]\<rparr>],
     pg_exprs := [\<lparr>px_op = 1, px_operands = [0], px_value = ''7'', px_type = 1\<rparr>],
     pg_funcs := [\<lparr>fd_name = ''f'', fd_params = [''x''], fd_body = [0], fd_results = 1\<rparr>],
     pg_engineNodes := [\<lparr>en_kind = ''mesh'', en_geometry = [], en_material = [], en_props = fmupd ''y'' 2 (fmupd ''x'' 1 fmempty),
       en_children = [-1], en_static = True\<rparr>],
     pg_staticMask := [True, False], pg_maxCallDepth := 300, pg_surface := SurfaceCanvas2D\<rparr>"

lemma demo_prog_sizes:
  "length (st_strings (internAll demo_prog newStringTable)) \<le> 20 \<and> length (EncodeBinary demo_prog) \<le> 300 \<and>
   list_all (\<lambda>s. length s \<le> 20) (program_strings demo_prog) \<and> length (sortedPropNames (en_props (hd (pg_engineNodes demo_prog)))) = 2"
  by code_simp

lemma demo_prog_fits: "program_fits demo_prog"
proof -
  have "list_all small (program_strings demo_prog)"
    using demo_prog_sizes by (auto simp: list_all_iff small_def intro: le_less_trans)
  moreover have "list_all engine_fits (pg_engineNodes demo_prog)"
    using demo_prog_sizes by (simp add: demo_prog_def prog0_def engine_fits_def small_def int32_def)
  ultimately show ?thesis
    using demo_prog_sizes unfolding program_fits_def
    by (simp add: small_def) (simp add: demo_prog_def prog0_def node_fits_def func_fits_def small_def int32_def)
qed

lemma program_roundtrip_witness: "DecodeBinary (EncodeBinary demo_prog) = Inr (demo_prog\<lparr>pg_surface := SurfaceDOM\<rparr>)"
  by (rule program_roundtrip [OF demo_prog_fits]) (simp_all add: demo_prog_def prog0_def small_def)

section \<open>What does not fit\<close>

text \<open>C22. \<open>EncodeBinary\<close> reports no error for a list of the program that is longer than its 16-bit count:
  the decoder recovers the entries up to the length modulo \<open>2\<^sup>1\<^sup>6\<close>, and no error either.\<close>

theorem oversized_lists_are_cut:
  assumes "program_fits p"
  shows "DecodeBinary (EncodeBinary p) = Inr (cut_program p)"
  by (rule program_decodes [OF assms])

definition masked_prog :: prog where
  "masked_prog = prog0\<lparr>pg_staticMask := replicate (2 ^ 16) True\<rparr>"

lemma masked_prog_fits: "program_fits masked_prog"
proof -
  have s: "internAll masked_prog newStringTable = internAll prog0 newStringTable" "program_strings masked_prog = [[], []]"
    by (simp_all add: internAll_def program_strings_def masked_prog_def prog0_def)
  have t: "st_strings (internAll prog0 newStringTable) = [[]]" by code_simp
  have "length (EncodeBinary prog0) < 200" by code_simp
  moreover have "length (EncodeBinary masked_prog) = length (EncodeBinary prog0) + 2 ^ 16"
  proof -
    define st where "st = internAll prog0 newStringTable"
    have "encodeProps masked_prog st = encodeProps prog0 st" "encodeNodes masked_prog st = encodeNodes prog0 st"
      "encodeExprs masked_prog st = encodeExprs prog0 st" "encodeSignals masked_prog st = encodeSignals prog0 st"
      "encodeComputeds masked_prog st = encodeComputeds prog0 st" "encodeHandlers masked_prog st = encodeHandlers prog0 st"
      "encodeFuncs masked_prog st = encodeFuncs prog0 st" "encodeEngineNodes masked_prog st = encodeEngineNodes prog0 st"
      "encodeMeta masked_prog st = encodeMeta prog0 st"
      by (simp_all add: encodeProps_def encodeNodes_def encodeExprs_def encodeSignals_def encodeComputeds_def encodeHandlers_def
        encodeFuncs_def encodeEngineNodes_def encodeMeta_def masked_prog_def)
    moreover have "length (encodeStaticMask masked_prog) = length (encodeStaticMask prog0) + 2 ^ 16"
      by (simp add: encodeStaticMask_def masked_prog_def prog0_def putLen_def putBool_def length_concat sum_list_replicate)
    ultimately show ?thesis
      by (simp add: EncodeBinary_def program_sections_def Let_def s st_def [symmetric] writeSection_def putUint32_le)
  qed
  ultimately have "length (EncodeBinary masked_prog) < 2 ^ 32" by simp
  then show ?thesis
    by (simp add: program_fits_def s t small_def) (simp add: masked_prog_def prog0_def int32_def)
qed

lemma oversized_lists_are_cut_witness:
  "length (pg_staticMask masked_prog) = 2 ^ 16 \<and> DecodeBinary (EncodeBinary masked_prog) = Inr prog0"
proof -
  have "cut_program masked_prog = prog0" by (simp add: cut_program_def masked_prog_def prog0_def kept_def)
  then show ?thesis using oversized_lists_are_cut [OF masked_prog_fits] by (simp add: masked_prog_def)
qed

section \<open>Later versions of the format\<close>

text \<open>A file of the given sections.\<close>

definition prog_file :: "(byte \<times> byte list) list \<Rightarrow> byte list" where
  "prog_file secs = magic @ putUint16 binaryVersion @ putUint16 (word_of_nat (length secs)) @ put_secs secs"

lemma EncodeBinary_file: "EncodeBinary p = prog_file (program_sections p)"
proof -
  have "length (program_sections p) = 11" by (simp add: program_sections_def Let_def)
  then show ?thesis by (simp add: EncodeBinary_def prog_file_def sectionCount_def)
qed

lemma run_secs_append:
  "run_secs (as @ bs) ps = (case run_secs as ps of Inl e \<Rightarrow> Inl e | Inr qs \<Rightarrow> run_secs bs qs)"
proof (induction as arbitrary: ps)
  case (Cons s as)
  then show ?case by (cases s) (simp add: split_beta Let_def)
qed simp

lemma unknown_run: "secMeta < tag \<Longrightarrow> run_secs ((tag, body) # bs) ps = run_secs bs ps"
proof -
  assume t: "secMeta < tag"
  have "tag \<notin> {secStringTable, secProps, secNodes, secExprs, secSignals, secComputeds, secHandlers, secStaticMask, secFuncs,
      secEngineNodes, secMeta}"
    using t by (auto simp: tag_defs)
  then have "decode_section tag ps = State_Monad.return ps" by (simp add: decode_section_def split_beta)
  then show ?thesis by (simp add: State_Monad.return_def newReader_def)
qed

text \<open>A section whose tag the decoder does not know, wherever it stands in a file, changes nothing:
  the file decodes, or fails, as it does without it.\<close>

theorem unknown_section_skipped:
  assumes "secMeta < tag" "Suc (length (as @ bs)) < 2 ^ 16" "length (prog_file (as @ (tag, body) # bs)) < 2 ^ 32"
  shows "DecodeBinary (prog_file (as @ (tag, body) # bs)) = DecodeBinary (prog_file (as @ bs))"
proof -
  have "length (prog_file (as @ bs)) < 2 ^ 32" using assms(3) by (simp add: prog_file_def writeSection_def)
  then have "DecodeBinary (prog_file (as @ bs)) = map_sum id fst (run_secs (as @ bs) (prog0, []))"
    unfolding prog_file_def by (rule decode_file) (use assms(2) in simp)
  moreover have "DecodeBinary (prog_file (as @ (tag, body) # bs)) = map_sum id fst (run_secs (as @ (tag, body) # bs) (prog0, []))"
    using assms(3) unfolding prog_file_def by (rule decode_file) (use assms(2) in simp)
  ultimately show ?thesis by (simp only: run_secs_append unknown_run [OF assms(1)])
qed

lemma unknown_section_skipped_witness:
  "DecodeBinary (prog_file ([(secStringTable, encodeStringTable newStringTable)] @ (11, [1, 2]) # [(secStaticMask, encodeStaticMask demo_prog)])) =
   DecodeBinary (prog_file ([(secStringTable, encodeStringTable newStringTable)] @ [(secStaticMask, encodeStaticMask demo_prog)]))"
proof (rule unknown_section_skipped)
  show "secMeta < 11" by (simp add: secMeta_def)
  show "length (prog_file ([(secStringTable, encodeStringTable newStringTable)] @ (11, [1, 2]) # [(secStaticMask, encodeStaticMask demo_prog)])) < 2 ^ 32"
    by (simp add: prog_file_def writeSection_def putUint32_le encodeStringTable_def newStringTable_def encodeStaticMask_def putLen_def
      demo_prog_def putBool_def)
qed simp

section \<open>Files that were cut off\<close>

lemma cut_sections:
  "length (pre @ put_secs secs) < 2 ^ 32 \<Longrightarrow> k < length (put_secs secs) \<Longrightarrow>
    \<exists>e. decode_sections (length secs) i \<lparr>br_data = pre @ take k (put_secs secs), br_off = length pre, br_err = False\<rparr> ps = Inl e"
proof (induction secs arbitrary: pre k i ps)
  case (Cons s secs)
  obtain tag body where s: "s = (tag, body)" by (cases s)
  let ?w = "writeSection tag body"
  have lw: "length ?w = 5 + length body" by (simp add: writeSection_def putUint32_le)
  have len: "length pre + length ?w + length (put_secs secs) < 2 ^ 32" using Cons.prems(1) by (simp add: s)
  show ?case
  proof (cases "length ?w \<le> k")
    case True
    define post where "post = take (k - length ?w) (put_secs secs)"
    have d: "take k (put_secs (s # secs)) = ?w @ post" using True by (simp add: s post_def)
    have l: "length (pre @ ?w @ post) < 2 ^ 32" using len by (simp add: post_def)
    have "k - length ?w < length (put_secs secs)" using Cons.prems(2) True by (simp add: s)
    then have "\<exists>e. decode_sections (length secs) (i + 1)
        \<lparr>br_data = (pre @ ?w) @ post, br_off = length (pre @ ?w), br_err = False\<rparr> qs = Inl e" for qs
      unfolding post_def using Cons.IH [of "pre @ ?w" "k - length ?w" "i + 1" qs] len by (simp only: append_assoc length_append)
    then have IH: "\<exists>e. decode_sections (length secs) (Suc i)
        \<lparr>br_data = pre @ ?w @ post, br_off = length pre + length ?w, br_err = False\<rparr> qs = Inl e" for qs by simp
    show ?thesis unfolding d using IH
      by (simp add: s read_header [simplified] read_body [OF l] split_beta Let_def)
  next
    case False
    define c where "c = take k ?w"
    have d: "take k (put_secs (s # secs)) = c" using False by (simp add: s c_def)
    have lc: "length c = k" using False by (simp add: c_def)
    consider (none) "k = 0" | (tag) "0 < k" "k < 5" | (body) "5 \<le> k" by linarith
    then show ?thesis
    proof cases
      case none
      then show ?thesis unfolding d using lc by (simp add: readByte_def readU32_def br_remaining_def)
    next
      case tag
      then have "k - Suc 0 < 4" by simp
      then show ?thesis unfolding d using lc tag by (simp add: readByte_def readU32_def br_remaining_def)
    next
      case body
      define h where "h = putUint32 (word_of_nat (length body))"
      have cc: "c = [tag] @ h @ take (k - 5) body" using body by (simp add: c_def writeSection_def h_def putUint32_le take_Cons')
      have b: "run_state readByte \<lparr>br_data = pre @ c, br_off = length pre, br_err = False\<rparr> =
          (tag, \<lparr>br_data = pre @ c, br_off = length pre + 1, br_err = False\<rparr>)"
        using reads_byte [of tag, unfolded reads_def, rule_format, of pre "h @ take (k - 5) body"] by (simp add: cc)
      have u: "run_state readU32 \<lparr>br_data = pre @ c, br_off = length pre + 1, br_err = False\<rparr> =
          (word_of_nat (length body), \<lparr>br_data = pre @ c, br_off = length pre + 5, br_err = False\<rparr>)"
        using reads_U32 [of "word_of_nat (length body)", unfolded reads_def, rule_format, of "pre @ [tag]" "take (k - 5) body"]
        by (simp add: cc h_def putUint32_le)
      have "k - 5 < length body" "length body < 2 ^ 32" using False body lw len by simp_all
      then have "(word_of_nat (k - 5) :: uint32) < word_of_nat (length body)"
        by (simp only: word_less_nat_alt unsigned_of_nat) (simp add: take_bit_nat_eq_self)
      then have "br_err (fst (run_state (readSection (word_of_nat (length body))) \<lparr>br_data = pre @ c, br_off = length pre + 5, br_err = False\<rparr>))"
        using lc body by (simp add: readSection_def br_remaining_def)
      then show ?thesis unfolding d using b u by (simp add: split_beta Let_def)
    qed
  qed
qed simp

text \<open>C23. Every proper prefix of what \<open>EncodeBinary\<close> writes, for any program, is rejected.\<close>

theorem cut_file_rejected:
  assumes "n < length (EncodeBinary p)" "length (EncodeBinary p) < 2 ^ 32"
  shows "\<exists>e. DecodeBinary (take n (EncodeBinary p)) = Inl e"
proof -
  let ?secs = "program_sections p"
  define h where "h = magic @ putUint16 binaryVersion @ putUint16 sectionCount"
  have l: "length ?secs = 11" "length h = 8" by (simp_all add: program_sections_def Let_def h_def)
  have e: "EncodeBinary p = h @ put_secs ?secs" by (simp add: EncodeBinary_def h_def)
  define b where "b = take n (EncodeBinary p)"
  have lb: "length b = n" using assms(1) by (simp add: b_def)
  consider (short) "n < 4" | (magic) "4 \<le> n" "n < 6" | (version) "6 \<le> n" "n < 8" | (header) "8 \<le> n" by linarith
  then show ?thesis
  proof cases
    case short
    then show ?thesis unfolding b_def [symmetric] DecodeBinary_def using lb
      by (simp add: readFull_def newReader_def br_remaining_def)
  next
    case magic
    then show ?thesis unfolding b_def [symmetric] DecodeBinary_def using lb
      by (simp add: readFull_def newReader_def br_remaining_def readU16_def Let_def)
  next
    case version
    then show ?thesis unfolding b_def [symmetric] DecodeBinary_def using lb
      by (simp add: readFull_def newReader_def br_remaining_def readU16_def Let_def)
  next
    case header
    then have b: "b = h @ take (n - 8) (put_secs ?secs)" using l by (simp add: b_def e)
    have d: "\<exists>e. decode_sections 11 0 \<lparr>br_data = b, br_off = 8, br_err = False\<rparr> (prog0, []) = Inl e"
      using cut_sections [of h ?secs "n - 8" 0 "(prog0, [])"] assms header l unfolding b e by simp
    have v: "run_state readU16 \<lparr>br_data = b, br_off = 4, br_err = False\<rparr> = (binaryVersion, \<lparr>br_data = b, br_off = 6, br_err = False\<rparr>)"
      using reads_U16 [of binaryVersion, unfolded reads_def, rule_format, of magic "putUint16 sectionCount @ take (n - 8) (put_secs ?secs)"]
      by (simp add: b h_def)
    have c: "run_state readU16 \<lparr>br_data = b, br_off = 6, br_err = False\<rparr> = (sectionCount, \<lparr>br_data = b, br_off = 8, br_err = False\<rparr>)"
      using reads_U16 [of sectionCount, unfolded reads_def, rule_format, of "magic @ putUint16 binaryVersion" "take (n - 8) (put_secs ?secs)"]
      by (simp add: b h_def)
    have m: "run_state (readFull 4) (newReader b) = (magic, \<lparr>br_data = b, br_off = 4, br_err = False\<rparr>)"
      by (simp add: b h_def readFull_def newReader_def br_remaining_def field_def)
    show ?thesis unfolding b_def [symmetric] DecodeBinary_def m using d by (auto simp: v c sectionCount_def)
  qed
qed

lemma cut_file_rejected_witness: "\<exists>e. DecodeBinary (take 50 (EncodeBinary prog0)) = Inl e"
proof (rule cut_file_rejected)
  have "50 < length (EncodeBinary prog0) \<and> length (EncodeBinary prog0) < 200" by code_simp
  then show "50 < length (EncodeBinary prog0)" "length (EncodeBinary prog0) < 2 ^ 32" by simp_all
qed

end
