(* ===== verification/Signal_Graph.thy ===== *)
theory Signal_Graph
  imports Gosx_Prelude
begin

text \<open>
  The reactive values of the package \<^verbatim>\<open>signal\<close> (\<^verbatim>\<open>signal.go\<close>, \<^verbatim>\<open>track.go\<close>, \<^verbatim>\<open>batch.go\<close>), on one
  goroutine. The objects are a graph: a source is a signal or a derived value, each with a cell, the
  \<open>Signal[T]\<close> that holds its value, its revision and its subscribers. The function of a derived value
  is a program that reads sources. A subscriber is one of the three callbacks that the package or its
  client registers; what a client's own sig_callback does is to read sources. Revisions are \<open>nat\<close>.
  The calls nest without a bound that the program fixes, so the functions take fuel and return
  \<open>None\<close> when it does not suffice.
\<close>

section \<open>State\<close>

datatype src = Sig nat | Cmp nat

datatype 'v rd = Ret 'v | Read src "'v \<Rightarrow> 'v rd"

datatype sig_callback = Observe nat | DepChange nat | RunEffect nat

text \<open>\<open>subscriberEntry\<close>; an invalidation callback belongs to a derived value.\<close>

record entry =
  sb_id :: nat
  sb_fn :: sig_callback
  sb_inval :: "nat option"

record 'v cell =
  g_value :: 'v
  g_rev :: nat
  g_subs :: "entry list"
  g_next :: nat
  g_equal :: "('v \<Rightarrow> 'v \<Rightarrow> bool) option"

record dependency =
  dp_source :: src
  dp_rev :: nat
  dp_sub :: nat

record 'v computed =
  k_body :: "'v rd"
  k_deps :: "dependency list"
  k_dirty :: bool
  k_refreshing :: bool
  k_stopped :: bool

record 'v effect =
  f_body :: "'v rd"
  f_unsubs :: "(src \<times> nat) list"
  f_dead :: bool

text \<open>\<open>gr_windows\<close> are the open tracking windows, the innermost first; a callback that runs while a window
  is open reads into it. \<open>gr_obs k\<close> is what the \<open>k\<close>-th client callback reads, \<open>gr_log\<close> what the callbacks and effects saw.\<close>

record 'v graph =
  gr_cell :: "src \<Rightarrow> 'v cell"
  gr_comp :: "nat \<Rightarrow> 'v computed"
  gr_eff :: "nat \<Rightarrow> 'v effect"
  gr_sigs :: nat
  gr_comps :: nat
  gr_effs :: nat
  gr_depth :: nat
  gr_queue :: "sig_callback list"
  gr_windows :: "dependency list list"
  gr_obs :: "nat \<Rightarrow> src list"
  gr_log :: "(sig_callback \<times> 'v list) list"

abbreviation upd_cell :: "src \<Rightarrow> ('v cell \<Rightarrow> 'v cell) \<Rightarrow> 'v graph \<Rightarrow> 'v graph" where
  "upd_cell s f g \<equiv> g\<lparr>gr_cell := (gr_cell g)(s := f (gr_cell g s))\<rparr>"

abbreviation upd_comp :: "nat \<Rightarrow> ('v computed \<Rightarrow> 'v computed) \<Rightarrow> 'v graph \<Rightarrow> 'v graph" where
  "upd_comp c f g \<equiv> g\<lparr>gr_comp := (gr_comp g)(c := f (gr_comp g c))\<rparr>"

abbreviation value_of :: "'v graph \<Rightarrow> src \<Rightarrow> 'v" where "value_of g s \<equiv> g_value (gr_cell g s)"
abbreviation rev_of :: "'v graph \<Rightarrow> src \<Rightarrow> nat" where "rev_of g s \<equiv> g_rev (gr_cell g s)"
abbreviation subs_of :: "'v graph \<Rightarrow> src \<Rightarrow> entry list" where "subs_of g s \<equiv> g_subs (gr_cell g s)"
abbreviation dirty :: "'v graph \<Rightarrow> nat \<Rightarrow> bool" where "dirty g c \<equiv> k_dirty (gr_comp g c)"
abbreviation refreshing :: "'v graph \<Rightarrow> nat \<Rightarrow> bool" where "refreshing g c \<equiv> k_refreshing (gr_comp g c)"
abbreviation stopped :: "'v graph \<Rightarrow> nat \<Rightarrow> bool" where "stopped g c \<equiv> k_stopped (gr_comp g c)"
abbreviation deps_of :: "'v graph \<Rightarrow> nat \<Rightarrow> dependency list" where "deps_of g c \<equiv> k_deps (gr_comp g c)"

fun ofold :: "('a \<Rightarrow> 's \<Rightarrow> 's option) \<Rightarrow> 'a list \<Rightarrow> 's \<Rightarrow> 's option" where
  "ofold f [] s = Some s"
| "ofold f (x # xs) s = (case f x s of None \<Rightarrow> None | Some s \<Rightarrow> ofold f xs s)"

section \<open>Subscriptions\<close>

definition subscribe :: "src \<Rightarrow> sig_callback \<Rightarrow> nat option \<Rightarrow> 'v graph \<Rightarrow> nat \<times> 'v graph" where
  "subscribe s fn inval g =
     (let n = g_next (gr_cell g s)
      in (n, upd_cell s (\<lambda>x. x\<lparr>g_next := n + 1, g_subs := g_subs x @ [\<lparr>sb_id = n, sb_fn = fn, sb_inval = inval\<rparr>]\<rparr>) g))"

text \<open>The first entry of the identifier goes.\<close>

fun drop_entry :: "nat \<Rightarrow> entry list \<Rightarrow> entry list" where
  "drop_entry i [] = []"
| "drop_entry i (e # es) = (if sb_id e = i then es else e # drop_entry i es)"

definition unsubscribe :: "src \<Rightarrow> nat \<Rightarrow> 'v graph \<Rightarrow> 'v graph" where
  "unsubscribe s i g = upd_cell s (\<lambda>x. x\<lparr>g_subs := drop_entry i (g_subs x)\<rparr>) g"

definition invalidators :: "entry list \<Rightarrow> nat list" where
  "invalidators es = List.map_filter sb_inval es"

definition hasSubscribers :: "'v graph \<Rightarrow> src \<Rightarrow> bool" where
  "hasSubscribers g s \<longleftrightarrow> subs_of g s \<noteq> []"

text \<open>\<open>subscribeToDepsLocked\<close>: the subscriptions stay when the same sources were read in the same order.\<close>

definition reuse :: "dependency list \<Rightarrow> dependency list \<Rightarrow> dependency list option" where
  "reuse old new =
     (if List.map dp_source old = List.map dp_source new
      then Some (map2 (\<lambda>o1 n. n\<lparr>dp_sub := dp_sub o1\<rparr>) old new) else None)"

fun subscribe_deps :: "nat \<Rightarrow> dependency list \<Rightarrow> 'v graph \<Rightarrow> dependency list \<times> 'v graph" where
  "subscribe_deps c [] g = ([], g)"
| "subscribe_deps c (d # ds) g =
     (let (i, g) = subscribe (dp_source d) (DepChange c) (Some c) g; (ds, g) = subscribe_deps c ds g
      in (d\<lparr>dp_sub := i\<rparr> # ds, g))"

definition subscribeToDeps :: "nat \<Rightarrow> dependency list \<Rightarrow> 'v graph \<Rightarrow> 'v graph" where
  "subscribeToDeps c deps g =
     (case reuse (deps_of g c) deps of
        Some ds \<Rightarrow> upd_comp c (\<lambda>x. x\<lparr>k_deps := ds\<rparr>) g
      | None \<Rightarrow>
          let g = fold (\<lambda>d. unsubscribe (dp_source d) (dp_sub d)) (deps_of g c) g; (ds, g) = subscribe_deps c deps g
          in upd_comp c (\<lambda>x. x\<lparr>k_deps := ds\<rparr>) g)"

section \<open>Staleness\<close>

text \<open>\<open>Computed.invalidate\<close> and \<open>invalidateSubscribers\<close>. The dependents of a derived value are created
  after it, so the fuel \<open>gr_comps\<close> covers the deepest chain; the callers pass one more.\<close>

fun invalidate :: "nat \<Rightarrow> nat \<Rightarrow> 'v graph \<Rightarrow> 'v graph" where
  "invalidate 0 c g = g"
| "invalidate (Suc n) c g =
     (if stopped g c \<or> dirty g c then g
      else
        let g = upd_comp c (\<lambda>x. x\<lparr>k_dirty := True\<rparr>) g
        in fold (invalidate n) (invalidators (subs_of g (Cmp c))) g)"

definition invalidate_all :: "nat list \<Rightarrow> 'v graph \<Rightarrow> 'v graph" where
  "invalidate_all cs g = fold (invalidate (gr_comps g + 1)) cs g"

section \<open>Reading, refreshing and notifying\<close>

text \<open>\<open>recordDependency\<close>: the innermost open window gets the source with the revision of its first read.\<close>

definition record_dep :: "src \<Rightarrow> nat \<Rightarrow> 'v graph \<Rightarrow> 'v graph" where
  "record_dep s r g =
     (case gr_windows g of
        [] \<Rightarrow> g
      | w # ws \<Rightarrow>
          if s \<in> set (List.map dp_source w) then g
          else g\<lparr>gr_windows := (w @ [\<lparr>dp_source = s, dp_rev = r, dp_sub = 0\<rparr>]) # ws\<rparr>)"

text \<open>\<open>Get\<close> of a signal or a derived value; \<open>rf\<close> is the refresh that it begins with.\<close>

definition read_src :: "(src \<Rightarrow> 'v graph \<Rightarrow> 'v graph option) \<Rightarrow> src \<Rightarrow> 'v graph \<Rightarrow> ('v \<times> 'v graph) option" where
  "read_src rf s g = (case rf s g of None \<Rightarrow> None | Some g \<Rightarrow> Some (value_of g s, record_dep s (rev_of g s) g))"

primrec eval_body :: "(src \<Rightarrow> 'v graph \<Rightarrow> 'v graph option) \<Rightarrow> 'v rd \<Rightarrow> 'v graph \<Rightarrow> ('v \<times> 'v graph) option" where
  "eval_body rf (Ret v) g = Some (v, g)"
| "eval_body rf (Read s k) g = (case read_src rf s g of None \<Rightarrow> None | Some (v, g) \<Rightarrow> eval_body rf (k v) g)"

definition track :: "(src \<Rightarrow> 'v graph \<Rightarrow> 'v graph option) \<Rightarrow> 'v rd \<Rightarrow> 'v graph \<Rightarrow> ('v \<times> dependency list \<times> 'v graph) option" where
  "track rf b g =
     (case eval_body rf b (g\<lparr>gr_windows := [] # gr_windows g\<rparr>) of
        None \<Rightarrow> None
      | Some (v, g) \<Rightarrow> Some (v, hd (gr_windows g), g\<lparr>gr_windows := tl (gr_windows g)\<rparr>))"

fun read_all :: "(src \<Rightarrow> 'v graph \<Rightarrow> 'v graph option) \<Rightarrow> src list \<Rightarrow> 'v graph \<Rightarrow> ('v list \<times> 'v graph) option" where
  "read_all rf [] g = Some ([], g)"
| "read_all rf (s # ss) g =
     (case read_src rf s g of
        None \<Rightarrow> None
      | Some (v, g) \<Rightarrow> (case read_all rf ss g of None \<Rightarrow> None | Some (vs, g) \<Rightarrow> Some (v # vs, g)))"

text \<open>\<open>signal.value = value\<close> with its revision.\<close>

definition write_cell :: "src \<Rightarrow> 'v \<Rightarrow> 'v graph \<Rightarrow> 'v graph" where
  "write_cell s v g = upd_cell s (\<lambda>x. x\<lparr>g_value := v, g_rev := g_rev x + 1\<rparr>) g"

definition same_value :: "'v graph \<Rightarrow> src \<Rightarrow> 'v \<Rightarrow> bool" where
  "same_value g s v = (case g_equal (gr_cell g s) of None \<Rightarrow> False | Some eq \<Rightarrow> eq (value_of g s) v)"

definition changed_dep :: "'v graph \<Rightarrow> dependency \<Rightarrow> bool" where
  "changed_dep g d \<longleftrightarrow> rev_of g (dp_source d) \<noteq> dp_rev d"

text \<open>What may still be called from inside a call; \<open>go\<close> stands for the calls one level deeper.\<close>

datatype task = TRefresh nat | TLoop nat | TDeliver sig_callback | TNotify "sig_callback list"

definition refresh_src :: "(task \<Rightarrow> 'v graph \<Rightarrow> 'v graph option) \<Rightarrow> src \<Rightarrow> 'v graph \<Rightarrow> 'v graph option" where
  "refresh_src go s g = (case s of Sig i \<Rightarrow> Some g | Cmp c \<Rightarrow> go (TRefresh c) g)"

definition refresh :: "(task \<Rightarrow> 'v graph \<Rightarrow> 'v graph option) \<Rightarrow> nat \<Rightarrow> 'v graph \<Rightarrow> 'v graph option" where
  "refresh go c g =
     (if stopped g c \<or> \<not> dirty g c \<or> refreshing g c then Some g
      else go (TLoop c) (upd_comp c (\<lambda>x. x\<lparr>k_refreshing := True\<rparr>) g))"

text \<open>Whether a dependency has another revision than the one it was read at, after its refresh.\<close>

definition check_dep :: "(task \<Rightarrow> 'v graph \<Rightarrow> 'v graph option) \<Rightarrow> dependency \<Rightarrow> 'v graph \<times> bool \<Rightarrow> ('v graph \<times> bool) option" where
  "check_dep go d = (\<lambda>(g, changed). case refresh_src go (dp_source d) g of
     None \<Rightarrow> None | Some g \<Rightarrow> Some (g, changed \<or> changed_dep g d))"

text \<open>The publication of a new value: the cell is written before the refresh is over, the callbacks run
  after.\<close>

definition publish :: "(task \<Rightarrow> 'v graph \<Rightarrow> 'v graph option) \<Rightarrow> nat \<Rightarrow> bool \<Rightarrow> 'v \<Rightarrow> 'v graph \<Rightarrow> 'v graph option" where
  "publish go c notify v g =
     (let es = subs_of g (Cmp c); g = (if notify then write_cell (Cmp c) v g else g);
          g = upd_comp c (\<lambda>x. x\<lparr>k_refreshing := False\<rparr>) g
      in if notify then go (TNotify (List.map sb_fn es)) (invalidate_all (invalidators es) g) else Some g)"

text \<open>The evaluation in a round of the loop of \<open>refresh\<close> whose dependencies have changed.\<close>

definition recompute :: "(task \<Rightarrow> 'v graph \<Rightarrow> 'v graph option) \<Rightarrow> nat \<Rightarrow> 'v graph \<Rightarrow> 'v graph option" where
  "recompute go c g =
     (case track (refresh_src go) (k_body (gr_comp g c)) g of
        None \<Rightarrow> None
      | Some (v, deps, g) \<Rightarrow>
          let notify = (\<not> same_value g (Cmp c) v) in
          if stopped g c then Some (upd_comp c (\<lambda>x. x\<lparr>k_refreshing := False\<rparr>) g)
          else
            let g = subscribeToDeps c deps g in
            if list_ex (changed_dep g) deps then go (TLoop c) (upd_comp c (\<lambda>x. x\<lparr>k_dirty := True\<rparr>) g)
            else publish go c notify v g)"

definition refresh_loop :: "(task \<Rightarrow> 'v graph \<Rightarrow> 'v graph option) \<Rightarrow> nat \<Rightarrow> 'v graph \<Rightarrow> 'v graph option" where
  "refresh_loop go c g =
     (if stopped g c \<or> \<not> dirty g c then Some (upd_comp c (\<lambda>x. x\<lparr>k_refreshing := False\<rparr>) g)
      else
        case ofold (check_dep go) (deps_of g c) (upd_comp c (\<lambda>x. x\<lparr>k_dirty := False\<rparr>) g, False) of
          None \<Rightarrow> None
        | Some (g, changed) \<Rightarrow> if \<not> changed then go (TLoop c) g else recompute go c g)"

definition onDepChange :: "(task \<Rightarrow> 'v graph \<Rightarrow> 'v graph option) \<Rightarrow> nat \<Rightarrow> 'v graph \<Rightarrow> 'v graph option" where
  "onDepChange go c g =
     (if stopped g c then Some g
      else
        let g = upd_comp c (\<lambda>x. x\<lparr>k_dirty := True\<rparr>) g
        in if hasSubscribers g (Cmp c) then go (TRefresh c) g else Some g)"

text \<open>A run of an effect; what its function returns stands for what it does.\<close>

definition watch_dep :: "nat \<Rightarrow> dependency \<Rightarrow> 'v graph \<Rightarrow> 'v graph" where
  "watch_dep e d g = (let (i, g) = subscribe (dp_source d) (RunEffect e) None g in
     g\<lparr>gr_eff := (gr_eff g)(e := (gr_eff g e)\<lparr>f_unsubs := f_unsubs (gr_eff g e) @ [(dp_source d, i)]\<rparr>)\<rparr>)"

definition drop_unsubs :: "nat \<Rightarrow> 'v graph \<Rightarrow> 'v graph" where
  "drop_unsubs e g =
     (let us = f_unsubs (gr_eff g e); g = g\<lparr>gr_eff := (gr_eff g)(e := (gr_eff g e)\<lparr>f_unsubs := []\<rparr>)\<rparr>
      in fold (\<lambda>(s, i). unsubscribe s i) us g)"

definition run_effect :: "(task \<Rightarrow> 'v graph \<Rightarrow> 'v graph option) \<Rightarrow> nat \<Rightarrow> 'v graph \<Rightarrow> 'v graph option" where
  "run_effect go e g =
     (if f_dead (gr_eff g e) then Some g
      else
        case track (refresh_src go) (f_body (gr_eff g e)) (drop_unsubs e g) of
          None \<Rightarrow> None
        | Some (v, deps, g) \<Rightarrow>
            let g = g\<lparr>gr_log := gr_log g @ [(RunEffect e, [v])]\<rparr>
            in if f_dead (gr_eff g e) then Some g else Some (fold (watch_dep e) deps g))"

text \<open>A callback of the client reads its sources.\<close>

definition observe :: "(task \<Rightarrow> 'v graph \<Rightarrow> 'v graph option) \<Rightarrow> nat \<Rightarrow> 'v graph \<Rightarrow> 'v graph option" where
  "observe go k g =
     (case read_all (refresh_src go) (gr_obs g k) g of
        None \<Rightarrow> None
      | Some (vs, g) \<Rightarrow> Some (g\<lparr>gr_log := gr_log g @ [(Observe k, vs)]\<rparr>))"

definition deliver_call :: "(task \<Rightarrow> 'v graph \<Rightarrow> 'v graph option) \<Rightarrow> sig_callback \<Rightarrow> 'v graph \<Rightarrow> 'v graph option" where
  "deliver_call go cb g =
     (case cb of Observe k \<Rightarrow> observe go k g | DepChange c \<Rightarrow> onDepChange go c g | RunEffect e \<Rightarrow> run_effect go e g)"

definition batchNotify :: "(task \<Rightarrow> 'v graph \<Rightarrow> 'v graph option) \<Rightarrow> sig_callback list \<Rightarrow> 'v graph \<Rightarrow> 'v graph option" where
  "batchNotify go cbs g =
     (if cbs = [] then Some g
      else if gr_depth g > 0 then Some (g\<lparr>gr_queue := gr_queue g @ cbs\<rparr>)
      else ofold (\<lambda>cb. go (TDeliver cb)) cbs g)"

primrec run_task :: "nat \<Rightarrow> task \<Rightarrow> 'v graph \<Rightarrow> 'v graph option" where
  "run_task 0 = (\<lambda>t g. None)"
| "run_task (Suc n) = (\<lambda>t g.
     case t of
       TRefresh c \<Rightarrow> refresh (run_task n) c g
     | TLoop c \<Rightarrow> refresh_loop (run_task n) c g
     | TDeliver cb \<Rightarrow> deliver_call (run_task n) cb g
     | TNotify cbs \<Rightarrow> batchNotify (run_task n) cbs g)"

text \<open>For evaluation: the calls one level deeper are unfolded only when they are made, and an update of a
  function is a value.\<close>

declare fun_upd_def [code del] fun_upd_apply [code]

lemma run_task_code [code]:
  "run_task 0 t g = None"
  "run_task (Suc n) t g = (case t of
       TRefresh c \<Rightarrow> refresh (run_task n) c g
     | TLoop c \<Rightarrow> refresh_loop (run_task n) c g
     | TDeliver cb \<Rightarrow> deliver_call (run_task n) cb g
     | TNotify cbs \<Rightarrow> batchNotify (run_task n) cbs g)"
  by simp_all

section \<open>The operations of the client\<close>

definition new_cell :: "'v \<Rightarrow> ('v \<Rightarrow> 'v \<Rightarrow> bool) option \<Rightarrow> 'v cell" where
  "new_cell v eq = \<lparr>g_value = v, g_rev = 0, g_subs = [], g_next = 0, g_equal = eq\<rparr>"

definition NewSignal :: "'v \<Rightarrow> ('v \<Rightarrow> 'v \<Rightarrow> bool) option \<Rightarrow> 'v graph \<Rightarrow> 'v graph" where
  "NewSignal v eq g = (upd_cell (Sig (gr_sigs g)) (\<lambda>_. new_cell v eq) g)\<lparr>gr_sigs := gr_sigs g + 1\<rparr>"

definition GetValue :: "nat \<Rightarrow> src \<Rightarrow> 'v graph \<Rightarrow> ('v \<times> 'v graph) option" where
  "GetValue n s g = read_src (refresh_src (run_task n)) s g"

definition SetSignal :: "nat \<Rightarrow> nat \<Rightarrow> 'v \<Rightarrow> 'v graph \<Rightarrow> 'v graph option" where
  "SetSignal n i v g =
     (if same_value g (Sig i) v then Some g
      else
        let g = write_cell (Sig i) v g; es = subs_of g (Sig i)
        in run_task n (TNotify (List.map sb_fn es)) (invalidate_all (invalidators es) g))"

definition UpdateSignal :: "nat \<Rightarrow> nat \<Rightarrow> ('v \<Rightarrow> 'v) \<Rightarrow> 'v graph \<Rightarrow> 'v graph option" where
  "UpdateSignal n i f g = SetSignal n i (f (value_of g (Sig i))) g"

definition Derive :: "nat \<Rightarrow> 'v rd \<Rightarrow> ('v \<Rightarrow> 'v \<Rightarrow> bool) option \<Rightarrow> 'v graph \<Rightarrow> 'v graph option" where
  "Derive n body eq g =
     (let c = gr_comps g in
      case track (refresh_src (run_task n)) body g of
        None \<Rightarrow> None
      | Some (v, deps, g) \<Rightarrow>
          let g = upd_comp c (\<lambda>_. \<lparr>k_body = body, k_deps = [], k_dirty = False, k_refreshing = False, k_stopped = False\<rparr>) g;
              g = (upd_cell (Cmp c) (\<lambda>_. new_cell v eq) g)\<lparr>gr_comps := c + 1\<rparr>;
              g = upd_comp c (\<lambda>x. x\<lparr>k_dirty := True\<rparr>) (subscribeToDeps c deps g)
          in run_task n (TRefresh c) g)"

definition StopComputed :: "nat \<Rightarrow> 'v graph \<Rightarrow> 'v graph" where
  "StopComputed c g =
     (let deps = deps_of g c; g = upd_comp c (\<lambda>x. x\<lparr>k_stopped := True, k_deps := []\<rparr>) g
      in fold (\<lambda>d. unsubscribe (dp_source d) (dp_sub d)) deps g)"

definition Watch :: "nat \<Rightarrow> 'v rd \<Rightarrow> 'v graph \<Rightarrow> 'v graph option" where
  "Watch n body g =
     (let e = gr_effs g;
          g = g\<lparr>gr_eff := (gr_eff g)(e := \<lparr>f_body = body, f_unsubs = [], f_dead = False\<rparr>), gr_effs := e + 1\<rparr>
      in run_task n (TDeliver (RunEffect e)) g)"

definition Dispose :: "nat \<Rightarrow> 'v graph \<Rightarrow> 'v graph" where
  "Dispose e g = drop_unsubs e (g\<lparr>gr_eff := (gr_eff g)(e := (gr_eff g e)\<lparr>f_dead := True\<rparr>)\<rparr>)"

definition begin_batch :: "'v graph \<Rightarrow> 'v graph" where
  "begin_batch g = g\<lparr>gr_depth := gr_depth g + 1\<rparr>"

text \<open>The deferred end of \<open>Batch\<close>.\<close>

definition end_batch :: "nat \<Rightarrow> 'v graph \<Rightarrow> 'v graph option" where
  "end_batch n g =
     (let d = gr_depth g - 1; g = g\<lparr>gr_depth := d\<rparr> in
      if d = 0 then ofold (\<lambda>cb. run_task n (TDeliver cb)) (gr_queue g) (g\<lparr>gr_queue := []\<rparr>) else Some g)"

text \<open>What a client does, and the values it gets.\<close>

datatype 'v cmd =
    CNew 'v "('v \<Rightarrow> 'v \<Rightarrow> bool) option" | CDerive "'v rd" "('v \<Rightarrow> 'v \<Rightarrow> bool) option" | CSubscribe src nat
  | CWatch "'v rd" | CSet nat 'v | CUpdate nat "'v \<Rightarrow> 'v" | CGet src | CStop nat | CDispose nat | CBegin | CEnd

fun run_cmd :: "nat \<Rightarrow> 'v cmd \<Rightarrow> 'v graph \<times> 'v list \<Rightarrow> ('v graph \<times> 'v list) option" where
  "run_cmd n (CNew v eq) (g, vs) = Some (NewSignal v eq g, vs)"
| "run_cmd n (CDerive b eq) (g, vs) = map_option (\<lambda>g. (g, vs)) (Derive n b eq g)"
| "run_cmd n (CSubscribe s k) (g, vs) = Some (snd (subscribe s (Observe k) None g), vs)"
| "run_cmd n (CWatch b) (g, vs) = map_option (\<lambda>g. (g, vs)) (Watch n b g)"
| "run_cmd n (CSet i v) (g, vs) = map_option (\<lambda>g. (g, vs)) (SetSignal n i v g)"
| "run_cmd n (CUpdate i f) (g, vs) = map_option (\<lambda>g. (g, vs)) (UpdateSignal n i f g)"
| "run_cmd n (CGet s) (g, vs) = map_option (\<lambda>(v, g). (g, vs @ [v])) (GetValue n s g)"
| "run_cmd n (CStop c) (g, vs) = Some (StopComputed c g, vs)"
| "run_cmd n (CDispose e) (g, vs) = Some (Dispose e g, vs)"
| "run_cmd n CBegin (g, vs) = Some (begin_batch g, vs)"
| "run_cmd n CEnd (g, vs) = map_option (\<lambda>g. (g, vs)) (end_batch n g)"

definition run_cmds :: "nat \<Rightarrow> 'v cmd list \<Rightarrow> 'v graph \<Rightarrow> ('v graph \<times> 'v list) option" where
  "run_cmds n cs g = ofold (run_cmd n) cs (g, [])"

text \<open>Before anything was created; \<open>v\<close> fills the cells that no one has made.\<close>

definition empty_graph :: "'v \<Rightarrow> (nat \<Rightarrow> src list) \<Rightarrow> 'v graph" where
  "empty_graph v obs =
     \<lparr>gr_cell = (\<lambda>_. new_cell v None),
      gr_comp = (\<lambda>_. \<lparr>k_body = Ret v, k_deps = [], k_dirty = False, k_refreshing = False, k_stopped = False\<rparr>),
      gr_eff = (\<lambda>_. \<lparr>f_body = Ret v, f_unsubs = [], f_dead = False\<rparr>), gr_sigs = 0, gr_comps = 0, gr_effs = 0,
      gr_depth = 0, gr_queue = [], gr_windows = [], gr_obs = obs, gr_log = []\<rparr>"

end
