(* ===== verification/Signal_Cache.thy ===== *)
theory Signal_Cache
  imports Signal_Graph
begin

text \<open>
  Reading inside a batch. For derived values that read a fixed list of sources, every read inside a
  batch returns the value that the functions compute from the signals as they are: the lazy
  refreshes are a cache that is never stale. The invariant says that a derived value that is not
  dirty has dependencies of the revisions it was computed at, none of them dirty.
\<close>

section \<open>The values that are meant\<close>

primrec eval_rd :: "'v rd \<Rightarrow> (src \<Rightarrow> 'v) \<Rightarrow> 'v" where
  "eval_rd (Ret v) \<sigma> = v"
| "eval_rd (Read s k) \<sigma> = eval_rd (k (\<sigma> s)) \<sigma>"

primrec fixed_reads :: "'v rd \<Rightarrow> src list \<Rightarrow> bool" where
  "fixed_reads (Ret v) ss = (ss = [])"
| "fixed_reads (Read s k) ss = (case ss of [] \<Rightarrow> False | t # ts \<Rightarrow> t = s \<and> (\<forall>v. fixed_reads (k v) ts))"

text \<open>Every derived value computed again in the order of creation, from the values of the signals.\<close>

primrec derived :: "(nat \<Rightarrow> 'v rd) \<Rightarrow> (nat \<Rightarrow> 'v) \<Rightarrow> nat \<Rightarrow> src \<Rightarrow> 'v" where
  "derived body \<sigma> 0 = (\<lambda>s. case s of Sig i \<Rightarrow> \<sigma> i | Cmp c \<Rightarrow> \<sigma> 0)"
| "derived body \<sigma> (Suc n) = (derived body \<sigma> n)(Cmp n := eval_rd (body n) (derived body \<sigma> n))"

lemma derived_Sig [simp]: "derived body \<sigma> n (Sig i) = \<sigma> i"
  by (induction n) simp_all

lemma derived_Cmp: "c < n \<Longrightarrow> derived body \<sigma> n (Cmp c) = eval_rd (body c) (derived body \<sigma> c)"
  by (induction n) (auto simp: less_Suc_eq)

lemma derived_upto: "(\<And>c. s = Cmp c \<Longrightarrow> c < m) \<Longrightarrow> m \<le> n \<Longrightarrow> derived body \<sigma> n s = derived body \<sigma> m s"
  by (cases s) (simp_all add: derived_Cmp)

abbreviation bodies :: "'v graph \<Rightarrow> nat \<Rightarrow> 'v rd" where "bodies g \<equiv> \<lambda>c. k_body (gr_comp g c)"
abbreviation signals :: "'v graph \<Rightarrow> nat \<Rightarrow> 'v" where "signals g \<equiv> \<lambda>i. value_of g (Sig i)"

lemma eval_cong: "fixed_reads b ss \<Longrightarrow> (\<And>s. s \<in> set ss \<Longrightarrow> \<sigma> s = \<tau> s) \<Longrightarrow> eval_rd b \<sigma> = eval_rd b \<tau>"
proof (induction b arbitrary: ss)
  case (Read s k)
  then obtain ts where ts: "ss = s # ts" "\<forall>v. fixed_reads (k v) ts" by (auto split: list.splits)
  then have "eval_rd (k (\<sigma> s)) \<sigma> = eval_rd (k (\<sigma> s)) \<tau>" using Read.IH [of "k (\<sigma> s)" ts] Read.prems(2) by auto
  then show ?case using Read.prems(2) [of s] ts(1) by simp
qed simp

section \<open>Invariants\<close>

definition subscriber :: "'v graph \<Rightarrow> src \<Rightarrow> nat \<Rightarrow> bool" where
  "subscriber g s c \<longleftrightarrow> (\<exists>e \<in> set (subs_of g s). sb_inval e = Some c)"

text \<open>The wiring, which reading and writing keep.\<close>

definition sources :: "'v graph \<Rightarrow> nat \<Rightarrow> src list" where
  "sources g c = List.map dp_source (deps_of g c)"

definition wired :: "'v graph \<Rightarrow> bool" where
  "wired g \<longleftrightarrow>
     (\<forall>c < gr_comps g.
        fixed_reads (k_body (gr_comp g c)) (sources g c) \<and> distinct (sources g c) \<and> \<not> stopped g c \<and>
        (\<forall>s \<in> set (sources g c). subscriber g s c \<and> (\<forall>x. s = Cmp x \<longrightarrow> x < c)) \<and>
        (\<forall>eq a b. g_equal (gr_cell g (Cmp c)) = Some eq \<longrightarrow> eq a b \<longrightarrow> a = b)) \<and>
     (\<forall>s c. subscriber g s c \<longrightarrow> c < gr_comps g \<and> (\<forall>x. s = Cmp x \<longrightarrow> x < c)) \<and> (\<forall>c \<ge> gr_comps g. sources g c = [])"

definition wiring :: "'v graph \<Rightarrow> nat \<times> (nat \<Rightarrow> 'v rd \<times> src list \<times> bool) \<times> (src \<Rightarrow> nat \<Rightarrow> bool) \<times> (src \<Rightarrow> ('v \<Rightarrow> 'v \<Rightarrow> bool) option) \<times> nat" where
  "wiring g = (gr_comps g, (\<lambda>c. (k_body (gr_comp g c), sources g c, stopped g c)), subscriber g, (\<lambda>s. g_equal (gr_cell g s)), gr_sigs g)"

lemma wiringD:
  assumes "wiring t = wiring g"
  shows "gr_comps t = gr_comps g" "k_body (gr_comp t c) = k_body (gr_comp g c)" "sources t c = sources g c" "stopped t c = stopped g c"
    "subscriber t = subscriber g" "g_equal (gr_cell t s) = g_equal (gr_cell g s)" "gr_sigs t = gr_sigs g"
  using assms by (simp_all add: wiring_def fun_eq_iff)

lemma wired_cong:
  assumes "wiring t = wiring g"
  shows "wired t = wired g"
  unfolding wired_def by (simp only: wiringD [OF assms])

text \<open>A cached value is the function of the values at the recorded revisions.\<close>

definition snap :: "'v graph \<Rightarrow> nat \<Rightarrow> bool" where
  "snap g c \<longleftrightarrow> (\<exists>\<sigma>. eval_rd (k_body (gr_comp g c)) \<sigma> = value_of g (Cmp c) \<and>
     (\<forall>d \<in> set (deps_of g c). dp_rev d \<le> rev_of g (dp_source d) \<and>
        (rev_of g (dp_source d) = dp_rev d \<longrightarrow> \<sigma> (dp_source d) = value_of g (dp_source d))))"

definition clean :: "'v graph \<Rightarrow> nat \<Rightarrow> bool" where
  "clean g c \<longleftrightarrow> \<not> dirty g c \<and> \<not> refreshing g c"

definition clean_src :: "'v graph \<Rightarrow> src \<Rightarrow> bool" where
  "clean_src g s \<longleftrightarrow> (\<forall>c. s = Cmp c \<longrightarrow> clean g c)"

definition fresh_deps :: "'v graph \<Rightarrow> nat \<Rightarrow> bool" where
  "fresh_deps g c \<longleftrightarrow> (\<forall>d \<in> set (deps_of g c). \<not> changed_dep g d \<and> clean_src g (dp_source d))"

definition consistent :: "'v graph \<Rightarrow> bool" where
  "consistent g \<longleftrightarrow> wired g \<and> (\<forall>c < gr_comps g. snap g c \<and> (clean g c \<longrightarrow> fresh_deps g c))"

text \<open>No recomputation would change the value.\<close>

inductive up_to_date :: "'v graph \<Rightarrow> src \<Rightarrow> bool" for g where
  settled_Sig: "up_to_date g (Sig i)"
| settled_Cmp: "(\<And>d. d \<in> set (deps_of g c) \<Longrightarrow> \<not> changed_dep g d \<and> up_to_date g (dp_source d)) \<Longrightarrow> up_to_date g (Cmp c)"

inductive_cases settled_CmpE: "up_to_date g (Cmp c)"

definition src_in :: "'v graph \<Rightarrow> src \<Rightarrow> bool" where
  "src_in g s \<longleftrightarrow> (\<forall>c. s = Cmp c \<longrightarrow> c < gr_comps g)"

lemma wiredD:
  assumes "wired g" "c < gr_comps g"
  shows "fixed_reads (k_body (gr_comp g c)) (sources g c)" "distinct (sources g c)" "\<not> stopped g c"
    "s \<in> set (sources g c) \<Longrightarrow> subscriber g s c" "Cmp x \<in> set (sources g c) \<Longrightarrow> x < c"
    "g_equal (gr_cell g (Cmp c)) = Some eq \<Longrightarrow> eq a b \<Longrightarrow> a = b"
  using assms by (auto simp: wired_def)

lemma source_of: "d \<in> set (deps_of g c) \<Longrightarrow> dp_source d \<in> set (sources g c)"
  by (simp add: sources_def)

lemma wired_sub: "wired g \<Longrightarrow> subscriber g s c \<Longrightarrow> c < gr_comps g" "wired g \<Longrightarrow> subscriber g (Cmp x) c \<Longrightarrow> x < c"
  by (simp_all add: wired_def)

lemma wired_unused: "wired g \<Longrightarrow> gr_comps g \<le> c \<Longrightarrow> sources g c = []"
  by (simp add: wired_def)

lemma settled_current:
  assumes "consistent g"
  shows "up_to_date g s \<Longrightarrow> src_in g s \<Longrightarrow> value_of g s = derived (bodies g) (signals g) (gr_comps g) s"
proof (induction rule: up_to_date.induct)
  case (settled_Cmp c)
  let ?v = "derived (bodies g) (signals g)"
  have c: "c < gr_comps g" using settled_Cmp.prems by (simp add: src_in_def)
  have w: "wired g" using assms by (simp add: consistent_def)
  obtain \<sigma> where \<sigma>: "eval_rd (k_body (gr_comp g c)) \<sigma> = value_of g (Cmp c)"
    "\<And>d. d \<in> set (deps_of g c) \<Longrightarrow> rev_of g (dp_source d) = dp_rev d \<Longrightarrow> \<sigma> (dp_source d) = value_of g (dp_source d)"
    using assms c unfolding consistent_def snap_def by blast
  have "\<sigma> s = ?v c s" if s: "s \<in> set (sources g c)" for s
  proof -
    obtain d where d: "d \<in> set (deps_of g c)" "s = dp_source d" using s by (auto simp: sources_def)
    have lt: "x < c" if "s = Cmp x" for x using wiredD(5) [OF w c] s that by simp
    then have "src_in g s" using c by (auto simp: src_in_def dest: less_trans)
    then have "value_of g s = ?v (gr_comps g) s" using settled_Cmp.IH [OF d(1)] d(2) by blast
    also have "\<dots> = ?v c s" by (rule derived_upto [OF lt]) (use c in simp_all)
    finally have "value_of g s = ?v c s" .
    moreover have "rev_of g (dp_source d) = dp_rev d" using settled_Cmp.IH [OF d(1)] by (simp add: changed_dep_def)
    ultimately show ?thesis using \<sigma>(2) [OF d(1)] d(2) by simp
  qed
  then have "eval_rd (k_body (gr_comp g c)) \<sigma> = eval_rd (k_body (gr_comp g c)) (?v c)"
    by (rule eval_cong [OF wiredD(1) [OF w c]])
  then show ?case using \<sigma>(1) by (simp add: derived_Cmp [OF c])
qed simp

lemma clean_settled: "consistent g \<Longrightarrow> c < gr_comps g \<Longrightarrow> clean g c \<Longrightarrow> up_to_date g (Cmp c)"
proof (induction c rule: less_induct)
  case (less c)
  have w: "wired g" and f: "fresh_deps g c" using less.prems by (simp_all add: consistent_def)
  show ?case
  proof (rule settled_Cmp)
    fix d assume d: "d \<in> set (deps_of g c)"
    have "up_to_date g (dp_source d)"
    proof (cases "dp_source d")
      case (Cmp x)
      then have "x < c" "clean g x" using wiredD(5) [OF w less.prems(2), of x] source_of [OF d] f d by (auto simp: fresh_deps_def clean_src_def)
      then show ?thesis using less.IH [of x] less.prems(1,2) Cmp by simp
    qed (simp add: settled_Sig)
    then show "\<not> changed_dep g d \<and> up_to_date g (dp_source d)" using f d by (simp add: fresh_deps_def)
  qed
qed

section \<open>Invalidation\<close>

text \<open>A part of the derived values becomes dirty, with every value that subscribes to one of them. Only
  values from \<open>k\<close> on are touched.\<close>

definition dirtied :: "nat \<Rightarrow> 'v graph \<Rightarrow> 'v graph \<Rightarrow> bool" where
  "dirtied k g t \<longleftrightarrow> (\<exists>D. t = g\<lparr>gr_comp := (\<lambda>x. (gr_comp g x)\<lparr>k_dirty := D x\<rparr>)\<rparr> \<and>
     (\<forall>x. dirty g x \<longrightarrow> D x) \<and> (\<forall>x. D x \<and> \<not> dirty g x \<longrightarrow> k \<le> x) \<and>
     (\<forall>x y. D x \<longrightarrow> \<not> dirty g x \<longrightarrow> subscriber g (Cmp x) y \<longrightarrow> D y))"

lemma dirtiedI:
  assumes "t = g\<lparr>gr_comp := (\<lambda>x. (gr_comp g x)\<lparr>k_dirty := D x\<rparr>)\<rparr>" "\<And>x. dirty g x \<Longrightarrow> D x"
    "\<And>x. D x \<Longrightarrow> \<not> dirty g x \<Longrightarrow> k \<le> x" "\<And>x y. D x \<Longrightarrow> \<not> dirty g x \<Longrightarrow> subscriber g (Cmp x) y \<Longrightarrow> D y"
  shows "dirtied k g t"
  unfolding dirtied_def using assms by (intro exI [of _ D]) simp

lemma dirtied_refl: "dirtied k g g"
  unfolding dirtied_def by (rule exI [of _ "\<lambda>x. dirty g x"]) simp

lemma dirtied_trans: "dirtied k g s \<Longrightarrow> dirtied k s t \<Longrightarrow> dirtied k g t"
proof -
  assume a: "dirtied k g s" and b: "dirtied k s t"
  obtain D where D: "s = g\<lparr>gr_comp := (\<lambda>x. (gr_comp g x)\<lparr>k_dirty := D x\<rparr>)\<rparr>" "\<And>x. dirty g x \<Longrightarrow> D x"
    "\<And>x. D x \<Longrightarrow> \<not> dirty g x \<Longrightarrow> k \<le> x" "\<And>x y. D x \<Longrightarrow> \<not> dirty g x \<Longrightarrow> subscriber g (Cmp x) y \<Longrightarrow> D y"
    using a unfolding dirtied_def by blast
  obtain E where E: "t = s\<lparr>gr_comp := (\<lambda>x. (gr_comp s x)\<lparr>k_dirty := E x\<rparr>)\<rparr>" "\<And>x. dirty s x \<Longrightarrow> E x"
    "\<And>x. E x \<Longrightarrow> \<not> dirty s x \<Longrightarrow> k \<le> x" "\<And>x y. E x \<Longrightarrow> \<not> dirty s x \<Longrightarrow> subscriber s (Cmp x) y \<Longrightarrow> E y"
    using b unfolding dirtied_def by blast
  have d: "dirty s x = D x" "subscriber s = subscriber g" for x by (simp_all add: D(1) subscriber_def fun_eq_iff)
  have "t = g\<lparr>gr_comp := (\<lambda>x. (gr_comp g x)\<lparr>k_dirty := E x\<rparr>)\<rparr>" by (simp add: D(1) E(1))
  moreover have "k \<le> x" if "E x" "\<not> dirty g x" for x using that D(3) [of x] E(3) [of x] d(1) [of x] by blast
  moreover have "E y" if "E x" "\<not> dirty g x" "subscriber g (Cmp x) y" for x y
    using that D(4) [of x y] E(2) [of y] E(4) [of x y] d by metis
  moreover have "E x" if "dirty g x" for x using that D(2) E(2) d(1) by blast
  ultimately show ?thesis unfolding dirtied_def by blast
qed

lemma dirtiedD:
  assumes "dirtied k g t"
  shows "gr_cell t = gr_cell g" "gr_comps t = gr_comps g" "gr_depth t = gr_depth g" "deps_of t x = deps_of g x"
    "refreshing t x = refreshing g x" "stopped t x = stopped g x" "k_body (gr_comp t x) = k_body (gr_comp g x)"
    "dirty g x \<Longrightarrow> dirty t x" "dirty t x \<Longrightarrow> \<not> dirty g x \<Longrightarrow> k \<le> x"
    "dirty t x \<Longrightarrow> \<not> dirty g x \<Longrightarrow> subscriber g (Cmp x) y \<Longrightarrow> dirty t y" "subscriber t = subscriber g" "gr_sigs t = gr_sigs g"
proof -
  obtain D where D: "t = g\<lparr>gr_comp := (\<lambda>x. (gr_comp g x)\<lparr>k_dirty := D x\<rparr>)\<rparr>" "\<And>x. dirty g x \<Longrightarrow> D x"
    "\<And>x. D x \<Longrightarrow> \<not> dirty g x \<Longrightarrow> k \<le> x" "\<And>x y. D x \<Longrightarrow> \<not> dirty g x \<Longrightarrow> subscriber g (Cmp x) y \<Longrightarrow> D y"
    using assms unfolding dirtied_def by blast
  show "gr_cell t = gr_cell g" "gr_comps t = gr_comps g" "gr_depth t = gr_depth g" "deps_of t x = deps_of g x"
    "refreshing t x = refreshing g x" "stopped t x = stopped g x" "k_body (gr_comp t x) = k_body (gr_comp g x)" "gr_sigs t = gr_sigs g"
    by (simp_all add: D(1))
  show "dirty g x \<Longrightarrow> dirty t x" "dirty t x \<Longrightarrow> \<not> dirty g x \<Longrightarrow> k \<le> x"
    "dirty t x \<Longrightarrow> \<not> dirty g x \<Longrightarrow> subscriber g (Cmp x) y \<Longrightarrow> dirty t y"
    using D(2-4) by (simp_all add: D(1))
  show "subscriber t = subscriber g" by (simp add: D(1) subscriber_def fun_eq_iff)
qed

lemma wiring_dirtied: "dirtied k g t \<Longrightarrow> wiring t = wiring g"
  by (simp add: wiring_def sources_def dirtiedD)

lemma wired_dirtied: "dirtied k g t \<Longrightarrow> wired g \<Longrightarrow> wired t"
  using wired_cong [OF wiring_dirtied] by blast

lemma invalidators_iff: "y \<in> set (invalidators (subs_of g s)) \<longleftrightarrow> subscriber g s y"
proof -
  have "set (List.map_filter f xs) = {y. \<exists>x \<in> set xs. f x = Some y}" for f :: "entry \<Rightarrow> nat option" and xs
    by (induction xs) (auto simp: map_filter_simps split: option.split)
  then show ?thesis by (simp add: invalidators_def subscriber_def)
qed

lemma dirtied_mono: "dirtied k g t \<Longrightarrow> j \<le> k \<Longrightarrow> dirtied j g t"
proof -
  assume a: "dirtied k g t" and j: "j \<le> k"
  then obtain D where D: "t = g\<lparr>gr_comp := (\<lambda>x. (gr_comp g x)\<lparr>k_dirty := D x\<rparr>)\<rparr>" "\<forall>x. dirty g x \<longrightarrow> D x"
    "\<And>x. D x \<Longrightarrow> \<not> dirty g x \<Longrightarrow> k \<le> x" "\<forall>x y. D x \<longrightarrow> \<not> dirty g x \<longrightarrow> subscriber g (Cmp x) y \<longrightarrow> D y"
    unfolding dirtied_def by blast
  have "\<forall>x. D x \<and> \<not> dirty g x \<longrightarrow> j \<le> x" using order_trans [OF j] D(3) by blast
  then show ?thesis using D(1,2,4) unfolding dirtied_def by blast
qed

lemma fold_dirties:
  assumes "\<And>z u. z \<in> set zs \<Longrightarrow> wired u \<Longrightarrow> gr_comps u = N \<Longrightarrow> dirtied z u (f z u) \<and> dirty (f z u) z"
    "\<And>z. z \<in> set zs \<Longrightarrow> k \<le> z" "wired u" "gr_comps u = N"
  shows "dirtied k u (fold f zs u) \<and> (\<forall>y \<in> set zs. dirty (fold f zs u) y)"
  using assms
proof (induction zs arbitrary: u)
  case Nil
  show ?case by (simp add: dirtied_refl)
next
  case (Cons z zs)
  define u' where "u' = f z u"
  have d: "dirtied z u u'" "dirty u' z" using Cons.prems(1) [of z u] Cons.prems(3,4) by (simp_all add: u'_def)
  have w: "wired u'" "gr_comps u' = N" using wired_dirtied [OF d(1) Cons.prems(3)] dirtiedD(2) [OF d(1)] Cons.prems(4) by simp_all
  have f: "dirtied y v (f y v) \<and> dirty (f y v) y" if "y \<in> set zs" "wired v" "gr_comps v = N" for y v
    by (rule Cons.prems(1) [OF _ that(2,3)]) (simp add: that(1))
  have k: "k \<le> y" if "y \<in> set zs" for y by (rule Cons.prems(2)) (simp add: that)
  have r: "dirtied k u' (fold f zs u')" "\<forall>y \<in> set zs. dirty (fold f zs u') y"
    using Cons.IH [OF f k w] by blast+
  have kz: "k \<le> z" by (rule Cons.prems(2)) simp
  have "dirtied k u (fold f zs u')" "dirty (fold f zs u') z"
    using dirtied_trans [OF dirtied_mono [OF d(1) kz] r(1)] dirtiedD(8) [OF r(1) d(2)] by simp_all
  then show ?case using r(2) by (simp add: u'_def)
qed

lemma invalidate_dirties:
  "wired g \<Longrightarrow> c < gr_comps g \<Longrightarrow> gr_comps g - c \<le> n \<Longrightarrow> dirtied c g (invalidate n c g) \<and> dirty (invalidate n c g) c"
proof (induction n arbitrary: c g)
  case (Suc n)
  show ?case
  proof (cases "dirty g c")
    case True
    then show ?thesis by (simp add: dirtied_refl)
  next
    case False
    define h where "h = upd_comp c (\<lambda>x. x\<lparr>k_dirty := True\<rparr>) g"
    define ys where "ys = invalidators (subs_of g (Cmp c))"
    have e: "invalidate (Suc n) c g = fold (invalidate n) ys h"
      using False wiredD(3) [OF Suc.prems(1,2)] by (simp add: Let_def h_def ys_def)
    have ys: "c < y \<and> y < gr_comps g" if "y \<in> set ys" for y
      using that wired_sub [OF Suc.prems(1)] by (auto simp: ys_def invalidators_iff)
    have "wiring h = wiring g" by (simp add: h_def wiring_def sources_def subscriber_def fun_eq_iff)
    then have h: "wired h" "gr_comps h = gr_comps g" "subscriber h = subscriber g"
      using Suc.prems(1) wired_cong wiringD by blast+
    have f: "dirtied (Suc c) h (fold (invalidate n) ys h) \<and> (\<forall>y \<in> set ys. dirty (fold (invalidate n) ys h) y)"
    proof (rule fold_dirties [OF _ _ h(1,2)])
      fix z and u :: "'a graph"
      assume "z \<in> set ys" "wired u" "gr_comps u = gr_comps g"
      then show "dirtied z u (invalidate n z u) \<and> dirty (invalidate n z u) z"
        using Suc.IH [of u z] ys [of z] Suc.prems(3) by (auto intro: diff_le_mono)
    qed (use ys in \<open>simp add: Suc_le_eq\<close>)
    define t where "t = fold (invalidate n) ys h"
    have t: "dirtied (Suc c) h t" "\<And>y. y \<in> set ys \<Longrightarrow> dirty t y" using f by (simp_all add: t_def)
    have dh: "dirty h x = (x = c \<or> dirty g x)" for x by (simp add: h_def)
    have keeps: "dirty t x" if "dirty g x \<or> x = c" for x using that dirtiedD(8) [OF t(1), of x] dh by blast
    have "dirtied c g t"
    proof (rule dirtiedI)
      obtain D where "t = h\<lparr>gr_comp := (\<lambda>x. (gr_comp h x)\<lparr>k_dirty := D x\<rparr>)\<rparr>" using t(1) unfolding dirtied_def by blast
      then show "t = g\<lparr>gr_comp := (\<lambda>x. (gr_comp g x)\<lparr>k_dirty := dirty t x\<rparr>)\<rparr>" by (simp add: h_def fun_eq_iff)
    next
      fix x assume "dirty t x" "\<not> dirty g x"
      then show "c \<le> x" using dirtiedD(9) [OF t(1), of x] dh by (cases "x = c") auto
    next
      fix x y assume x: "dirty t x" "\<not> dirty g x" "subscriber g (Cmp x) y"
      show "dirty t y"
      proof (cases "x = c")
        case True
        then show ?thesis using x t(2) by (simp add: ys_def invalidators_iff)
      next
        case False
        then show ?thesis using x dirtiedD(10) [OF t(1), of x y] dh h(3) by simp
      qed
    qed (use keeps in blast)
    then show ?thesis using keeps [of c] unfolding e t_def [symmetric] by blast
  qed
qed simp

lemma invalidate_all_dirties:
  assumes "wired g" "\<And>y. y \<in> set ys \<Longrightarrow> k \<le> y \<and> y < gr_comps g"
  shows "dirtied k g (invalidate_all ys g) \<and> (\<forall>y \<in> set ys. dirty (invalidate_all ys g) y)"
proof -
  define n where "n = gr_comps g + 1"
  have "dirtied z u (invalidate n z u) \<and> dirty (invalidate n z u) z"
    if "z \<in> set ys" "wired u" "gr_comps u = gr_comps g" for z and u :: "'a graph"
    using invalidate_dirties [OF that(2), of z n] assms(2) [OF that(1)] that(3) by (simp add: n_def)
  then show ?thesis unfolding invalidate_all_def n_def [symmetric]
    by (rule fold_dirties [OF _ _ assms(1) refl]) (use assms(2) in auto)
qed

end
