(* ===== verification/Signal_Batch.thy ===== *)
theory Signal_Batch
  imports Signal_Cache
begin

text \<open>
  Refreshing inside a batch, where no sig_callback runs. A refresh leaves a derived value up_to_date, keeps the
  invariant, and what it does to the rest of the graph is summed up by a relation: up_to_date values
  stay, and a value whose dependencies moved has become dirty.
\<close>

section \<open>How a refresh changes the graph\<close>

text \<open>Only flags and the queue differ.\<close>

definition alike :: "'v graph \<Rightarrow> 'v graph \<Rightarrow> bool" where
  "alike g t \<longleftrightarrow> gr_cell t = gr_cell g \<and> gr_comps t = gr_comps g \<and> gr_depth t = gr_depth g \<and> gr_sigs t = gr_sigs g \<and>
     (\<forall>x. k_body (gr_comp t x) = k_body (gr_comp g x) \<and> deps_of t x = deps_of g x \<and> stopped t x = stopped g x)"

lemma alike_refl [simp]: "alike g g" by (simp add: alike_def)

lemma alike_trans: "alike g s \<Longrightarrow> alike s t \<Longrightarrow> alike g t" by (simp add: alike_def)

lemma alikeD:
  assumes "alike g t"
  shows "gr_cell t = gr_cell g" "gr_comps t = gr_comps g" "gr_depth t = gr_depth g" "deps_of t x = deps_of g x"
    "k_body (gr_comp t x) = k_body (gr_comp g x)" "changed_dep t = changed_dep g" "subscriber t = subscriber g" "sources t = sources g"
  using assms by (simp_all add: alike_def changed_dep_def subscriber_def sources_def fun_eq_iff)

lemma wiring_alike: "alike g t \<Longrightarrow> wiring t = wiring g"
  by (simp add: alike_def wiring_def sources_def subscriber_def fun_eq_iff)

lemma settled_mono:
  "up_to_date g s \<Longrightarrow> (\<And>s. up_to_date g s \<Longrightarrow> rev_of t s = rev_of g s) \<Longrightarrow> (\<And>c. up_to_date g (Cmp c) \<Longrightarrow> deps_of t c = deps_of g c) \<Longrightarrow> up_to_date t s"
proof (induction rule: up_to_date.induct)
  case (settled_Cmp c)
  have c: "up_to_date g (Cmp c)" by (rule up_to_date.settled_Cmp) (use settled_Cmp.IH in blast)
  show ?case
  proof (rule up_to_date.settled_Cmp)
    fix d assume "d \<in> set (deps_of t c)"
    then have d: "d \<in> set (deps_of g c)" using settled_Cmp.prems(2) [OF c] by simp
    then show "\<not> changed_dep t d \<and> up_to_date t (dp_source d)"
      using settled_Cmp.IH [OF d] settled_Cmp.prems by (simp add: changed_dep_def)
  qed
qed (simp add: settled_Sig)

lemma alike_sym: "alike g t \<Longrightarrow> alike t g" by (simp add: alike_def)

lemma settled_alike: "alike g t \<Longrightarrow> up_to_date t s = up_to_date g s"
  using settled_mono [of g s t] settled_mono [of t s g] alikeD(1,4) [of g t] by metis

lemma snap_alike: "alike g t \<Longrightarrow> snap t x = snap g x"
  by (simp add: snap_def alike_def)

lemma consistent_alike:
  assumes "alike g t" "consistent g" "\<And>x. x < gr_comps g \<Longrightarrow> clean t x \<Longrightarrow> fresh_deps t x"
  shows "consistent t"
  using assms(2,3) wired_cong [OF wiring_alike [OF assms(1)]] snap_alike [OF assms(1)] alikeD(2) [OF assms(1)] by (simp add: consistent_def)

lemma fresh_deps_alike: "alike g t \<Longrightarrow> (\<And>x. clean g x \<Longrightarrow> clean t x) \<Longrightarrow> fresh_deps g c \<Longrightarrow> fresh_deps t c"
  by (simp add: fresh_deps_def alikeD clean_src_def)

lemma consistent_same_clean:
  assumes "alike g t" "consistent g" "\<And>x. clean t x = clean g x"
  shows "consistent t"
  by (rule consistent_alike [OF assms(1,2)]) (use assms(2,3) fresh_deps_alike [OF assms(1)] in \<open>simp add: consistent_def\<close>)

text \<open>Flags are cleared below \<open>k\<close> only.\<close>

definition tidied :: "nat \<Rightarrow> 'v graph \<Rightarrow> 'v graph \<Rightarrow> bool" where
  "tidied k g t \<longleftrightarrow> alike g t \<and> gr_windows t = gr_windows g \<and> (\<forall>x. refreshing t x = refreshing g x) \<and> (\<forall>x. dirty t x \<longrightarrow> dirty g x) \<and> (\<forall>x \<ge> k. dirty t x = dirty g x)"

lemma tidied_refl: "tidied k g g" by (simp add: tidied_def)

lemma tidied_trans: "tidied k g s \<Longrightarrow> tidied k s t \<Longrightarrow> tidied k g t"
  by (auto simp: tidied_def intro: alike_trans)

lemma tidied_mono: "tidied k g t \<Longrightarrow> k \<le> j \<Longrightarrow> tidied j g t"
  by (auto simp: tidied_def)

lemma tidied_clean: "tidied k g t \<Longrightarrow> clean g x \<Longrightarrow> clean t x"
  by (auto simp: tidied_def clean_def)

definition advances :: "nat \<Rightarrow> 'v graph \<Rightarrow> 'v graph \<Rightarrow> bool" where
  "advances k g t \<longleftrightarrow> wiring t = wiring g \<and> gr_depth t = gr_depth g \<and> (\<forall>i. gr_cell t (Sig i) = gr_cell g (Sig i)) \<and>
     (\<forall>x \<ge> k. gr_cell t (Cmp x) = gr_cell g (Cmp x) \<and> deps_of t x = deps_of g x \<and> refreshing t x = refreshing g x \<and> (dirty g x \<longrightarrow> dirty t x)) \<and>
     (\<forall>s. up_to_date g s \<longrightarrow> up_to_date t s \<and> rev_of t s = rev_of g s) \<and>
     (\<forall>e \<ge> k. \<not> dirty t e \<longrightarrow> (\<forall>s \<in> set (sources g e). rev_of t s = rev_of g s \<and> (clean_src g s \<longrightarrow> clean_src t s))) \<and>
     (\<forall>x \<ge> k. dirty t x \<longrightarrow> \<not> dirty g x \<longrightarrow> (\<forall>y. subscriber g (Cmp x) y \<longrightarrow> dirty t y))"

lemma advancesD:
  assumes "advances k g t"
  shows "wiring t = wiring g" "gr_depth t = gr_depth g" "gr_cell t (Sig i) = gr_cell g (Sig i)"
    "k \<le> x \<Longrightarrow> gr_cell t (Cmp x) = gr_cell g (Cmp x)" "k \<le> x \<Longrightarrow> deps_of t x = deps_of g x" "k \<le> x \<Longrightarrow> refreshing t x = refreshing g x"
    "k \<le> x \<Longrightarrow> dirty g x \<Longrightarrow> dirty t x" "up_to_date g s \<Longrightarrow> up_to_date t s" "up_to_date g s \<Longrightarrow> rev_of t s = rev_of g s"
    "k \<le> x \<Longrightarrow> \<not> dirty t x \<Longrightarrow> s \<in> set (sources g x) \<Longrightarrow> rev_of t s = rev_of g s"
    "k \<le> x \<Longrightarrow> \<not> dirty t x \<Longrightarrow> s \<in> set (sources g x) \<Longrightarrow> clean_src g s \<Longrightarrow> clean_src t s"
    "k \<le> x \<Longrightarrow> dirty t x \<Longrightarrow> \<not> dirty g x \<Longrightarrow> subscriber g (Cmp x) y \<Longrightarrow> dirty t y"
  using assms by (simp_all add: advances_def)

lemma advancesI:
  assumes "wiring t = wiring g" "gr_depth t = gr_depth g" "\<And>i. gr_cell t (Sig i) = gr_cell g (Sig i)"
    "\<And>x. k \<le> x \<Longrightarrow> gr_cell t (Cmp x) = gr_cell g (Cmp x)" "\<And>x. k \<le> x \<Longrightarrow> deps_of t x = deps_of g x"
    "\<And>x. k \<le> x \<Longrightarrow> refreshing t x = refreshing g x" "\<And>x. k \<le> x \<Longrightarrow> dirty g x \<Longrightarrow> dirty t x"
    "\<And>s. up_to_date g s \<Longrightarrow> up_to_date t s \<and> rev_of t s = rev_of g s"
    "\<And>e s. k \<le> e \<Longrightarrow> \<not> dirty t e \<Longrightarrow> s \<in> set (sources g e) \<Longrightarrow> rev_of t s = rev_of g s \<and> (clean_src g s \<longrightarrow> clean_src t s)"
    "\<And>x y. k \<le> x \<Longrightarrow> dirty t x \<Longrightarrow> \<not> dirty g x \<Longrightarrow> subscriber g (Cmp x) y \<Longrightarrow> dirty t y"
  shows "advances k g t"
  unfolding advances_def using assms by blast

lemma advances_refl: "advances k g g" by (rule advancesI) simp_all

lemma advances_mono:
  assumes "advances k g t" "k \<le> j"
  shows "advances j g t"
proof (rule advancesI)
  note le = order_trans [OF assms(2)]
  show "gr_cell t (Cmp x) = gr_cell g (Cmp x)" "deps_of t x = deps_of g x" "refreshing t x = refreshing g x"
    "dirty g x \<Longrightarrow> dirty t x" if "j \<le> x" for x
    using advancesD(4-7) [OF assms(1) le [OF that]] by simp_all
  show "rev_of t s = rev_of g s \<and> (clean_src g s \<longrightarrow> clean_src t s)" if "j \<le> e" "\<not> dirty t e" "s \<in> set (sources g e)" for e s
    using advancesD(10,11) [OF assms(1) le [OF that(1)] that(2,3)] by simp
  show "dirty t y" if "j \<le> x" "dirty t x" "\<not> dirty g x" "subscriber g (Cmp x) y" for x y
    by (rule advancesD(12) [OF assms(1) le [OF that(1)] that(2-4)])
qed (simp_all add: advancesD [OF assms(1)])

lemma advances_trans:
  assumes "wired g" "advances k g s" "advances k s t"
  shows "advances k g t"
proof (rule advancesI)
  note a = advancesD [OF assms(2)] and b = advancesD [OF assms(3)]
  note w = wiringD [OF a(1)]
  show "wiring t = wiring g" "gr_depth t = gr_depth g" "gr_cell t (Sig i) = gr_cell g (Sig i)" for i by (simp_all add: a b)
  show "gr_cell t (Cmp x) = gr_cell g (Cmp x)" "deps_of t x = deps_of g x" "refreshing t x = refreshing g x"
    "dirty g x \<Longrightarrow> dirty t x" if "k \<le> x" for x
    using a(4-7) [OF that] b(4-7) [OF that] by simp_all
  show "up_to_date t x \<and> rev_of t x = rev_of g x" if "up_to_date g x" for x
    using a(8,9) [OF that] b(8,9) [of x] by simp
  show "rev_of t x = rev_of g x \<and> (clean_src g x \<longrightarrow> clean_src t x)" if e: "k \<le> e" "\<not> dirty t e" "x \<in> set (sources g e)" for e x
  proof -
    have "\<not> dirty s e" using b(7) [OF e(1)] e(2) by blast
    then show ?thesis using a(10,11) [OF e(1) _ e(3)] b(10,11) [OF e(1,2), of x] e(3) w(3) [of e] by simp
  qed
  show "dirty t y" if x: "k \<le> x" "dirty t x" "\<not> dirty g x" "subscriber g (Cmp x) y" for x y
  proof (cases "dirty s x")
    case True
    have "k \<le> y" using wired_sub(2) [OF assms(1) x(4)] x(1) by simp
    then show ?thesis using a(12) [OF x(1) True x(3,4)] b(7) by blast
  next
    case False
    then show ?thesis using b(12) [OF x(1,2) False] x(4) w(5) by simp
  qed
qed

lemma advances_tidied:
  assumes "tidied k g t"
  shows "advances k g t"
proof (rule advancesI)
  have al: "alike g t" using assms by (simp add: tidied_def)
  show "wiring t = wiring g" by (rule wiring_alike [OF al])
  show "up_to_date t s \<and> rev_of t s = rev_of g s" if "up_to_date g s" for s using that settled_alike [OF al] alikeD(1) [OF al] by simp
  show "rev_of t s = rev_of g s \<and> (clean_src g s \<longrightarrow> clean_src t s)" for s
    using tidied_clean [OF assms] alikeD(1) [OF al] by (simp add: clean_src_def)
qed (use assms in \<open>auto simp: tidied_def alike_def\<close>)

section \<open>A write and its invalidation\<close>

text \<open>What a write to \<open>s0\<close>, by a client or at the end of a refresh, means for the other derived values.\<close>

definition written :: "src \<Rightarrow> 'v graph \<Rightarrow> 'v graph \<Rightarrow> bool" where
  "written s0 g t \<longleftrightarrow> wiring t = wiring g \<and> (\<forall>s. s \<noteq> s0 \<longrightarrow> gr_cell t s = gr_cell g s) \<and>
     (\<forall>x. s0 \<noteq> Cmp x \<longrightarrow> deps_of t x = deps_of g x \<and> refreshing t x = refreshing g x \<and> (dirty g x \<longrightarrow> dirty t x)) \<and>
     (\<forall>x y. s0 \<noteq> Cmp x \<longrightarrow> dirty t x \<longrightarrow> \<not> dirty g x \<longrightarrow> subscriber g (Cmp x) y \<longrightarrow> dirty t y) \<and>
     (gr_cell t s0 = gr_cell g s0 \<or> rev_of g s0 < rev_of t s0 \<and> (\<forall>y. subscriber g s0 y \<longrightarrow> dirty t y))"

lemma writtenD:
  assumes "written s0 g t"
  shows "wiring t = wiring g" "s \<noteq> s0 \<Longrightarrow> gr_cell t s = gr_cell g s"
    "s0 \<noteq> Cmp x \<Longrightarrow> deps_of t x = deps_of g x" "s0 \<noteq> Cmp x \<Longrightarrow> refreshing t x = refreshing g x" "s0 \<noteq> Cmp x \<Longrightarrow> dirty g x \<Longrightarrow> dirty t x"
    "s0 \<noteq> Cmp x \<Longrightarrow> dirty t x \<Longrightarrow> \<not> dirty g x \<Longrightarrow> subscriber g (Cmp x) y \<Longrightarrow> dirty t y"
    "subscriber g s0 y \<Longrightarrow> \<not> dirty t y \<Longrightarrow> gr_cell t s0 = gr_cell g s0"
    "gr_cell t s = gr_cell g s \<or> rev_of g s < rev_of t s"
  using assms unfolding written_def by (blast, blast, blast, blast, blast, blast, blast, cases "s = s0", blast+)

lemma written_rev:
  assumes "written s0 g t" "wired g" "e < gr_comps g" "\<not> dirty t e" "s \<in> set (sources g e)"
  shows "gr_cell t s = gr_cell g s"
  using writtenD(2) [OF assms(1), of s] writtenD(7) [OF assms(1), of e] wiredD(4) [OF assms(2,3,5)] assms(4) by blast

lemma written_clean_src:
  assumes "written s0 g t" "wired g" "e < gr_comps g" "\<not> dirty t e" "s \<in> set (sources g e)" "clean_src g s"
    "\<And>c. s0 = Cmp c \<Longrightarrow> \<not> clean g c"
  shows "clean_src t s"
proof -
  have "clean t y" if y: "s = Cmp y" for y
  proof -
    have g: "clean g y" using assms(6) y by (simp add: clean_src_def)
    then have ne: "s0 \<noteq> Cmp y" using assms(7) by blast
    have "\<not> dirty t y" using writtenD(6) [OF assms(1) ne, of e] wiredD(4) [OF assms(2,3,5)] g assms(4) y by (auto simp: clean_def)
    then show ?thesis using writtenD(4) [OF assms(1) ne] g by (simp add: clean_def)
  qed
  then show ?thesis by (simp add: clean_src_def)
qed

lemma written_fresh:
  assumes "written s0 g t" "wired g" "e < gr_comps g" "\<not> dirty t e" "s0 \<noteq> Cmp e" "fresh_deps g e" "\<And>c. s0 = Cmp c \<Longrightarrow> \<not> clean g c"
  shows "fresh_deps t e"
  unfolding fresh_deps_def
proof
  fix d assume "d \<in> set (deps_of t e)"
  then have d: "d \<in> set (deps_of g e)" using writtenD(3) [OF assms(1,5)] by simp
  note s = source_of [OF d]
  have f: "\<not> changed_dep g d" "clean_src g (dp_source d)" using assms(6) d by (simp_all add: fresh_deps_def)
  show "\<not> changed_dep t d \<and> clean_src t (dp_source d)"
    using written_rev [OF assms(1-4) s] written_clean_src [OF assms(1-4) s f(2) assms(7)] f(1) by (simp add: changed_dep_def)
qed

lemma written_snap:
  assumes "written s0 g t" "s0 \<noteq> Cmp e" "snap g e"
  shows "snap t e"
proof -
  obtain \<sigma> where \<sigma>: "eval_rd (k_body (gr_comp g e)) \<sigma> = value_of g (Cmp e)"
    "\<forall>d \<in> set (deps_of g e). dp_rev d \<le> rev_of g (dp_source d) \<and> (rev_of g (dp_source d) = dp_rev d \<longrightarrow> \<sigma> (dp_source d) = value_of g (dp_source d))"
    using assms(3) unfolding snap_def by blast
  have "dp_rev d \<le> rev_of t (dp_source d) \<and> (rev_of t (dp_source d) = dp_rev d \<longrightarrow> \<sigma> (dp_source d) = value_of t (dp_source d))"
    if "d \<in> set (deps_of g e)" for d
    using \<sigma>(2) that writtenD(8) [OF assms(1), of "dp_source d"] by fastforce
  moreover have "value_of t (Cmp e) = value_of g (Cmp e)" using writtenD(2) [OF assms(1), of "Cmp e"] assms(2) by simp
  ultimately show ?thesis unfolding snap_def
    using \<sigma>(1) writtenD(3) [OF assms(1,2)] wiringD(2) [OF writtenD(1) [OF assms(1)]] by auto
qed

lemma consistent_written:
  assumes "written s0 g t" "consistent g" "\<And>c. s0 = Cmp c \<Longrightarrow> \<not> clean g c"
    "\<And>c. s0 = Cmp c \<Longrightarrow> c < gr_comps g \<Longrightarrow> snap t c \<and> (clean t c \<longrightarrow> fresh_deps t c)"
  shows "consistent t"
proof -
  have w: "wired g" using assms(2) by (simp add: consistent_def)
  have "snap t e \<and> (clean t e \<longrightarrow> fresh_deps t e)" if e: "e < gr_comps g" for e
  proof (cases "s0 = Cmp e")
    case False
    have s: "snap g e" and f: "clean g e \<Longrightarrow> fresh_deps g e" using assms(2) e by (simp_all add: consistent_def)
    have c: "clean g e" if "clean t e" using that writtenD(4,5) [OF assms(1) False] by (auto simp: clean_def)
    have "fresh_deps t e" if t: "clean t e"
      by (rule written_fresh [OF assms(1) w e _ False f [OF c [OF t]] assms(3)]) (use t in \<open>simp add: clean_def\<close>)
    then show ?thesis using written_snap [OF assms(1) False s] by blast
  qed (use assms(4) e in blast)
  then show ?thesis using wired_cong [OF writtenD(1) [OF assms(1)]] w wiringD(1) [OF writtenD(1) [OF assms(1)]] by (simp add: consistent_def)
qed

text \<open>The end of a refresh is such a write; the values that were settled did not depend on \<open>c\<close>.\<close>

lemma advances_written:
  assumes "written (Cmp c) g t" "consistent g" "refreshing g c" "\<not> up_to_date g (Cmp c)" "gr_depth t = gr_depth g"
  shows "advances (Suc c) g t"
proof (rule advancesI)
  note w = writtenD [OF assms(1)]
  have wd: "wired g" using assms(2) by (simp add: consistent_def)
  show "wiring t = wiring g" "gr_depth t = gr_depth g" "gr_cell t (Sig i) = gr_cell g (Sig i)" for i using w(1,2) assms(5) by simp_all
  show "gr_cell t (Cmp x) = gr_cell g (Cmp x)" "deps_of t x = deps_of g x" "refreshing t x = refreshing g x"
    "dirty g x \<Longrightarrow> dirty t x" if "Suc c \<le> x" for x
    using w(2) [of "Cmp x"] w(3-5) [of x] that by simp_all
  show "up_to_date t s \<and> rev_of t s = rev_of g s" if s: "up_to_date g s" for s
  proof -
    have r: "rev_of t u = rev_of g u" if "up_to_date g u" for u using w(2) [of u] that assms(4) by (cases "u = Cmp c") auto
    have d: "deps_of t x = deps_of g x" if "up_to_date g (Cmp x)" for x using w(3) [of x] that assms(4) by (cases "x = c") auto
    have "up_to_date t s" by (rule settled_mono [OF s r d])
    then show ?thesis using r [OF s] by simp
  qed
  show "rev_of t s = rev_of g s \<and> (clean_src g s \<longrightarrow> clean_src t s)" if e: "Suc c \<le> e" "\<not> dirty t e" "s \<in> set (sources g e)" for e s
  proof -
    have lt: "e < gr_comps g" using wired_unused [OF wd, of e] e(3) by (cases "gr_comps g \<le> e") auto
    have "clean_src t s" if "clean_src g s"
      by (rule written_clean_src [OF assms(1) wd lt e(2,3) that]) (use assms(3) in \<open>simp add: clean_def\<close>)
    then show ?thesis using written_rev [OF assms(1) wd lt e(2,3)] by simp
  qed
  show "dirty t y" if "Suc c \<le> x" "dirty t x" "\<not> dirty g x" "subscriber g (Cmp x) y" for x y
    using w(6) [of x y] that by simp
qed

end
