(* ===== verification/Signal_Refresh.thy ===== *)
theory Signal_Refresh
  imports Signal_Batch
begin

text \<open>
  The refresh of a derived value inside a batch: with fuel for the longest chain it returns, and what it
  returns is settled. The sources are refreshed by the same lemma, so the proof goes by the index of
  the derived value.
\<close>

section \<open>What a refresh promises\<close>

abbreviation idle :: "nat \<Rightarrow> 'v graph \<Rightarrow> bool" where "idle k g \<equiv> \<forall>x < k. \<not> refreshing g x"

text \<open>Before and after.\<close>

definition ready :: "nat \<Rightarrow> 'v graph \<Rightarrow> bool" where
  "ready k g \<longleftrightarrow> consistent g \<and> gr_depth g > 0 \<and> k \<le> gr_comps g \<and> idle k g"

definition refreshed :: "nat \<Rightarrow> 'v graph \<Rightarrow> 'v graph \<Rightarrow> bool" where
  "refreshed c g t \<longleftrightarrow> advances (Suc c) g t \<and> ready (Suc c) t \<and> up_to_date t (Cmp c) \<and>
     (\<forall>e. subscriber g (Cmp c) e \<longrightarrow> \<not> dirty t e \<longrightarrow> clean t c) \<and>
     (up_to_date g (Cmp c) \<longrightarrow> tidied (Suc c) g t \<and> clean t c)"

definition refreshes_below :: "nat \<Rightarrow> (task \<Rightarrow> 'v graph \<Rightarrow> 'v graph option) \<Rightarrow> bool" where
  "refreshes_below c go \<longleftrightarrow> (\<forall>x < c. \<forall>g. ready (Suc x) g \<longrightarrow> (\<exists>t. go (TRefresh x) g = Some t \<and> refreshed x g t))"

lemma ready_wired: "ready k g \<Longrightarrow> wired g" by (simp add: ready_def consistent_def)

lemma ready_mono: "ready k g \<Longrightarrow> j \<le> k \<Longrightarrow> ready j g" by (auto simp: ready_def)

lemma ready_advances: "ready c g \<Longrightarrow> advances (Suc x) g t \<Longrightarrow> x < c \<Longrightarrow> ready (Suc x) t \<Longrightarrow> ready c t"
proof -
  assume g: "ready c g" and a: "advances (Suc x) g t" and x: "x < c" and t: "ready (Suc x) t"
  have "\<not> refreshing t y" if "y < c" for y
    using g t advancesD(6) [OF a, of y] that by (cases "Suc x \<le> y") (auto simp: ready_def)
  then show "ready c t" using g t wiringD(1) [OF advancesD(1) [OF a]] by (simp add: ready_def)
qed

section \<open>The refresh of a source\<close>

text \<open>Seen from the derived value \<open>c\<close> that reads it.\<close>

lemma refresh_src_below:
  assumes "refreshes_below c go" "ready c g" "subscriber g s c" "\<And>x. s = Cmp x \<Longrightarrow> x < c"
  shows "\<exists>t. refresh_src go s g = Some t \<and> advances c g t \<and> ready c t \<and> up_to_date t s \<and>
    (\<not> dirty t c \<longrightarrow> clean_src t s) \<and> (up_to_date g s \<longrightarrow> tidied c g t \<and> clean_src t s)"
proof (cases s)
  case (Sig i)
  show ?thesis
    by (rule exI [of _ g]) (simp add: Sig refresh_src_def advances_refl assms(2) settled_Sig clean_src_def tidied_refl)
next
  case (Cmp x)
  have x: "x < c" by (rule assms(4) [OF Cmp])
  have "ready (Suc x) g" by (rule ready_mono [OF assms(2)]) (use x in simp)
  then obtain t where t: "go (TRefresh x) g = Some t" "refreshed x g t" using assms(1) x by (auto simp: refreshes_below_def)
  then have r: "advances (Suc x) g t" "ready (Suc x) t" by (simp_all add: refreshed_def)
  show ?thesis
  proof (intro exI [of _ t] conjI impI)
    show "refresh_src go s g = Some t" using t(1) by (simp add: refresh_src_def Cmp)
    show "advances c g t" by (rule advances_mono [OF r(1)]) (use x in simp)
    show "ready c t" by (rule ready_advances [OF assms(2) r(1) x r(2)])
    show "up_to_date t s" using t(2) by (simp add: refreshed_def Cmp)
    show "clean_src t s" if "\<not> dirty t c" using t(2) assms(3) that by (simp add: refreshed_def Cmp clean_src_def)
    show "tidied c g t" "clean_src t s" if "up_to_date g s"
      using t(2) that tidied_mono [of "Suc x" g t c] x by (simp_all add: refreshed_def Cmp clean_src_def)
  qed
qed

lemma ready_sources:
  assumes "ready c g" "c < gr_comps g" "s \<in> set (sources g c)"
  shows "subscriber g s c" "s = Cmp x \<Longrightarrow> x < c"
  using wiredD(4,5) [OF ready_wired [OF assms(1)] assms(2)] assms(3) by auto

text \<open>The dependencies of \<open>c\<close>, one after the other.\<close>

lemma check_deps:
  assumes "refreshes_below c go"
  shows "ready c g \<Longrightarrow> c < gr_comps g \<Longrightarrow> dp_source ` set ds \<subseteq> set (sources g c) \<Longrightarrow>
    \<exists>t. ofold (check_dep go) ds (g, b) = Some (t, b \<or> (\<exists>d \<in> set ds. changed_dep t d)) \<and> advances c g t \<and> ready c t \<and>
      (\<forall>d \<in> set ds. up_to_date t (dp_source d)) \<and> (\<not> dirty t c \<longrightarrow> (\<forall>d \<in> set ds. clean_src t (dp_source d))) \<and>
      ((\<forall>d \<in> set ds. up_to_date g (dp_source d)) \<longrightarrow> tidied c g t \<and> (\<forall>d \<in> set ds. clean_src t (dp_source d)))"
proof (induction ds arbitrary: g b)
  case Nil
  then show ?case by (simp add: advances_refl tidied_refl)
next
  case (Cons d ds)
  have src: "dp_source d \<in> set (sources g c)" using Cons.prems(3) by simp
  obtain u where u: "refresh_src go (dp_source d) g = Some u" "advances c g u" "ready c u" "up_to_date u (dp_source d)"
    "\<not> dirty u c \<longrightarrow> clean_src u (dp_source d)" "up_to_date g (dp_source d) \<longrightarrow> tidied c g u \<and> clean_src u (dp_source d)"
    using refresh_src_below [OF assms Cons.prems(1) ready_sources [OF Cons.prems(1,2) src]] by blast
  have wu: "sources u c = sources g c" "gr_comps u = gr_comps g" using wiringD(1,3) [OF advancesD(1) [OF u(2)]] by simp_all
  have p: "c < gr_comps u" "dp_source ` set ds \<subseteq> set (sources u c)" using Cons.prems(2,3) wu by auto
  obtain t where t: "ofold (check_dep go) ds (u, b \<or> changed_dep u d) = Some (t, (b \<or> changed_dep u d) \<or> (\<exists>d \<in> set ds. changed_dep t d))"
    "advances c u t" "ready c t" "\<forall>d \<in> set ds. up_to_date t (dp_source d)" "\<not> dirty t c \<longrightarrow> (\<forall>d \<in> set ds. clean_src t (dp_source d))"
    "(\<forall>d \<in> set ds. up_to_date u (dp_source d)) \<longrightarrow> tidied c u t \<and> (\<forall>d \<in> set ds. clean_src t (dp_source d))"
    using Cons.IH [OF u(3) p, of "b \<or> changed_dep u d"] by blast
  note su = advancesD(8,9) [OF t(2) u(4)]
  have ch: "changed_dep u d = changed_dep t d" using su by (simp add: changed_dep_def)
  have src': "dp_source d \<in> set (sources u c)" using src wu(1) by simp
  have cl: "clean_src t (dp_source d)" if "\<not> dirty t c"
    using advancesD(7) [OF t(2) le_refl] advancesD(11) [OF t(2) le_refl that src'] that u(5) by blast
  have td: "tidied c g t \<and> (\<forall>e \<in> set (d # ds). clean_src t (dp_source e))" if s: "\<forall>e \<in> set (d # ds). up_to_date g (dp_source e)"
  proof -
    have 1: "tidied c g u" "clean_src u (dp_source d)" using u(6) s by simp_all
    have "\<forall>e \<in> set ds. up_to_date u (dp_source e)" using advancesD(8) [OF u(2)] s by simp
    then have 2: "tidied c u t" "\<forall>e \<in> set ds. clean_src t (dp_source e)" using t(6) by blast+
    have "clean_src t (dp_source d)" using 1(2) tidied_clean [OF 2(1)] by (simp add: clean_src_def)
    then show ?thesis using tidied_trans [OF 1(1) 2(1)] 2(2) by simp
  qed
  have "ofold (check_dep go) (d # ds) (g, b) = Some (t, b \<or> (\<exists>e \<in> set (d # ds). changed_dep t e))"
    using u(1) t(1) ch by (simp add: check_dep_def disj_ac)
  moreover have "advances c g t" by (rule advances_trans [OF ready_wired [OF Cons.prems(1)] u(2) t(2)])
  ultimately show ?case using t(3,4,5) su(1) cl td by (intro exI [of _ t]) simp
qed

section \<open>Rounds of the loop\<close>

abbreviation unrefresh :: "nat \<Rightarrow> 'v graph \<Rightarrow> 'v graph" where
  "unrefresh c g \<equiv> upd_comp c (\<lambda>x. x\<lparr>k_refreshing := False\<rparr>) g"

lemma alike_flags: "(\<And>x. k_body (f x) = k_body x \<and> k_deps (f x) = k_deps x \<and> k_stopped (f x) = k_stopped x) \<Longrightarrow> alike g (upd_comp c f g)"
  by (simp add: alike_def)

text \<open>The end of a refresh: the value may be called clean when it is still dirty or its dependencies are fresh.\<close>

lemma ready_unrefresh:
  assumes "ready c g" "c < gr_comps g" "refreshing g c" "\<not> dirty g c \<Longrightarrow> fresh_deps g c"
  shows "ready (Suc c) (unrefresh c g)" "alike g (unrefresh c g)" "clean (unrefresh c g) c = (\<not> dirty g c)"
proof -
  let ?t = "unrefresh c g"
  show al: "alike g ?t" by (rule alike_flags) simp
  show c: "clean ?t c = (\<not> dirty g c)" by (simp add: clean_def)
  have o: "clean ?t x = clean g x" if "x \<noteq> c" for x using that by (simp add: clean_def)
  have up: "clean ?t x" if "clean g x" for x using that o [of x] assms(3) by (cases "x = c") (auto simp: clean_def)
  have "consistent ?t"
  proof (rule consistent_alike [OF al])
    show "consistent g" using assms(1) by (simp add: ready_def)
    fix x assume x: "x < gr_comps g" "clean ?t x"
    have "fresh_deps g x"
    proof (cases "x = c")
      case False
      then show ?thesis using assms(1) x o [OF False] by (simp add: ready_def consistent_def)
    qed (use assms(4) c x(2) in simp)
    then show "fresh_deps ?t x" using fresh_deps_alike [OF al up] by blast
  qed
  then show "ready (Suc c) ?t" using assms(1,2) by (simp add: ready_def less_Suc_eq)
qed

lemma loop_exit: "\<not> dirty g c \<Longrightarrow> run_task (Suc n) (TLoop c) g = Some (unrefresh c g)"
  by (simp add: refresh_loop_def)

text \<open>The start of a round.\<close>

abbreviation start_round :: "nat \<Rightarrow> 'v graph \<Rightarrow> 'v graph" where
  "start_round c g \<equiv> upd_comp c (\<lambda>x. x\<lparr>k_dirty := False\<rparr>) g"

lemma ready_start:
  assumes "ready c g" "refreshing g c"
  shows "ready c (start_round c g)" "alike g (start_round c g)"
proof -
  show al: "alike g (start_round c g)" by (rule alike_flags) simp
  have "consistent (start_round c g)"
    by (rule consistent_same_clean [OF al]) (use assms in \<open>auto simp: ready_def clean_def\<close>)
  then show "ready c (start_round c g)" using assms by (simp add: ready_def)
qed

lemma loop_round:
  assumes "\<not> stopped g c" "dirty g c"
  shows "run_task (Suc n) (TLoop c) g = (case ofold (check_dep (run_task n)) (deps_of g c) (start_round c g, False) of
    None \<Rightarrow> None | Some (g, changed) \<Rightarrow> if \<not> changed then run_task n (TLoop c) g else recompute (run_task n) c g)"
  using assms by (simp add: refresh_loop_def)

text \<open>A settled value that was marked again is clean after one more round, which changes no value.\<close>

lemma settled_loop:
  fixes g :: "'v graph"
  assumes "refreshes_below c (run_task (Suc n) :: task \<Rightarrow> 'v graph \<Rightarrow> 'v graph option)" "ready c g" "c < gr_comps g" "refreshing g c" "dirty g c" "up_to_date g (Cmp c)"
  obtains u where "run_task (Suc (Suc n)) (TLoop c) g = Some (unrefresh c u)" "ready (Suc c) (unrefresh c u)" "tidied c (start_round c g) u"
    "clean (unrefresh c u) c"
proof -
  let ?h = "start_round c g"
  note h = ready_start [OF assms(2,4)]
  have c: "c < gr_comps ?h" "dp_source ` set (deps_of g c) \<subseteq> set (sources ?h c)" using assms(3) by (auto simp: sources_def)
  have st: "\<not> changed_dep g d \<and> up_to_date g (dp_source d)" if "d \<in> set (deps_of g c)" for d
    using assms(6) that by (blast elim: settled_CmpE)
  obtain u where u: "ofold (check_dep (run_task (Suc n))) (deps_of g c) (?h, False) = Some (u, \<exists>d \<in> set (deps_of g c). changed_dep u d)"
    "ready c u" "(\<forall>d \<in> set (deps_of g c). up_to_date ?h (dp_source d)) \<longrightarrow> tidied c ?h u \<and> (\<forall>d \<in> set (deps_of g c). clean_src u (dp_source d))"
    using check_deps [OF assms(1) h(1) c, of False] by auto
  have td: "tidied c ?h u" and cl: "\<forall>d \<in> set (deps_of g c). clean_src u (dp_source d)"
    using u(3) st settled_alike [OF h(2)] by simp_all
  have al: "alike g u" using alike_trans [OF h(2)] td by (simp add: tidied_def)
  have unch: "\<not> changed_dep u d" if "d \<in> set (deps_of g c)" for d using st [OF that] alikeD(6) [OF al] by simp
  have fl: "\<not> dirty u c" "refreshing u c" using td assms(4) by (auto simp: tidied_def)
  have fr: "fresh_deps u c" using unch cl alikeD(4) [OF al] by (simp add: fresh_deps_def)
  have "run_task (Suc (Suc n)) (TLoop c) g = run_task (Suc n) (TLoop c) u"
    using loop_round [OF wiredD(3) [OF ready_wired [OF assms(2)] assms(3)] assms(5), of "Suc n"] u(1) unch by simp
  also have "\<dots> = Some (unrefresh c u)" by (rule loop_exit [OF fl(1)])
  finally have r: "run_task (Suc (Suc n)) (TLoop c) g = Some (unrefresh c u)" .
  have "c < gr_comps u" using assms(3) alikeD(2) [OF al] by simp
  note t = ready_unrefresh [OF u(2) this fl(2) fr]
  show ?thesis by (rule that [OF r t(1) td]) (simp add: t(3) fl(1))
qed

section \<open>The evaluation\<close>

definition read_at :: "'v graph \<Rightarrow> src \<Rightarrow> dependency" where
  "read_at g s = \<lparr>dp_source = s, dp_rev = rev_of g s, dp_sub = 0\<rparr>"

lemma ready_windows: "ready k (g\<lparr>gr_windows := w\<rparr>) = ready k g"
proof -
  have al: "alike g (g\<lparr>gr_windows := w\<rparr>)" and cl: "clean (g\<lparr>gr_windows := w\<rparr>) x = clean g x" for x by (simp_all add: alike_def clean_def)
  have "consistent (g\<lparr>gr_windows := w\<rparr>) = consistent g"
    using consistent_same_clean [OF al _ cl] consistent_same_clean [OF alike_sym [OF al]] cl by blast
  then show ?thesis by (simp add: ready_def)
qed

lemma eval_settled:
  assumes "refreshes_below c go"
  shows "ready c g \<Longrightarrow> c < gr_comps g \<Longrightarrow> fixed_reads b ss \<Longrightarrow> distinct ss \<Longrightarrow> set ss \<subseteq> set (sources g c) \<Longrightarrow>
    \<forall>s \<in> set ss. up_to_date g s \<Longrightarrow> gr_windows g = w # ws \<Longrightarrow> set (List.map dp_source w) \<inter> set ss = {} \<Longrightarrow>
    \<exists>t. eval_body (refresh_src go) b g = Some (eval_rd b (value_of g), t\<lparr>gr_windows := (w @ List.map (read_at g) ss) # ws\<rparr>) \<and> tidied c g t \<and> ready c t"
proof (induction b arbitrary: ss w g)
  case (Ret v)
  have "eval_body (refresh_src go) (Ret v) g = Some (v, g\<lparr>gr_windows := (w @ List.map (read_at g) ss) # ws\<rparr>)" using Ret.prems(3,7) by simp
  then show ?case using Ret.prems(1) tidied_refl by auto
next
  case (Read s k)
  then obtain ts where ss: "ss = s # ts" "\<forall>v. fixed_reads (k v) ts" by (auto split: list.splits)
  have src: "s \<in> set (sources g c)" "up_to_date g s" using Read.prems(5,6) ss(1) by simp_all
  obtain u where u: "refresh_src go s g = Some u" "ready c u" "tidied c g u"
    using refresh_src_below [OF assms Read.prems(1) ready_sources [OF Read.prems(1,2) src(1)]] src(2) by blast
  have al: "alike g u" and wu: "gr_windows u = w # ws" using u(3) Read.prems(7) by (simp_all add: tidied_def)
  note alD = alikeD [OF al]
  let ?w = "w @ [read_at g s]"
  define h where "h = u\<lparr>gr_windows := ?w # ws\<rparr>"
  have rd: "read_src (refresh_src go) s g = Some (value_of g s, h)"
    using Read.prems(8) ss(1) alD(1) u(1) wu by (auto simp: read_src_def record_dep_def read_at_def h_def)
  have ah: "alike u h" by (simp add: h_def alike_def)
  have st: "\<forall>s \<in> set ts. up_to_date h s" using Read.prems(6) ss(1) settled_alike [OF al] settled_alike [OF ah] by simp
  have rh: "ready c h" using u(2) by (simp add: h_def ready_windows)
  have p: "c < gr_comps h" "fixed_reads (k (value_of g s)) ts" "distinct ts" "set ts \<subseteq> set (sources h c)"
    "gr_windows h = ?w # ws" "set (List.map dp_source ?w) \<inter> set ts = {}"
    using Read.prems(2,4,5,8) ss alD alikeD [OF ah] by (auto simp: read_at_def h_def)
  obtain t where t: "eval_body (refresh_src go) (k (value_of g s)) h =
      Some (eval_rd (k (value_of g s)) (value_of h), t\<lparr>gr_windows := (?w @ List.map (read_at h) ts) # ws\<rparr>)" "tidied c h t" "ready c t"
    using Read.IH [OF rangeI rh p(1-4) st p(5,6)] by blast
  have vh: "gr_cell h = gr_cell g" by (simp add: h_def alD(1))
  then have "read_at h = read_at g" by (simp add: read_at_def fun_eq_iff)
  then have "eval_body (refresh_src go) (Read s k) g =
      Some (eval_rd (Read s k) (value_of g), t\<lparr>gr_windows := w # ws\<rparr>\<lparr>gr_windows := (w @ List.map (read_at g) ss) # ws\<rparr>)"
    using t(1) rd ss(1) vh by simp
  moreover have "tidied c u (t\<lparr>gr_windows := w # ws\<rparr>)" using t(2) wu by (auto simp: tidied_def alike_def h_def)
  ultimately show ?case using tidied_trans [OF u(3)] t(3) ready_windows by blast
qed

lemma track_settled:
  assumes "refreshes_below c go" "ready c g" "c < gr_comps g" "fixed_reads b ss" "distinct ss" "set ss \<subseteq> set (sources g c)"
    "\<forall>s \<in> set ss. up_to_date g s"
  shows "\<exists>t. track (refresh_src go) b g = Some (eval_rd b (value_of g), List.map (read_at g) ss, t) \<and> tidied c g t \<and> ready c t"
proof -
  define h where "h = g\<lparr>gr_windows := [] # gr_windows g\<rparr>"
  have al: "alike g h" by (simp add: h_def alike_def)
  have h: "ready c h" "c < gr_comps h" "set ss \<subseteq> set (sources h c)" "\<forall>s \<in> set ss. up_to_date h s" "gr_windows h = [] # gr_windows g"
    using assms(2,3,6,7) settled_alike [OF al] alikeD [OF al] by (simp_all add: h_def ready_windows)
  have e: "gr_cell h = gr_cell g" "read_at h = read_at g" by (simp_all add: h_def read_at_def fun_eq_iff)
  obtain t where t: "eval_body (refresh_src go) b h = Some (eval_rd b (value_of h), t\<lparr>gr_windows := List.map (read_at h) ss # gr_windows g\<rparr>)"
    "tidied c h t" "ready c t"
    using eval_settled [OF assms(1) h(1,2) assms(4,5) h(3-5)] by auto
  have "tidied c g (t\<lparr>gr_windows := gr_windows g\<rparr>)" using t(2) by (auto simp: tidied_def alike_def h_def)
  then show ?thesis using t(1,3) e by (auto simp: track_def h_def [symmetric] ready_windows)
qed

lemma map_map2_sub:
  assumes "length xs = length ys" "\<And>d i. f (d\<lparr>dp_sub := i\<rparr>) = f d"
  shows "List.map f (map2 (\<lambda>o1 n. n\<lparr>dp_sub := dp_sub o1\<rparr>) xs ys) = List.map f ys"
  using assms(1) by (induction xs ys rule: list_induct2) (simp_all add: assms(2))

lemma reuse_same:
  assumes "List.map dp_source old = List.map dp_source new"
  obtains ds where "reuse old new = Some ds" "List.map dp_source ds = List.map dp_source new" "List.map dp_rev ds = List.map dp_rev new"
proof -
  have l: "length old = length new" using arg_cong [OF assms, of length] by simp
  show ?thesis
    by (rule that [of "map2 (\<lambda>o1 n. n\<lparr>dp_sub := dp_sub o1\<rparr>) old new"])
      (simp_all add: reuse_def assms map_map2_sub [OF l] del: map_map)
qed

section \<open>The end of an evaluation\<close>

text \<open>The state in which the loop of \<open>c\<close> has evaluated: all sources are settled, and \<open>deps\<close> is what was read.\<close>

definition committed :: "nat \<Rightarrow> dependency list \<Rightarrow> 'v \<Rightarrow> 'v graph \<Rightarrow> 'v graph" where
  "committed c deps v g =
     (let g = upd_comp c (\<lambda>x. x\<lparr>k_deps := deps\<rparr>) g; notify = (\<not> same_value g (Cmp c) v); es = subs_of g (Cmp c);
          u = unrefresh c (if notify then write_cell (Cmp c) v g else g)
      in if notify then invalidate_all (invalidators es) u else u)"

lemma written_committed:
  fixes g :: "'v graph"
  assumes "wired g" "c < gr_comps g" "List.map dp_source deps = sources g c"
  shows "written (Cmp c) g (committed c deps v g)" "deps_of (committed c deps v g) c = deps" "\<not> refreshing (committed c deps v g) c"
    "dirty (committed c deps v g) c = dirty g c" "value_of (committed c deps v g) (Cmp c) = v"
    "gr_depth (committed c deps v g) = gr_depth g"
    "gr_cell (committed c deps v g) s = gr_cell g s \<or> s = Cmp c"
    "refreshing (committed c deps v g) x \<Longrightarrow> refreshing g x"
proof -
  define h where "h = upd_comp c (\<lambda>x. x\<lparr>k_deps := deps\<rparr>) g"
  define notify where "notify = (\<not> same_value h (Cmp c) v)"
  define u where "u = unrefresh c (if notify then write_cell (Cmp c) v h else h)"
  define t where "t = committed c deps v g"
  define ys where "ys = invalidators (subs_of h (Cmp c))"
  have t: "t = (if notify then invalidate_all ys u else u)" by (simp add: t_def committed_def Let_def h_def notify_def u_def ys_def)
  have cells: "gr_cell u s = gr_cell g s \<or> s = Cmp c" "g_subs (gr_cell u s) = g_subs (gr_cell g s)" "g_equal (gr_cell u s) = g_equal (gr_cell g s)" for s
    by (auto simp: u_def h_def write_cell_def)
  have comps: "gr_comp u x = gr_comp g x \<or> x = c" "k_body (gr_comp u x) = k_body (gr_comp g x)" "stopped u x = stopped g x" "dirty u x = dirty g x"
    "gr_comps u = gr_comps g" "gr_depth u = gr_depth g" "gr_sigs u = gr_sigs g" for x
    by (auto simp: u_def h_def write_cell_def)
  have cu: "deps_of u c = deps" "\<not> refreshing u c" by (simp_all add: u_def h_def write_cell_def)
  have "sources u x = sources g x" for x using comps(1) [of x] cu assms(3) by (auto simp: sources_def)
  then have wu: "wiring u = wiring g" by (simp add: wiring_def comps cells subscriber_def fun_eq_iff)
  have sub: "subscriber u = subscriber g" by (rule wiringD(5) [OF wu])
  have ys: "set ys = {y. subscriber g (Cmp c) y}" by (auto simp: ys_def h_def invalidators_iff)
  have low: "Suc c \<le> y \<and> y < gr_comps u" if "y \<in> set ys" for y
    using that ys wired_sub(1) [OF assms(1), of "Cmp c" y] wired_sub(2) [OF assms(1), of c y] comps(5) by auto
  have d: "dirtied (Suc c) u t \<and> (notify \<longrightarrow> (\<forall>y. subscriber g (Cmp c) y \<longrightarrow> dirty t y))"
    using invalidate_all_dirties [of u ys "Suc c", OF _ low] assms(1) wired_cong [OF wu] ys dirtied_refl [of "Suc c" u] by (simp add: t)
  then have dt: "dirtied (Suc c) u t" by simp
  note D = dirtiedD [OF dt]
  have "dirty t c = dirty u c" using D(8,9) [of c] by auto
  then show "dirty (committed c deps v g) c = dirty g c" using comps(4) by (simp add: t_def)
  show "deps_of (committed c deps v g) c = deps" "\<not> refreshing (committed c deps v g) c" using cu D(4,5) by (simp_all add: t_def)
  show "gr_depth (committed c deps v g) = gr_depth g" using D(3) comps(6) by (simp add: t_def)
  show "gr_cell (committed c deps v g) s = gr_cell g s \<or> s = Cmp c" using D(1) cells(1) by (simp add: t_def)
  show "refreshing (committed c deps v g) x \<Longrightarrow> refreshing g x" using D(5) [of x] comps(1) [of x] cu(2) by (auto simp: t_def)
  have val: "value_of u (Cmp c) = v"
  proof (cases notify)
    case False
    then obtain eq where "g_equal (gr_cell g (Cmp c)) = Some eq" "eq (value_of g (Cmp c)) v"
      by (auto simp: notify_def same_value_def h_def split: option.splits)
    then have "value_of g (Cmp c) = v" by (rule wiredD(6) [OF assms(1,2)])
    then show ?thesis using False by (simp add: u_def h_def)
  qed (simp add: u_def write_cell_def)
  then show "value_of (committed c deps v g) (Cmp c) = v" using D(1) by (simp add: t_def)
  have own: "gr_cell u (Cmp c) = gr_cell g (Cmp c) \<or> rev_of g (Cmp c) < rev_of u (Cmp c) \<and> notify"
    by (simp add: u_def h_def write_cell_def)
  show "written (Cmp c) g (committed c deps v g)"
    unfolding written_def t_def [symmetric]
  proof (intro conjI allI impI)
    show "wiring t = wiring g" using wiring_dirtied [OF dt] wu by simp
    show "gr_cell t s = gr_cell g s" if "s \<noteq> Cmp c" for s using cells(1) [of s] that D(1) by simp
    show "deps_of t x = deps_of g x" "refreshing t x = refreshing g x" if "Cmp c \<noteq> Cmp x" for x
      using comps(1) [of x] that D(4,5) by auto
    show "dirty t x" if "Cmp c \<noteq> Cmp x" "dirty g x" for x using comps(4) [of x] that(2) D(8) by blast
    show "dirty t y" if "dirty t x" "\<not> dirty g x" "subscriber g (Cmp x) y" for x y using D(10) [of x y] that comps(4) sub by simp
    show "gr_cell t (Cmp c) = gr_cell g (Cmp c) \<or> rev_of g (Cmp c) < rev_of t (Cmp c) \<and> (\<forall>y. subscriber g (Cmp c) y \<longrightarrow> dirty t y)"
      using own d D(1) by auto
  qed
qed

text \<open>In a batch the callbacks wait in the queue.\<close>

lemma notify_waits:
  assumes "gr_depth g > 0"
  obtains q where "run_task (Suc n) (TNotify cbs) g = Some (g\<lparr>gr_queue := q\<rparr>)"
proof (cases "cbs = []")
  case True
  show ?thesis by (rule that [of "gr_queue g"]) (simp add: True batchNotify_def)
next
  case False
  show ?thesis by (rule that [of "gr_queue g @ cbs"]) (simp add: False assms batchNotify_def)
qed

lemma tidied_queue: "tidied k g (g\<lparr>gr_queue := q\<rparr>)"
  by (simp add: tidied_def alike_def)

lemma ready_same:
  assumes "tidied 0 g t" "ready k g"
  shows "ready k t"
proof -
  have al: "alike g t" and f: "dirty t x = dirty g x" "refreshing t x = refreshing g x" for x using assms(1) by (simp_all add: tidied_def)
  have "consistent t" by (rule consistent_same_clean [OF al]) (use assms(2) f in \<open>simp_all add: ready_def clean_def\<close>)
  then show ?thesis using assms(2) al f by (simp add: ready_def alike_def)
qed

lemma depth_invalidate: "gr_depth (invalidate n c g) = gr_depth g"
proof (induction n arbitrary: c g)
  case (Suc n)
  have "gr_depth (fold (invalidate n) xs g) = gr_depth g" for xs and g :: "'a graph"
    by (induction xs arbitrary: g) (simp_all add: Suc.IH)
  then show ?case by (simp add: Let_def)
qed simp

lemma depth_invalidate_all: "gr_depth (invalidate_all xs g) = gr_depth g"
proof -
  have "gr_depth (fold (invalidate n) xs g) = gr_depth g" for n
    by (induction xs arbitrary: g) (simp_all add: depth_invalidate)
  then show ?thesis unfolding invalidate_all_def .
qed

lemma publish_committed:
  assumes "gr_depth g > 0"
  obtains q where "publish (run_task (Suc n)) c (\<not> same_value g (Cmp c) v) v (upd_comp c (\<lambda>x. x\<lparr>k_deps := ds\<rparr>) g) = Some ((committed c ds v g)\<lparr>gr_queue := q\<rparr>)"
proof -
  define h where "h = upd_comp c (\<lambda>x. x\<lparr>k_deps := ds\<rparr>) g"
  have sv: "same_value h (Cmp c) v = same_value g (Cmp c) v" by (simp add: h_def same_value_def split: option.split)
  show ?thesis
  proof (cases "same_value g (Cmp c) v")
    case True
    have "publish (run_task (Suc n)) c (\<not> same_value g (Cmp c) v) v h = Some ((committed c ds v g)\<lparr>gr_queue := gr_queue g\<rparr>)"
      using True sv by (simp add: publish_def committed_def h_def)
    then show ?thesis using that by (simp add: h_def)
  next
    case False
    define u where "u = unrefresh c (write_cell (Cmp c) v h)"
    define w where "w = invalidate_all (invalidators (subs_of h (Cmp c))) u"
    have w: "committed c ds v g = w" using False sv by (simp add: committed_def Let_def h_def w_def u_def)
    have "gr_depth w > 0" using assms by (simp add: w_def depth_invalidate_all u_def write_cell_def h_def)
    then obtain q where "run_task (Suc n) (TNotify (List.map sb_fn (subs_of h (Cmp c)))) w = Some (w\<lparr>gr_queue := q\<rparr>)"
      by (rule notify_waits)
    then have "publish (run_task (Suc n)) c True v h = Some (w\<lparr>gr_queue := q\<rparr>)"
      by (simp add: publish_def Let_def w_def u_def del: run_task.simps)
    then show ?thesis using that False w by (simp add: h_def)
  qed
qed

lemma recompute_round:
  fixes g :: "'v graph"
  assumes "refreshes_below c (run_task (Suc n) :: task \<Rightarrow> 'v graph \<Rightarrow> 'v graph option)" "ready c g" "c < gr_comps g" "refreshing g c"
    "\<not> up_to_date g (Cmp c)" "\<forall>s \<in> set (sources g c). up_to_date g s" "\<not> dirty g c \<longrightarrow> (\<forall>s \<in> set (sources g c). clean_src g s)"
  shows "\<exists>t. recompute (run_task (Suc n)) c g = Some t \<and> advances (Suc c) g t \<and> ready (Suc c) t \<and> up_to_date t (Cmp c) \<and>
    clean t c = (\<not> dirty g c) \<and> dirty t c = dirty g c"
proof -
  note wd = ready_wired [OF assms(2)]
  let ?ss = "sources g c" and ?v = "eval_rd (k_body (gr_comp g c)) (value_of g)" and ?ds = "List.map (read_at g) (sources g c)"
  obtain h where h: "track (refresh_src (run_task (Suc n))) (k_body (gr_comp g c)) g = Some (?v, ?ds, h)" "tidied c g h" "ready c h"
    using track_settled [OF assms(1-3) wiredD(1,2) [OF wd assms(3)] order_refl assms(6)] by auto
  have al: "alike g h" and fl: "refreshing h c" "dirty h c = dirty g c" using h(2) assms(4) by (simp_all add: tidied_def)
  note alD = alikeD [OF al]
  have wh: "wired h" "c < gr_comps h" using ready_wired [OF h(3)] assms(3) alD(2) by simp_all
  have so: "List.map dp_source (deps_of h c) = List.map dp_source ?ds" by (simp add: alD(4) sources_def read_at_def comp_def)
  obtain ds where ds: "reuse (deps_of h c) ?ds = Some ds" "List.map dp_source ds = List.map dp_source ?ds" "List.map dp_rev ds = List.map dp_rev ?ds"
    by (rule reuse_same [OF so])
  have d: "dp_source d \<in> set ?ss \<and> dp_rev d = rev_of g (dp_source d)" if dd: "d \<in> set ds" for d
  proof -
    obtain i where i: "i < length ds" "d = ds ! i" using dd by (auto simp: in_set_conv_nth)
    have "length ds = length ?ss" using arg_cong [OF ds(2), of length] by simp
    then show ?thesis using i arg_cong [OF ds(2), of "\<lambda>xs. xs ! i"] arg_cong [OF ds(3), of "\<lambda>xs. xs ! i"] by (simp add: read_at_def)
  qed
  define t where "t = committed c ds ?v h"
  have dsrc: "List.map dp_source ds = sources h c" using ds(2) so by (simp add: sources_def)
  note W = written_committed [OF wh dsrc, of ?v, folded t_def]
  have sub: "subscribeToDeps c ?ds h = upd_comp c (\<lambda>x. x\<lparr>k_deps := ds\<rparr>) h" by (simp add: subscribeToDeps_def ds(1))
  have fresh: "\<not> list_ex (changed_dep (upd_comp c (\<lambda>x. x\<lparr>k_deps := ds\<rparr>) h)) ?ds"
    by (simp add: list_ex_iff changed_dep_def read_at_def alD(1))
  have nst: "\<not> stopped h c" by (rule wiredD(3) [OF wh])
  have "gr_depth h > 0" using h(3) by (simp add: ready_def)
  then obtain q where "publish (run_task (Suc n)) c (\<not> same_value h (Cmp c) ?v) ?v (upd_comp c (\<lambda>x. x\<lparr>k_deps := ds\<rparr>) h) = Some (t\<lparr>gr_queue := q\<rparr>)"
    unfolding t_def by (rule publish_committed)
  then have run: "recompute (run_task (Suc n)) c g = Some (t\<lparr>gr_queue := q\<rparr>)"
    by (simp add: recompute_def h(1) nst sub fresh Let_def del: run_task.simps)
  have nclean: "\<not> clean h c" using fl by (simp add: clean_def)
  have nset: "\<not> up_to_date h (Cmp c)" using assms(5) settled_alike [OF al] by simp
  have ih: "consistent h" using h(3) by (simp add: ready_def)
  have a1: "advances (Suc c) h t" by (rule advances_written [OF W(1) ih fl(1) nset W(6)])
  have ne: "s \<noteq> Cmp c" if "s \<in> set ?ss" for s using wiredD(5) [OF wd assms(3), of c] that by blast
  have cell: "gr_cell t s = gr_cell g s" if "s \<in> set ?ss" for s using W(7) [of s] ne [OF that] alD(1) by simp
  have unch: "\<not> changed_dep t e" if "e \<in> set ds" for e using d [OF that] cell by (simp add: changed_dep_def)
  have st: "up_to_date t (Cmp c)"
  proof (rule settled_Cmp)
    fix e assume "e \<in> set (deps_of t c)"
    then have e: "e \<in> set ds" using W(2) by simp
    have "up_to_date h (dp_source e)" using d [OF e] assms(6) settled_alike [OF al] by simp
    then show "\<not> changed_dep t e \<and> up_to_date t (dp_source e)" using advancesD(8) [OF a1] unch [OF e] by blast
  qed
  have sn: "snap t c" unfolding snap_def
    by (rule exI [of _ "value_of g"]) (use W(2,5) d cell alD(5) wiringD(2) [OF writtenD(1) [OF W(1)]] in auto)
  have fr: "fresh_deps t c" if "clean t c"
    unfolding fresh_deps_def
  proof
    fix e assume "e \<in> set (deps_of t c)"
    then have e: "e \<in> set ds" using W(2) by simp
    have nd: "\<not> dirty t c" "\<not> dirty g c" using that W(4) fl(2) by (simp_all add: clean_def)
    have "clean_src g (dp_source e)" using assms(7) nd(2) d [OF e] by blast
    then have "clean_src h (dp_source e)" using tidied_clean [OF h(2)] by (simp add: clean_src_def)
    moreover have "dp_source e \<in> set (sources h c)" using d [OF e] alD(8) by simp
    ultimately have "clean_src t (dp_source e)" using written_clean_src [OF W(1) wh nd(1)] nclean by blast
    then show "\<not> changed_dep t e \<and> clean_src t (dp_source e)" using unch [OF e] by simp
  qed
  have it: "consistent t" by (rule consistent_written [OF W(1) ih]) (use nclean sn fr in blast)+
  have "ready (Suc c) t" using it W(6,3,8) h(3) wh(2) wiringD(1) [OF writtenD(1) [OF W(1)]] by (auto simp: ready_def less_Suc_eq)
  then have "ready (Suc c) (t\<lparr>gr_queue := q\<rparr>)" by (rule ready_same [OF tidied_queue])
  moreover have "advances (Suc c) g (t\<lparr>gr_queue := q\<rparr>)"
    by (rule advances_trans [OF wd advances_mono [OF advances_tidied [OF h(2)]] advances_trans [OF wh(1) a1 advances_tidied [OF tidied_queue]]]) simp
  moreover have "up_to_date (t\<lparr>gr_queue := q\<rparr>) (Cmp c)" using st settled_alike [of t "t\<lparr>gr_queue := q\<rparr>"] by (simp add: alike_def)
  ultimately show ?thesis using run W(3,4) fl(2) by (simp add: clean_def)
qed

section \<open>Every refresh\<close>

lemma refresh_clean:
  assumes "ready (Suc c) g" "\<not> dirty g c"
  shows "run_task (Suc n) (TRefresh c) g = Some g \<and> refreshed c g g"
proof -
  have c: "clean g c" using assms by (simp add: ready_def clean_def)
  have "up_to_date g (Cmp c)" by (rule clean_settled) (use assms(1) c in \<open>simp_all add: ready_def\<close>)
  then show ?thesis using assms c by (simp add: refresh_def refreshed_def advances_refl tidied_refl)
qed

text \<open>The claim of the refresh.\<close>

abbreviation claim :: "nat \<Rightarrow> 'v graph \<Rightarrow> 'v graph" where
  "claim c g \<equiv> upd_comp c (\<lambda>x. x\<lparr>k_refreshing := True\<rparr>) g"

lemma ready_claim:
  assumes "ready (Suc c) g" "dirty g c"
  shows "ready c (claim c g)" "alike g (claim c g)"
proof -
  show al: "alike g (claim c g)" by (rule alike_flags) simp
  have "consistent (claim c g)" by (rule consistent_same_clean [OF al]) (use assms in \<open>auto simp: ready_def clean_def\<close>)
  then show "ready c (claim c g)" using assms(1) by (simp add: ready_def)
qed

lemma advances_unrefresh:
  assumes "alike g t" "refreshing g c" "\<And>x. x \<noteq> c \<Longrightarrow> refreshing t x = refreshing g x" "\<And>x. x \<noteq> c \<Longrightarrow> dirty t x \<Longrightarrow> dirty g x"
    "\<And>x. c < x \<Longrightarrow> dirty t x = dirty g x"
  shows "advances (Suc c) g t"
proof (rule advancesI)
  note alD = alikeD [OF assms(1)]
  show "wiring t = wiring g" by (rule wiring_alike [OF assms(1)])
  show "up_to_date t s \<and> rev_of t s = rev_of g s" if "up_to_date g s" for s using that settled_alike [OF assms(1)] alD(1) by simp
  have "clean t x" if "clean g x" for x using that assms(2,3,4) by (cases "x = c") (auto simp: clean_def)
  then show "rev_of t s = rev_of g s \<and> (clean_src g s \<longrightarrow> clean_src t s)" for s using alD(1) by (simp add: clean_src_def)
qed (use assms in \<open>auto simp: alike_def\<close>)

text \<open>The round after the last, when no dependency has changed.\<close>

lemma unchanged_round:
  fixes g :: "'v graph"
  assumes "refreshes_below c (run_task (Suc n) :: task \<Rightarrow> 'v graph \<Rightarrow> 'v graph option)" "ready c g" "c < gr_comps g" "refreshing g c"
    "up_to_date g (Cmp c)" "\<not> dirty g c \<longrightarrow> fresh_deps g c"
  shows "\<exists>t. run_task (Suc (Suc n)) (TLoop c) g = Some t \<and> advances (Suc c) g t \<and> ready (Suc c) t \<and> up_to_date t (Cmp c) \<and> clean t c"
proof (cases "dirty g c")
  case True
  obtain v where v: "run_task (Suc (Suc n)) (TLoop c) g = Some (unrefresh c v)" "ready (Suc c) (unrefresh c v)" "tidied c (start_round c g) v"
    "clean (unrefresh c v) c"
    by (rule settled_loop [OF assms(1-4) True assms(5)])
  have al: "alike g (unrefresh c v)" using v(3) by (simp add: tidied_def alike_def)
  have "advances (Suc c) g (unrefresh c v)"
    by (rule advances_unrefresh [OF al assms(4)]) (use v(3) in \<open>auto simp: tidied_def\<close>)
  then show ?thesis using v settled_alike [OF al] assms(5) by auto
next
  case False
  note t = ready_unrefresh [OF assms(2-4)]
  have fr: "\<not> dirty g c \<Longrightarrow> fresh_deps g c" using assms(6) by blast
  have "advances (Suc c) g (unrefresh c g)" by (rule advances_unrefresh [OF t(2) assms(4)]) (use fr in auto)
  then show ?thesis using loop_exit [OF False, of "Suc n"] t [OF fr] settled_alike [OF t(2) [OF fr]] assms(5) False by auto
qed

lemma advances_claim:
  assumes "dirty g c"
  shows "advances (Suc c) g (start_round c (claim c g))"
proof (rule advancesI)
  let ?h = "start_round c (claim c g)"
  have al: "alike g ?h" by (simp add: alike_def)
  show "wiring ?h = wiring g" by (rule wiring_alike [OF al])
  show "up_to_date ?h s \<and> rev_of ?h s = rev_of g s" if "up_to_date g s" for s using that settled_alike [OF al] by simp
  have "clean ?h x" if "clean g x" for x using that assms by (cases "x = c") (auto simp: clean_def)
  then show "rev_of ?h s = rev_of g s \<and> (clean_src g s \<longrightarrow> clean_src ?h s)" for s by (simp add: clean_src_def)
qed auto

lemma refresh_settled:
  fixes g :: "'v graph"
  assumes "refreshes_below c (run_task (Suc n) :: task \<Rightarrow> 'v graph \<Rightarrow> 'v graph option)" "ready (Suc c) g" "dirty g c" "up_to_date g (Cmp c)"
  shows "\<exists>t. run_task (Suc (Suc (Suc n))) (TRefresh c) g = Some t \<and> refreshed c g t"
proof -
  have c: "c < gr_comps g" and nr: "\<not> refreshing g c" using assms(2) by (simp_all add: ready_def)
  note nst = wiredD(3) [OF ready_wired [OF assms(2)] c] and a = ready_claim [OF assms(2,3)]
  have h: "c < gr_comps (claim c g)" "refreshing (claim c g) c" "dirty (claim c g) c" "up_to_date (claim c g) (Cmp c)"
    using c assms(3,4) settled_alike [OF a(2)] by simp_all
  obtain u where u: "run_task (Suc (Suc n)) (TLoop c) (claim c g) = Some (unrefresh c u)" "ready (Suc c) (unrefresh c u)"
    "tidied c (start_round c (claim c g)) u" "clean (unrefresh c u) c"
    by (rule settled_loop [OF assms(1) a(1) h])
  have t: "tidied (Suc c) g (unrefresh c u)"
    using u(3) assms(3) nr by (auto simp: tidied_def alike_def Suc_le_eq)
  have "run_task (Suc (Suc (Suc n))) (TRefresh c) g = refresh (run_task (Suc (Suc n))) c g" by simp
  then have "run_task (Suc (Suc (Suc n))) (TRefresh c) g = Some (unrefresh c u)" using u(1) nst assms(3) nr by (simp only: refresh_def) simp
  then show ?thesis using u(2,4) t assms(4) settled_alike [of g "unrefresh c u" "Cmp c"] advances_tidied [OF t]
    by (auto simp: refreshed_def tidied_def)
qed

lemma refresh_unsettled:
  fixes g :: "'v graph"
  assumes "refreshes_below c (run_task (Suc n) :: task \<Rightarrow> 'v graph \<Rightarrow> 'v graph option)"
    "refreshes_below c (run_task (Suc (Suc n)) :: task \<Rightarrow> 'v graph \<Rightarrow> 'v graph option)" "ready (Suc c) g" "dirty g c" "\<not> up_to_date g (Cmp c)"
  shows "\<exists>t. run_task (Suc (Suc (Suc (Suc n)))) (TRefresh c) g = Some t \<and> refreshed c g t"
proof -
  note wd = ready_wired [OF assms(3)]
  have c: "c < gr_comps g" and nr: "\<not> refreshing g c" using assms(3) by (simp_all add: ready_def)
  note nst = wiredD(3) [OF wd c] and a1 = ready_claim [OF assms(3,4)]
  define h where "h = start_round c (claim c g)"
  have a2: "ready c h" "alike g h" using ready_start [OF a1(1)] alike_trans [OF a1(2)] by (simp_all add: h_def)
  have h: "deps_of h c = deps_of g c" "refreshing h c" "\<not> dirty h c" "c < gr_comps h" "dp_source ` set (deps_of g c) \<subseteq> set (sources h c)"
    using c by (simp_all add: h_def sources_def)
  have run: "run_task (Suc (Suc (Suc (Suc n)))) (TRefresh c) g =
    (case ofold (check_dep (run_task (Suc (Suc n)))) (deps_of g c) (h, False) of
      None \<Rightarrow> None | Some (g, changed) \<Rightarrow> if \<not> changed then run_task (Suc (Suc n)) (TLoop c) g else recompute (run_task (Suc (Suc n))) c g)"
    using nst assms(4) nr loop_round [of "claim c g" c "Suc (Suc n)"] by (simp add: refresh_def h_def)
  obtain u b where u: "ofold (check_dep (run_task (Suc (Suc n)))) (deps_of g c) (h, False) = Some (u, b)"
    "b = (\<exists>d \<in> set (deps_of g c). changed_dep u d)" "advances c h u" "ready c u"
    "\<forall>d \<in> set (deps_of g c). up_to_date u (dp_source d)" "\<not> dirty u c \<longrightarrow> (\<forall>d \<in> set (deps_of g c). clean_src u (dp_source d))"
    using check_deps [OF assms(2) a2(1) h(4,5), of False] by blast
  note U = advancesD [OF u(3)]
  have du: "deps_of u c = deps_of g c" "refreshing u c" "c < gr_comps u" using U(5,6) [of c] h(1,2,4) wiringD(1) [OF U(1)] by simp_all
  have redirty: "dirty u e" if "dirty u c" "subscriber g (Cmp c) e" for e
    using U(12) [of c e] that h(3) alikeD(7) [OF a2(2)] by simp
  have au: "advances (Suc c) g u"
    by (rule advances_trans [OF wd advances_claim [OF assms(4), folded h_def] advances_mono [OF u(3)]]) simp
  have "\<exists>t. run_task (Suc (Suc (Suc (Suc n)))) (TRefresh c) g = Some t \<and> advances (Suc c) u t \<and> ready (Suc c) t \<and>
      up_to_date t (Cmp c) \<and> (clean t c \<or> dirty u c)"
  proof (cases b)
    case True
    have ns: "\<not> up_to_date u (Cmp c)" using True u(2) du(1) by (auto elim: settled_CmpE)
    have s: "\<forall>s \<in> set (sources u c). up_to_date u s" "\<not> dirty u c \<longrightarrow> (\<forall>s \<in> set (sources u c). clean_src u s)"
      using u(5,6) du(1) by (auto simp: sources_def)
    show ?thesis using recompute_round [OF assms(2) u(4) du(3,2) ns s] run u(1) True by auto
  next
    case False
    have st: "up_to_date u (Cmp c)" by (rule settled_Cmp) (use u(2,5) du(1) False in auto)
    have fr: "\<not> dirty u c \<longrightarrow> fresh_deps u c" using u(2,6) du(1) False by (auto simp: fresh_deps_def)
    show ?thesis using unchanged_round [OF assms(1) u(4) du(3,2) st fr] run u(1) False by auto
  qed
  then obtain t where t: "run_task (Suc (Suc (Suc (Suc n)))) (TRefresh c) g = Some t" "advances (Suc c) u t" "ready (Suc c) t"
    "up_to_date t (Cmp c)" "clean t c \<or> dirty u c" by blast
  have "clean t c" if e: "subscriber g (Cmp c) e" "\<not> dirty t e" for e
  proof -
    have "c < e" by (rule wired_sub(2) [OF wd e(1)])
    then have "\<not> dirty u e" using advancesD(7) [OF t(2), of e] e(2) by auto
    then show ?thesis using redirty e(1) t(5) by blast
  qed
  then show ?thesis using t advances_trans [OF wd au t(2)] assms(5) by (auto simp: refreshed_def)
qed

text \<open>Three steps of fuel for every derived value in the chain, and four for the first.\<close>

theorem refresh_settles: "ready (Suc c) g \<Longrightarrow> 3 * c + 4 \<le> n \<Longrightarrow> \<exists>t. run_task n (TRefresh c) g = Some t \<and> refreshed c g t"
proof (induction c arbitrary: n g rule: less_induct)
  case (less c)
  obtain m where m: "n = Suc (Suc (Suc (Suc m)))" using less.prems(2) by (auto dest!: le_Suc_ex simp: numeral_eq_Suc)
  have b: "refreshes_below c (run_task k :: task \<Rightarrow> 'a graph \<Rightarrow> 'a graph option)" if k: "3 * c + 1 \<le> k" for k
    unfolding refreshes_below_def
  proof (intro allI impI)
    fix x and u :: "'a graph" assume "x < c" "ready (Suc x) u"
    then show "\<exists>t. run_task k (TRefresh x) u = Some t \<and> refreshed x u t" using less.IH [of x u k] k by simp
  qed
  have k: "3 * c + 1 \<le> Suc m" "3 * c + 1 \<le> Suc (Suc m)" using less.prems(2) m by simp_all
  show ?case
  proof (cases "dirty g c")
    case True
    show ?thesis
    proof (cases "up_to_date g (Cmp c)")
      case s: True
      show ?thesis unfolding m by (rule refresh_settled [OF b [OF k(2)] less.prems(1) True s])
    next
      case False
      show ?thesis unfolding m by (rule refresh_unsettled [OF b [OF k(1)] b [OF k(2)] less.prems(1) True False])
    qed
  qed (use refresh_clean [OF less.prems(1)] m in blast)
qed

end
