(* ===== verification/Signal_Reads.thy ===== *)
theory Signal_Reads
  imports Signal_Refresh
begin

text \<open>
  What a client reads. The reference is a store of the signals' values in which a derived value is
  computed again at every read; declarations and the commands inside a batch simulate it.
\<close>

section \<open>The reference\<close>

record 'v store =
  st_sigs :: nat
  st_vals :: "nat \<Rightarrow> 'v"
  st_eqs :: "nat \<Rightarrow> ('v \<Rightarrow> 'v \<Rightarrow> bool) option"
  st_comps :: nat
  st_body :: "nat \<Rightarrow> 'v rd"

definition put_signal :: "nat \<Rightarrow> 'v \<Rightarrow> 'v store \<Rightarrow> 'v store" where
  "put_signal i v st =
     (if (case st_eqs st i of None \<Rightarrow> False | Some eq \<Rightarrow> eq (st_vals st i) v) then st else st\<lparr>st_vals := (st_vals st)(i := v)\<rparr>)"

fun meaning :: "'v cmd \<Rightarrow> 'v store \<times> 'v list \<Rightarrow> 'v store \<times> 'v list" where
  "meaning (CNew v eq) (st, vs) =
     (st\<lparr>st_vals := (st_vals st)(st_sigs st := v), st_eqs := (st_eqs st)(st_sigs st := eq), st_sigs := st_sigs st + 1\<rparr>, vs)"
| "meaning (CDerive b eq) (st, vs) = (st\<lparr>st_body := (st_body st)(st_comps st := b), st_comps := st_comps st + 1\<rparr>, vs)"
| "meaning (CSet i v) (st, vs) = (put_signal i v st, vs)"
| "meaning (CUpdate i f) (st, vs) = (put_signal i (f (st_vals st i)) st, vs)"
| "meaning (CGet s) (st, vs) = (st, vs @ [derived (st_body st) (st_vals st) (st_comps st) s])"
| "meaning _ (st, vs) = (st, vs)"

definition empty_store :: "'v \<Rightarrow> 'v store" where
  "empty_store v = \<lparr>st_sigs = 0, st_vals = (\<lambda>_. v), st_eqs = (\<lambda>_. None), st_comps = 0, st_body = (\<lambda>_. Ret v)\<rparr>"

definition store_of :: "'v graph \<Rightarrow> 'v store" where
  "store_of g = \<lparr>st_sigs = gr_sigs g, st_vals = signals g, st_eqs = (\<lambda>i. g_equal (gr_cell g (Sig i))), st_comps = gr_comps g, st_body = bodies g\<rparr>"

text \<open>Declarations: the sources of a derived value exist, are distinct and do not depend on their values;
  its equality test holds of equal values only.\<close>

definition declared_src :: "nat \<Rightarrow> nat \<Rightarrow> src \<Rightarrow> bool" where
  "declared_src p m s = (case s of Sig i \<Rightarrow> i < p | Cmp c \<Rightarrow> c < m)"

definition lawful :: "('v \<Rightarrow> 'v \<Rightarrow> bool) option \<Rightarrow> bool" where
  "lawful eq \<longleftrightarrow> (\<forall>f a b. eq = Some f \<longrightarrow> f a b \<longrightarrow> a = b)"

fun declares :: "nat \<Rightarrow> nat \<Rightarrow> 'v cmd list \<Rightarrow> bool" where
  "declares p m [] = True"
| "declares p m (CNew v eq # cs) = declares (p + 1) m cs"
| "declares p m (CSubscribe s k # cs) = (declared_src p m s \<and> declares p m cs)"
| "declares p m (CDerive b eq # cs) =
     ((\<exists>ss. fixed_reads b ss \<and> distinct ss \<and> list_all (declared_src p m) ss) \<and> lawful eq \<and> declares p (m + 1) cs)"
| "declares p m _ = False"

definition in_batch :: "nat \<Rightarrow> 'v cmd \<Rightarrow> bool" where
  "in_batch m cmd = (case cmd of CSet i v \<Rightarrow> True | CUpdate i f \<Rightarrow> True | CBegin \<Rightarrow> True | CGet s \<Rightarrow> (case s of Sig i \<Rightarrow> True | Cmp c \<Rightarrow> c < m) | _ \<Rightarrow> False)"

section \<open>Inside a batch\<close>

definition quiet :: "'v graph \<Rightarrow> bool" where
  "quiet g \<longleftrightarrow> consistent g \<and> gr_depth g > 0 \<and> (\<forall>x. \<not> refreshing g x)"

lemma quiet_ready: "quiet g \<Longrightarrow> k \<le> gr_comps g \<Longrightarrow> ready k g"
  by (simp add: quiet_def ready_def)

lemma put_signal_store:
  "put_signal i v (store_of g) = (if same_value g (Sig i) v then store_of g else (store_of g)\<lparr>st_vals := (signals g)(i := v)\<rparr>)"
  by (simp add: put_signal_def store_of_def same_value_def split: option.split)

lemma set_quiet:
  fixes g :: "'v graph"
  assumes "quiet g"
  shows "\<exists>t. SetSignal (Suc n) i v g = Some t \<and> quiet t \<and> store_of t = put_signal i v (store_of g)"
proof (cases "same_value g (Sig i) v")
  case True
  then show ?thesis using assms by (simp add: SetSignal_def put_signal_store)
next
  case False
  define u where "u = write_cell (Sig i) v g"
  define ys where "ys = invalidators (subs_of u (Sig i))"
  define t where "t = invalidate_all ys u"
  have wd: "wired g" using assms by (simp add: quiet_def consistent_def)
  have wu: "wiring u = wiring g" by (simp add: u_def write_cell_def wiring_def sources_def subscriber_def fun_eq_iff)
  have ys: "set ys = {y. subscriber g (Sig i) y}" using wiringD(5) [OF wu] by (auto simp: ys_def invalidators_iff)
  have low: "0 \<le> y \<and> y < gr_comps u" if "y \<in> set ys" for y
    using that ys wired_sub(1) [OF wd, of "Sig i" y] wiringD(1) [OF wu] by auto
  have d: "dirtied 0 u t" "\<And>y. subscriber g (Sig i) y \<Longrightarrow> dirty t y"
    using invalidate_all_dirties [of u ys 0, OF _ low] wd wired_cong [OF wu] ys by (simp_all add: t_def)
  note D = dirtiedD [OF d(1)]
  have w: "written (Sig i) g t"
    unfolding written_def
  proof (intro conjI allI impI)
    show "wiring t = wiring g" using wiring_dirtied [OF d(1)] wu by simp
    show "dirty t x" if "dirty g x" for x using that D(8) [of x] by (simp add: u_def write_cell_def)
    show "dirty t y" if "dirty t x" "\<not> dirty g x" "subscriber g (Cmp x) y" for x y
      using D(10) [of x y] that wiringD(5) [OF wu] by (simp add: u_def write_cell_def)
    show "gr_cell t (Sig i) = gr_cell g (Sig i) \<or> rev_of g (Sig i) < rev_of t (Sig i) \<and> (\<forall>y. subscriber g (Sig i) y \<longrightarrow> dirty t y)"
      using d(2) D(1) by (simp add: u_def write_cell_def)
  qed (simp_all add: D u_def write_cell_def)
  have it: "consistent t" by (rule consistent_written [OF w]) (use assms in \<open>simp_all add: quiet_def\<close>)
  have dp: "gr_depth t > 0" and nr: "\<not> refreshing t x" for x using assms D(3,5) by (simp_all add: quiet_def u_def write_cell_def)
  have sg: "gr_sigs t = gr_sigs g" using D(12) by (simp add: u_def write_cell_def)
  obtain q where q: "run_task (Suc n) (TNotify (List.map sb_fn (subs_of u (Sig i)))) t = Some (t\<lparr>gr_queue := q\<rparr>)"
    by (rule notify_waits [OF dp])
  have run: "SetSignal (Suc n) i v g = Some (t\<lparr>gr_queue := q\<rparr>)"
    using False q by (simp add: SetSignal_def Let_def u_def ys_def t_def del: run_task.simps)
  have "ready 0 (t\<lparr>gr_queue := q\<rparr>)" by (rule ready_same [OF tidied_queue]) (use it dp in \<open>simp add: ready_def\<close>)
  then have "quiet (t\<lparr>gr_queue := q\<rparr>)" using nr by (simp add: quiet_def ready_def)
  moreover have "store_of (t\<lparr>gr_queue := q\<rparr>) = put_signal i v (store_of g)"
    using False D(1,2,7) sg by (simp add: put_signal_store) (simp add: store_of_def fun_eq_iff u_def write_cell_def)
  ultimately show ?thesis using run by blast
qed

text \<open>A read is recorded in the open window, if there is one; no cell and no flag changes.\<close>

lemma quiet_record: "quiet (record_dep s r g) = quiet g" "store_of (record_dep s r g) = store_of g"
proof -
  let ?t = "record_dep s r g"
  have e: "gr_cell ?t = gr_cell g" "gr_comp ?t = gr_comp g" "gr_comps ?t = gr_comps g" "gr_sigs ?t = gr_sigs g" "gr_depth ?t = gr_depth g"
    by (auto simp: record_dep_def split: list.split)
  have al: "alike g ?t" and cl: "clean ?t x = clean g x" for x by (simp_all add: e alike_def clean_def)
  have "consistent ?t = consistent g" using consistent_same_clean [OF al _ cl] consistent_same_clean [OF alike_sym [OF al]] cl by blast
  then show "quiet ?t = quiet g" by (simp add: quiet_def e)
  show "store_of ?t = store_of g" by (simp add: store_of_def e)
qed

lemma get_quiet:
  assumes "quiet g" "3 * gr_comps g + 4 \<le> n" "\<And>c. s = Cmp c \<Longrightarrow> c < gr_comps g"
  shows "\<exists>t. GetValue n s g = Some (derived (bodies g) (signals g) (gr_comps g) s, t) \<and> quiet t \<and> store_of t = store_of g"
proof (cases s)
  case (Sig i)
  then show ?thesis using assms(1) by (simp add: GetValue_def read_src_def refresh_src_def quiet_record)
next
  case (Cmp c)
  have c: "c < gr_comps g" by (rule assms(3) [OF Cmp])
  obtain t where t: "run_task n (TRefresh c) g = Some t" "refreshed c g t"
    using refresh_settles [OF quiet_ready [OF assms(1)], of c n] c assms(2) by auto
  have a: "advances (Suc c) g t" "ready (Suc c) t" "up_to_date t (Cmp c)" using t(2) by (simp_all add: refreshed_def)
  note A = advancesD [OF a(1)]
  note w = wiringD [OF A(1)]
  have nr: "\<not> refreshing t x" for x
    using A(6) [of x] a(2) assms(1) by (cases "Suc c \<le> x") (auto simp: ready_def quiet_def)
  have b: "bodies t = bodies g" "signals t = signals g" using w(2) A(3) by (simp_all add: fun_eq_iff)
  have "src_in t (Cmp c)" using c w(1) by (simp add: src_in_def)
  then have "value_of t (Cmp c) = derived (bodies t) (signals t) (gr_comps t) (Cmp c)"
    using settled_current [OF _ a(3)] a(2) by (simp add: ready_def)
  then have "value_of t (Cmp c) = derived (bodies g) (signals g) (gr_comps g) (Cmp c)" by (simp only: b w(1))
  moreover have "quiet t" using a(2) nr by (simp add: ready_def quiet_def)
  ultimately show ?thesis using t(1) by (simp add: GetValue_def read_src_def refresh_src_def Cmp quiet_record) (simp add: store_of_def A(3) w)
qed

lemma consistent_begin: "consistent (begin_batch g) = consistent g"
proof -
  have al: "wiring (begin_batch g) = wiring g" "snap (begin_batch g) = snap g" "clean (begin_batch g) = clean g" "fresh_deps (begin_batch g) = fresh_deps g"
    by (auto simp: begin_batch_def wiring_def sources_def subscriber_def snap_def clean_def fresh_deps_def clean_src_def changed_dep_def fun_eq_iff)
  show ?thesis using wired_cong [OF al(1)] al(2-4) by (simp add: consistent_def) (simp add: begin_batch_def)
qed

lemma batch_step:
  assumes "quiet g" "3 * gr_comps g + 4 \<le> n" "in_batch (gr_comps g) cmd"
  shows "\<exists>t ws. run_cmd n cmd (g, vs) = Some (t, ws) \<and> quiet t \<and> (store_of t, ws) = meaning cmd (store_of g, vs)"
proof -
  obtain m where m: "n = Suc m" using assms(2) by (cases n) auto
  show ?thesis
  proof (cases cmd)
    case (CSet i v)
    then show ?thesis using set_quiet [OF assms(1), of m i v] by (auto simp: m)
  next
    case (CUpdate i f)
    then show ?thesis using set_quiet [OF assms(1), of m i "f (value_of g (Sig i))"]
      by (auto simp: m UpdateSignal_def store_of_def [of g] simp del: meaning.simps(3))
  next
    case (CGet s)
    then have "s = Cmp c \<Longrightarrow> c < gr_comps g" for c using assms(3) by (simp add: in_batch_def)
    then show ?thesis using get_quiet [OF assms(1,2), of s] CGet by (auto simp: store_of_def)
  next
    case CBegin
    have "quiet (begin_batch g)" using assms(1) consistent_begin [of g] by (simp add: quiet_def) (simp add: begin_batch_def)
    then show ?thesis using CBegin by (simp add: store_of_def) (simp add: begin_batch_def)
  qed (use assms(3) in \<open>simp_all add: in_batch_def\<close>)
qed

lemma meaning_in_batch: "in_batch m op \<Longrightarrow> st_comps (fst (meaning op (st, vs))) = st_comps st"
  by (cases op) (simp_all add: in_batch_def put_signal_def)

lemma batch_reads:
  "quiet g \<Longrightarrow> 3 * gr_comps g + 4 \<le> n \<Longrightarrow> list_all (in_batch (gr_comps g)) ops \<Longrightarrow>
   \<exists>t ws. ofold (run_cmd n) ops (g, vs) = Some (t, ws) \<and> quiet t \<and> (store_of t, ws) = fold meaning ops (store_of g, vs)"
proof (induction ops arbitrary: g vs)
  case (Cons op ops)
  obtain t ws where t: "run_cmd n op (g, vs) = Some (t, ws)" "quiet t" "(store_of t, ws) = meaning op (store_of g, vs)"
    using batch_step [OF Cons.prems(1,2), of op vs] Cons.prems(3) by auto
  have "st_comps (store_of t) = st_comps (store_of g)"
    using meaning_in_batch [of "gr_comps g" op "store_of g" vs] Cons.prems(3) arg_cong [OF t(3), of "\<lambda>x. st_comps (fst x)"] by simp
  then have "gr_comps t = gr_comps g" by (simp add: store_of_def)
  then obtain u us where "ofold (run_cmd n) ops (t, ws) = Some (u, us)" "quiet u" "(store_of u, us) = fold meaning ops (store_of t, ws)"
    using Cons.IH [OF t(2), of ws] Cons.prems(2,3) by auto
  then show ?case using t(1) by (simp add: t(3) [symmetric])
qed simp

section \<open>Declarations\<close>

definition calm :: "'v graph \<Rightarrow> bool" where
  "calm g \<longleftrightarrow> consistent g \<and> gr_depth g = 0 \<and> (\<forall>x. clean g x) \<and> (\<forall>c < gr_comps g. \<forall>i. Sig i \<in> set (sources g c) \<longrightarrow> i < gr_sigs g)"

text \<open>Nothing to refresh: a read has no effect.\<close>

lemma eval_clean:
  assumes "\<And>s W. rf s (g\<lparr>gr_windows := W\<rparr>) = Some (g\<lparr>gr_windows := W\<rparr>)"
  shows "fixed_reads b ss \<Longrightarrow> distinct ss \<Longrightarrow> set (List.map dp_source w) \<inter> set ss = {} \<Longrightarrow>
    eval_body rf b (g\<lparr>gr_windows := w # ws\<rparr>) = Some (eval_rd b (value_of g), g\<lparr>gr_windows := (w @ List.map (read_at g) ss) # ws\<rparr>)"
proof (induction b arbitrary: ss w)
  case (Read s k)
  then obtain ts where ss: "ss = s # ts" "\<forall>v. fixed_reads (k v) ts" by (auto split: list.splits)
  have rd: "read_src rf s (g\<lparr>gr_windows := w # ws\<rparr>) = Some (value_of g s, g\<lparr>gr_windows := (w @ [read_at g s]) # ws\<rparr>)"
    using Read.prems(3) ss(1) by (auto simp: read_src_def record_dep_def read_at_def assms)
  have p: "fixed_reads (k (value_of g s)) ts" "distinct ts" "set (List.map dp_source (w @ [read_at g s])) \<inter> set ts = {}"
    using ss Read.prems(2,3) by (auto simp: read_at_def)
  show ?case using Read.IH [OF rangeI p] rd by (simp add: ss(1))
qed simp

lemma track_clean:
  assumes "\<And>s W. rf s (g\<lparr>gr_windows := W\<rparr>) = Some (g\<lparr>gr_windows := W\<rparr>)" "fixed_reads b ss" "distinct ss"
  shows "track rf b g = Some (eval_rd b (value_of g), List.map (read_at g) ss, g)"
  using eval_clean [of rf g b ss "[]" "gr_windows g", OF assms] by (simp add: track_def)

lemma refresh_src_clean: "(\<And>x. clean g x) \<Longrightarrow> refresh_src (run_task (Suc n)) s (g\<lparr>gr_windows := W\<rparr>) = Some (g\<lparr>gr_windows := W\<rparr>)"
  by (cases s) (simp_all add: refresh_src_def refresh_def clean_def)

lemma ofold_check_clean:
  assumes "\<And>s. s \<in> dp_source ` set ds \<Longrightarrow> refresh_src go s g = Some g"
  shows "ofold (check_dep go) ds (g, b) = Some (g, b \<or> list_ex (changed_dep g) ds)"
  using assms
proof (induction ds arbitrary: b)
  case (Cons d ds)
  have "ofold (check_dep go) ds (g, b \<or> changed_dep g d) = Some (g, (b \<or> changed_dep g d) \<or> list_ex (changed_dep g) ds)"
    by (rule Cons.IH) (use Cons.prems in auto)
  moreover have "check_dep go d (g, b) = Some (g, b \<or> changed_dep g d)" using Cons.prems [of "dp_source d"] by (simp add: check_dep_def)
  ultimately show ?case by simp
qed simp

text \<open>The subscriptions of a new derived value.\<close>

definition subscribed :: "nat \<Rightarrow> src set \<Rightarrow> 'v graph \<Rightarrow> (src \<Rightarrow> 'v cell) \<Rightarrow> bool" where
  "subscribed c ss g f \<longleftrightarrow>
     (\<forall>s. g_value (f s) = value_of g s \<and> g_rev (f s) = rev_of g s \<and> g_equal (f s) = g_equal (gr_cell g s)) \<and>
     (\<forall>s y. subscriber (g\<lparr>gr_cell := f\<rparr>) s y \<longleftrightarrow> subscriber g s y \<or> y = c \<and> s \<in> ss)"

lemma subscribed_trans:
  assumes "subscribed c ss g f" "subscribed c ts (g\<lparr>gr_cell := f\<rparr>) k"
  shows "subscribed c (ss \<union> ts) g k"
  using assms by (simp add: subscribed_def) blast

lemma subscribe_graph:
  obtains i f where "subscribe s fn (Some c) g = (i, g\<lparr>gr_cell := f\<rparr>)" "subscribed c {s} g f"
proof (rule that)
  let ?f = "(gr_cell g)(s := (gr_cell g s)\<lparr>g_next := g_next (gr_cell g s) + 1,
    g_subs := subs_of g s @ [\<lparr>sb_id = g_next (gr_cell g s), sb_fn = fn, sb_inval = Some c\<rparr>]\<rparr>)"
  show "subscribe s fn (Some c) g = (g_next (gr_cell g s), g\<lparr>gr_cell := ?f\<rparr>)" by (simp add: subscribe_def Let_def)
  show "subscribed c {s} g ?f" by (auto simp: subscribed_def subscriber_def split: if_splits)
qed

lemma subscribe_deps_graph:
  "\<exists>ds f. subscribe_deps c deps g = (ds, g\<lparr>gr_cell := f\<rparr>) \<and> List.map dp_source ds = List.map dp_source deps \<and>
     List.map dp_rev ds = List.map dp_rev deps \<and> subscribed c (dp_source ` set deps) g f"
proof (induction deps arbitrary: g)
  case Nil
  have "subscribe_deps c [] g = ([], g\<lparr>gr_cell := gr_cell g\<rparr>)" "subscribed c {} g (gr_cell g)" by (simp_all add: subscribed_def)
  then show ?case by (intro exI [of _ "[]"] exI [of _ "gr_cell g"]) simp
next
  case (Cons d deps)
  obtain i k where k: "subscribe (dp_source d) (DepChange c) (Some c) g = (i, g\<lparr>gr_cell := k\<rparr>)" "subscribed c {dp_source d} g k"
    by (rule subscribe_graph)
  obtain ds f where f: "subscribe_deps c deps (g\<lparr>gr_cell := k\<rparr>) = (ds, g\<lparr>gr_cell := f\<rparr>)" "List.map dp_source ds = List.map dp_source deps"
    "List.map dp_rev ds = List.map dp_rev deps" "subscribed c (dp_source ` set deps) (g\<lparr>gr_cell := k\<rparr>) f"
    using Cons.IH [of "g\<lparr>gr_cell := k\<rparr>"] by auto
  have "subscribed c (dp_source ` set (d # deps)) g f" using subscribed_trans [OF k(2) f(4)] by simp
  moreover have "subscribe_deps c (d # deps) g = (d\<lparr>dp_sub := i\<rparr> # ds, g\<lparr>gr_cell := f\<rparr>)" using k(1) f(1) by simp
  ultimately show ?case using f(2,3) by (intro exI [of _ "d\<lparr>dp_sub := i\<rparr> # ds"] exI [of _ f]) simp
qed

lemma subscribeToDeps_new:
  "deps_of g c = [] \<Longrightarrow> subscribeToDeps c deps g = (let (ds, g) = subscribe_deps c deps g in upd_comp c (\<lambda>x. x\<lparr>k_deps := ds\<rparr>) g)"
  by (cases deps) (simp_all add: subscribeToDeps_def reuse_def)

text \<open>The graph \<open>t\<close> has the derived value \<open>gr_comps g\<close> beside those of \<open>g\<close>.\<close>

definition extends :: "'v graph \<Rightarrow> 'v rd \<Rightarrow> ('v \<Rightarrow> 'v \<Rightarrow> bool) option \<Rightarrow> src list \<Rightarrow> dependency list \<Rightarrow> (src \<Rightarrow> 'v cell) \<Rightarrow> 'v graph \<Rightarrow> bool" where
  "extends g b eq ss ds f t \<longleftrightarrow>
     t = g\<lparr>gr_cell := f, gr_comps := gr_comps g + 1,
       gr_comp := (gr_comp g)(gr_comps g := \<lparr>k_body = b, k_deps = ds, k_dirty = False, k_refreshing = False, k_stopped = False\<rparr>)\<rparr> \<and>
     List.map dp_source ds = ss \<and> (\<forall>d \<in> set ds. dp_rev d = rev_of g (dp_source d)) \<and>
     (\<forall>s. s \<noteq> Cmp (gr_comps g) \<longrightarrow> g_value (f s) = value_of g s \<and> g_rev (f s) = rev_of g s \<and> g_equal (f s) = g_equal (gr_cell g s)) \<and>
     g_value (f (Cmp (gr_comps g))) = eval_rd b (value_of g) \<and> g_equal (f (Cmp (gr_comps g))) = eq \<and>
     (\<forall>s y. subscriber (g\<lparr>gr_cell := f\<rparr>) s y \<longleftrightarrow> s \<noteq> Cmp (gr_comps g) \<and> subscriber g s y \<or> y = gr_comps g \<and> s \<in> set ss)"

lemma derive_graph:
  assumes "calm g" "fixed_reads b ss" "distinct ss" "list_all (declared_src (gr_sigs g) (gr_comps g)) ss"
  shows "\<exists>ds f t. Derive (Suc (Suc (Suc (Suc n)))) b eq g = Some t \<and> extends g b eq ss ds f t"
proof -
  define c where "c = gr_comps g"
  define v where "v = eval_rd b (value_of g)"
  have cl: "clean g x" for x using assms(1) by (simp add: calm_def)
  have tr: "track (refresh_src (run_task (Suc (Suc (Suc (Suc n)))))) b g = Some (v, List.map (read_at g) ss, g)"
    using track_clean [where rf = "refresh_src (run_task (Suc (Suc (Suc (Suc n)))))", OF refresh_src_clean [OF cl] assms(2,3)]
    by (simp add: v_def)
  define k where "k = \<lparr>k_body = b, k_deps = [], k_dirty = False, k_refreshing = False, k_stopped = False\<rparr>"
  define g2 where "g2 = (upd_cell (Cmp c) (\<lambda>_. new_cell v eq) (upd_comp c (\<lambda>_. k) g))\<lparr>gr_comps := c + 1\<rparr>"
  obtain ds f where h: "subscribe_deps c (List.map (read_at g) ss) g2 = (ds, g2\<lparr>gr_cell := f\<rparr>)" "List.map dp_source ds = ss"
    "List.map dp_rev ds = List.map (rev_of g) ss" "subscribed c (set ss) g2 f"
    using subscribe_deps_graph [of c "List.map (read_at g) ss" g2] by (auto simp: read_at_def comp_def image_image)
  have f: "g_value (f s) = value_of g2 s \<and> g_rev (f s) = rev_of g2 s \<and> g_equal (f s) = g_equal (gr_cell g2 s)"
    "subscriber (g2\<lparr>gr_cell := f\<rparr>) s y \<longleftrightarrow> subscriber g2 s y \<or> y = c \<and> s \<in> set ss" for s y
    using h(4) by (simp_all add: subscribed_def)
  have ne: "s \<noteq> Cmp c" if "s \<in> set ss" for s using assms(4) that by (auto simp: declared_src_def c_def list_all_iff)
  have dr: "dp_source d \<in> set ss \<and> dp_rev d = rev_of g (dp_source d)" if dd: "d \<in> set ds" for d
  proof -
    obtain i where i: "i < length ds" "d = ds ! i" using dd by (auto simp: in_set_conv_nth)
    have "length ds = length ss" using arg_cong [OF h(2), of length] by simp
    then show ?thesis using i arg_cong [OF h(2), of "\<lambda>xs. xs ! i"] arg_cong [OF h(3), of "\<lambda>xs. xs ! i"] by simp
  qed
  have cells: "g_value (f s) = value_of g s \<and> g_rev (f s) = rev_of g s \<and> g_equal (f s) = g_equal (gr_cell g s)" if "s \<noteq> Cmp c" for s
    using f(1) [of s] that by (simp add: g2_def)
  define h2 where "h2 = g2\<lparr>gr_cell := f, gr_comp := (gr_comp g)(c := k\<lparr>k_deps := ds, k_dirty := True\<rparr>)\<rparr>"
  have sub: "upd_comp c (\<lambda>x. x\<lparr>k_dirty := True\<rparr>) (subscribeToDeps c (List.map (read_at g) ss) g2) = h2"
  proof -
    have "deps_of g2 c = []" by (simp add: g2_def k_def)
    then have "subscribeToDeps c (List.map (read_at g) ss) g2 = upd_comp c (\<lambda>x. x\<lparr>k_deps := ds\<rparr>) (g2\<lparr>gr_cell := f\<rparr>)"
      by (simp add: subscribeToDeps_new h(1))
    then show ?thesis by (simp only:) (simp add: g2_def k_def h2_def)
  qed
  define u where "u = start_round c (claim c h2)"
  have src: "refresh_src (run_task (Suc m)) s u = Some u" if "s \<in> set ss" for s m
  proof (cases s)
    case (Cmp x)
    then have "x \<noteq> c" using ne [OF that] by simp
    then have "\<not> dirty u x" using cl [of x] by (simp add: u_def h2_def clean_def)
    then show ?thesis by (simp add: Cmp refresh_src_def refresh_def)
  qed (simp add: refresh_src_def)
  have same: "\<not> list_ex (changed_dep u) ds"
    using dr cells ne by (auto simp: list_ex_iff changed_dep_def u_def h2_def g2_def)
  have dp: "deps_of (claim c h2) c = ds" "\<not> stopped (claim c h2) c" "dirty (claim c h2) c" by (simp_all add: h2_def k_def)
  have ck: "ofold (check_dep (run_task (Suc (Suc n)))) ds (u, False) = Some (u, False)"
    using ofold_check_clean [of ds "run_task (Suc (Suc n))" u False] src h(2) same by (auto simp del: run_task.simps)
  have "run_task (Suc (Suc (Suc (Suc n)))) (TRefresh c) h2 = run_task (Suc (Suc (Suc n))) (TLoop c) (claim c h2)"
    by (simp add: refresh_def h2_def k_def)
  also have "\<dots> = run_task (Suc (Suc n)) (TLoop c) u"
    using loop_round [OF dp(2,3), of "Suc (Suc n)"] ck dp(1) by (simp add: u_def del: run_task.simps)
  also have "\<dots> = Some (unrefresh c u)" by (rule loop_exit) (simp add: u_def)
  finally have run: "run_task (Suc (Suc (Suc (Suc n)))) (TRefresh c) h2 = Some (unrefresh c u)" .
  have "Derive (Suc (Suc (Suc (Suc n)))) b eq g =
      run_task (Suc (Suc (Suc (Suc n)))) (TRefresh c) (upd_comp c (\<lambda>x. x\<lparr>k_dirty := True\<rparr>) (subscribeToDeps c (List.map (read_at g) ss) g2))"
    using tr by (simp add: Derive_def Let_def c_def k_def g2_def del: run_task.simps)
  then have run': "Derive (Suc (Suc (Suc (Suc n)))) b eq g = Some (unrefresh c u)" using run by (simp only: sub)
  have "unrefresh c u = g\<lparr>gr_cell := f, gr_comps := c + 1, gr_comp := (gr_comp g)(c := k\<lparr>k_deps := ds\<rparr>)\<rparr>"
    by (simp add: u_def h2_def g2_def k_def)
  moreover have "subscriber (g\<lparr>gr_cell := f\<rparr>) s y \<longleftrightarrow> s \<noteq> Cmp c \<and> subscriber g s y \<or> y = c \<and> s \<in> set ss" for s y
    using f(2) [of s y] by (simp add: subscriber_def g2_def new_cell_def)
  moreover have "g_value (f (Cmp c)) = v \<and> g_equal (f (Cmp c)) = eq" using f(1) [of "Cmp c"] by (simp add: g2_def new_cell_def)
  ultimately have "extends g b eq ss ds f (unrefresh c u)" using h(2) dr cells unfolding extends_def c_def [symmetric] v_def k_def by simp
  then show ?thesis using run' by blast
qed

lemma calm_derive:
  assumes "calm g" "fixed_reads b ss" "distinct ss" "list_all (declared_src (gr_sigs g) (gr_comps g)) ss" "lawful eq"
  shows "\<exists>t. Derive (Suc (Suc (Suc (Suc n)))) b eq g = Some t \<and> calm t \<and> gr_sigs t = gr_sigs g \<and> gr_comps t = gr_comps g + 1 \<and>
    (store_of t, vs) = meaning (CDerive b eq) (store_of g, vs)"
proof -
  define c where "c = gr_comps g"
  obtain ds f t where D0: "Derive (Suc (Suc (Suc (Suc n)))) b eq g = Some t" and "extends g b eq ss ds f t"
    using derive_graph [OF assms(1-4)] by blast
  then have t_def: "t = g\<lparr>gr_cell := f, gr_comps := c + 1,
      gr_comp := (gr_comp g)(c := \<lparr>k_body = b, k_deps = ds, k_dirty = False, k_refreshing = False, k_stopped = False\<rparr>)\<rparr>"
    and D: "List.map dp_source ds = ss" "\<And>d. d \<in> set ds \<Longrightarrow> dp_rev d = rev_of g (dp_source d)"
    "\<And>s. s \<noteq> Cmp c \<Longrightarrow> g_value (f s) = value_of g s \<and> g_rev (f s) = rev_of g s \<and> g_equal (f s) = g_equal (gr_cell g s)"
    "g_value (f (Cmp c)) = eval_rd b (value_of g)" "g_equal (f (Cmp c)) = eq"
    "\<And>s y. subscriber (g\<lparr>gr_cell := f\<rparr>) s y \<longleftrightarrow> s \<noteq> Cmp c \<and> subscriber g s y \<or> y = c \<and> s \<in> set ss"
    unfolding extends_def c_def by blast+
  have wd: "wired g" and cl: "\<And>x. clean g x" and iv: "consistent g" using assms(1) by (simp_all add: calm_def consistent_def)
  have ct: "gr_comps t = Suc c" "gr_sigs t = gr_sigs g" "gr_depth t = gr_depth g" "gr_cell t = f" by (simp_all add: t_def)
  have own: "k_body (gr_comp t c) = b" "deps_of t c = ds" "sources t c = ss" "\<not> stopped t c" "clean t c"
    using D(1) by (simp_all add: t_def sources_def clean_def)
  have old: "gr_comp t x = gr_comp g x" "sources t x = sources g x" "clean t x" if "x \<noteq> c" for x
    using cl [of x] that by (simp_all add: t_def sources_def clean_def)
  have ssk: "declared_src (gr_sigs g) c s" if "s \<in> set ss" for s using assms(4) that by (simp add: list_all_iff c_def)
  have ne: "s \<noteq> Cmp c" if "s \<in> set ss" for s using ssk [OF that] by (auto simp: declared_src_def)
  have sub: "subscriber t s y \<longleftrightarrow> s \<noteq> Cmp c \<and> subscriber g s y \<or> y = c \<and> s \<in> set ss" for s y
    using D(6) [of s y] by (simp add: subscriber_def t_def)
  have lt: "x < c" if "Cmp x \<in> set (sources g y)" "y < c" for x y using wiredD(5) [OF wd, of y x] that by (simp add: c_def)
  have src: "s \<noteq> Cmp c" if "s \<in> set (sources g y)" "y < c" for s y using that lt by blast
  have clean: "clean t x" for x using own(5) old(3) by (cases "x = c") simp_all
  have clt: "clean_src t s" for s using clean by (simp add: clean_src_def)
  have "wired t"
    unfolding wired_def
  proof (intro conjI allI impI ballI)
    fix x assume x: "x < gr_comps t"
    show "fixed_reads (k_body (gr_comp t x)) (sources t x)"
      using wiredD(1) [OF wd, of x] own old(1,2) [of x] assms(2) x ct(1) by (cases "x = c") (simp_all add: c_def)
    show "distinct (sources t x)" using wiredD(2) [OF wd, of x] own old(2) [of x] assms(3) x ct(1) by (cases "x = c") (simp_all add: c_def)
    show "\<not> stopped t x" using wiredD(3) [OF wd, of x] own old(1) [of x] x ct(1) by (cases "x = c") (simp_all add: c_def)
    fix s assume s: "s \<in> set (sources t x)"
    show "subscriber t s x"
      using wiredD(4) [OF wd, of x s] own old(2) [of x] x ct(1) s sub [of s x] src [of s x] ne by (cases "x = c") (simp_all add: c_def)
    show "y < x" if y: "s = Cmp y" for y
      using wiredD(5) [OF wd, of x y] own old(2) [of x] x ct(1) s y ssk [of s] by (cases "x = c") (simp_all add: c_def declared_src_def)
  next
    fix x eq' u v assume x: "x < gr_comps t" and e: "g_equal (gr_cell t (Cmp x)) = Some eq'" "eq' u v"
    show "u = v"
    proof (cases "x = c")
      case True
      then show ?thesis using e assms(5) D(5) by (auto simp: ct(4) lawful_def)
    next
      case False
      have "g_equal (gr_cell g (Cmp x)) = Some eq'" using e(1) False D(3) [of "Cmp x"] by (simp add: ct(4))
      then show ?thesis using wiredD(6) [OF wd, of x eq' u v] e(2) x ct(1) False by (simp add: c_def)
    qed
  next
    fix s y assume "subscriber t s y"
    then have y: "s \<noteq> Cmp c \<and> subscriber g s y \<or> y = c \<and> s \<in> set ss" using sub by blast
    then show "y < gr_comps t" using wired_sub(1) [OF wd, of s y] by (auto simp: ct(1) c_def)
    show "x < y" if "s = Cmp x" for x using y that wired_sub(2) [OF wd, of x y] ssk [of s] by (auto simp: declared_src_def)
  next
    fix x assume "gr_comps t \<le> x"
    then show "sources t x = []" using old(2) [of x] wired_unused [OF wd, of x] ct(1) by (simp add: c_def)
  qed
  moreover have "snap t x \<and> (clean t x \<longrightarrow> fresh_deps t x)" if x: "x < gr_comps t" for x
  proof (cases "x = c")
    case True
    have "snap t c" unfolding snap_def
    proof (intro exI [of _ "value_of g"] conjI ballI impI)
      show "eval_rd (k_body (gr_comp t c)) (value_of g) = value_of t (Cmp c)" using own(1) D(4) ct(4) by simp
      fix d assume "d \<in> set (deps_of t c)"
      then have d: "d \<in> set ds" "dp_source d \<noteq> Cmp c" using own(2) ne D(1) by force+
      show "dp_rev d \<le> rev_of t (dp_source d)" "value_of g (dp_source d) = value_of t (dp_source d)" using D(2) [OF d(1)] D(3) [OF d(2)] ct(4) by simp_all
    qed
    moreover have "fresh_deps t c" unfolding fresh_deps_def
    proof (intro ballI conjI)
      fix d assume "d \<in> set (deps_of t c)"
      then have d: "d \<in> set ds" "dp_source d \<noteq> Cmp c" using own(2) ne D(1) by force+
      show "\<not> changed_dep t d" using D(2) [OF d(1)] D(3) [OF d(2)] ct(4) by (simp add: changed_dep_def)
    qed (rule clt)
    ultimately show ?thesis using True by simp
  next
    case False
    have xc: "x < c" using x False ct(1) by simp
    have s: "dp_source d \<noteq> Cmp c" if "d \<in> set (deps_of g x)" for d using src [OF source_of [OF that] xc] .
    have "snap g x" "fresh_deps g x" using iv cl [of x] xc by (simp_all add: consistent_def c_def)
    moreover have "snap t x" if "snap g x" using that False old(1) [OF False] D(3) s ct(4) by (auto simp: snap_def)
    moreover have "fresh_deps t x" if "fresh_deps g x"
      using that False old(1) [OF False] D(3) s ct(4) clt by (auto simp: fresh_deps_def changed_dep_def)
    ultimately show ?thesis by blast
  qed
  ultimately have "consistent t" by (simp add: consistent_def)
  moreover have "i < gr_sigs t" if "x < gr_comps t" "Sig i \<in> set (sources t x)" for x i
    using that assms(1) ssk [of "Sig i"] own(3) old(2) [of x] ct(1,2) by (cases "x = c") (auto simp: calm_def declared_src_def c_def less_Suc_eq)
  ultimately have "calm t" using assms(1) ct(3) clean by (simp add: calm_def)
  moreover have "store_of t = (store_of g)\<lparr>st_body := (bodies g)(c := b), st_comps := c + 1\<rparr>"
    using D(3) by (simp add: store_of_def t_def fun_eq_iff)
  ultimately show ?thesis using D0 ct(1,2) by (auto simp: store_of_def c_def)
qed

lemma calm_new:
  assumes "calm g"
  shows "calm (NewSignal v eq g)" "(store_of (NewSignal v eq g), vs) = meaning (CNew v eq) (store_of g, vs)"
    "gr_sigs (NewSignal v eq g) = gr_sigs g + 1" "gr_comps (NewSignal v eq g) = gr_comps g"
proof -
  let ?t = "NewSignal v eq g" and ?s = "Sig (gr_sigs g)"
  have wd: "wired g" using assms by (simp add: calm_def consistent_def)
  have un: "?s \<notin> set (sources g c)" if "c < gr_comps g" for c using assms that by (auto simp: calm_def)
  have same: "gr_comp ?t = gr_comp g" "gr_comps ?t = gr_comps g" "gr_depth ?t = gr_depth g" "sources ?t = sources g" "clean ?t = clean g"
    "s \<noteq> ?s \<Longrightarrow> gr_cell ?t s = gr_cell g s" "gr_cell ?t (Cmp c) = gr_cell g (Cmp c)" for s c
    by (auto simp: NewSignal_def sources_def clean_def fun_eq_iff)
  have sub: "subscriber ?t s y \<longleftrightarrow> s \<noteq> ?s \<and> subscriber g s y" for s y by (simp add: NewSignal_def subscriber_def new_cell_def)
  have ds: "dp_source d \<noteq> ?s" if "d \<in> set (deps_of g c)" "c < gr_comps g" for d c using source_of [OF that(1)] un [OF that(2)] by auto
  have "wired ?t"
    unfolding wired_def same
    using wd un by (auto simp: wired_def sub)
  moreover have "snap ?t c \<and> (clean ?t c \<longrightarrow> fresh_deps ?t c)" if c: "c < gr_comps ?t" for c
  proof -
    have g: "snap g c" "fresh_deps g c" using assms c same(2) by (simp_all add: calm_def consistent_def)
    have k: "gr_cell ?t (dp_source d) = gr_cell g (dp_source d)" if "d \<in> set (deps_of g c)" for d using same(6) ds that c same(2) by simp
    have "snap ?t c" using g(1) k unfolding snap_def same by auto
    moreover have "fresh_deps ?t c" using g(2) k by (simp add: fresh_deps_def same changed_dep_def clean_src_def)
    ultimately show ?thesis by simp
  qed
  ultimately show "calm ?t" using assms by (auto simp: calm_def consistent_def same) (auto simp: NewSignal_def less_Suc_eq)
  show "(store_of ?t, vs) = meaning (CNew v eq) (store_of g, vs)" by (auto simp: store_of_def NewSignal_def new_cell_def fun_eq_iff)
  show "gr_sigs ?t = gr_sigs g + 1" "gr_comps ?t = gr_comps g" by (simp_all add: NewSignal_def)
qed

text \<open>An observer of the client is told of changes, not asked for invalidation.\<close>

lemma calm_subscribe:
  fixes g :: "'v graph"
  assumes "calm g"
  shows "calm (snd (subscribe s fn None g))" "store_of (snd (subscribe s fn None g)) = store_of g"
    "gr_sigs (snd (subscribe s fn None g)) = gr_sigs g" "gr_comps (snd (subscribe s fn None g)) = gr_comps g"
proof -
  define t where "t = snd (subscribe s fn None g)"
  have cells: "g_value (gr_cell t u) = value_of g u" "g_rev (gr_cell t u) = rev_of g u" "g_equal (gr_cell t u) = g_equal (gr_cell g u)"
    "subscriber t = subscriber g" for u
    by (auto simp: t_def subscribe_def Let_def subscriber_def fun_eq_iff)
  have al: "gr_comp t = gr_comp g" "gr_comps t = gr_comps g" "gr_depth t = gr_depth g" "gr_sigs t = gr_sigs g"
    by (simp_all add: t_def subscribe_def Let_def)
  have "wiring t = wiring g" by (simp add: wiring_def cells al sources_def)
  then have "wired t = wired g" by (rule wired_cong)
  moreover have "snap t = snap g" "clean t = clean g" "fresh_deps t = fresh_deps g" "sources t = sources g"
    by (simp_all add: snap_def clean_def fresh_deps_def clean_src_def changed_dep_def sources_def cells al fun_eq_iff)
  ultimately show "calm (snd (subscribe s fn None g))" using assms by (simp add: t_def [symmetric] calm_def consistent_def al)
  show "store_of (snd (subscribe s fn None g)) = store_of g" by (simp add: t_def [symmetric] store_of_def cells al)
  show "gr_sigs (snd (subscribe s fn None g)) = gr_sigs g" "gr_comps (snd (subscribe s fn None g)) = gr_comps g"
    using al by (simp_all add: t_def)
qed

lemma declare_all:
  assumes "n > 3"
  shows "calm g \<Longrightarrow> declares (gr_sigs g) (gr_comps g) ds \<Longrightarrow>
    \<exists>t. ofold (run_cmd n) ds (g, vs) = Some (t, vs) \<and> calm t \<and> (store_of t, vs) = fold meaning ds (store_of g, vs)"
proof (induction ds arbitrary: g)
  case (Cons d ds)
  obtain m where m: "n = Suc (Suc (Suc (Suc m)))" using assms by (auto dest!: less_imp_Suc_add simp: numeral_eq_Suc)
  obtain t where t: "run_cmd n d (g, vs) = Some (t, vs)" "calm t" "(store_of t, vs) = meaning d (store_of g, vs)"
    "declares (gr_sigs t) (gr_comps t) ds"
  proof (cases d)
    case (CNew v eq)
    then show ?thesis using that [of "NewSignal v eq g"] calm_new [OF Cons.prems(1)] Cons.prems(2) by simp
  next
    case (CSubscribe s k)
    then show ?thesis using that [of "snd (subscribe s (Observe k) None g)"] calm_subscribe [OF Cons.prems(1)] Cons.prems(2) by simp
  next
    case (CDerive b eq)
    then obtain ss where "fixed_reads b ss" "distinct ss" "list_all (declared_src (gr_sigs g) (gr_comps g)) ss" "lawful eq"
      "declares (gr_sigs g) (gr_comps g + 1) ds" using Cons.prems(2) by auto
    then show ?thesis using that calm_derive [OF Cons.prems(1), of b ss eq m vs] CDerive m by auto
  qed (use Cons.prems(2) in simp_all)
  obtain u where u: "ofold (run_cmd n) ds (t, vs) = Some (u, vs)" "calm u" "(store_of u, vs) = fold meaning ds (store_of t, vs)"
    using Cons.IH [OF t(2,4)] by blast
  then show ?case using t(1,3) by simp
qed simp

lemma calm_empty: "calm (empty_graph v obs)"
  by (simp add: calm_def consistent_def wired_def empty_graph_def clean_def sources_def subscriber_def new_cell_def)

lemma calm_quiet: "calm g \<Longrightarrow> quiet (begin_batch g)"
  using consistent_begin [of g] by (simp add: quiet_def calm_def clean_def) (simp add: begin_batch_def)

end
