(* ===== verification/Signal_Claims.thy ===== *)
theory Signal_Claims
  imports Signal_Graph
begin

text \<open>
  What every command of a client keeps, whatever the derived values read and whatever the callbacks do: a
  refresh that returns has released its claim on the derived value, and the identifiers of the
  subscriptions of a source stay in the order of subscription, so that an unsubscription takes out the
  entry it was made for.
\<close>

section \<open>What is kept\<close>

abbreviation claims :: "'v graph \<Rightarrow> nat \<Rightarrow> bool" where "claims g \<equiv> \<lambda>c. refreshing g c"

definition subs_ok :: "'v cell \<Rightarrow> bool" where
  "subs_ok x \<longleftrightarrow> sorted_wrt (<) (List.map sb_id (g_subs x)) \<and> (\<forall>e \<in> set (g_subs x). sb_id e < g_next x)"

definition preserves :: "'v graph \<Rightarrow> 'v graph \<Rightarrow> bool" where
  "preserves g t \<longleftrightarrow> claims t = claims g \<and> length (gr_windows t) = length (gr_windows g) \<and> (\<forall>s. subs_ok (gr_cell g s) \<longrightarrow> subs_ok (gr_cell t s))"

lemma preserves_refl [simp]: "preserves g g" by (simp add: preserves_def)

lemma preserves_trans: "preserves g s \<Longrightarrow> preserves s t \<Longrightarrow> preserves g t" by (simp add: preserves_def)

lemma preserves_cell: "(\<And>x. subs_ok x \<Longrightarrow> subs_ok (f x)) \<Longrightarrow> preserves g (upd_cell s f g)"
  by (simp add: preserves_def)

lemma preserves_comp: "(\<And>x. k_refreshing (f x) = k_refreshing x) \<Longrightarrow> preserves g (upd_comp c f g)"
  by (simp add: preserves_def fun_eq_iff)

lemma preserves_rest [simp]: "preserves g (g\<lparr>gr_log := l\<rparr>)" "preserves g (g\<lparr>gr_queue := q\<rparr>)" "preserves g (g\<lparr>gr_eff := f\<rparr>)" "preserves g (g\<lparr>gr_effs := n\<rparr>)"
    "preserves g (g\<lparr>gr_depth := n\<rparr>)" "preserves g (g\<lparr>gr_sigs := n\<rparr>)" "preserves g (g\<lparr>gr_comps := n\<rparr>)"
  by (simp_all add: preserves_def)

lemma preserves_fold: "(\<And>x g. preserves g (f x g)) \<Longrightarrow> preserves g (fold f xs g)"
  by (induction xs arbitrary: g) (auto intro: preserves_trans)

lemma preserves_ofold:
  assumes "\<forall>x g t. f x g = Some t \<longrightarrow> preserves g t"
  shows "ofold f xs g = Some t \<Longrightarrow> preserves g t"
proof (induction xs arbitrary: g)
  case (Cons x xs)
  then obtain s where s: "f x g = Some s" "ofold f xs s = Some t" by (auto split: option.splits)
  then show ?case using preserves_trans Cons.IH [OF s(2)] assms by blast
qed simp

section \<open>Subscriptions\<close>

lemma drop_entry_ids: "set (drop_entry i es) \<subseteq> set es" "sorted_wrt (<) (List.map sb_id es) \<Longrightarrow> sorted_wrt (<) (List.map sb_id (drop_entry i es))"
proof -
  show sub: "set (drop_entry i es) \<subseteq> set es" for es by (induction es) auto
  show "sorted_wrt (<) (List.map sb_id es) \<Longrightarrow> sorted_wrt (<) (List.map sb_id (drop_entry i es))"
    by (induction es) (use sub in force)+
qed

lemma preserves_unsubscribe: "preserves g (unsubscribe s i g)"
  unfolding unsubscribe_def
  by (rule preserves_cell) (use drop_entry_ids in \<open>fastforce simp: subs_ok_def\<close>)

lemma preserves_subscribe: "subscribe s fn inval g = (i, t) \<Longrightarrow> preserves g t"
  unfolding subscribe_def Let_def
  by (auto simp: preserves_def subs_ok_def sorted_wrt_append less_Suc_eq)

lemma preserves_write: "preserves g (write_cell s v g)"
  unfolding write_cell_def by (rule preserves_cell) (simp add: subs_ok_def)

lemma preserves_subscribe_deps: "subscribe_deps c deps g = (ds, t) \<Longrightarrow> preserves g t"
  by (induction deps arbitrary: g ds) (auto simp: Let_def split: prod.splits intro: preserves_trans preserves_subscribe)

lemma preserves_subscribeToDeps: "preserves g (subscribeToDeps c deps g)"
proof (cases "reuse (deps_of g c) deps")
  case None
  define h where "h = fold (\<lambda>d. unsubscribe (dp_source d) (dp_sub d)) (deps_of g c) g"
  obtain ds t where t: "subscribe_deps c deps h = (ds, t)" by fastforce
  have "preserves g h" unfolding h_def by (rule preserves_fold) (rule preserves_unsubscribe)
  moreover have "preserves t (upd_comp c (\<lambda>x. x\<lparr>k_deps := ds\<rparr>) t)" by (rule preserves_comp) simp
  ultimately have "preserves g (upd_comp c (\<lambda>x. x\<lparr>k_deps := ds\<rparr>) t)" using preserves_subscribe_deps [OF t] preserves_trans by blast
  then show ?thesis using None t by (simp add: subscribeToDeps_def h_def)
next
  case (Some ds)
  have "preserves g (upd_comp c (\<lambda>x. x\<lparr>k_deps := ds\<rparr>) g)" by (rule preserves_comp) simp
  then show ?thesis using Some by (simp add: subscribeToDeps_def)
qed

lemma preserves_invalidate: "preserves g (invalidate n c g)"
proof (induction n arbitrary: c g)
  case (Suc n)
  have "preserves g (upd_comp c (\<lambda>x. x\<lparr>k_dirty := True\<rparr>) g)" by (rule preserves_comp) simp
  then show ?case using preserves_trans [OF _ preserves_fold [of "invalidate n", OF Suc.IH]] by (simp add: Let_def)
qed simp

lemma preserves_invalidate_all: "preserves g (invalidate_all cs g)"
  unfolding invalidate_all_def by (rule preserves_fold) (rule preserves_invalidate)

lemma preserves_watch_dep: "preserves g (watch_dep e d g)"
proof -
  obtain i t where t: "subscribe (dp_source d) (RunEffect e) None g = (i, t)" by fastforce
  show ?thesis using preserves_trans [OF preserves_subscribe [OF t] preserves_rest(3)] t by (simp add: watch_dep_def)
qed

lemma preserves_drop_unsubs: "preserves g (drop_unsubs e g)"
  unfolding drop_unsubs_def Let_def
  by (rule preserves_trans [OF preserves_rest(3) preserves_fold]) (auto simp: preserves_unsubscribe split: prod.split)

section \<open>Calls\<close>

text \<open>A call ends with the claims it began with, except that the loop of \<open>refresh\<close> releases its own.\<close>

definition released :: "task \<Rightarrow> 'v graph \<Rightarrow> 'v graph" where
  "released tk g = (case tk of TLoop c \<Rightarrow> upd_comp c (\<lambda>x. x\<lparr>k_refreshing := False\<rparr>) g | _ \<Rightarrow> g)"

lemma released_simps [simp]: "released (TRefresh c) g = g" "released (TDeliver cb) g = g" "released (TNotify cbs) g = g"
    "released (TLoop c) g = upd_comp c (\<lambda>x. x\<lparr>k_refreshing := False\<rparr>) g"
  by (simp_all add: released_def)

text \<open>What the calls one level deeper promise.\<close>

definition releases :: "(task \<Rightarrow> 'v graph \<Rightarrow> 'v graph option) \<Rightarrow> bool" where
  "releases go \<longleftrightarrow> (\<forall>tk g t. go tk g = Some t \<longrightarrow> preserves (released tk g) t)"

lemma releasesD:
  assumes "releases go"
  shows "go (TRefresh c) g = Some t \<Longrightarrow> preserves g t" "go (TDeliver cb) g = Some t \<Longrightarrow> preserves g t" "go (TNotify cbs) g = Some t \<Longrightarrow> preserves g t"
    "go (TLoop c) g = Some t \<Longrightarrow> preserves (upd_comp c (\<lambda>x. x\<lparr>k_refreshing := False\<rparr>) g) t"
  using assms unfolding releases_def by (metis released_simps)+

lemma preserves_refresh_src: "releases go \<Longrightarrow> refresh_src go s g = Some t \<Longrightarrow> preserves g t"
  by (cases s) (auto simp: refresh_src_def dest: releasesD)

lemma preserves_read_src:
  assumes "releases go" "read_src (refresh_src go) s g = Some (v, t)"
  shows "preserves g t"
proof -
  obtain h where h: "refresh_src go s g = Some h" "t = record_dep s (rev_of h s) h" using assms(2) by (auto simp: read_src_def split: option.splits)
  have "preserves h t" by (auto simp: h(2) record_dep_def preserves_def split: list.split)
  then show ?thesis by (rule preserves_trans [OF preserves_refresh_src [OF assms(1) h(1)]])
qed

lemma preserves_eval: "releases go \<Longrightarrow> eval_body (refresh_src go) b g = Some (v, t) \<Longrightarrow> preserves g t"
proof (induction b arbitrary: g)
  case (Read s k)
  then obtain x u where u: "read_src (refresh_src go) s g = Some (x, u)" "eval_body (refresh_src go) (k x) u = Some (v, t)"
    by (auto split: option.splits)
  show ?case by (rule preserves_trans [OF preserves_read_src [OF Read.prems(1) u(1)] Read.IH [OF rangeI Read.prems(1) u(2)]])
qed simp

text \<open>A tracking window is closed by the one who opened it.\<close>

lemma preserves_track:
  assumes "releases go" "track (refresh_src go) b g = Some (v, ds, t)"
  shows "preserves g t"
proof -
  let ?h = "g\<lparr>gr_windows := [] # gr_windows g\<rparr>"
  obtain u where u: "eval_body (refresh_src go) b ?h = Some (v, u)" "t = u\<lparr>gr_windows := tl (gr_windows u)\<rparr>"
    using assms(2) by (auto simp: track_def split: option.splits)
  have p: "preserves ?h u" by (rule preserves_eval [OF assms(1) u(1)])
  then have "length (gr_windows u) = Suc (length (gr_windows g))" by (simp add: preserves_def)
  then show ?thesis using p by (simp add: u(2) preserves_def)
qed

lemma preserves_read_all: "releases go \<Longrightarrow> read_all (refresh_src go) ss g = Some (vs, t) \<Longrightarrow> preserves g t"
proof (induction ss arbitrary: g vs)
  case (Cons s ss)
  then obtain x u xs where u: "read_src (refresh_src go) s g = Some (x, u)" "read_all (refresh_src go) ss u = Some (xs, t)"
    by (auto split: option.splits)
  show ?case by (rule preserves_trans [OF preserves_read_src [OF Cons.prems(1) u(1)] Cons.IH [OF Cons.prems(1) u(2)]])
qed simp

lemma preserves_check_deps: "releases go \<Longrightarrow> ofold (check_dep go) ds (g, b) = Some (t, b') \<Longrightarrow> preserves g t"
  by (induction ds arbitrary: g b) (auto simp: check_dep_def split: option.splits intro: preserves_trans dest: preserves_refresh_src)

lemma claims_release: "claims (upd_comp c (\<lambda>x. x\<lparr>k_refreshing := False\<rparr>) g) = (claims g)(c := False)"
  by (simp add: fun_eq_iff)

text \<open>Up to the claim on \<open>c\<close>.\<close>

definition frees :: "nat \<Rightarrow> 'v graph \<Rightarrow> 'v graph \<Rightarrow> bool" where
  "frees c g t \<longleftrightarrow> claims t = (claims g)(c := False) \<and> length (gr_windows t) = length (gr_windows g) \<and> (\<forall>s. subs_ok (gr_cell g s) \<longrightarrow> subs_ok (gr_cell t s))"

lemma frees_iff: "frees c g t \<longleftrightarrow> preserves (upd_comp c (\<lambda>x. x\<lparr>k_refreshing := False\<rparr>) g) t"
  by (simp add: frees_def preserves_def fun_eq_iff)

lemma frees_keeps: "preserves g s \<Longrightarrow> frees c s t \<Longrightarrow> frees c g t" "frees c g s \<Longrightarrow> preserves s t \<Longrightarrow> frees c g t"
  by (simp_all add: frees_def preserves_def)

lemma frees_own: "frees c g (upd_comp c (\<lambda>x. x\<lparr>k_refreshing := False\<rparr>) g)"
  by (simp add: frees_iff)

lemma frees_loop: "releases go \<Longrightarrow> go (TLoop c) g = Some t \<Longrightarrow> frees c g t"
  by (simp add: frees_iff releasesD(4))

lemma frees_publish:
  assumes "releases go" "publish go c notify v g = Some t"
  shows "frees c g t"
proof (cases notify)
  case False
  then show ?thesis using assms(2) frees_own by (auto simp: publish_def)
next
  case True
  define h where "h = upd_comp c (\<lambda>x. x\<lparr>k_refreshing := False\<rparr>) (write_cell (Cmp c) v g)"
  have "frees c g h" unfolding h_def by (rule frees_keeps(1) [OF preserves_write frees_own])
  moreover have "preserves (invalidate_all (invalidators (subs_of g (Cmp c))) h) t"
    by (rule releasesD(3) [OF assms(1)]) (use assms(2) True in \<open>simp add: publish_def h_def Let_def\<close>)
  ultimately show ?thesis using frees_keeps(2) preserves_trans [OF preserves_invalidate_all] by blast
qed

lemma frees_recompute:
  assumes "releases go" "recompute go c g = Some t"
  shows "frees c g t"
proof -
  obtain v deps h where h: "track (refresh_src go) (k_body (gr_comp g c)) g = Some (v, deps, h)"
    using assms(2) by (auto simp: recompute_def split: option.splits)
  have k: "preserves g h" by (rule preserves_track [OF assms(1) h])
  let ?h = "subscribeToDeps c deps h"
  have kd: "preserves h ?h" "preserves ?h (upd_comp c (\<lambda>x. x\<lparr>k_dirty := True\<rparr>) ?h)" by (rule preserves_subscribeToDeps, rule preserves_comp, simp)
  consider "t = upd_comp c (\<lambda>x. x\<lparr>k_refreshing := False\<rparr>) h" | "go (TLoop c) (upd_comp c (\<lambda>x. x\<lparr>k_dirty := True\<rparr>) ?h) = Some t"
    | "publish go c (\<not> same_value h (Cmp c) v) v ?h = Some t"
    using assms(2) h by (cases "stopped h c"; cases "list_ex (changed_dep ?h) deps") (simp_all add: recompute_def Let_def)
  then show ?thesis
  proof cases
    case 1
    then show ?thesis using frees_keeps(1) [OF k frees_own] by simp
  next
    case 2
    then show ?thesis using frees_keeps(1) [OF preserves_trans [OF k preserves_trans [OF kd]] frees_loop [OF assms(1)]] by blast
  next
    case 3
    then show ?thesis using frees_keeps(1) [OF preserves_trans [OF k kd(1)] frees_publish [OF assms(1)]] by blast
  qed
qed

lemma frees_refresh_loop:
  assumes "releases go" "refresh_loop go c g = Some t"
  shows "frees c g t"
proof (cases "stopped g c \<or> \<not> dirty g c")
  case True
  then show ?thesis using assms(2) frees_own by (auto simp: refresh_loop_def)
next
  case False
  let ?g = "upd_comp c (\<lambda>x. x\<lparr>k_dirty := False\<rparr>) g"
  obtain h ch where h: "ofold (check_dep go) (deps_of g c) (?g, False) = Some (h, ch)"
    "(if \<not> ch then go (TLoop c) h else recompute go c h) = Some t"
    using assms(2) False by (auto simp: refresh_loop_def split: option.splits)
  have "preserves g ?g" by (rule preserves_comp) simp
  then have "preserves g h" using preserves_check_deps [OF assms(1) h(1)] preserves_trans by blast
  moreover have "frees c h t" using h(2) frees_loop [OF assms(1)] frees_recompute [OF assms(1)] by (auto split: if_splits)
  ultimately show ?thesis by (rule frees_keeps(1))
qed

lemma preserves_refresh:
  assumes "releases go" "refresh go c g = Some t"
  shows "preserves g t"
proof (cases "stopped g c \<or> \<not> dirty g c \<or> refreshing g c")
  case False
  let ?g = "upd_comp c (\<lambda>x. x\<lparr>k_refreshing := True\<rparr>) g"
  have "frees c ?g t" using assms False by (auto simp: refresh_def intro: frees_loop)
  then show ?thesis using False by (auto simp: frees_def preserves_def fun_eq_iff)
qed (use assms(2) in \<open>auto simp: refresh_def\<close>)

lemma preserves_deliver:
  assumes "releases go" "deliver_call go cb g = Some t"
  shows "preserves g t"
proof (cases cb)
  case (Observe k)
  then show ?thesis using assms by (auto simp: deliver_call_def observe_def split: option.splits dest: preserves_read_all intro: preserves_trans)
next
  case (DepChange c)
  have "preserves g (upd_comp c (\<lambda>x. x\<lparr>k_dirty := True\<rparr>) g)" by (rule preserves_comp) simp
  then show ?thesis using assms DepChange by (auto simp: deliver_call_def onDepChange_def Let_def split: if_splits dest: releasesD(1) intro: preserves_trans)
next
  case (RunEffect e)
  show ?thesis
  proof (cases "f_dead (gr_eff g e)")
    case False
    then obtain v deps h where h: "track (refresh_src go) (f_body (gr_eff g e)) (drop_unsubs e g) = Some (v, deps, h)"
      and t: "t = h\<lparr>gr_log := gr_log h @ [(RunEffect e, [v])]\<rparr> \<or> t = fold (watch_dep e) deps (h\<lparr>gr_log := gr_log h @ [(RunEffect e, [v])]\<rparr>)"
      using assms(2) RunEffect by (auto simp: deliver_call_def run_effect_def Let_def split: option.splits if_splits)
    have "preserves g h" by (rule preserves_trans [OF preserves_drop_unsubs preserves_track [OF assms(1) h]])
    moreover have "preserves h t" using t preserves_trans [OF preserves_rest(1) preserves_fold [of "watch_dep e", OF preserves_watch_dep]] by auto
    ultimately show ?thesis by (rule preserves_trans)
  qed (use assms(2) RunEffect in \<open>auto simp: deliver_call_def run_effect_def\<close>)
qed

lemma preserves_batchNotify:
  assumes "releases go" "batchNotify go cbs g = Some t"
  shows "preserves g t"
proof (cases "cbs = [] \<or> gr_depth g > 0")
  case False
  then have "ofold (\<lambda>cb. go (TDeliver cb)) cbs g = Some t" using assms(2) by (auto simp: batchNotify_def)
  then show ?thesis using preserves_ofold [of "\<lambda>cb. go (TDeliver cb)"] releasesD(2) [OF assms(1)] by blast
qed (use assms(2) in \<open>auto simp: batchNotify_def split: if_splits\<close>)

text \<open>So does every call, at every depth.\<close>

lemma run_task_releases: "releases (run_task n)"
proof (induction n)
  case 0
  show ?case by (simp add: releases_def)
next
  case (Suc n)
  show ?case unfolding releases_def
  proof (intro allI impI)
    fix tk and g t :: "'a graph"
    assume r: "run_task (Suc n) tk g = Some t"
    show "preserves (released tk g) t"
      using r preserves_refresh [OF Suc] preserves_deliver [OF Suc] preserves_batchNotify [OF Suc] frees_refresh_loop [OF Suc]
      by (cases tk) (auto simp: frees_iff)
  qed
qed

section \<open>Commands\<close>

definition idle_ok :: "'v graph \<Rightarrow> bool" where
  "idle_ok g \<longleftrightarrow> gr_windows g = [] \<and> (\<forall>c. \<not> refreshing g c) \<and> (\<forall>s. subs_ok (gr_cell g s))"

lemma idle_keeps: "idle_ok g \<Longrightarrow> preserves g t \<Longrightarrow> idle_ok t"
  by (simp add: idle_ok_def preserves_def fun_eq_iff)

lemma subs_ok_new: "subs_ok (new_cell v eq)"
  by (simp add: subs_ok_def new_cell_def)

lemma idle_SetSignal:
  assumes "idle_ok g" "SetSignal n i v g = Some t"
  shows "idle_ok t"
proof (cases "same_value g (Sig i) v")
  case False
  let ?h = "write_cell (Sig i) v g"
  have r: "run_task n (TNotify (List.map sb_fn (subs_of ?h (Sig i)))) (invalidate_all (invalidators (subs_of ?h (Sig i))) ?h) = Some t"
    using assms(2) False by (simp add: SetSignal_def Let_def)
  show ?thesis
    by (rule idle_keeps [OF assms(1) preserves_trans [OF preserves_trans [OF preserves_write preserves_invalidate_all] releasesD(3) [OF run_task_releases r]]])
qed (use assms in \<open>simp add: SetSignal_def\<close>)

lemma idle_Derive:
  assumes "idle_ok g" "Derive n b eq g = Some t"
  shows "idle_ok t"
proof -
  define c where "c = gr_comps g"
  obtain v deps h where h: "track (refresh_src (run_task n)) b g = Some (v, deps, h)"
    using assms(2) by (auto simp: Derive_def Let_def split: option.splits)
  define u where "u = (upd_cell (Cmp c) (\<lambda>_. new_cell v eq)
    (upd_comp c (\<lambda>_. \<lparr>k_body = b, k_deps = [], k_dirty = False, k_refreshing = False, k_stopped = False\<rparr>) h))\<lparr>gr_comps := c + 1\<rparr>"
  let ?u = "upd_comp c (\<lambda>x. x\<lparr>k_dirty := True\<rparr>) (subscribeToDeps c deps u)"
  have t: "run_task n (TRefresh c) ?u = Some t" using assms(2) h by (simp add: Derive_def Let_def c_def u_def)
  have "idle_ok h" by (rule idle_keeps [OF assms(1) preserves_track [OF run_task_releases h]])
  then have "idle_ok u" using subs_ok_new by (auto simp: idle_ok_def u_def)
  moreover have "preserves u ?u" by (rule preserves_trans [OF preserves_subscribeToDeps preserves_comp]) simp
  ultimately show ?thesis using idle_keeps preserves_trans [OF _ releasesD(1) [OF run_task_releases t]] by blast
qed

lemma idle_cmd:
  assumes "idle_ok g" "run_cmd n cmd (g, vs) = Some (t, ws)"
  shows "idle_ok t"
proof (cases cmd)
  case (CNew v eq)
  then show ?thesis using assms subs_ok_new [of v eq] by (auto simp: idle_ok_def NewSignal_def)
next
  case (CDerive b eq)
  then show ?thesis using assms idle_Derive by auto
next
  case (CSubscribe s k)
  then show ?thesis using assms idle_keeps preserves_subscribe [of s "Observe k" None g] by (metis prod.collapse run_cmd.simps(3) option.inject prod.inject)
next
  case (CWatch b)
  let ?g = "g\<lparr>gr_eff := (gr_eff g)(gr_effs g := \<lparr>f_body = b, f_unsubs = [], f_dead = False\<rparr>), gr_effs := gr_effs g + 1\<rparr>"
  have r: "run_task n (TDeliver (RunEffect (gr_effs g))) ?g = Some t" using assms(2) CWatch by (auto simp: Watch_def Let_def)
  have "preserves g ?g" by (rule preserves_trans [OF preserves_rest(3) preserves_rest(4)])
  then show ?thesis using idle_keeps [OF assms(1)] preserves_trans releasesD(2) [OF run_task_releases r] by blast
next
  case (CSet i v)
  then show ?thesis using assms idle_SetSignal by auto
next
  case (CUpdate i f)
  then show ?thesis using assms idle_SetSignal by (auto simp: UpdateSignal_def)
next
  case (CGet s)
  then obtain v where "read_src (refresh_src (run_task n)) s g = Some (v, t)" using assms(2) by (auto simp: GetValue_def)
  then show ?thesis by (rule idle_keeps [OF assms(1) preserves_read_src [OF run_task_releases]])
next
  case (CStop c)
  have "preserves g (upd_comp c (\<lambda>x. x\<lparr>k_stopped := True, k_deps := []\<rparr>) g)" by (rule preserves_comp) simp
  then have "preserves g (StopComputed c g)" unfolding StopComputed_def Let_def by (rule preserves_trans) (rule preserves_fold, rule preserves_unsubscribe)
  then show ?thesis using assms CStop idle_keeps by auto
next
  case (CDispose e)
  have "preserves g (Dispose e g)" unfolding Dispose_def by (rule preserves_trans [OF preserves_rest(3) preserves_drop_unsubs])
  then show ?thesis using assms CDispose idle_keeps by auto
next
  case CBegin
  then show ?thesis using assms by (auto simp: begin_batch_def idle_ok_def)
next
  case CEnd
  then obtain d where e: "end_batch n g = Some t" using assms(2) by auto
  have r: "\<forall>x g t. run_task n (TDeliver x) g = Some t \<longrightarrow> preserves g t" using releasesD(2) [OF run_task_releases] by blast
  let ?g = "g\<lparr>gr_depth := gr_depth g - 1\<rparr>"
  have "preserves g t"
  proof (cases "gr_depth g - 1 = 0")
    case True
    then have "ofold (\<lambda>cb. run_task n (TDeliver cb)) (gr_queue g) (?g\<lparr>gr_queue := []\<rparr>) = Some t" using e by (simp add: end_batch_def Let_def)
    then show ?thesis using preserves_ofold [OF r] preserves_trans [OF preserves_trans [OF preserves_rest(5) preserves_rest(2)]] by blast
  next
    case False
    then have "t = ?g" using e by (simp add: end_batch_def Let_def)
    then show ?thesis by simp
  qed
  then show ?thesis using assms(1) idle_keeps by blast
qed

lemma idle_cmds: "idle_ok g \<Longrightarrow> ofold (run_cmd n) cs (g, vs) = Some (t, ws) \<Longrightarrow> idle_ok t"
proof (induction cs arbitrary: g vs)
  case (Cons c cs)
  then obtain u us where u: "run_cmd n c (g, vs) = Some (u, us)" "ofold (run_cmd n) cs (u, us) = Some (t, ws)"
    by (auto split: option.splits)
  show ?case by (rule Cons.IH [OF idle_cmd [OF Cons.prems(1) u(1)] u(2)])
qed simp

lemma idle_empty: "idle_ok (empty_graph v obs)"
  by (simp add: idle_ok_def empty_graph_def subs_ok_new)

end
