(* ===== verification/Signal_Properties.thy ===== *)
theory Signal_Properties
  imports Signal_Reads Signal_Claims
begin

text \<open>
  What the reactive values promise and where they do not keep it: the reads inside a batch, an observer
  that is called twice for one change, and a read that is stale when a function changes its sources.
\<close>

section \<open>Reads inside a batch\<close>


definition one_read :: "src \<Rightarrow> (int \<Rightarrow> int) \<Rightarrow> int rd" where "one_read s f = Read s (\<lambda>x. Ret (f x))"

definition two_reads :: "src \<Rightarrow> src \<Rightarrow> (int \<Rightarrow> int \<Rightarrow> int) \<Rightarrow> int rd" where "two_reads s t f = Read s (\<lambda>x. Read t (\<lambda>y. Ret (f x y)))"

definition diamond :: "int cmd list" where
  "diamond = [CNew 0 (Some (=)), CDerive (one_read (Sig 0) (\<lambda>x. x)) (Some (=)), CDerive (one_read (Sig 0) (\<lambda>x. x)) (Some (=)),
    CDerive (two_reads (Cmp 0) (Cmp 1) (+)) (Some (=)), CDerive (two_reads (Cmp 1) (Cmp 2) (\<lambda>a b. a + 10 * b)) (Some (=)), CSubscribe (Cmp 3) 0]"


section \<open>Claims and subscriptions\<close>



section \<open>Promises that are not kept\<close>


definition switch :: "int cmd list" where
  "switch = [CNew 0 (Some (=)), CNew 0 (Some (=)), CDerive (one_read (Sig 0) (\<lambda>x. x)) (Some (=)), CDerive (one_read (Cmp 0) (\<lambda>x. x)) (Some (=)),
    CDerive (Read (Sig 1) (\<lambda>f. if f = 0 then Ret 0 else Read (Cmp 1) Ret)) (Some (=)),
    CBegin, CSet 0 1, CSet 1 1, CGet (Cmp 2), CSet 0 2, CGet (Cmp 2)]"


definition leak :: "int cmd list" where
  "leak = [CNew 0 (Some (=)), CNew 0 (Some (=)), CNew 0 (Some (=)),
    CDerive (Read (Sig 0) (\<lambda>f. if f = 0 then Read (Sig 1) Ret else Ret 0)) (Some (=)), CSubscribe (Cmp 0) 0,
    CWatch (two_reads (Sig 1) (Cmp 0) (+)), CSet 0 1, CSet 0 0, CSet 1 5]"

text \<open>What an observer reads can become a dependency of somebody else: when it is called from a refresh
  that a read inside a tracking window has started, its own reads go into that window. The effect here
  reads signal 1 and the derived value, and runs again when signal 2 changes, which only the observer
  of the derived value reads.\<close>

theorem observer_reads_leak:
  "map_option (\<lambda>(g, vs). gr_log g) (run_cmds 40 leak (empty_graph 0 (\<lambda>_. [Sig 2]))) =
     Some [(RunEffect 0, [0]), (Observe 0, [0]), (RunEffect 0, [10])] \<and>
   map_option (\<lambda>(g, vs). gr_log g) (run_cmds 40 (leak @ [CSet 2 7]) (empty_graph 0 (\<lambda>_. [Sig 2]))) =
     Some [(RunEffect 0, [0]), (Observe 0, [0]), (RunEffect 0, [10]), (RunEffect 0, [10])]"
proof
  show "map_option (\<lambda>(g, vs). gr_log g) (run_cmds 40 leak (empty_graph 0 (\<lambda>_. [Sig 2]))) =
     Some [(RunEffect 0, [0]), (Observe 0, [0]), (RunEffect 0, [10])]" by code_simp
  show "map_option (\<lambda>(g, vs). gr_log g) (run_cmds 40 (leak @ [CSet 2 7]) (empty_graph 0 (\<lambda>_. [Sig 2]))) =
     Some [(RunEffect 0, [0]), (Observe 0, [0]), (RunEffect 0, [10]), (RunEffect 0, [10])]" by code_simp
qed

end
