(* ===== verification/Spec2Isabelle.thy ===== *)
theory Spec2Isabelle
  imports Doc_Sync Codec_Properties Save_Properties Net_Match Net_Ledger Net_Wellformed Net_Spectator Prog_Properties Signal_Properties
begin

text \<open>
  Verification of four parts of GoSX, a web and game framework in Go, whose correctness rests on
  their own algorithms: the replicated document (\<^verbatim>\<open>crdt\<close>, \<^verbatim>\<open>crdt/encoding\<close>, \<^verbatim>\<open>crdt/sync\<close>), rollback
  netplay (\<^verbatim>\<open>netplay\<close>), the reactive values behind an island of a page (\<^verbatim>\<open>signal\<close>), and the binary
  format of the program that such an island runs (\<^verbatim>\<open>island/program\<close>).

  The document. A \<open>Doc\<close> is a tree of maps, lists and texts that several replicas edit without
  coordination. A local edit builds an operation (\<open>Op\<close>), applies it at once and appends it to a
  journal; \<open>Commit\<close> turns the journal into a \<open>Change\<close>, whose SHA-256 hash is its name and whose
  dependencies are the hashes of the heads before it. Replicas exchange changes by \<open>Merge\<close> or
  by sync messages and apply their operations; \<open>Save\<close> and \<open>Load\<close> keep a document in a compact
  binary snapshot. Map entries are last-writer-wins registers on the operation identity, a
  Lamport pair of counter and actor; lists and texts are replicated growable arrays, kept in
  blocks with an index from identities to blocks and a Fenwick tree over the visible counts.

  Netplay. Two sessions exchange inputs by datagrams. A session simulates ahead with predicted
  inputs; when an input turns out different it goes back to the saved state of that frame and
  simulates again. Frames below \<open>confirmed\<close> use true inputs only and are compared by checksums. A
  relay listens to both, logs the confirmed inputs, runs the game once more to judge a
  disagreement, and feeds spectators, who play the log. The ledger matches the effects of a
  simulation that is repeated with those already shown; a replay is the log of a match as bytes.

  Signals. A signal holds a value and its subscribers, a derived value has a function, the
  dependencies that its last evaluation read, with their revisions, and a dirty flag. A write marks
  the dependents, then calls them; a derived value is computed again when it is read or observed.
  A batch puts the calls in a queue. Effects run a function whenever one of its dependencies changes.

  Island programs. \<open>Program\<close> lists the nodes, expressions, signals and handlers of a compiled
  component; \<open>EncodeBinary\<close> writes it as sections that refer to a table of its strings.

  Theories, in the order of the code.

  \<^item> \<open>Gosx_Prelude\<close>: the widths of the machine integers, the collections of simplification
    rules, lemmas on lists, options, finite maps and words that several theories use.
  \<^item> \<open>Go_Strings\<close>: what the code uses of \<^verbatim>\<open>strconv\<close>, \<^verbatim>\<open>encoding/hex\<close> and \<^verbatim>\<open>strings\<close>.
    \<open>Utf8\<close>: decoding and encoding of characters. \<open>Sha256\<close>: the hash function of the library.
  \<^item> \<open>Leb128\<close>, \<open>Chunk\<close>: \<^verbatim>\<open>crdt/encoding\<close>. Numbers in base 128; chunks with a magic number, a
    type, a length, a checksum and a body.
  \<^item> \<open>Crdt_Ids\<close>, \<open>Crdt_Value\<close>: identities, references and runs (\<^verbatim>\<open>change.go\<close>, \<^verbatim>\<open>doc.go\<close>), values
    (\<^verbatim>\<open>value.go\<close>). A string is a byte string, written as a list of characters.
  \<^item> \<open>Fenwick\<close>, \<open>Crdt_Seq\<close>: \<^verbatim>\<open>seq.go\<close>. Blocks live in a store, so that the slice of blocks and
    the identity map of the code refer to the same block. \<open>Crdt_Seq_Correct\<close> and
    \<open>Crdt_Seq_Update\<close> prove the index invariant and that each operation keeps it;
    \<open>Seq_Interface\<close> states the contract as locales and interprets them on the model.
  \<^item> \<open>Commuting\<close>, \<open>Rga\<close>, \<open>Rga_Local\<close>: the specification level. Sequences of commuting steps,
    the list that concurrent inserts and tombstones make, and edits by visible position.
  \<^item> \<open>Crdt_Doc\<close>, \<open>Crdt_Change\<close>: \<^verbatim>\<open>doc.go\<close>. Documents, the operations and their effect, local
    edits, reads, commits, remote changes, merge, the order of loaded elements.
  \<^item> \<open>Doc_View\<close>, \<open>Doc_Refine\<close>: the abstract document (finite maps of entries and element lists)
    and the proof that applying an operation refines the abstract step. \<open>Doc_Converge\<close>:
    replicas that know the same changes show the same. \<open>Doc_Local\<close>, \<open>Doc_History\<close>,
    \<open>Doc_Properties\<close>: every local edit, histories of edits, commits and merges.
  \<^item> \<open>Crdt_Sync\<close>, \<open>Sync_Properties\<close>, \<open>Doc_Sync\<close>: \<^verbatim>\<open>crdt/sync\<close> and the two operations of the
    document that use it. Bloom filter, peer state, messages, and what an exchange achieves.
  \<^item> \<open>Snapshot_Writer\<close>, \<open>Snapshot_Reader\<close>: \<^verbatim>\<open>snapshot.go\<close>. \<open>Snapshot_Codec\<close>,
    \<open>Snapshot_Values\<close>, \<open>Snapshot_Objects\<close>, \<open>Snapshot_Changes\<close>, \<open>Snapshot_Roundtrip\<close>: a relation
    between a piece of writing and the reader that inverts it, composed along the format.
  \<^item> \<open>Doc_Save\<close>, \<open>Save_Properties\<close>: \<open>Save\<close>, \<open>Load\<close>, \<open>Fork\<close> and their properties.
  \<^item> \<open>Codec_Properties\<close>: the properties of the encodings.
  \<^item> \<open>Go_Float\<close>, \<open>Go_Binary\<close>: floating-point numbers as rationals, and \<^verbatim>\<open>encoding/binary\<close>.
  \<^item> \<open>Net_Game\<close>, \<open>Net_Packet\<close>: \<^verbatim>\<open>game.go\<close> and \<^verbatim>\<open>packet.go\<close>, games, codecs and datagrams.
    \<open>Net_Session\<close>: \<^verbatim>\<open>session.go\<close>, every handler, the clock synchronisation, \<open>Poll\<close> and \<open>Advance\<close>.
    \<open>Net_Rings\<close>: the ring buffers hold what their frame numbers say. \<open>Net_Advance\<close>,
    \<open>Net_Peer\<close>, \<open>Net_Tick\<close>: a step of a session against the plain simulation with the true inputs.
    \<open>Net_Match\<close>: two sessions and a network. \<open>Net_Wellformed\<close>: types, checkpoints, resync.
    \<open>Net_Demo\<close>: a small game for the witnesses.
  \<^item> \<open>Net_Relay\<close>, \<open>Net_Relay_Log\<close>, \<open>Net_Spectator\<close>: \<^verbatim>\<open>relay.go\<close>. The log and the replay of a relay,
    and spectators as followers of the log.
  \<^item> \<open>Net_Ledger\<close>, \<open>Net_Replay\<close>: \<^verbatim>\<open>ledger.go\<close> and \<^verbatim>\<open>replay.go\<close>.
  \<^item> \<open>Prog_Codec\<close>, \<open>Prog_Roundtrip\<close>, \<open>Prog_Properties\<close>: \<^verbatim>\<open>program.go\<close> and \<^verbatim>\<open>encode_binary.go\<close>.
  \<^item> \<open>Signal_Graph\<close>: \<^verbatim>\<open>signal.go\<close>, \<^verbatim>\<open>track.go\<close>, \<^verbatim>\<open>batch.go\<close>. \<open>Signal_Cache\<close>: the invariant of the cache
    and what an invalidation does. \<open>Signal_Batch\<close>, \<open>Signal_Refresh\<close>: what a refresh does to the
    rest of the graph, by induction on the index of the derived value. \<open>Signal_Reads\<close>: the graph
    simulates a store in which every read computes again. \<open>Signal_Claims\<close>: what every command
    keeps. \<open>Signal_Properties\<close>: the properties, and behaviours against the documentation.

  State and errors. The lock of a \<open>Doc\<close> makes each method atomic, so a method is a function from
  the document to a result and the document after it; the result is a sum whose left side names
  the error. An error in the middle of a sequence of operations leaves the document as far as it
  came, as in the code. Counters, sequence numbers and lengths in encodings are 64-bit words and
  wrap; \<open>room d n\<close> says that \<open>n\<close> more operations do not wrap the counter. A Go \<open>int\<close> that
  counts elements in memory is an \<open>int\<close> or a \<open>nat\<close>. An out-of-range slice access of the snapshot
  reader is the error \<open>Panic\<close>.

  Parameters. \<^verbatim>\<open>encoding/json\<close> is a parameter: \<open>marshal\<close> and \<open>unmarshal\<close> stand for it on
  changes, envelopes and old snapshots, and what is needed of them is a hypothesis (the bytes of a
  message decode to the message). The game and the input codec of netplay are code of the
  application: \<open>game_law\<close> and \<open>codec_law\<close> state what their interfaces document, that loading a saved
  state gives that state and that a decoded input is the encoded one. The network may deliver any
  list of datagrams that were sent before, in any order and any number of times, or none.
  The functions of derived values and effects are programs that read sources; observers read
  sources when they are called. The equality test of a signal is an argument. The clock of a commit is an argument. Hooks are numbers, and a
  method that fires hooks also returns which hooks it fired with which patches.

  Bounds. Loops of the code that are bounded by a length recurse on it. \<open>walk\<close>, the depth-first
  search of \<open>orderListElems\<close>, has the number of elements as fuel, which is enough as each call
  marks one more element. The loop of \<open>tryCheckpoints\<close> has the number of frames up to its limit as
  fuel, which is enough as each round goes at least one frame on, \<open>Poll\<close> takes 512 datagrams at most, as the code does, and the properties of
  matches ask for frame numbers below the wrap-around of their 32-bit fields and for windows and
  delays of at most 60 frames, which the configuration of the code enforces. The calls of signals
  nest without a bound in the code: they take fuel and give \<open>None\<close> when it does not suffice. Inside a
  batch three steps for every derived value and four more are proved to be enough.

  Not modelled. In these packages: the random actor identities of \<open>NewDoc\<close>, the conversion of
  values from and to Go values (\<open>ToAny\<close>, \<open>ValueFromAny\<close>) and their JSON form, vectors (they call a
  quantiser of another module), locks and goroutines, the transports of netplay (sockets, WebRTC,
  a simulated network) and its identities (signatures of the standard library), the names of
  opcodes. In \<^verbatim>\<open>signal\<close>, a function that panics, the reuse of storage and the detector of
  concurrent writes. Of the repository: the compiler and the machine of island expressions, the
  server, the renderer, the engine, physics, the editor, the desktop host and the tools, which the
  manifest lists one by one with the reason.
\<close>

end
